(* ===== verification/CanPrelude.thy ===== *)
theory CanPrelude
  imports Main "HOL-Library.Word"
begin

unbundle bit_operations_syntax

text \<open>
  The prelude of the development: the names of Go's fixed-width integer types, the run-time
  panics of Go as values, the collections of hints that the component theories fill, and the
  facts on lists, options and words that several components share.
\<close>

subsection \<open>Go's integer types\<close>

type_synonym u8 = "8 word"
type_synonym u16 = "16 word"
type_synonym u32 = "32 word"
type_synonym u64 = "64 word"
type_synonym byte = "8 word"
type_synonym bytes = "8 word list"

subsection \<open>Run-time panics\<close>

text \<open>
  A Go panic is a value: a function of the model that can panic returns
  \<open>Inl p\<close> for the panic \<open>p\<close> and \<open>Inr v\<close> for a normal return.
\<close>

datatype go_panic = IndexOutOfRange | SliceBounds | NilDereference | NegativeLength | DivideByZero | Deadlock

fun and_then :: "go_panic + 'a \<Rightarrow> ('a \<Rightarrow> go_panic + 'b) \<Rightarrow> go_panic + 'b" where
  "and_then (Inl e) f = Inl e"
| "and_then (Inr a) f = f a"

lemma and_then_Inr_iff: "and_then m f = Inr b \<longleftrightarrow> (\<exists>a. m = Inr a \<and> f a = Inr b)"
  by (cases m) auto

lemma and_then_case: "and_then m f = Inr c \<Longrightarrow> (\<And>a. m = Inr a \<Longrightarrow> f a = Inr c \<Longrightarrow> P) \<Longrightarrow> P"
  by (cases m) auto

subsection \<open>Collections of hints\<close>

named_theorems can_const \<open>the constants of the CAN library\<close>
named_theorems frame_simps \<open>which fields an operation leaves alone\<close>

subsection \<open>Lists\<close>

lemma fold_nth_upt:
  "fold (\<lambda>i s. f (xs ! i) s) [0..<length xs] s = fold f xs s"
proof (induction xs rule: rev_induct)
  case Nil
  then show ?case by simp
next
  case (snoc x xs)
  have "fold (\<lambda>i s. f ((xs @ [x]) ! i) s) [0..<length xs] s
      = fold (\<lambda>i s. f (xs ! i) s) [0..<length xs] s"
    by (rule fold_cong) (auto simp: nth_append)
  with snoc show ?case by simp
qed

lemma fold_nth_upt_take:
  assumes "n \<le> length xs"
  shows "fold (\<lambda>i s. f (xs ! i) s) [0..<n] s = fold f (take n xs) s"
proof -
  have "fold (\<lambda>i s. f (xs ! i) s) [0..<n] s = fold (\<lambda>i s. f (take n xs ! i) s) [0..<n] s"
    by (rule fold_cong) auto
  also have "\<dots> = fold f (take n xs) s"
    using fold_nth_upt [of f "take n xs" s] assms by simp
  finally show ?thesis .
qed

lemma take_append_drop_split: "m \<le> n \<Longrightarrow> take m xs @ take (n - m) (drop m xs) = take n xs"
  by (metis le_add_diff_inverse take_add)

subsection \<open>Words\<close>

lemma unat_of_nat_small: "n < 2 ^ LENGTH('a) \<Longrightarrow> unat (of_nat n :: 'a::len word) = n"
  by (simp add: unat_of_nat take_bit_nat_eq_self)

lemma unat_ucast_up:
  "LENGTH('a) \<le> LENGTH('b) \<Longrightarrow> unat (ucast (w :: 'a::len word) :: 'b::len word) = unat w"
  by (simp add: unsigned_ucast_eq take_bit_nat_eq_self_iff)
    (meson unsigned_less less_le_trans power_increasing one_le_numeral)

subsection \<open>Exclusive or\<close>

lemma xor_cancel_right [simp]: "(a :: 'a::len word) XOR x = b XOR x \<longleftrightarrow> a = b"
proof
  assume "a XOR x = b XOR x"
  then have "(a XOR x) XOR x = (b XOR x) XOR x" by (rule arg_cong)
  then show "a = b" by (simp add: xor.assoc)
qed simp

lemma xor_cancel_left [simp]: "(x :: 'a::len word) XOR a = x XOR b \<longleftrightarrow> a = b"
  using xor_cancel_right [of a x b] by (simp add: xor.commute)

lemma xor_eq_zero_iff [simp]: "(a :: 'a::len word) XOR b = 0 \<longleftrightarrow> a = b"
  using xor_cancel_right [of a b b] by simp

end
