(* ===== verification/CanCrc.thy ===== *)
theory CanCrc
  imports CanPrelude
begin

text \<open>
  The transfer CRC of \<open>crc.go\<close>: CRC-16/CCITT-FALSE (polynomial 0x1021, initial value
  0xFFFF, most significant bit first), computed a byte at a time from a table of 256 words.
  Shown here: the table algorithm is the bit-serial division, appending the checksum
  (high byte first) brings the register to the residue 0, and any corruption confined to
  one byte changes the checksum.
\<close>

definition crc_initial :: u16 where "crc_initial = 0xFFFF"
definition crc_residue :: u16 where "crc_residue = 0x0000"
definition crc_bytes :: nat where "crc_bytes = 2"

declare crc_bytes_def [can_const]

text \<open>One turn of the inner loop of \<open>init\<close>: shift one bit out, divide if it was set.\<close>

definition crc_shift :: "u16 \<Rightarrow> u16" where
  "crc_shift c = (if c AND 0x8000 \<noteq> 0 then push_bit 1 c XOR 0x1021 else push_bit 1 c)"

definition crc_table :: "u16 list" where
  "crc_table = map (\<lambda>i. (crc_shift ^^ 8) (push_bit 8 (of_nat i))) [0..<256]"

definition crc_add_byte :: "u16 \<Rightarrow> byte \<Rightarrow> u16" where
  "crc_add_byte crc b =
     push_bit 8 crc XOR crc_table ! unat ((drop_bit 8 crc XOR ucast b) AND (0xFF :: u16))"

text \<open>
  The loop reads \<open>data[0], \<dots>, data[size-1]\<close>; every caller passes a slice that is at
  least \<open>size\<close> long, so that no read is out of range.
\<close>

definition crc_add :: "u16 \<Rightarrow> nat \<Rightarrow> bytes \<Rightarrow> u16" where
  "crc_add crc n data = fold (\<lambda>i out. crc_add_byte out (data ! i)) [0..<n] crc"

definition crc_add_chain :: "u16 \<Rightarrow> bytes \<Rightarrow> u16" where
  "crc_add_chain crc payload = crc_add crc (length payload) payload"

definition crc_seed_from_data_type_signature :: "u64 \<Rightarrow> u16" where
  "crc_seed_from_data_type_signature dts =
     fst (fold (\<lambda>_ (crc, sig). (crc_add_byte crc (ucast (sig AND 0xFF)), drop_bit 8 sig))
            [0..<8::nat] (crc_initial, dts))"

subsection \<open>The table is the bit-serial division\<close>

lemma crc_table_nth: "i < 256 \<Longrightarrow> crc_table ! i = (crc_shift ^^ 8) (push_bit 8 (of_nat i))"
  by (simp add: crc_table_def)

lemma crc_shift_xor: "crc_shift (a XOR b) = crc_shift a XOR crc_shift b"
proof -
  have bit15: "(x AND 0x8000 \<noteq> 0) = bit x 15" for x :: u16
    by (simp add: bit_iff_and_push_bit_not_eq_0)
  have "bit (a XOR b) 15 = (bit a 15 \<noteq> bit b 15)"
    by (simp add: bit_xor_iff)
  then show ?thesis
    unfolding crc_shift_def bit15
    by (cases "bit a 15"; cases "bit b 15")
      (simp_all add: push_bit_xor xor.assoc xor.left_commute xor.commute)
qed

lemma crc_shift_pow_xor: "(crc_shift ^^ n) (a XOR b) = (crc_shift ^^ n) a XOR (crc_shift ^^ n) b"
  by (induction n) (simp_all add: crc_shift_xor)

text \<open>The low byte of the register is never reduced during eight shifts.\<close>

lemma ff_mask: "(0xFF :: u16) = mask 8"
  by (simp add: mask_eq_exp_minus_1)

lemma crc_shift_low: "(crc_shift ^^ 8) (x AND 0xFF) = push_bit 8 (x AND 0xFF)"
proof -
  have "(crc_shift ^^ n) (x AND 0xFF) = push_bit n (x AND 0xFF)" if "n \<le> 8" for n
    using that
  proof (induction n)
    case 0
    then show ?case by simp
  next
    case (Suc n)
    have "\<not> bit (push_bit n (x AND 0xFF)) 15"
      using Suc.prems by (auto simp: ff_mask bit_push_bit_iff bit_and_iff bit_mask_iff)
    then have "push_bit n (x AND 0xFF) AND 0x8000 = 0"
      by (simp add: bit_iff_and_push_bit_not_eq_0)
    with Suc show ?case by (simp add: crc_shift_def)
  qed
  then show ?thesis by simp
qed

lemma word16_split: "(x :: u16) = push_bit 8 (drop_bit 8 x) XOR (x AND 0xFF)"
  by (rule bit_word_eqI) (auto simp: ff_mask bit_simps)

lemma crc_table_byte:
  "crc_table ! unat (x AND (0xFF :: u16)) = (crc_shift ^^ 8) (push_bit 8 (x AND 0xFF))"
proof -
  have "x AND 0xFF \<le> (0xFF :: u16)" by (rule word_and_le1)
  then have "unat (x AND (0xFF :: u16)) < 256"
    by (simp add: word_le_nat_alt)
  then show ?thesis by (simp add: crc_table_nth)
qed

definition crc_ref_byte :: "u16 \<Rightarrow> byte \<Rightarrow> u16" where
  "crc_ref_byte crc b = (crc_shift ^^ 8) (crc XOR push_bit 8 (ucast b))"

lemma crc_add_byte_eq_ref: "crc_add_byte crc b = crc_ref_byte crc b"
proof -
  define hi where "hi = (drop_bit 8 crc XOR ucast b) AND (0xFF :: u16)"
  have lo: "push_bit 8 crc = push_bit 8 (crc AND 0xFF)"
    by (rule bit_word_eqI) (auto simp: ff_mask bit_simps)
  have "crc XOR push_bit 8 (ucast b) = push_bit 8 hi XOR (crc AND 0xFF)"
    unfolding hi_def by (rule bit_word_eqI) (auto simp: ff_mask bit_simps)
  then have "crc_ref_byte crc b = (crc_shift ^^ 8) (push_bit 8 hi) XOR push_bit 8 (crc AND 0xFF)"
    by (simp add: crc_ref_byte_def crc_shift_pow_xor crc_shift_low)
  moreover have "crc_add_byte crc b = push_bit 8 (crc AND 0xFF) XOR (crc_shift ^^ 8) (push_bit 8 hi)"
    unfolding crc_add_byte_def lo crc_table_byte hi_def by (rule refl)
  ultimately show ?thesis by (simp only: xor.commute)
qed

lemma crc_add_conv_fold:
  "n \<le> length data \<Longrightarrow> crc_add crc n data = fold (\<lambda>b c. crc_add_byte c b) (take n data) crc"
  unfolding crc_add_def by (rule fold_nth_upt_take)

lemma crc_add_chain_conv_fold: "crc_add_chain crc data = fold (\<lambda>b c. crc_add_byte c b) data crc"
  by (simp add: crc_add_chain_def crc_add_conv_fold)

lemma crc_add_chain_append: "crc_add_chain crc (xs @ ys) = crc_add_chain (crc_add_chain crc xs) ys"
  by (simp add: crc_add_chain_conv_fold)

lemma crc_add_chain_Nil [simp]: "crc_add_chain crc [] = crc"
  by (simp add: crc_add_chain_conv_fold)

lemma crc_add_chain_Cons: "crc_add_chain crc (x # xs) = crc_add_chain (crc_add_byte crc x) xs"
  by (simp add: crc_add_chain_conv_fold)

text \<open>C23: the table-driven CRC of a whole buffer equals the bit-serial polynomial division,
  eight single-bit shifts per byte with the byte folded into the high half of the register.\<close>

theorem crc_table_correct:
  "crc_add_chain crc data = fold (\<lambda>b c. (crc_shift ^^ 8) (c XOR push_bit 8 (ucast b))) data crc"
  unfolding crc_add_chain_conv_fold crc_add_byte_eq_ref crc_ref_byte_def by (rule refl)

subsection \<open>The residue\<close>

definition crc_hi :: "u16 \<Rightarrow> byte" where "crc_hi c = ucast (drop_bit 8 c AND 0xFF)"
definition crc_lo :: "u16 \<Rightarrow> byte" where "crc_lo c = ucast (c AND 0xFF)"

lemma crc_shift_zero: "(crc_shift ^^ n) 0 = 0"
  by (induction n) (simp_all add: crc_shift_def)

lemma crc_residue_two_bytes: "crc_add_byte (crc_add_byte c (crc_hi c)) (crc_lo c) = crc_residue"
proof -
  have "c XOR push_bit 8 (ucast (crc_hi c)) = c AND 0xFF"
    unfolding crc_hi_def
    by (rule bit_word_eqI) (use le_add_diff_inverse not_less in \<open>fastforce simp: ff_mask bit_simps\<close>)
  then have 1: "crc_add_byte c (crc_hi c) = push_bit 8 (c AND 0xFF)"
    by (simp add: crc_add_byte_eq_ref crc_ref_byte_def crc_shift_low)
  have "push_bit 8 (c AND 0xFF) XOR push_bit 8 (ucast (crc_lo c)) = 0"
    unfolding crc_lo_def by (rule bit_word_eqI) (auto simp: ff_mask bit_simps)
  with 1 show ?thesis
    by (simp add: crc_add_byte_eq_ref crc_ref_byte_def crc_shift_zero crc_residue_def)
qed

lemma crc_residue_append:
  "crc_add_chain seed (data @ [crc_hi (crc_add_chain seed data), crc_lo (crc_add_chain seed data)])
     = crc_residue"
  by (simp add: crc_add_chain_append crc_add_chain_Cons crc_residue_two_bytes)

subsection \<open>Error detection\<close>

lemma crc_shift_inj: "crc_shift a = crc_shift b \<longleftrightarrow> a = b"
proof -
  have zero: "x = 0" if "crc_shift x = 0" for x :: u16
  proof -
    have bit15: "(x AND 0x8000 \<noteq> 0) = bit x 15"
      by (simp add: bit_iff_and_push_bit_not_eq_0)
    have "\<not> bit x 15"
    proof
      assume "bit x 15"
      then have "crc_shift x = push_bit 1 x XOR 0x1021" by (simp add: crc_shift_def bit15)
      then have "bit (crc_shift x) 0"
        by (simp only: bit_xor_iff bit_push_bit_iff) simp
      with that show False by simp
    qed
    then have shifted: "push_bit 1 x = 0" using that by (simp add: crc_shift_def bit15)
    show "x = 0"
    proof (rule bit_word_eqI)
      fix n assume "n < LENGTH(16)"
      then have "n = 15 \<or> Suc n < 16" by auto
      then show "bit x n = bit (0 :: u16) n"
      proof
        assume "n = 15" with \<open>\<not> bit x 15\<close> show ?thesis by simp
      next
        assume "Suc n < 16"
        then have "bit (push_bit 1 x) (Suc n) = bit x n"
          by (simp only: bit_push_bit_iff) (simp add: possible_bit_word)
        then show ?thesis by (simp only: shifted bit_0_eq bot_fun_def bot_bool_def)
      qed
    qed
  qed
  have "a = b" if "crc_shift a = crc_shift b"
    using zero [of "a XOR b"] that by (simp add: crc_shift_xor)
  then show ?thesis by auto
qed

lemma crc_shift_pow_inj: "(crc_shift ^^ n) a = (crc_shift ^^ n) b \<longleftrightarrow> a = b"
  by (induction n) (simp_all add: crc_shift_inj)

lemma crc_add_byte_inj_crc: "crc_add_byte c b = crc_add_byte d b \<longleftrightarrow> c = d"
  by (simp add: crc_add_byte_eq_ref crc_ref_byte_def crc_shift_pow_inj)

lemma crc_add_byte_inj_byte: "crc_add_byte c a = crc_add_byte c b \<longleftrightarrow> a = b"
proof
  assume "crc_add_byte c a = crc_add_byte c b"
  then have eq: "push_bit 8 (ucast a :: u16) = push_bit 8 (ucast b)"
    by (simp only: crc_add_byte_eq_ref crc_ref_byte_def crc_shift_pow_inj xor_cancel_left)
  show "a = b"
  proof (rule bit_word_eqI)
    fix n assume "n < LENGTH(8)"
    then have "bit (push_bit 8 (ucast w :: u16)) (n + 8) = bit w n" for w :: byte
      by (simp add: bit_simps)
    with eq show "bit a n = bit b n" by metis
  qed
qed simp

lemma crc_add_chain_inj: "crc_add_chain c data = crc_add_chain d data \<longleftrightarrow> c = d"
  by (induction data arbitrary: c d) (simp_all add: crc_add_chain_Cons crc_add_byte_inj_crc)

text \<open>Changing any single byte of a buffer, in any way, changes its checksum, so a
  transfer corrupted within one byte never passes the residue check.\<close>

theorem crc_detects_byte_error:
  assumes "i < length data" and "data ! i \<noteq> b"
  shows "crc_add_chain seed (data[i := b]) \<noteq> crc_add_chain seed data"
proof -
  have old: "data = take i data @ data ! i # drop (Suc i) data"
    using assms(1) by (rule id_take_nth_drop)
  have new: "data[i := b] = take i data @ b # drop (Suc i) data"
    using assms(1) by (rule upd_conv_take_nth_drop)
  define c where "c = crc_add_chain seed (take i data)"
  have "crc_add_byte c b \<noteq> crc_add_byte c (data ! i)"
    using assms(2) by (simp add: crc_add_byte_inj_byte)
  then have "crc_add_chain c (b # drop (Suc i) data) \<noteq> crc_add_chain c (data ! i # drop (Suc i) data)"
    by (simp add: crc_add_chain_Cons crc_add_chain_inj)
  then show ?thesis
    unfolding new c_def by (subst (2) old) (simp add: crc_add_chain_append)
qed

theorem crc_detects_byte_error_witness:
  "crc_add_chain crc_initial ([1, 2, 3][1 := 7]) \<noteq> crc_add_chain crc_initial [1, 2, 3]"
  by (rule crc_detects_byte_error) simp_all

end
