(* ===== verification/CanBits.thy ===== *)
theory CanBits
  imports CanPrelude
begin

text \<open>
  The helpers of \<open>prng.go\<close>: the pseudo-random generator, the population count and the
  128-bit bitmap of two 64-bit words.  Shown here: the bitmap is the set of its bits, the
  population count is the size of that set, and a bounded random number is in range.
\<close>

definition popcount :: "u64 \<Rightarrow> u8" where
  "popcount x = of_nat (length (filter (bit x) [0..<64]))"

text \<open>The generator returns its output and the next state.\<close>

definition splitmix64 :: "u64 \<Rightarrow> u64 \<times> u64" where
  "splitmix64 state =
     (let state' = state + 0x9E3779B97F4A7C15;
          z0 = state';
          z1 = (z0 XOR drop_bit 30 z0) * 0xBF58476D1CE4E5B9;
          z2 = (z1 XOR drop_bit 27 z1) * 0x94D049BB133111EB
      in (z2 XOR drop_bit 31 z2, state'))"

definition random_below :: "u64 \<Rightarrow> u64 \<Rightarrow> u64 \<times> u64" where
  "random_below prng bound =
     (if bound > 0 then let (z, prng') = splitmix64 prng in (z mod bound, prng') else (0, prng))"

definition chance :: "u64 \<Rightarrow> u64 \<Rightarrow> bool \<times> u64" where
  "chance prng p_reciprocal = (let (r, prng') = random_below prng p_reciprocal in (r = 0, prng'))"

definition smaller :: "int \<Rightarrow> int \<Rightarrow> int" where "smaller a b = (if a < b then a else b)"
definition later :: "int \<Rightarrow> int \<Rightarrow> int" where "later a b = (if a > b then a else b)"

lemma smaller_min: "smaller a b = min a b" by (simp add: smaller_def)
lemma later_max: "later a b = max a b" by (simp add: later_def max_def)

text \<open>A bitmap is an array of words; an index beyond it panics.\<close>

definition bitmap_set :: "u64 list \<Rightarrow> nat \<Rightarrow> go_panic + u64 list" where
  "bitmap_set b i =
     (if i div 64 < length b
      then Inr (b[i div 64 := b ! (i div 64) OR push_bit (i mod 64) 1])
      else Inl IndexOutOfRange)"

definition bitmap_test :: "u64 list \<Rightarrow> nat \<Rightarrow> go_panic + bool" where
  "bitmap_test b i =
     (if i div 64 < length b
      then Inr (b ! (i div 64) AND push_bit (i mod 64) 1 \<noteq> 0)
      else Inl IndexOutOfRange)"

subsection \<open>A bounded random number\<close>

lemma random_below_less: "0 < bound \<Longrightarrow> fst (random_below prng bound) < bound"
  by (simp add: random_below_def split_beta word_mod_less_divisor)

lemma random_below_one [simp]: "fst (random_below prng 1) = 0"
proof -
  have "fst (random_below prng 1) < 1" by (rule random_below_less) simp
  then show ?thesis by simp
qed

lemma chance_one [simp]: "fst (chance prng 1)"
  by (simp add: chance_def split_beta)

lemma chance_zero [simp]: "fst (chance prng 0)"
  by (simp add: chance_def random_below_def)

subsection \<open>The bitmap as a set\<close>

definition bitmap_bits :: "u64 list \<Rightarrow> nat set" where
  "bitmap_bits b = {i. i div 64 < length b \<and> bit (b ! (i div 64)) (i mod 64)}"

lemma bitmap_index: "i < 64 * length (b :: u64 list) \<Longrightarrow> i div 64 < length b"
  by (simp add: less_mult_imp_div_less mult.commute)

lemma bitmap_test_iff:
  "i < 64 * length b \<Longrightarrow> bitmap_test b i = Inr (i \<in> bitmap_bits b)"
  using bitmap_index [of i b]
  by (simp add: bitmap_test_def bitmap_bits_def bit_iff_and_push_bit_not_eq_0)

lemma bitmap_set_bits:
  assumes "i < 64 * length b"
  shows "\<exists>b'. bitmap_set b i = Inr b' \<and> length b' = length b \<and> bitmap_bits b' = insert i (bitmap_bits b)"
proof -
  have i: "i div 64 < length b" using assms by (rule bitmap_index)
  define b' where "b' = b[i div 64 := b ! (i div 64) OR push_bit (i mod 64) 1]"
  have "j \<in> bitmap_bits b' \<longleftrightarrow> j \<in> insert i (bitmap_bits b)" for j
  proof (cases "j div 64 = i div 64")
    case True
    have "j mod 64 = i mod 64 \<longleftrightarrow> j = i"
      using True by (metis mult_div_mod_eq)
    with True i show ?thesis
      by (auto simp: bitmap_bits_def b'_def bit_or_iff bit_exp_iff)
  next
    case False
    then show ?thesis by (auto simp: bitmap_bits_def b'_def)
  qed
  then have "bitmap_bits b' = insert i (bitmap_bits b)" by blast
  with i show ?thesis by (simp add: bitmap_set_def b'_def)
qed

lemma bitmap_bits_subset: "bitmap_bits b \<subseteq> {..<64 * length b}"
proof
  fix i assume "i \<in> bitmap_bits b"
  then have "i div 64 < length b" by (simp add: bitmap_bits_def)
  then show "i \<in> {..<64 * length b}" by (simp add: div_less_iff_less_mult mult.commute)
qed

lemma finite_bitmap_bits [simp]: "finite (bitmap_bits b)"
  by (rule finite_subset [OF bitmap_bits_subset]) simp

subsection \<open>The population count\<close>

lemma length_filter_bit: "length (filter (bit (x :: u64)) [0..<64]) = card {n. bit x n}"
proof -
  have "{n. bit x n} = set (filter (bit x) [0..<64])"
    using bit_imp_le_length [of x] by auto
  moreover have "distinct (filter (bit x) [0..<64])" by simp
  ultimately show ?thesis by (metis distinct_card)
qed

lemma card_bit_le: "card {n. bit (x :: u64) n} \<le> 64"
  using length_filter_le [of "bit x" "[0..<64]"] by (simp add: length_filter_bit)

lemma unat_popcount: "unat (popcount x) = card {n. bit x n}"
  using card_bit_le [of x]
  by (simp add: popcount_def length_filter_bit unat_of_nat)

lemma card_bitmap_bits_pair:
  "card (bitmap_bits [w0, w1]) = unat (popcount w0) + unat (popcount w1)"
proof -
  have lt: "n < 64" if "bit w n" for w :: u64 and n
    using that bit_imp_le_length [of w n] by simp
  have dm: "i = 64 * (i div 64) + i mod 64" for i :: nat by simp
  have "bitmap_bits [w0, w1] = {n. bit w0 n} \<union> (\<lambda>n. 64 + n) ` {n. bit w1 n}"
  proof (intro set_eqI iffI)
    fix i assume i: "i \<in> bitmap_bits [w0, w1]"
    then have "i div 64 = 0 \<or> i div 64 = 1" by (auto simp: bitmap_bits_def)
    then show "i \<in> {n. bit w0 n} \<union> (\<lambda>n. 64 + n) ` {n. bit w1 n}"
    proof
      assume "i div 64 = 0"
      with i dm [of i] show ?thesis by (auto simp: bitmap_bits_def)
    next
      assume hi: "i div 64 = 1"
      with dm [of i] have "i = 64 + i mod 64" by simp
      with i hi show ?thesis by (auto simp: bitmap_bits_def)
    qed
  next
    fix i assume "i \<in> {n. bit w0 n} \<union> (\<lambda>n. 64 + n) ` {n. bit w1 n}"
    moreover have "(64 + x) div 64 = 1" "(64 + x) mod 64 = x" if "bit w1 x" for x
      using lt [OF that] by (simp_all add: div_add1_eq)
    ultimately show "i \<in> bitmap_bits [w0, w1]"
      by (auto simp: bitmap_bits_def lt)
  qed
  moreover have "{n. bit w0 n} \<inter> (\<lambda>n. 64 + n) ` {n. bit w1 n} = {}"
    using lt by fastforce
  moreover have "finite {n. bit w n}" for w :: u64
    by (rule finite_subset [of _ "{..<64}"]) (auto dest: lt)
  ultimately show ?thesis
    by (simp add: card_Un_disjoint card_image unat_popcount)
qed

end
