(* ===== verification/CanList.thy ===== *)
theory CanList
  imports CanPrelude
begin

text \<open>
  The intrusive doubly-linked list of \<open>list.go\<close>, at the level of its pointers: a heap maps
  the address of a list node to its two links, and the list itself holds head and tail.
  Shown here: on a heap that represents a duplicate-free list the operations are removal and
  insertion of one element, and no node outside the list is ever linked.
\<close>

record listed =
  l_next :: "nat option"
  l_prev :: "nat option"

record dlist =
  l_head :: "nat option"
  l_tail :: "nat option"

type_synonym listed_heap = "nat \<Rightarrow> listed"

definition set_next :: "listed_heap \<Rightarrow> nat \<Rightarrow> nat option \<Rightarrow> listed_heap" where
  "set_next h k v = h(k := (h k)\<lparr>l_next := v\<rparr>)"

definition set_prev :: "listed_heap \<Rightarrow> nat \<Rightarrow> nat option \<Rightarrow> listed_heap" where
  "set_prev h k v = h(k := (h k)\<lparr>l_prev := v\<rparr>)"

definition delist :: "dlist \<Rightarrow> listed_heap \<Rightarrow> nat \<Rightarrow> dlist \<times> listed_heap" where
  "delist l h m =
     (let h1 = (case l_next (h m) of None \<Rightarrow> h | Some n \<Rightarrow> set_prev h n (l_prev (h m)));
          h2 = (case l_prev (h1 m) of None \<Rightarrow> h1 | Some p \<Rightarrow> set_next h1 p (l_next (h1 m)));
          l1 = (if l_head l = Some m then l\<lparr>l_head := l_next (h2 m)\<rparr> else l);
          l2 = (if l_tail l1 = Some m then l1\<lparr>l_tail := l_prev (h2 m)\<rparr> else l1)
      in (l2, set_prev (set_next h2 m None) m None))"

definition enlist_before :: "dlist \<Rightarrow> listed_heap \<Rightarrow> nat option \<Rightarrow> nat \<Rightarrow> dlist \<times> listed_heap" where
  "enlist_before l0 h0 anchor add =
     (let (l, h) = delist l0 h0 add in
      case anchor of
        None \<Rightarrow>
          let h1 = set_prev h add (l_tail l);
              h2 = (case l_tail l of None \<Rightarrow> h1 | Some t \<Rightarrow> set_next h1 t (Some add));
              l1 = l\<lparr>l_tail := Some add\<rparr>;
              l2 = (if l_head l1 = None then l1\<lparr>l_head := Some add\<rparr> else l1)
          in (l2, h2)
      | Some a \<Rightarrow>
          let h1 = set_next h add (Some a);
              h2 = set_prev h1 add (l_prev (h1 a));
              (l1, h3) = (case l_prev (h2 a) of
                            Some p \<Rightarrow> (l, set_next h2 p (Some add))
                          | None \<Rightarrow> (l\<lparr>l_head := Some add\<rparr>, h2))
          in (l1, set_prev h3 a (Some add)))"

definition enlist_tail :: "dlist \<Rightarrow> listed_heap \<Rightarrow> nat \<Rightarrow> dlist \<times> listed_heap" where
  "enlist_tail l h m = enlist_before l h None m"

definition list_head :: "dlist \<Rightarrow> nat option" where
  "list_head l = l_head l"

definition list_next :: "listed_heap \<Rightarrow> nat \<Rightarrow> nat option" where
  "list_next h m = l_next (h m)"

subsection \<open>The list a heap represents\<close>

fun hd_or :: "'a list \<Rightarrow> 'a option \<Rightarrow> 'a option" where
  "hd_or [] d = d"
| "hd_or (x # xs) d = Some x"

fun last_or :: "'a list \<Rightarrow> 'a option \<Rightarrow> 'a option" where
  "last_or [] d = d"
| "last_or (x # xs) d = last_or xs (Some x)"

fun links :: "listed_heap \<Rightarrow> nat option \<Rightarrow> nat list \<Rightarrow> nat option \<Rightarrow> bool" where
  "links h p [] n = True"
| "links h p (x # xs) n = (l_prev (h x) = p \<and> l_next (h x) = hd_or xs n \<and> links h (Some x) xs n)"

definition detached :: "listed_heap \<Rightarrow> nat \<Rightarrow> bool" where
  "detached h k = (l_next (h k) = None \<and> l_prev (h k) = None)"

definition dlist_repr :: "dlist \<Rightarrow> listed_heap \<Rightarrow> nat list \<Rightarrow> bool" where
  "dlist_repr l h xs \<longleftrightarrow>
     distinct xs \<and> l_head l = hd_or xs None \<and> l_tail l = last_or xs None \<and> links h None xs None \<and>
     (\<forall>k. k \<notin> set xs \<longrightarrow> detached h k)"

lemma hd_or_append: "hd_or (xs @ ys) d = hd_or xs (hd_or ys d)"
  by (cases xs) simp_all

lemma last_or_append [simp]: "last_or (xs @ ys) d = last_or ys (last_or xs d)"
  by (induction xs arbitrary: d) simp_all

lemma hd_or_Some_iff: "hd_or xs None = Some m \<longleftrightarrow> xs \<noteq> [] \<and> hd xs = m"
  by (cases xs) auto

lemma last_or_eq: "last_or xs d = (if xs = [] then d else Some (last xs))"
  by (induction xs arbitrary: d) auto

lemma links_append: "links h p (xs @ ys) n \<longleftrightarrow> links h p xs (hd_or ys n) \<and> links h (last_or xs p) ys n"
  by (induction xs arbitrary: p) (auto simp: hd_or_append)

lemma links_cong: "(\<And>x. x \<in> set xs \<Longrightarrow> h' x = h x) \<Longrightarrow> links h' p xs n = links h p xs n"
  by (induction xs arbitrary: p) auto

lemma links_upd_other [simp]: "k \<notin> set xs \<Longrightarrow> links (h(k := v)) p xs n = links h p xs n"
  by (rule links_cong) auto

lemmas heap_defs = set_next_def set_prev_def

lemma detached_delist: "detached (snd (delist l h m)) m"
  by (simp add: delist_def Let_def detached_def heap_defs)

subsection \<open>Removal\<close>

lemma delist_heap:
  assumes "l_next (h m) \<noteq> Some m" and "l_prev (h m) \<noteq> Some m"
  shows "snd (delist l h m) =
    (\<lambda>k. if k = m then \<lparr>l_next = None, l_prev = None\<rparr>
         else \<lparr>l_next = (if l_prev (h m) = Some k then l_next (h m) else l_next (h k)),
               l_prev = (if l_next (h m) = Some k then l_prev (h m) else l_prev (h k))\<rparr>)"
  using assms by (auto simp: delist_def Let_def heap_defs fun_eq_iff split: option.splits)

lemma delist_list:
  assumes "l_next (h m) \<noteq> Some m" and "l_prev (h m) \<noteq> Some m"
  shows "l_head (fst (delist l h m)) = (if l_head l = Some m then l_next (h m) else l_head l)"
    and "l_tail (fst (delist l h m)) = (if l_tail l = Some m then l_prev (h m) else l_tail l)"
  using assms by (auto simp: delist_def Let_def heap_defs split: option.splits)

text \<open>Changing the link that leaves a segment at its end, or enters it at its start.\<close>

lemma links_relink_end:
  assumes "links h p xs n" and "distinct xs"
    and "\<And>k. k \<in> set xs \<Longrightarrow> l_prev (h' k) = l_prev (h k)"
    and "\<And>k. k \<in> set xs \<Longrightarrow> l_next (h' k) = (if k = last xs then n' else l_next (h k))"
  shows "links h' p xs n'"
  using assms
proof (induction xs arbitrary: p)
  case Nil
  then show ?case by simp
next
  case (Cons x xs)
  have "links h' (Some x) xs n'"
    by (rule Cons.IH) (use Cons.prems in \<open>auto split: if_splits\<close>)
  moreover have "l_next (h' x) = hd_or xs n'"
    using Cons.prems by (cases xs) auto
  ultimately show ?case using Cons.prems by simp
qed

lemma links_relink_start:
  assumes "links h p xs n" and "distinct xs"
    and "\<And>k. k \<in> set xs \<Longrightarrow> l_next (h' k) = l_next (h k)"
    and "\<And>k. k \<in> set xs \<Longrightarrow> l_prev (h' k) = (if k = hd xs then p' else l_prev (h k))"
  shows "links h' p' xs n"
proof (cases xs)
  case (Cons x ys)
  have "links h' (Some x) ys n = links h (Some x) ys n"
    by (rule links_cong) (use assms(2-4) Cons in \<open>auto intro!: listed.equality\<close>)
  with assms Cons show ?thesis by auto
qed simp

lemma last_in_set_or: "last_or as None = Some k \<longleftrightarrow> as \<noteq> [] \<and> k = last as"
  by (auto simp: last_or_eq)

lemma delist_member:
  assumes r: "dlist_repr l h (as @ m # bs)"
  shows "dlist_repr (fst (delist l h m)) (snd (delist l h m)) (as @ bs)"
proof -
  let ?h = "snd (delist l h m)"
  from r have dist: "distinct (as @ m # bs)" and nx: "l_next (h m) = hd_or bs None"
    and pv: "l_prev (h m) = last_or as None" and la: "links h None as (Some m)"
    and lb: "links h (Some m) bs None"
    and ends: "l_head l = hd_or (as @ [m]) None" "l_tail l = last_or (m # bs) None"
    and out: "\<And>k. k \<notin> set (as @ m # bs) \<Longrightarrow> detached h k"
    by (auto simp: dlist_repr_def links_append hd_or_append)
  have ne: "l_next (h m) \<noteq> Some m" "l_prev (h m) \<noteq> Some m"
    using dist nx pv by (auto simp: hd_or_Some_iff last_in_set_or)
  have apart: "as \<noteq> [] \<Longrightarrow> last as \<notin> set bs" "bs \<noteq> [] \<Longrightarrow> hd bs \<notin> set as"
    using dist by (metis disjoint_iff distinct_append hd_in_set last_in_set list.set_intros(2))+
  note H = delist_heap [of h m l, OF ne] and L = delist_list [of h m l, OF ne]
  have "links ?h None as (hd_or bs None)"
    by (rule links_relink_end [OF la])
      (use dist nx pv apart in \<open>auto simp: H last_in_set_or hd_or_Some_iff\<close>)
  moreover have "links ?h (last_or as None) bs None"
    by (rule links_relink_start [OF lb])
      (use dist nx pv apart in \<open>auto simp: H last_in_set_or hd_or_Some_iff\<close>)
  moreover have "\<forall>k. k \<notin> set (as @ bs) \<longrightarrow> detached ?h k"
    using out nx pv by (auto simp: H detached_def last_in_set_or hd_or_Some_iff)
  moreover have "l_head (fst (delist l h m)) = hd_or (as @ bs) None"
    using ends dist nx by (cases as) (auto simp: L hd_or_append)
  moreover have "l_tail (fst (delist l h m)) = last_or (as @ bs) None"
    using ends dist pv by (cases bs rule: rev_cases) (auto simp: L)
  ultimately show ?thesis using dist by (auto simp: dlist_repr_def links_append)
qed

lemma delist_nonmember:
  assumes r: "dlist_repr l h xs" and m: "m \<notin> set xs"
  shows "delist l h m = (l, h)"
proof -
  from r m have nil: "l_next (h m) = None" "l_prev (h m) = None"
    by (auto simp: dlist_repr_def detached_def)
  from r m have "l_head l \<noteq> Some m" "l_tail l \<noteq> Some m"
    by (cases xs; auto simp: dlist_repr_def last_or_eq)+
  moreover have "set_prev (set_next h m None) m None = h"
    using nil by (auto simp: heap_defs fun_eq_iff)
  ultimately show ?thesis using nil by (simp add: delist_def)
qed

lemma delist_repr:
  assumes "dlist_repr l h xs"
  shows "dlist_repr (fst (delist l h m)) (snd (delist l h m)) (remove1 m xs)"
proof (cases "m \<in> set xs")
  case True
  then obtain as bs where xs: "xs = as @ m # bs" and "m \<notin> set as" by (auto dest: split_list_first)
  then have "remove1 m xs = as @ bs" by (simp add: remove1_append)
  with delist_member [of l h as m bs] assms xs show ?thesis by simp
next
  case False
  with delist_nonmember [OF assms False] assms show ?thesis by (simp add: remove1_idem)
qed

subsection \<open>Insertion\<close>

fun insert_before :: "'a option \<Rightarrow> 'a \<Rightarrow> 'a list \<Rightarrow> 'a list" where
  "insert_before None m xs = xs @ [m]"
| "insert_before (Some a) m [] = [m]"
| "insert_before (Some a) m (x # xs) = (if x = a then m # x # xs else x # insert_before (Some a) m xs)"

lemma insert_before_split: "a \<notin> set as \<Longrightarrow> insert_before (Some a) m (as @ a # bs) = as @ m # a # bs"
  by (induction as) auto

lemma enlist_at_tail:
  assumes r: "dlist_repr l h xs" and m: "m \<notin> set xs" and d: "delist l0 h0 m = (l, h)"
  shows "dlist_repr (fst (enlist_before l0 h0 None m)) (snd (enlist_before l0 h0 None m)) (xs @ [m])"
proof (cases xs rule: rev_cases)
  case Nil
  with r m d show ?thesis
    by (auto simp: dlist_repr_def enlist_before_def heap_defs detached_def)
next
  case (snoc ys t)
  with r have lys: "links h None ys (Some t)" "l_prev (h t) = last_or ys None" and tail: "l_tail l = Some t"
    by (auto simp: dlist_repr_def links_append)
  from r m snoc have nx: "l_next (h m) = None" and dist: "distinct (ys @ [t, m])"
    and hd: "l_head l = hd_or (xs @ [m]) None"
    by (auto simp: dlist_repr_def detached_def hd_or_append)
  then have hne: "l_head l \<noteq> None" using snoc by (cases ys) auto
  have res: "enlist_before l0 h0 None m
      = (l\<lparr>l_tail := Some m\<rparr>, set_next (set_prev h m (Some t)) t (Some m))"
    using d tail hne by (auto simp: enlist_before_def Let_def)
  have "links (set_next (set_prev h m (Some t)) t (Some m)) None (xs @ [m]) None"
    using snoc lys nx dist by (auto simp: links_append heap_defs)
  moreover have "\<forall>k. k \<notin> set (xs @ [m]) \<longrightarrow>
      detached (set_next (set_prev h m (Some t)) t (Some m)) k"
    using r snoc by (auto simp: dlist_repr_def detached_def heap_defs)
  ultimately show ?thesis using dist hd snoc by (auto simp: res dlist_repr_def)
qed

lemma enlist_at_anchor:
  assumes r: "dlist_repr l h (as @ a # bs)" and m: "m \<notin> set (as @ a # bs)"
    and d: "delist l0 h0 m = (l, h)"
  shows "dlist_repr (fst (enlist_before l0 h0 (Some a) m)) (snd (enlist_before l0 h0 (Some a) m))
           (as @ m # a # bs)"
proof (cases as rule: rev_cases)
  case Nil
  with r m d show ?thesis
    by (auto simp: dlist_repr_def enlist_before_def heap_defs detached_def last_or_eq)
next
  case (snoc ys t)
  with r have lys: "links h None ys (Some t)" "l_prev (h t) = last_or ys None"
    and at: "l_prev (h a) = Some t" "l_next (h a) = hd_or bs None" and lb: "links h (Some a) bs None"
    by (auto simp: dlist_repr_def links_append)
  have dist: "distinct (ys @ t # m # a # bs)" using r m snoc by (auto simp: dlist_repr_def)
  have hd: "l_head l = hd_or (as @ m # a # bs) None" and tl: "l_tail l = last_or (as @ m # a # bs) None"
    using r snoc by (auto simp: dlist_repr_def hd_or_append)
  define h' where "h' = set_prev (set_next (set_prev (set_next h m (Some a)) m (Some t)) t (Some m)) a (Some m)"
  have res: "enlist_before l0 h0 (Some a) m = (l, h')"
    using d at dist by (simp add: enlist_before_def heap_defs h'_def)
  have "links h' None (as @ m # a # bs) None"
    using snoc lys at lb dist by (auto simp: h'_def links_append heap_defs)
  moreover have "\<forall>k. k \<notin> set (as @ m # a # bs) \<longrightarrow> detached h' k"
    using r snoc by (auto simp: dlist_repr_def detached_def heap_defs h'_def)
  ultimately show ?thesis using dist hd tl snoc by (auto simp: res dlist_repr_def)
qed

lemma enlist_tail_repr:
  assumes "dlist_repr l h xs"
  shows "dlist_repr (fst (enlist_tail l h m)) (snd (enlist_tail l h m)) (remove1 m xs @ [m])"
proof -
  have "m \<notin> set (remove1 m xs)" using assms by (simp add: dlist_repr_def)
  with enlist_at_tail [OF delist_repr [OF assms, of m]] show ?thesis
    unfolding enlist_tail_def by (metis prod.collapse)
qed

lemma enlist_before_repr:
  assumes "dlist_repr l h xs" and "a \<in> set xs" and "a \<noteq> m"
  shows "dlist_repr (fst (enlist_before l h (Some a) m)) (snd (enlist_before l h (Some a) m))
           (insert_before (Some a) m (remove1 m xs))"
proof -
  have r: "dlist_repr (fst (delist l h m)) (snd (delist l h m)) (remove1 m xs)"
    by (rule delist_repr [OF assms(1)])
  have "a \<in> set (remove1 m xs)" using assms(2,3) by (simp add: in_set_remove1)
  then obtain as bs where xs: "remove1 m xs = as @ a # bs" and a: "a \<notin> set as"
    by (auto dest: split_list_first)
  have "m \<notin> set (as @ a # bs)" using assms(1) xs by (metis dlist_repr_def set_remove1_eq DiffE insertI1)
  with r xs have "dlist_repr (fst (enlist_before l h (Some a) m)) (snd (enlist_before l h (Some a) m))
      (as @ m # a # bs)"
    by (intro enlist_at_anchor [of "fst (delist l h m)" "snd (delist l h m)"]) auto
  then show ?thesis using a xs by (simp add: insert_before_split)
qed

subsection \<open>The properties\<close>

definition empty_list :: dlist where
  "empty_list = \<lparr>l_head = None, l_tail = None\<rparr>"

definition unlinked :: listed_heap where
  "unlinked = (\<lambda>k. \<lparr>l_next = None, l_prev = None\<rparr>)"

lemma empty_repr: "dlist_repr empty_list unlinked []"
  by (simp add: dlist_repr_def empty_list_def unlinked_def detached_def)

text \<open>On a heap that represents a duplicate-free list, whose other nodes are unlinked, \<open>delist\<close>
  takes the node out of the list, leaves every other node in its place and the removed node
  unlinked; on a node that is not in the list it changes nothing.\<close>

theorem delist_removes:
  assumes "dlist_repr l h xs"
  shows "dlist_repr (fst (delist l h m)) (snd (delist l h m)) (remove1 m xs) \<and>
    (m \<notin> set xs \<longrightarrow> delist l h m = (l, h))"
  using delist_repr [OF assms] delist_nonmember [OF assms] by blast

theorem delist_removes_witness:
  "dlist_repr (fst (delist (fst (enlist_tail empty_list unlinked 7)) (snd (enlist_tail empty_list unlinked 7)) 7))
     (snd (delist (fst (enlist_tail empty_list unlinked 7)) (snd (enlist_tail empty_list unlinked 7)) 7)) []"
  using delist_removes [OF enlist_tail_repr [OF empty_repr, of 7], of 7] by simp

text \<open>\<open>enlistTail\<close> moves a node to the end of the list, or appends it if it was
  not in the list, and keeps the order of all the others; \<open>enlistBefore\<close> with an anchor
  in the list moves or inserts it right before the anchor; head and tail stay right.\<close>

theorem enlist_places:
  assumes "dlist_repr l h xs"
  shows "dlist_repr (fst (enlist_tail l h m)) (snd (enlist_tail l h m)) (remove1 m xs @ [m]) \<and>
    (a \<in> set xs \<and> a \<noteq> m \<longrightarrow>
       dlist_repr (fst (enlist_before l h (Some a) m)) (snd (enlist_before l h (Some a) m))
         (insert_before (Some a) m (remove1 m xs)))"
  using enlist_tail_repr [OF assms] enlist_before_repr [OF assms] by blast

theorem enlist_places_witness:
  "dlist_repr (fst (enlist_before (fst (enlist_tail empty_list unlinked 7)) (snd (enlist_tail empty_list unlinked 7)) (Some 7) 4))
     (snd (enlist_before (fst (enlist_tail empty_list unlinked 7)) (snd (enlist_tail empty_list unlinked 7)) (Some 7) 4)) [4, 7]"
  using enlist_places [OF enlist_tail_repr [OF empty_repr, of 7], of 4 7] by simp

end
