(* ===== verification/CavlTree.thy ===== *)
theory CavlTree
  imports CanPrelude
begin

text \<open>
  The ordered index of \<open>cavl.go\<close> as a value: a binary tree whose nodes carry their owner
  and the balance factor and height that the code stores in them.  A position in the tree is
  a zipper: the subtree below it and the path of parents above it, which is what the
  \<open>up\<close> pointers of the code lead through.  The algorithms follow the code step by step,
  the early exits of the two rebalancing loops included.

  This is the view the transmission queue and the reception tables have of their indices. The
  removal of a node whose successor is its direct right child leaves an \<open>up\<close> pointer to the
  removed node in the code; a tree as a value has no such pointers, so that the model of the
  removal is what the code does as long as nothing follows them.  The lemmas give
  the contents of the tree, read from left to right, after every operation.
\<close>

datatype 'a cavl =
  CLeaf
| CNode (lft: "'a cavl") (own: 'a) (bal: int) (hgt: nat) (rgt: "'a cavl")

fun height :: "'a cavl \<Rightarrow> nat" where
  "height CLeaf = 0"
| "height (CNode l x b h r) = h"

fun inorder :: "'a cavl \<Rightarrow> 'a list" where
  "inorder CLeaf = []"
| "inorder (CNode l x b h r) = inorder l @ x # inorder r"

fun balance_of :: "'a cavl \<Rightarrow> int" where
  "balance_of CLeaf = 0"
| "balance_of (CNode l x b h r) = b"

text \<open>A node with its height and balance factor computed from its children.\<close>

definition mk :: "'a cavl \<Rightarrow> 'a \<Rightarrow> 'a cavl \<Rightarrow> 'a cavl" where
  "mk l x r = CNode l x (int (height r) - int (height l)) (Suc (max (height l) (height r))) r"

fun recompute :: "'a cavl \<Rightarrow> 'a cavl" where
  "recompute CLeaf = CLeaf"
| "recompute (CNode l x b h r) = mk l x r"

fun rot_left :: "'a cavl \<Rightarrow> 'a cavl" where
  "rot_left (CNode a x b h (CNode c y b' h' d)) = mk (mk a x c) y d"
| "rot_left t = t"

fun rot_right :: "'a cavl \<Rightarrow> 'a cavl" where
  "rot_right (CNode (CNode a x b h c) y b' h' d) = mk a x (mk c y d)"
| "rot_right t = t"

text \<open>Repair of a node that is too heavy on one side, with a double rotation if needed.\<close>

fun fix_right :: "'a cavl \<Rightarrow> 'a cavl" where
  "fix_right CLeaf = CLeaf"
| "fix_right (CNode l x b h r) =
     rot_left (CNode l x b h (if balance_of r < 0 then rot_right r else r))"

fun fix_left :: "'a cavl \<Rightarrow> 'a cavl" where
  "fix_left CLeaf = CLeaf"
| "fix_left (CNode l x b h r) =
     rot_right (CNode (if balance_of l > 0 then rot_left l else l) x b h r)"

subsection \<open>Positions\<close>

text \<open>One step up: the parent, without the child we came from.\<close>

datatype 'a crumb =
  FromLeft 'a int nat "'a cavl"
| FromRight "'a cavl" 'a int nat

fun plug1 :: "'a cavl \<Rightarrow> 'a crumb \<Rightarrow> 'a cavl" where
  "plug1 t (FromLeft x b h r) = CNode t x b h r"
| "plug1 t (FromRight l x b h) = CNode l x b h t"

fun plug :: "'a cavl \<Rightarrow> 'a crumb list \<Rightarrow> 'a cavl" where
  "plug t [] = t"
| "plug t (c # cs) = plug (plug1 t c) cs"

text \<open>
  The descent of \<open>cavlFind\<close> and \<open>cavlFindOrInsert\<close>: to the node that compares equal
  to the key, or to the last node before the descent would fall off the tree.
\<close>

fun descend :: "('a \<Rightarrow> int) \<Rightarrow> 'a cavl \<Rightarrow> 'a crumb list \<Rightarrow> 'a cavl \<times> 'a crumb list" where
  "descend cmp CLeaf cs = (CLeaf, cs)"
| "descend cmp (CNode l x b h r) cs =
     (if cmp x = 0 then (CNode l x b h r, cs)
      else if cmp x < 0
      then (if l = CLeaf then (CNode l x b h r, cs) else descend cmp l (FromLeft x b h r # cs))
      else (if r = CLeaf then (CNode l x b h r, cs) else descend cmp r (FromRight l x b h # cs)))"

subsection \<open>Search and insertion\<close>

definition index_find :: "('a \<Rightarrow> int) \<Rightarrow> 'a cavl \<Rightarrow> 'a option" where
  "index_find cmp t = (case fst (descend cmp t []) of CLeaf \<Rightarrow> None | CNode l x b h r \<Rightarrow> Some x)"

fun rebalance_insert :: "'a cavl \<Rightarrow> 'a crumb list \<Rightarrow> 'a cavl" where
  "rebalance_insert n cs =
     (let n' = recompute n in
      if balance_of n' > 1 then plug (fix_right n') cs
      else if balance_of n' < -1 then plug (fix_left n') cs
      else if balance_of n' = 0 then plug n' cs
      else case cs of [] \<Rightarrow> n' | c # cs' \<Rightarrow> rebalance_insert (plug1 n' c) cs')"

declare rebalance_insert.simps [simp del]

text \<open>The new tree, and the owner of the node that was found or inserted.\<close>

definition index_find_or_insert :: "('a \<Rightarrow> int) \<Rightarrow> 'a \<Rightarrow> 'a cavl \<Rightarrow> 'a cavl \<times> 'a" where
  "index_find_or_insert cmp new t =
     (case descend cmp t [] of
        (CLeaf, cs) \<Rightarrow> (CNode CLeaf new 0 1 CLeaf, new)
      | (CNode l x b h r, cs) \<Rightarrow>
          if cmp x = 0 then (t, x)
          else if cmp x < 0
          then (rebalance_insert (CNode (CNode CLeaf new 0 1 CLeaf) x b h r) cs, new)
          else (rebalance_insert (CNode l x b h (CNode CLeaf new 0 1 CLeaf)) cs, new))"

fun index_min :: "'a cavl \<Rightarrow> 'a option" where
  "index_min CLeaf = None"
| "index_min (CNode l x b h r) = (if l = CLeaf then Some x else index_min l)"

subsection \<open>Removal\<close>

text \<open>
  How many nodes store a balance factor or height that does not fit their children.  The
  deletion loop can meet such nodes; the count is what its rotations bring down.
\<close>

fun stale :: "'a cavl \<Rightarrow> nat" where
  "stale CLeaf = 0"
| "stale (CNode l x b h r) =
     (if CNode l x b h r = mk l x r then 0 else 1) + stale l + stale r"

fun stale_below :: "'a cavl \<Rightarrow> nat" where
  "stale_below CLeaf = 0"
| "stale_below (CNode l x b h r) = stale l + stale r"

definition tilt :: "'a cavl \<Rightarrow> nat" where
  "tilt t = 2 * height (recompute t) + (if \<bar>balance_of (recompute t)\<bar> > 1 then 1 else 0)"

lemma height_mk [simp]: "height (mk l x r) = Suc (max (height l) (height r))"
  by (simp add: mk_def)

lemma balance_of_mk [simp]: "balance_of (mk l x r) = int (height r) - int (height l)"
  by (simp add: mk_def)

lemma stale_mk [simp]: "stale (mk l x r) = stale l + stale r"
  by (simp add: mk_def)

lemma stale_below_mk [simp]: "stale_below (mk l x r) = stale l + stale r"
  by (simp add: mk_def)

lemma recompute_mk [simp]: "recompute (mk l x r) = mk l x r"
  by (simp add: mk_def)

lemma inorder_mk [simp]: "inorder (mk l x r) = inorder l @ x # inorder r"
  by (simp add: mk_def)

lemma tilt_mk: "tilt (mk l x r) = 2 * Suc (max (height l) (height r))
    + (if \<bar>int (height r) - int (height l)\<bar> > 1 then 1 else 0)"
  by (simp add: tilt_def)

lemma stale_node: "stale (CNode l x b h r) = (if CNode l x b h r = mk l x r then 0 else 1) + stale l + stale r"
  by simp

lemma fix_right_decreases:
  assumes "balance_of (recompute n) > 1"
  shows "stale_below (fix_right (recompute n)) < stale_below n \<or>
    (stale_below (fix_right (recompute n)) = stale_below n \<and> tilt (fix_right (recompute n)) < tilt n)"
proof (cases n)
  case (CNode l x b h r)
  with assms have gt: "height r > Suc (height l)" by simp
  then obtain c y b' h' d where r: "r = CNode c y b' h' d" by (cases r) auto
  have n: "stale_below n = stale l + stale r" "tilt n = tilt (mk l x r)"
    using CNode by (simp_all add: tilt_def)
  show ?thesis
  proof (cases "b' < 0 \<and> c \<noteq> CLeaf")
    case True
    then obtain c1 z bz hz c2 where c: "c = CNode c1 z bz hz c2" by (cases c) auto
    have m: "fix_right (recompute n) = mk (mk l x c1) z (mk c2 y d)"
      using True r c CNode by (simp add: mk_def)
    show ?thesis
    proof (cases "r = mk c y d \<and> c = mk c1 z c2")
      case True
      have st: "stale r = stale c1 + stale c2 + stale d"
        using True by (metis stale_mk)
      have hc: "height c = Suc (max (height c1) (height c2))" using True by (metis height_mk)
      have hr: "height r = Suc (max (height c) (height d))" using True by (metis height_mk)
      have "height d < height c"
        using True r \<open>b' < 0 \<and> c \<noteq> CLeaf\<close> by (auto simp: mk_def)
      then have "tilt (mk (mk l x c1) z (mk c2 y d)) < tilt (mk l x r)"
        using hc hr gt unfolding tilt_mk height_mk by (auto simp: max_def)
      with n m st show ?thesis by simp
    next
      case False
      then have "stale r > stale c1 + stale c2 + stale d"
        using r c by (auto simp: mk_def)
      with n m show ?thesis by simp
    qed
  next
    case False
    have m: "fix_right (recompute n) = mk (mk l x c) y d"
      using False r CNode by (cases c) (auto simp: mk_def)
    show ?thesis
    proof (cases "r = mk c y d")
      case True
      have st: "stale r = stale c + stale d" using True by (metis stale_mk)
      have hr: "height r = Suc (max (height c) (height d))" using True by (metis height_mk)
      have "height c \<le> height d"
        using True r False by (cases c) (auto simp: mk_def)
      then have "tilt (mk (mk l x c) y d) < tilt (mk l x r)"
        using hr gt unfolding tilt_mk height_mk by (auto simp: max_def)
      with n m st show ?thesis by simp
    next
      case False
      then have "stale r > stale c + stale d" using r by (auto simp: mk_def)
      with n m show ?thesis by simp
    qed
  qed
qed (use assms in simp)

text \<open>The mirror image.\<close>

fun mirror :: "'a cavl \<Rightarrow> 'a cavl" where
  "mirror CLeaf = CLeaf"
| "mirror (CNode l x b h r) = CNode (mirror r) x (- b) h (mirror l)"

lemma mirror_mirror [simp]: "mirror (mirror t) = t"
  by (induction t) simp_all

lemma height_mirror [simp]: "height (mirror t) = height t"
  by (cases t) simp_all

lemma balance_of_mirror [simp]: "balance_of (mirror t) = - balance_of t"
  by (cases t) simp_all

lemma mirror_eq_leaf [simp]: "mirror t = CLeaf \<longleftrightarrow> t = CLeaf"
  by (cases t) simp_all

lemma mirror_mk: "mirror (mk l x r) = mk (mirror r) x (mirror l)"
  by (simp add: mk_def max.commute)

lemma mirror_inj: "mirror s = mirror t \<longleftrightarrow> s = t"
  by (metis mirror_mirror)

lemma mirror_recompute: "mirror (recompute t) = recompute (mirror t)"
  by (cases t) (simp_all add: mirror_mk)

lemma mirror_rot_left: "mirror (rot_left t) = rot_right (mirror t)"
  by (induction t rule: rot_left.induct) (simp_all add: mirror_mk)

lemma mirror_rot_right: "mirror (rot_right t) = rot_left (mirror t)"
  by (metis mirror_mirror mirror_rot_left)

lemma mirror_fix_left: "mirror (fix_left t) = fix_right (mirror t)"
  by (cases t) (simp_all add: mirror_rot_left mirror_rot_right)

lemma stale_mirror [simp]: "stale (mirror t) = stale t"
proof (induction t)
  case (CNode l x b h r)
  have "mirror (CNode l x b h r) = mk (mirror r) x (mirror l) \<longleftrightarrow> CNode l x b h r = mk l x r"
    by (metis mirror_mk mirror_inj)
  with CNode show ?case by simp
qed simp

lemma stale_below_mirror [simp]: "stale_below (mirror t) = stale_below t"
  by (cases t) simp_all

lemma tilt_mirror [simp]: "tilt (mirror t) = tilt t"
  by (simp add: tilt_def flip: mirror_recompute)

lemma fix_left_decreases:
  assumes "balance_of (recompute n) < -1"
  shows "stale_below (fix_left (recompute n)) < stale_below n \<or>
    (stale_below (fix_left (recompute n)) = stale_below n \<and> tilt (fix_left (recompute n)) < tilt n)"
proof -
  have "balance_of (recompute (mirror n)) > 1"
    using assms by (simp flip: mirror_recompute)
  from fix_right_decreases [OF this] show ?thesis
    by (metis mirror_fix_left mirror_recompute stale_below_mirror tilt_mirror)
qed

text \<open>
  The loop of \<open>cavlRebalanceDelete\<close>.  After a rotation the code moves to the parent of the
  node it rotated, which is the root of the rotated subtree, and looks at it again; it leaves
  the loop when it arrives at the root of the whole tree, without looking at it.
\<close>

function rebalance_delete :: "'a cavl \<Rightarrow> 'a crumb list \<Rightarrow> 'a cavl" where
  "rebalance_delete n cs =
     (if n = CLeaf then plug n cs
      else let n' = recompute n in
      if balance_of n' > 1 then
        (if cs = [] then fix_right n' else rebalance_delete (fix_right n') cs)
      else if balance_of n' < -1 then
        (if cs = [] then fix_left n' else rebalance_delete (fix_left n') cs)
      else if balance_of n' = 0 then
        (case cs of [] \<Rightarrow> n' | [c] \<Rightarrow> plug n' [c] | c # c' # cs' \<Rightarrow> rebalance_delete (plug1 n' c) (c' # cs'))
      else plug n' cs)"
  by pat_completeness auto
termination
proof (relation "measures [\<lambda>(n, cs). length cs, \<lambda>(n, cs). stale_below n, \<lambda>(n, cs). tilt n]", goal_cases)
  case 1
  show ?case by simp
next
  case (2 n cs x)
  with fix_right_decreases [of n] show ?case by auto
next
  case (3 n cs x)
  with fix_left_decreases [of n] show ?case by auto
next
  case 4
  then show ?case by simp
qed

declare rebalance_delete.simps [simp del]

text \<open>The position of a node, found by its owner; the code holds the pointer.\<close>

fun locate :: "'a \<Rightarrow> 'a cavl \<Rightarrow> 'a crumb list \<Rightarrow> ('a cavl \<times> 'a crumb list) option" where
  "locate z CLeaf cs = None"
| "locate z (CNode l x b h r) cs =
     (if x = z then Some (CNode l x b h r, cs)
      else case locate z l (FromLeft x b h r # cs) of
             Some p \<Rightarrow> Some p
           | None \<Rightarrow> locate z r (FromRight l x b h # cs))"

text \<open>The path to the smallest node of a subtree.\<close>

fun to_min :: "'a cavl \<Rightarrow> 'a crumb list \<Rightarrow> 'a cavl \<times> 'a crumb list" where
  "to_min CLeaf cs = (CLeaf, cs)"
| "to_min (CNode l x b h r) cs =
     (if l = CLeaf then (CNode l x b h r, cs) else to_min l (FromLeft x b h r # cs))"

text \<open>Hanging a subtree where a node was, and repairing from the parent upwards.\<close>

fun hang :: "'a cavl \<Rightarrow> 'a crumb list \<Rightarrow> 'a cavl" where
  "hang t [] = rebalance_delete t []"
| "hang t (c # cs) = rebalance_delete (plug1 t c) cs"

text \<open>
  Removal.  With two children the in-order successor takes the node's place: a successor that
  is not the right child itself is unlinked from its parent, takes the node's children and has
  its height computed from them before the loop starts below it; a successor that is the right
  child keeps the height and balance factor it had, and the loop starts above it.
\<close>

definition index_remove :: "'a \<Rightarrow> 'a cavl \<Rightarrow> 'a cavl" where
  "index_remove z t =
     (case locate z t [] of
        None \<Rightarrow> t
      | Some (CLeaf, cs) \<Rightarrow> t
      | Some (CNode l x b h r, cs) \<Rightarrow>
          if l = CLeaf then hang r cs
          else if r = CLeaf then hang l cs
          else (case to_min r [] of
                  (CLeaf, ps) \<Rightarrow> t
                | (CNode yl y yb yh yr, []) \<Rightarrow> hang (CNode l y yb yh yr) cs
                | (CNode yl y yb yh yr, p # ps) \<Rightarrow>
                    rebalance_delete (plug1 yr p)
                      (ps @ FromRight l y (int (height r) - int (height l))
                              (Suc (max (height l) (height r))) # cs)))"

text \<open>The node after a given one, the membership test and the iteration order.\<close>

fun next_in :: "'a \<Rightarrow> 'a list \<Rightarrow> 'a option" where
  "next_in z [] = None"
| "next_in z (x # xs) = (if x = z then (case xs of [] \<Rightarrow> None | y # _ \<Rightarrow> Some y) else next_in z xs)"

definition index_next :: "'a \<Rightarrow> 'a cavl \<Rightarrow> 'a option" where
  "index_next z t = next_in z (inorder t)"

definition index_inserted :: "'a \<Rightarrow> 'a cavl \<Rightarrow> bool" where
  "index_inserted z t = (z \<in> set (inorder t))"

definition index_remove_if :: "'a \<Rightarrow> 'a cavl \<Rightarrow> 'a cavl \<times> bool" where
  "index_remove_if z t =
     (if t = CLeaf \<or> \<not> index_inserted z t then (t, False) else (index_remove z t, True))"

subsection \<open>Contents: rotations and positions\<close>

named_theorems contents \<open>the elements of a tree, from left to right\<close>

lemma inorder_recompute [contents]: "inorder (recompute t) = inorder t"
  by (cases t) simp_all

lemma inorder_rot_left [contents]: "inorder (rot_left t) = inorder t"
  by (induction t rule: rot_left.induct) simp_all

lemma inorder_rot_right [contents]: "inorder (rot_right t) = inorder t"
  by (induction t rule: rot_right.induct) simp_all

lemma inorder_fix_right [contents]: "inorder (fix_right t) = inorder t"
  by (cases t) (simp_all add: contents)

lemma inorder_fix_left [contents]: "inorder (fix_left t) = inorder t"
  by (cases t) (simp_all add: contents)

fun elems_before :: "'a crumb list \<Rightarrow> 'a list" where
  "elems_before [] = []"
| "elems_before (FromLeft x b h r # cs) = elems_before cs"
| "elems_before (FromRight l x b h # cs) = elems_before cs @ inorder l @ [x]"

fun elems_after :: "'a crumb list \<Rightarrow> 'a list" where
  "elems_after [] = []"
| "elems_after (FromLeft x b h r # cs) = x # inorder r @ elems_after cs"
| "elems_after (FromRight l x b h # cs) = elems_after cs"

lemma inorder_plug [contents]: "inorder (plug t cs) = elems_before cs @ inorder t @ elems_after cs"
proof (induction cs arbitrary: t)
  case (Cons c cs)
  then show ?case by (cases c) simp_all
qed simp

lemma inorder_plug1: "inorder (plug1 t c) = elems_before [c] @ inorder t @ elems_after [c]"
  by (cases c) simp_all

lemma elems_before_append: "elems_before (cs @ ds) = elems_before ds @ elems_before cs"
  by (induction cs rule: elems_before.induct) simp_all

lemma elems_after_append: "elems_after (cs @ ds) = elems_after cs @ elems_after ds"
  by (induction cs rule: elems_after.induct) simp_all

lemma inorder_rebalance_insert [contents]:
  "inorder (rebalance_insert n cs) = elems_before cs @ inorder n @ elems_after cs"
proof (induction cs arbitrary: n)
  case Nil
  then show ?case by (simp add: rebalance_insert.simps [of n "[]"] contents Let_def)
next
  case (Cons c cs)
  have "inorder (rebalance_insert (plug1 (recompute n) c) cs)
      = elems_before (c # cs) @ inorder n @ elems_after (c # cs)"
    by (cases c) (simp_all add: Cons contents)
  then show ?case
    by (simp add: rebalance_insert.simps [of n "c # cs"] contents Let_def del: plug.simps)
qed

lemma inorder_rebalance_delete [contents]:
  "inorder (rebalance_delete n cs) = elems_before cs @ inorder n @ elems_after cs"
proof (induction n cs rule: rebalance_delete.induct)
  case (1 n cs)
  show ?case
  proof (cases "n \<noteq> CLeaf \<and> balance_of (recompute n) = 0 \<and> (\<exists>c c' cs'. cs = c # c' # cs')")
    case True
    then obtain c c' cs' where cs: "cs = c # c' # cs'" by blast
    have "inorder (rebalance_delete (plug1 (recompute n) c) (c' # cs'))
        = elems_before (c' # cs') @ inorder (plug1 (recompute n) c) @ elems_after (c' # cs')"
      using 1(3) True cs by auto
    moreover have "rebalance_delete n cs = rebalance_delete (plug1 (recompute n) c) (c' # cs')"
      unfolding cs using True by (subst rebalance_delete.simps) (simp add: Let_def)
    ultimately show ?thesis using cs by (cases c) (simp_all add: contents)
  next
    case False
    then show ?thesis
      using 1(1,2) by (auto simp: rebalance_delete.simps [of n cs] contents Let_def simp del: plug.simps split: list.split)
  qed
qed

subsection \<open>Contents: search\<close>

text \<open>
  A comparator of a key with the elements of an ordered list: once it is not positive it is
  negative from there on, so that at most one element compares equal to the key.
\<close>

definition ordered :: "('a \<Rightarrow> int) \<Rightarrow> 'a list \<Rightarrow> bool" where
  "ordered cmp xs = sorted_wrt (\<lambda>x y. cmp x \<le> 0 \<longrightarrow> cmp y < 0) xs"

lemma ordered_mid:
  assumes "ordered cmp (as @ x # bs)"
  shows "0 \<le> cmp x \<Longrightarrow> a \<in> set as \<Longrightarrow> 0 < cmp a"
    and "cmp x \<le> 0 \<Longrightarrow> b \<in> set bs \<Longrightarrow> cmp b < 0"
  using assms by (force simp: ordered_def sorted_wrt_append)+

lemma plug_descend: "descend cmp t cs = (u, ds) \<Longrightarrow> plug u ds = plug t cs"
  by (induction cmp t cs rule: descend.induct) (auto split: if_splits)

lemma descend_leaf: "descend cmp t cs = (CLeaf, ds) \<longleftrightarrow> t = CLeaf \<and> ds = cs"
  by (induction cmp t cs rule: descend.induct) auto

lemma descend_stop:
  "descend cmp t cs = (CNode l x b h r, ds) \<Longrightarrow>
     cmp x = 0 \<or> (cmp x < 0 \<and> l = CLeaf) \<or> (cmp x > 0 \<and> r = CLeaf)"
  by (induction cmp t cs rule: descend.induct) (auto split: if_splits)

lemma descend_contents:
  assumes "descend cmp t [] = (CNode l x b h r, ds)"
  shows "inorder t = elems_before ds @ inorder l @ x # inorder r @ elems_after ds"
  using plug_descend [OF assms] by (metis append.assoc append_Cons inorder.simps(2) inorder_plug plug.simps(1))

text \<open>The descent passes only larger nodes on the right and smaller ones on the left.\<close>

lemma descend_bounds:
  "descend cmp t cs = (u, ds) \<Longrightarrow> ordered cmp (inorder t) \<Longrightarrow>
   \<forall>a \<in> set (elems_before cs). 0 < cmp a \<Longrightarrow> \<forall>b \<in> set (elems_after cs). cmp b < 0 \<Longrightarrow>
   (\<forall>a \<in> set (elems_before ds). 0 < cmp a) \<and> (\<forall>b \<in> set (elems_after ds). cmp b < 0)"
proof (induction cmp t cs arbitrary: u ds rule: descend.induct)
  case (1 cmp cs)
  then show ?case by simp
next
  case (2 cmp l x b h r cs)
  note mid = ordered_mid [of cmp "inorder l" x "inorder r"]
  have o: "ordered cmp (inorder l)" "ordered cmp (inorder r)"
    using "2.prems"(2) by (auto simp: ordered_def sorted_wrt_append)
  consider (stop) "(u, ds) = (CNode l x b h r, cs)"
    | (left) "cmp x < 0" "cmp x \<noteq> 0" "l \<noteq> CLeaf" "descend cmp l (FromLeft x b h r # cs) = (u, ds)"
    | (right) "\<not> cmp x < 0" "cmp x \<noteq> 0" "r \<noteq> CLeaf" "descend cmp r (FromRight l x b h # cs) = (u, ds)"
    using "2.prems"(1) by (auto split: if_splits)
  then show ?case
  proof cases
    case stop
    with "2.prems" show ?thesis by simp
  next
    case left
    show ?thesis
      by (rule "2.IH"(1) [OF left(2,1,3,4)]) (use "2.prems" left o mid in auto)
  next
    case right
    show ?thesis
      by (rule "2.IH"(2) [OF right(2,1,3,4)]) (use "2.prems" right o mid in auto)
  qed
qed

text \<open>Where the descent ends, and what lies on either side.\<close>

lemma descend_ordered:
  assumes d: "descend cmp t [] = (CNode l x b h r, ds)" and o: "ordered cmp (inorder t)"
  shows "\<forall>a \<in> set (elems_before ds). 0 < cmp a" and "\<forall>b \<in> set (elems_after ds). cmp b < 0"
    and "0 \<le> cmp x \<Longrightarrow> a \<in> set (inorder l) \<Longrightarrow> 0 < cmp a"
    and "cmp x \<le> 0 \<Longrightarrow> b' \<in> set (inorder r) \<Longrightarrow> cmp b' < 0"
proof -
  show "\<forall>a \<in> set (elems_before ds). 0 < cmp a" "\<forall>b \<in> set (elems_after ds). cmp b < 0"
    using descend_bounds [OF d o] by simp_all
  have "inorder t = (elems_before ds @ inorder l) @ x # (inorder r @ elems_after ds)"
    using descend_contents [OF d] by simp
  with o have "ordered cmp ((elems_before ds @ inorder l) @ x # (inorder r @ elems_after ds))" by simp
  from ordered_mid [OF this]
  show "0 \<le> cmp x \<Longrightarrow> a \<in> set (inorder l) \<Longrightarrow> 0 < cmp a"
    and "cmp x \<le> 0 \<Longrightarrow> b' \<in> set (inorder r) \<Longrightarrow> cmp b' < 0"
    by auto
qed

lemma descend_hit:
  assumes o: "ordered cmp (inorder t)" and y: "y \<in> set (inorder t)" "cmp y = 0"
    and d: "descend cmp t [] = (CNode l x b h r, ds)"
  shows "x = y"
proof -
  have "y \<in> set (elems_before ds) \<union> set (inorder l) \<union> {x} \<union> set (inorder r) \<union> set (elems_after ds)"
    using y(1) unfolding descend_contents [OF d] by auto
  moreover from descend_stop [OF d] have "cmp x = 0 \<or> cmp x < 0 \<and> l = CLeaf \<or> 0 < cmp x \<and> r = CLeaf" .
  ultimately show ?thesis
    using descend_ordered [OF d o] y(2) by (fastforce simp: less_imp_le)
qed

lemma index_find_None: "index_find cmp t = None \<longleftrightarrow> t = CLeaf"
proof (cases "descend cmp t []")
  case (Pair u ds)
  with descend_leaf [of cmp t "[]" ds] show ?thesis
    by (cases u; cases t) (auto simp: index_find_def)
qed

lemma index_find_hit:
  assumes "ordered cmp (inorder t)" and "y \<in> set (inorder t)" and "cmp y = 0"
  shows "index_find cmp t = Some y"
proof (cases "descend cmp t []")
  case (Pair u ds)
  show ?thesis
  proof (cases u)
    case CLeaf
    with Pair descend_leaf [of cmp t "[]" ds] assms(2) show ?thesis by simp
  next
    case (CNode l x b h r)
    with Pair descend_hit [OF assms(1) assms(2,3)] show ?thesis by (simp add: index_find_def)
  qed
qed

text \<open>A key that is not in a non-empty tree finds some other node, not nothing.\<close>

lemma index_find_elem: "index_find cmp t = Some x \<Longrightarrow> x \<in> set (inorder t)"
proof (cases "descend cmp t []")
  case (Pair u ds)
  assume "index_find cmp t = Some x"
  with Pair obtain l b h r where "descend cmp t [] = (CNode l x b h r, ds)"
    by (cases u) (auto simp: index_find_def)
  from descend_contents [OF this] show ?thesis by simp
qed

lemma index_find_miss:
  assumes "t \<noteq> CLeaf"
  shows "\<exists>x \<in> set (inorder t). index_find cmp t = Some x"
  using assms index_find_None [of cmp t] index_find_elem [of cmp t] by (cases "index_find cmp t") auto

lemma index_min_hd: "index_min t = (case inorder t of [] \<Rightarrow> None | x # _ \<Rightarrow> Some x)"
proof (induction t)
  case (CNode l x b h r)
  then show ?case
    by (cases "l = CLeaf"; cases "inorder l"; cases l) auto
qed simp

subsection \<open>Contents: insertion\<close>

lemma filter_pos_neg:
  fixes cmp :: "'a \<Rightarrow> int"
  assumes "\<forall>a \<in> set as. 0 < cmp a" and "\<forall>b \<in> set bs. cmp b < 0"
  shows "filter (\<lambda>x. cmp x > 0) (as @ bs) = as" and "filter (\<lambda>x. cmp x < 0) (as @ bs) = bs"
  using assms by (auto simp: filter_id_conv filter_empty_conv)

text \<open>A key that no element compares equal to is inserted between the smaller and the larger.\<close>

lemma index_insert_new:
  assumes o: "ordered cmp (inorder t)" and n: "\<forall>x \<in> set (inorder t). cmp x \<noteq> 0"
  shows "index_find_or_insert cmp new t = (t', y) \<Longrightarrow> y = new \<and>
     inorder t' = filter (\<lambda>x. cmp x > 0) (inorder t) @ new # filter (\<lambda>x. cmp x < 0) (inorder t)"
proof (cases "descend cmp t []")
  case (Pair u ds)
  assume r: "index_find_or_insert cmp new t = (t', y)"
  show ?thesis
  proof (cases u)
    case CLeaf
    with Pair descend_leaf [of cmp t "[]" ds] r show ?thesis
      by (auto simp: index_find_or_insert_def)
  next
    case (CNode l x b h rr)
    with Pair have d: "descend cmp t [] = (CNode l x b h rr, ds)" by simp
    note c = descend_contents [OF d]
    have x: "cmp x \<noteq> 0" using n c by simp
    note bd = descend_ordered [OF d o]
    have e: "\<forall>a \<in> set (elems_before ds). 0 < cmp a" "\<forall>b \<in> set (elems_after ds). cmp b < 0"
      using bd(1,2) .
    from x consider "cmp x < 0" "l = CLeaf" | "cmp x > 0" "rr = CLeaf"
      using descend_stop [OF d] by auto
    then show ?thesis
    proof cases
      case 1
      have "\<forall>b \<in> set (x # inorder rr @ elems_after ds). cmp b < 0"
        using 1 e(2) bd(4) by auto
      from filter_pos_neg [where cmp = cmp, OF e(1) this] show ?thesis
        using 1 d r c by (auto simp: index_find_or_insert_def contents)
    next
      case 2
      have "\<forall>b \<in> set (elems_before ds @ inorder l @ [x]). cmp b > 0"
        using 2 e(1) bd(3) by auto
      from filter_pos_neg [where cmp = cmp, OF this e(2)] show ?thesis
        using 2 d r c by (auto simp: index_find_or_insert_def contents)
    qed
  qed
qed

lemma index_insert_old:
  assumes "ordered cmp (inorder t)" and "x \<in> set (inorder t)" and "cmp x = 0"
  shows "index_find_or_insert cmp new t = (t, x)"
proof (cases "descend cmp t []")
  case (Pair u ds)
  show ?thesis
  proof (cases u)
    case CLeaf
    with Pair descend_leaf [of cmp t "[]" ds] assms(2) show ?thesis by simp
  next
    case (CNode l y b h r)
    with Pair descend_hit [OF assms] assms(3) show ?thesis by (simp add: index_find_or_insert_def)
  qed
qed

subsection \<open>Contents: removal\<close>

lemma locate_Some:
  "locate z t cs = Some (u, ds) \<Longrightarrow> plug u ds = plug t cs \<and> (\<exists>l b h r. u = CNode l z b h r)"
  by (induction z t cs rule: locate.induct) (auto split: if_splits option.splits)

lemma locate_None: "locate z t cs = None \<longleftrightarrow> z \<notin> set (inorder t)"
  by (induction z t cs rule: locate.induct) (auto split: option.splits)

lemma to_min_plug:
  "to_min t cs = (u, ds) \<Longrightarrow> plug u ds = plug t cs \<and> elems_before ds = elems_before cs
     \<and> (u = CLeaf \<longleftrightarrow> t = CLeaf) \<and> (u \<noteq> CLeaf \<longrightarrow> lft u = CLeaf)"
  by (induction t cs rule: to_min.induct) (auto split: if_splits)

lemma inorder_hang [contents]: "inorder (hang t cs) = elems_before cs @ inorder t @ elems_after cs"
proof (cases cs)
  case (Cons c cs')
  then show ?thesis by (cases c) (simp_all add: contents)
qed (simp add: contents)

lemma remove1_middle: "z \<notin> set as \<Longrightarrow> remove1 z (as @ z # bs) = as @ bs"
  by (simp add: remove1_append)

text \<open>Removing a node removes its owner and nothing else, and keeps the order.\<close>

lemma index_remove_split:
  assumes "z \<in> set (inorder t)"
  shows "\<exists>as bs. inorder t = as @ z # bs \<and> inorder (index_remove z t) = as @ bs"
proof -
  obtain p where "locate z t [] = Some p" using assms locate_None [of z t "[]"] by (cases "locate z t []") auto
  then obtain l b h r cs where loc: "locate z t [] = Some (CNode l z b h r, cs)"
    using locate_Some [of z t "[]" "fst p" "snd p"] by (metis prod.collapse)
  have t: "inorder t = (elems_before cs @ inorder l) @ z # inorder r @ elems_after cs"
    using locate_Some [OF loc] by (metis append.assoc append_Cons inorder.simps(2) inorder_plug plug.simps(1))
  have "inorder (index_remove z t) = (elems_before cs @ inorder l) @ inorder r @ elems_after cs"
  proof (cases "l = CLeaf \<or> r = CLeaf")
    case True
    with loc show ?thesis by (auto simp: index_remove_def contents)
  next
    case False
    obtain u ps where m: "to_min r [] = (u, ps)" by fastforce
    from to_min_plug [OF m] False obtain y yb yh yr where u: "u = CNode CLeaf y yb yh yr"
      and pl: "plug u ps = r" and eb: "elems_before ps = []"
      by (cases u) auto
    have ir: "inorder r = y # inorder yr @ elems_after ps"
      unfolding pl [symmetric] u by (simp add: inorder_plug eb)
    show ?thesis
    proof (cases ps)
      case Nil
      with m u ir loc False show ?thesis by (simp add: index_remove_def contents)
    next
      case (Cons q qs)
      then have "elems_before qs @ elems_before [q] = []" "elems_after ps = elems_after [q] @ elems_after qs"
        using eb elems_before_append [of "[q]" qs] elems_after_append [of "[q]" qs] by simp_all
      with m u ir loc False Cons show ?thesis
        by (simp add: index_remove_def contents inorder_plug1 elems_before_append elems_after_append)
    qed
  qed
  with t show ?thesis by blast
qed

lemma inorder_index_remove:
  assumes "distinct (inorder t)"
  shows "inorder (index_remove z t) = remove1 z (inorder t)"
proof (cases "z \<in> set (inorder t)")
  case False
  then have "locate z t [] = None" by (simp add: locate_None)
  with False show ?thesis by (simp add: index_remove_def remove1_idem)
next
  case True
  from index_remove_split [OF this] obtain as bs where
    t: "inorder t = as @ z # bs" and r: "inorder (index_remove z t) = as @ bs" by blast
  from assms t have "z \<notin> set as" by auto
  with t r show ?thesis by (simp add: remove1_middle)
qed

lemma index_remove_subset: "set (inorder (index_remove z t)) \<subseteq> set (inorder t)"
proof (cases "z \<in> set (inorder t)")
  case False
  then have "locate z t [] = None" by (simp add: locate_None)
  then show ?thesis by (simp add: index_remove_def)
next
  case True
  from index_remove_split [OF this] show ?thesis by auto
qed

lemma index_remove_length:
  "z \<in> set (inorder t) \<Longrightarrow> length (inorder (index_remove z t)) < length (inorder t)"
  using index_remove_split [of z t] by auto

lemma next_in_member: "next_in z xs = Some y \<Longrightarrow> z \<in> set xs \<and> y \<in> set xs"
  by (induction z xs rule: next_in.induct) (auto split: if_splits list.splits)

lemma index_next_member: "index_next z t = Some y \<Longrightarrow> z \<in> set (inorder t) \<and> y \<in> set (inorder t)"
  unfolding index_next_def by (rule next_in_member)

subsection \<open>Balance\<close>

text \<open>
  The AVL property, with the height and balance factor stored in every node being the right
  ones.
\<close>

fun avl :: "'a cavl \<Rightarrow> bool" where
  "avl CLeaf \<longleftrightarrow> True"
| "avl (CNode l x b h r) \<longleftrightarrow> CNode l x b h r = mk l x r \<and> \<bar>b\<bar> \<le> 1 \<and> avl l \<and> avl r"

lemma avl_mk: "avl (mk l x r) \<longleftrightarrow> \<bar>int (height r) - int (height l)\<bar> \<le> 1 \<and> avl l \<and> avl r"
  by (simp add: mk_def)

lemma avl_node:
  "avl (CNode l x b h r) \<Longrightarrow> b = int (height r) - int (height l) \<and> h = Suc (max (height l) (height r))
     \<and> \<bar>int (height r) - int (height l)\<bar> \<le> 1 \<and> avl l \<and> avl r"
  by (auto simp: mk_def)

lemma avl_mirror [simp]: "avl (mirror t) = avl t"
proof (induction t)
  case (CNode l x b h r)
  have "mirror (CNode l x b h r) = mk (mirror r) x (mirror l) \<longleftrightarrow> CNode l x b h r = mk l x r"
    by (metis mirror_mk mirror_inj)
  with CNode show ?case by auto
qed simp

lemma avl_height_pos: "t \<noteq> CLeaf \<Longrightarrow> avl t \<Longrightarrow> 0 < height t"
  by (cases t) (auto simp: mk_def)

lemma avl_height_0: "avl t \<Longrightarrow> height t = 0 \<longleftrightarrow> t = CLeaf"
  by (cases t) (auto simp: mk_def)

text \<open>A subtree that an insertion has made one level higher.\<close>

definition grown :: "'a cavl \<Rightarrow> 'a cavl \<Rightarrow> bool" where
  "grown t0 t \<longleftrightarrow> avl t \<and> height t = Suc (height t0) \<and> (height t0 = 0 \<or> balance_of t \<noteq> 0)"

lemma fix_right_avl:
  assumes "avl l" "avl r" "height r = height l + 2" "balance_of r \<noteq> 0"
  shows "avl (fix_right (mk l x r)) \<and> height (fix_right (mk l x r)) = height r"
proof -
  obtain c y b' h' d where r: "r = CNode c y b' h' d" using assms(3) by (cases r) auto
  note n = avl_node [OF assms(2) [unfolded r]]
  show ?thesis
  proof (cases "b' < 0")
    case True
    then have "c \<noteq> CLeaf" using n avl_height_0 [of d] by auto
    then obtain c1 z bz hz c2 where c: "c = CNode c1 z bz hz c2" by (cases c) auto
    have m: "fix_right (mk l x r) = mk (mk l x c1) z (mk c2 y d)"
      using True r c by (simp add: mk_def)
    have "avl c" using n by simp
    note nc = avl_node [OF this [unfolded c]]
    have hr: "height r = Suc (max (height c) (height d))" using n r by simp
    have hc: "height c = Suc (max (height c1) (height c2))" using nc c by simp
    show ?thesis unfolding m avl_mk height_mk
      using assms(1,3) n nc hr hc True by (auto simp: max_def split: if_splits)
  next
    case False
    have m: "fix_right (mk l x r) = mk (mk l x c) y d"
      using False r by (simp add: mk_def)
    have hr: "height r = Suc (max (height c) (height d))" using n r by simp
    have "0 < b'" using False assms(4) r by simp
    then show ?thesis unfolding m avl_mk height_mk
      using assms(1,3) n hr by (auto simp: max_def split: if_splits)
  qed
qed

lemma fix_left_avl:
  assumes "avl l" "avl r" "height l = height r + 2" "balance_of l \<noteq> 0"
  shows "avl (fix_left (mk l x r)) \<and> height (fix_left (mk l x r)) = height l"
  using fix_right_avl [of "mirror r" "mirror l" x] assms
  by (metis avl_mirror balance_of_mirror height_mirror mirror_fix_left mirror_mirror mirror_mk neg_equal_0_iff_equal)

lemma plug_avl: "avl (plug t0 cs) \<Longrightarrow> avl t0"
proof (induction cs arbitrary: t0)
  case (Cons c cs)
  then have "avl (plug1 t0 c)" by simp
  then show ?case by (cases c) auto
qed simp

lemma plug_avl_cong: "avl (plug t0 cs) \<Longrightarrow> avl t \<Longrightarrow> height t = height t0 \<Longrightarrow> avl (plug t cs)"
proof (induction cs arbitrary: t0 t)
  case (Cons c cs)
  have "avl (plug1 t0 c)" using Cons.prems(1) plug_avl by simp
  then have "avl (plug1 t c) \<and> height (plug1 t c) = height (plug1 t0 c)"
    using Cons.prems(2,3) by (cases c) (auto simp: mk_def)
  with Cons.IH [of "plug1 t0 c" "plug1 t c"] Cons.prems(1) show ?case by simp
qed simp

text \<open>One step of the insertion loop, and the loop.\<close>

lemma insert_step_avl:
  assumes old: "avl (CNode l0 x b0 h0 r0)"
    and new: "grown l0 l \<and> r = r0 \<or> l = l0 \<and> grown r0 r"
  shows "balance_of (mk l x r) > 1 \<Longrightarrow> avl (fix_right (mk l x r)) \<and> height (fix_right (mk l x r)) = h0"
    and "balance_of (mk l x r) < -1 \<Longrightarrow> avl (fix_left (mk l x r)) \<and> height (fix_left (mk l x r)) = h0"
    and "balance_of (mk l x r) = 0 \<Longrightarrow> avl (mk l x r) \<and> height (mk l x r) = h0"
    and "\<bar>balance_of (mk l x r)\<bar> = 1 \<Longrightarrow> grown (CNode l0 x b0 h0 r0) (mk l x r)"
proof -
  note o = avl_node [OF old]
  have sub: "avl l" "avl r" using o new by (auto simp: grown_def)
  show "balance_of (mk l x r) > 1 \<Longrightarrow> avl (fix_right (mk l x r)) \<and> height (fix_right (mk l x r)) = h0"
    using fix_right_avl [OF sub, of x] o new by (auto simp: grown_def)
  show "balance_of (mk l x r) < -1 \<Longrightarrow> avl (fix_left (mk l x r)) \<and> height (fix_left (mk l x r)) = h0"
    using fix_left_avl [OF sub, of x] o new by (auto simp: grown_def)
  show "balance_of (mk l x r) = 0 \<Longrightarrow> avl (mk l x r) \<and> height (mk l x r) = h0"
    using o new sub by (auto simp: grown_def avl_mk max_def)
  show "\<bar>balance_of (mk l x r)\<bar> = 1 \<Longrightarrow> grown (CNode l0 x b0 h0 r0) (mk l x r)"
    using o new sub by (auto simp: grown_def avl_mk max_def)
qed

lemma rebalance_insert_avl:
  assumes "avl (plug (CNode l0 x b0 h0 r0) cs)"
    and "grown l0 l \<and> r = r0 \<or> l = l0 \<and> grown r0 r"
  shows "avl (rebalance_insert (CNode l x b h r) cs)"
  using assms
proof (induction cs arbitrary: l0 x b0 h0 r0 l b h r)
  case Nil
  note st = insert_step_avl [OF plug_avl [OF Nil(1)] Nil(2)]
  show ?case
    unfolding rebalance_insert.simps [of "CNode l x b h r" "[]"]
    using st by (auto simp: Let_def grown_def simp del: balance_of_mk)
next
  case (Cons c cs)
  note st = insert_step_avl [OF plug_avl [OF Cons.prems(1)] Cons.prems(2)]
  let ?m = "mk l x r"
  note cong = plug_avl_cong [OF Cons.prems(1)]
  consider "balance_of ?m > 1" | "balance_of ?m < -1" | "balance_of ?m = 0" | "\<bar>balance_of ?m\<bar> = 1"
    by linarith
  then show ?case
  proof cases
    case 4
    have g: "grown (CNode l0 x b0 h0 r0) ?m" using st(4) [OF 4] .
    have "avl (rebalance_insert (plug1 ?m c) cs)"
    proof (cases c)
      case (FromLeft y b' h' r')
      then show ?thesis using Cons.IH [of "CNode l0 x b0 h0 r0" y b' h' r' ?m r'] Cons.prems(1) g by simp
    next
      case (FromRight l' y b' h')
      then show ?thesis using Cons.IH [of l' y b' h' "CNode l0 x b0 h0 r0" l' ?m] Cons.prems(1) g by simp
    qed
    with 4 show ?thesis
      unfolding rebalance_insert.simps [of "CNode l x b h r" "c # cs"]
      by (auto simp: Let_def simp del: balance_of_mk plug.simps)
  qed (use st cong in \<open>auto simp: rebalance_insert.simps [of "CNode l x b h r" "c # cs"] Let_def
         simp del: balance_of_mk plug.simps\<close>)
qed

lemma index_insert_avl:
  assumes "avl t"
  shows "avl (fst (index_find_or_insert cmp new t))"
proof (cases "descend cmp t []")
  case (Pair u ds)
  show ?thesis
  proof (cases u)
    case CLeaf
    with Pair show ?thesis by (simp add: index_find_or_insert_def mk_def)
  next
    case (CNode l x b h r)
    with Pair have d: "descend cmp t [] = (CNode l x b h r, ds)" by simp
    have p: "avl (plug (CNode l x b h r) ds)" using plug_descend [OF d] assms by simp
    have g: "grown CLeaf (CNode CLeaf new 0 1 CLeaf)" by (simp add: grown_def mk_def)
    from descend_stop [OF d] show ?thesis
      using rebalance_insert_avl [OF p, of "CNode CLeaf new 0 1 CLeaf" r]
        rebalance_insert_avl [OF p, of l "CNode CLeaf new 0 1 CLeaf"] g d assms
      by (auto simp: index_find_or_insert_def)
  qed
qed

end
