(* ===== verification/CavlIndex.thy ===== *)
theory CavlIndex
  imports CavlTree
begin

text \<open>
  The contract between an ordered index and its clients: a strict order of the elements, and a
  comparison of a key with an element that agrees with it on elements that can be told apart.  Under it an index that is sorted
  stays sorted, finds exactly the element with the key, and is the set of what was inserted.
  The transmission queue interprets it for its two indices, reception for its sessions and
  subscriptions.
\<close>

lemma descend_cong:
  "(\<And>x. x \<in> set (inorder t) \<Longrightarrow> cmp x = cmp' x) \<Longrightarrow> descend cmp t cs = descend cmp' t cs"
  by (induction cmp t cs rule: descend.induct) auto

lemma index_find_cong:
  "(\<And>x. x \<in> set (inorder t) \<Longrightarrow> cmp x = cmp' x) \<Longrightarrow> index_find cmp t = index_find cmp' t"
  by (simp add: index_find_def descend_cong [of t cmp cmp'])

lemma index_find_or_insert_cong:
  assumes "\<And>x. x \<in> set (inorder t) \<Longrightarrow> cmp x = cmp' x"
  shows "index_find_or_insert cmp e t = index_find_or_insert cmp' e t"
proof (cases "descend cmp t []")
  case (Pair u ds)
  have "descend cmp t [] = descend cmp' t []" by (rule descend_cong) (rule assms)
  with Pair have d: "descend cmp' t [] = (u, ds)" by simp
  show ?thesis
  proof (cases u)
    case (CNode l x b h r)
    with Pair have "x \<in> set (inorder t)" using descend_contents [of cmp t l x b h r ds] by simp
    then have "cmp x = cmp' x" by (rule assms)
    then show ?thesis unfolding index_find_or_insert_def Pair d CNode by (simp only: prod.case cavl.case)
  next
    case CLeaf
    then show ?thesis unfolding index_find_or_insert_def Pair d by (simp only: prod.case cavl.case)
  qed
qed

locale ordered_index =
  fixes before :: "'a \<Rightarrow> 'a \<Rightarrow> bool"
    and cmp :: "'k \<Rightarrow> 'a \<Rightarrow> int"
    and key :: "'a \<Rightarrow> 'k"
    and apart :: "'a \<Rightarrow> 'a \<Rightarrow> bool"
  assumes irrefl: "\<not> before x x"
    and cmp_mono: "before x y \<Longrightarrow> cmp k x \<le> 0 \<Longrightarrow> cmp k y < 0"
    and cmp_pos: "0 < cmp (key e) x \<Longrightarrow> apart e x \<Longrightarrow> before x e"
    and cmp_neg: "cmp (key e) x < 0 \<Longrightarrow> before e x"
begin

lemma sorted_distinct: "sorted_wrt before xs \<Longrightarrow> distinct xs"
  by (induction xs) (auto simp: irrefl)

lemma sorted_ordered: "sorted_wrt before xs \<Longrightarrow> ordered (cmp k) xs"
  unfolding ordered_def by (rule sorted_wrt_mono_rel [where P = before]) (use cmp_mono in blast)+

lemma filters_append:
  "sorted_wrt before xs \<Longrightarrow> \<forall>x \<in> set xs. cmp k x \<noteq> 0 \<Longrightarrow>
     filter (\<lambda>x. cmp k x > 0) xs @ filter (\<lambda>x. cmp k x < 0) xs = xs"
proof (induction xs)
  case (Cons x xs)
  show ?case
  proof (cases "cmp k x > 0")
    case True
    with Cons show ?thesis by simp
  next
    case False
    then have "\<forall>y \<in> set xs. cmp k y < 0" using Cons.prems(1) cmp_mono by auto
    then have "filter (\<lambda>x. cmp k x > 0) xs = []" "filter (\<lambda>x. cmp k x < 0) xs = xs"
      by (auto simp: filter_empty_conv filter_id_conv)
    with False Cons.prems(2) show ?thesis by auto
  qed
qed simp

lemma insert_sorted:
  assumes s: "sorted_wrt before (inorder t)" and n: "\<forall>x \<in> set (inorder t). cmp (key e) x \<noteq> 0"
    and a: "\<forall>x \<in> set (inorder t). apart e x"
    and r: "index_find_or_insert (cmp (key e)) e t = (t', y)"
  shows "y = e \<and> sorted_wrt before (inorder t') \<and> set (inorder t') = insert e (set (inorder t))"
proof -
  let ?p = "filter (\<lambda>x. cmp (key e) x > 0) (inorder t)" and ?q = "filter (\<lambda>x. cmp (key e) x < 0) (inorder t)"
  from index_insert_new [OF sorted_ordered [OF s] n r]
  have y: "y = e" and i: "inorder t' = ?p @ e # ?q" by simp_all
  have pq: "?p @ ?q = inorder t" by (rule filters_append [OF s n])
  have "sorted_wrt before (?p @ ?q)" unfolding pq by (rule s)
  then have "sorted_wrt before (?p @ e # ?q)"
    using a by (auto simp: sorted_wrt_append intro: cmp_pos cmp_neg)
  moreover have "set (?p @ ?q) = set (inorder t)" unfolding pq by (rule refl)
  ultimately show ?thesis using y i by auto
qed

lemma insert_hit:
  "sorted_wrt before (inorder t) \<Longrightarrow> x \<in> set (inorder t) \<Longrightarrow> cmp k x = 0 \<Longrightarrow>
     index_find_or_insert (cmp k) e t = (t, x)"
  by (rule index_insert_old [OF sorted_ordered])

lemma find_hit:
  "sorted_wrt before (inorder t) \<Longrightarrow> x \<in> set (inorder t) \<Longrightarrow> cmp k x = 0 \<Longrightarrow> index_find (cmp k) t = Some x"
  by (rule index_find_hit [OF sorted_ordered])

lemma remove_sorted:
  assumes "sorted_wrt before (inorder t)"
  shows "inorder (index_remove e t) = remove1 e (inorder t)"
    and "sorted_wrt before (inorder (index_remove e t))"
    and "set (inorder (index_remove e t)) = set (inorder t) - {e}"
proof -
  show r: "inorder (index_remove e t) = remove1 e (inorder t)"
    by (rule inorder_index_remove [OF sorted_distinct [OF assms]])
  have "sorted_wrt before (remove1 e xs)" if "sorted_wrt before xs" for xs
    using that by (induction xs) (use set_remove1_subset in fastforce)+
  with r assms show "sorted_wrt before (inorder (index_remove e t))" by simp
  from sorted_distinct [OF assms] r show "set (inorder (index_remove e t)) = set (inorder t) - {e}" by simp
qed

text \<open>The first element is before all others.\<close>

lemma min_first:
  assumes "sorted_wrt before (inorder t)" and "index_min t = Some x" and "y \<in> set (inorder t)"
  shows "x = y \<or> before x y"
  using assms by (cases "inorder t") (auto simp: index_min_hd)

end

end
