(* ===== verification/CanTypes.thy ===== *)
theory CanTypes
  imports CanPrelude
begin

text \<open>
  The data model of \<open>types.go\<close>: parameter ranges, transfer kinds, priorities and
  acceptance filters, and the wire constants of \<open>prng.go\<close>.
\<close>

subsection \<open>Constants\<close>

definition iface_count :: nat where "iface_count = 1"
definition iface_bitmap_all :: u8 where "iface_bitmap_all = push_bit iface_count 1 - 1"
definition subject_id_max :: u32 where "subject_id_max = 0xFFFF"
definition subject_id_max_13b :: u32 where "subject_id_max_13b = 8191"
definition service_id_max :: u32 where "service_id_max = 511"
definition node_id_max :: u32 where "node_id_max = 127"
definition node_id_capacity :: nat where "node_id_capacity = 128"
definition transfer_id_max :: u8 where "transfer_id_max = 31"
definition node_id_anonymous :: u8 where "node_id_anonymous = 0xFF"
definition mtu_classic :: nat where "mtu_classic = 8"
definition mtu_fd :: nat where "mtu_fd = 64"
definition kind_count :: nat where "kind_count = 7"
definition prio_count :: nat where "prio_count = 8"
definition tail_sot :: u8 where "tail_sot = 128"
definition tail_eot :: u8 where "tail_eot = 64"
definition tail_toggle :: u8 where "tail_toggle = 32"
definition can_ext_id_mask :: u32 where "can_ext_id_mask = push_bit 29 1 - 1"
definition padding_byte :: byte where "padding_byte = 0"
definition prio_shift :: nat where "prio_shift = 26"
definition big_bang :: int where "big_bang = - (2 ^ 63)"

lemmas can_constants [can_const] =
  iface_count_def iface_bitmap_all_def subject_id_max_def subject_id_max_13b_def service_id_max_def
  node_id_max_def node_id_capacity_def transfer_id_max_def node_id_anonymous_def mtu_classic_def
  mtu_fd_def kind_count_def prio_count_def tail_sot_def tail_eot_def tail_toggle_def
  can_ext_id_mask_def padding_byte_def prio_shift_def

subsection \<open>Transfer kinds\<close>

datatype kind =
  KindMessage16b | KindMessage13b | KindResponse | KindRequest
| KindV0Message | KindV0Response | KindV0Request

fun kind_index :: "kind \<Rightarrow> nat" where
  "kind_index KindMessage16b = 0"
| "kind_index KindMessage13b = 1"
| "kind_index KindResponse = 2"
| "kind_index KindRequest = 3"
| "kind_index KindV0Message = 4"
| "kind_index KindV0Response = 5"
| "kind_index KindV0Request = 6"

definition all_kinds :: "kind list" where
  "all_kinds = [KindMessage16b, KindMessage13b, KindResponse, KindRequest,
                KindV0Message, KindV0Response, KindV0Request]"

definition kind_version :: "kind \<Rightarrow> u8" where
  "kind_version k = (if kind_index k < kind_index KindV0Message then 1 else 0)"

instantiation kind :: linorder
begin

definition less_eq_kind :: "kind \<Rightarrow> kind \<Rightarrow> bool" where
  "less_eq_kind a b \<longleftrightarrow> kind_index a \<le> kind_index b"

definition less_kind :: "kind \<Rightarrow> kind \<Rightarrow> bool" where
  "less_kind a b \<longleftrightarrow> kind_index a < kind_index b"

instance
proof
  have inj: "kind_index a = kind_index b \<Longrightarrow> a = b" for a b
    by (cases a; cases b) simp_all
  fix a b c :: kind
  show "(a < b) = (a \<le> b \<and> \<not> b \<le> a)" by (auto simp: less_eq_kind_def less_kind_def)
  show "a \<le> a" by (simp add: less_eq_kind_def)
  show "a \<le> b \<Longrightarrow> b \<le> c \<Longrightarrow> a \<le> c" by (simp add: less_eq_kind_def)
  show "a \<le> b \<Longrightarrow> b \<le> a \<Longrightarrow> a = b" by (simp add: less_eq_kind_def inj)
  show "a \<le> b \<or> b \<le> a" by (auto simp: less_eq_kind_def)
qed

end

lemma kind_index_inj [simp]: "kind_index a = kind_index b \<longleftrightarrow> a = b"
  by (cases a; cases b) simp_all

lemma kind_index_less: "kind_index k < kind_count"
  by (cases k) (simp_all add: kind_count_def)

lemma all_kinds_complete [simp]: "k \<in> set all_kinds"
  by (cases k) (simp_all add: all_kinds_def)

lemma all_kinds_sorted: "sorted all_kinds \<and> distinct all_kinds"
  by (simp add: all_kinds_def less_eq_kind_def)

subsection \<open>Acceptance filters\<close>

record can_filter =
  ext_id :: u32
  ext_mask :: u32

text \<open>What a controller lets through: the masked identifier equals the filter's.\<close>

definition admits :: "can_filter \<Rightarrow> u32 \<Rightarrow> bool" where
  "admits f can_id \<longleftrightarrow> can_id AND ext_mask f = ext_id f AND ext_mask f"

end
