(* ===== verification/CanState.thy ===== *)
theory CanState
  imports CanTypes CanBits CavlTree
begin

text \<open>
  The state of a node: the objects that \<open>tx.go\<close> and \<open>rx.go\<close> allocate, each kind in a
  store of its own that maps an address to the object, and the instance of \<open>types.go\<close>
  with the fields of its transmission, reception and error parts side by side.  An index is a
  tree of the addresses of the objects that own its nodes; the list of transfers by age and the
  list of sessions by activity are lists of addresses (theory \<open>CanList\<close> has them as
  pointers).
\<close>

subsection \<open>Transmission\<close>

text \<open>
  A frame in the spool.  The \<open>next\<close> pointer, which is set when the spool is built and
  never changed, is not in the record: a chain of frames is the list of their addresses.  The
  flag says whether the frame is in \<open>frameRegistry\<close>.
\<close>

record tx_frame =
  tf_size :: nat
  tf_refcount :: u32
  tf_dlc :: nat
  tf_data :: bytes
  tf_registered :: bool

record tx_transfer =
  tr_user_context :: nat
  tr_deadline :: int
  tr_seqno :: u64
  tr_can_id_msb :: u32
  tr_fd :: bool
  tr_multi_frame :: bool
  tr_first_frame_departed :: bool
  tr_cursor :: "nat \<Rightarrow> nat list"

subsection \<open>Reception\<close>

record rx_slot =
  sl_start_ts :: int
  sl_extent :: nat
  sl_total_size :: u32
  sl_crc :: u16
  sl_transfer_id :: u8
  sl_iface_index :: u8
  sl_expected_toggle :: bool
  sl_payload :: bytes

record rx_session =
  ses_last_admission_ts :: int
  ses_slots :: "rx_slot option list"
  ses_owner :: nat
  ses_node_id :: u8
  ses_last_transfer_id :: u8
  ses_last_priority :: u8
  ses_iface_index :: u8

record subscription =
  sub_transfer_id_timeout :: int
  sub_extent :: int
  sub_port_id :: u16
  sub_crc_seed :: u16
  sub_kind :: kind
  sub_sessions :: "nat cavl"

text \<open>One call of the callback \<open>OnMessage\<close>.\<close>

record delivery =
  dv_subscription :: nat
  dv_timestamp :: int
  dv_priority :: u8
  dv_source :: u8
  dv_transfer_id :: u8
  dv_payload :: bytes

subsection \<open>The instance\<close>

record canard =
  occupancy :: "u64 list"
  node_id :: u8
  iface_bitmap :: u8
  prng_state :: u64
  \<comment> \<open>\<open>canardTX\<close>\<close>
  tx_fd :: bool
  tx_queue_capacity :: int
  tx_queue_size :: int
  tx_seqno :: u64
  tx_pending :: "nat \<Rightarrow> nat cavl"
  tx_deadline :: "nat cavl"
  tx_agewise :: "nat list"
  \<comment> \<open>\<open>canardRX\<close>\<close>
  rx_subscriptions :: "kind \<Rightarrow> nat cavl"
  rx_sessions_by_animation :: "nat list"
  rx_filter_count :: int
  rx_filters_dirty :: bool
  \<comment> \<open>\<open>canardErr\<close>\<close>
  err_oom :: u64
  err_tx_capacity :: u64
  err_tx_sacrifice :: u64
  err_tx_expiration :: u64
  err_rx_frame :: u64
  err_rx_transfer :: u64
  err_collision :: u64
  \<comment> \<open>the stores, with the next free address of each\<close>
  tx_frames :: "nat \<Rightarrow> tx_frame"
  tx_frame_fresh :: nat
  tx_transfers :: "nat \<Rightarrow> tx_transfer"
  tx_transfer_fresh :: nat
  rx_subs :: "nat \<Rightarrow> subscription"
  rx_sessions :: "nat \<Rightarrow> rx_session"
  rx_session_fresh :: nat
  \<comment> \<open>the calls of \<open>OnMessage\<close> so far\<close>
  rx_deliveries :: "delivery list"

text \<open>The zero value \<open>Canard{}\<close>, over given stores.\<close>

definition tx_frame_zero :: tx_frame where
  "tx_frame_zero = \<lparr>tf_size = 0, tf_refcount = 0, tf_dlc = 0, tf_data = [], tf_registered = False\<rparr>"

definition tx_transfer_zero :: tx_transfer where
  "tx_transfer_zero = \<lparr>tr_user_context = 0, tr_deadline = 0, tr_seqno = 0, tr_can_id_msb = 0, tr_fd = False,
     tr_multi_frame = False, tr_first_frame_departed = False, tr_cursor = (\<lambda>i. [])\<rparr>"

definition subscription_zero :: subscription where
  "subscription_zero = \<lparr>sub_transfer_id_timeout = 0, sub_extent = 0, sub_port_id = 0, sub_crc_seed = 0,
     sub_kind = KindMessage16b, sub_sessions = CLeaf\<rparr>"

definition rx_session_zero :: rx_session where
  "rx_session_zero = \<lparr>ses_last_admission_ts = 0, ses_slots = replicate prio_count None, ses_owner = 0,
     ses_node_id = 0, ses_last_transfer_id = 0, ses_last_priority = 0, ses_iface_index = 0\<rparr>"

definition canard_zero :: canard where
  "canard_zero =
     \<lparr>occupancy = [0, 0], node_id = 0, iface_bitmap = 0, prng_state = 0,
      tx_fd = False, tx_queue_capacity = 0, tx_queue_size = 0, tx_seqno = 0,
      tx_pending = (\<lambda>i. CLeaf), tx_deadline = CLeaf, tx_agewise = [],
      rx_subscriptions = (\<lambda>k. CLeaf), rx_sessions_by_animation = [], rx_filter_count = 0,
      rx_filters_dirty = False,
      err_oom = 0, err_tx_capacity = 0, err_tx_sacrifice = 0, err_tx_expiration = 0, err_rx_frame = 0,
      err_rx_transfer = 0, err_collision = 0,
      tx_frames = (\<lambda>f. tx_frame_zero), tx_frame_fresh = 0,
      tx_transfers = (\<lambda>t. tx_transfer_zero), tx_transfer_fresh = 0,
      rx_subs = (\<lambda>b. subscription_zero), rx_sessions = (\<lambda>s. rx_session_zero), rx_session_fresh = 0,
      rx_deliveries = []\<rparr>"

text \<open>
  The platform: the clock, the CAN controllers and their acceptance filters, each a function of
  an environment that it may change.
\<close>

record tx_request =
  rq_user_context :: nat
  rq_deadline :: int
  rq_iface_index :: nat
  rq_fd :: bool
  rq_can_id :: u32
  rq_data :: bytes

record 'e platform =
  p_now :: "'e \<Rightarrow> int \<times> 'e"
  p_tx :: "tx_request \<Rightarrow> 'e \<Rightarrow> bool \<times> 'e"
  p_filter :: "can_filter list \<Rightarrow> 'e \<Rightarrow> bool \<times> 'e"

end
