(* ===== verification/CanRxParse.thy ===== *)
theory CanRxParse
  imports CanTypes CanCrc
begin

text \<open>
  Parsing one CAN frame (\<open>rxParse\<close> in \<open>rx.go\<close>): the extended identifier and the tail byte are
  taken apart into the parameters of a Cyphal v1 frame, of a legacy v0 frame, or of both when
  the tail byte does not tell.
\<close>

record rx_frame =
  fr_priority :: u8
  fr_kind :: kind
  fr_port_id :: u16
  fr_dst :: u8
  fr_src :: u8
  fr_transfer_id :: u8
  fr_start :: bool
  fr_end :: bool
  fr_toggle :: bool
  fr_payload :: bytes

definition rx_frame_zero :: rx_frame where
  "rx_frame_zero = \<lparr>fr_priority = 0, fr_kind = KindMessage16b, fr_port_id = 0, fr_dst = 0, fr_src = 0,
     fr_transfer_id = 0, fr_start = False, fr_end = False, fr_toggle = False, fr_payload = []\<rparr>"

text \<open>A single bit of the identifier.\<close>

definition id_bit :: "u32 \<Rightarrow> nat \<Rightarrow> bool" where
  "id_bit can_id n = (can_id AND push_bit n 1 \<noteq> 0)"

text \<open>The part of \<open>rxParse\<close> that fills in the v1 frame: the frame, and whether it is one.\<close>

definition rx_parse_v1 :: "u32 \<Rightarrow> rx_frame \<Rightarrow> rx_frame \<times> bool" where
  "rx_parse_v1 can_id out =
     (let bit23 = id_bit can_id 23 in
      if id_bit can_id 25
      then let out = out\<lparr>fr_dst := ucast (drop_bit 7 can_id AND node_id_max),
                         fr_port_id := ucast (drop_bit 14 can_id AND service_id_max),
                         fr_kind := (if id_bit can_id 24 then KindRequest else KindResponse)\<rparr>
           in (out, \<not> bit23 \<and> fr_src out \<noteq> fr_dst out)
      else let out = out\<lparr>fr_dst := node_id_anonymous\<rparr> in
           if id_bit can_id 7
           then (out\<lparr>fr_port_id := ucast (drop_bit 8 can_id AND subject_id_max),
                     fr_kind := KindMessage16b\<rparr>, \<not> id_bit can_id 24)
           else let out = out\<lparr>fr_port_id := ucast (drop_bit 8 can_id AND subject_id_max_13b),
                              fr_kind := KindMessage13b\<rparr> in
                if id_bit can_id 24
                then (out\<lparr>fr_src := node_id_anonymous\<rparr>, \<not> bit23 \<and> fr_start out \<and> fr_end out)
                else (out, \<not> bit23))"

definition rx_parse_v0 :: "u32 \<Rightarrow> rx_frame \<Rightarrow> rx_frame \<times> bool" where
  "rx_parse_v0 can_id out =
     (if id_bit can_id 7
      then let dst = ucast (drop_bit 8 can_id AND node_id_max);
               out = out\<lparr>fr_dst := dst,
                         fr_port_id := ucast (drop_bit 16 can_id AND 0xFF),
                         fr_kind := (if id_bit can_id 15 then KindV0Request else KindV0Response)\<rparr>
           in (out, dst \<noteq> 0 \<and> fr_src out \<noteq> 0 \<and> fr_src out \<noteq> dst)
      else let out = out\<lparr>fr_dst := node_id_anonymous, fr_kind := KindV0Message\<rparr> in
           if fr_src out = 0
           then (out\<lparr>fr_src := node_id_anonymous, fr_port_id := ucast (drop_bit 8 can_id AND 0x3)\<rparr>,
                 fr_start out \<and> fr_end out)
           else (out\<lparr>fr_port_id := ucast (drop_bit 8 can_id AND 0xFFFF)\<rparr>, True))"

text \<open>The mask (bit 0: the frame is a v0 frame, bit 1: it is a v1 frame) and the two frames.\<close>

definition rx_parse :: "u32 \<Rightarrow> bytes \<Rightarrow> u8 \<times> rx_frame \<times> rx_frame" where
  "rx_parse can_id raw =
     (if length raw < 1 then (0, rx_frame_zero, rx_frame_zero)
      else
        let tail = raw ! (length raw - 1);
            start = (tail AND tail_sot \<noteq> 0);
            eot = (tail AND tail_eot \<noteq> 0);
            toggle = (tail AND tail_toggle \<noteq> 0);
            payload = take (length raw - 1) raw;
            payload_ok = ((eot \<or> length raw \<ge> mtu_classic) \<and> ((start \<and> eot) \<or> length payload > 0));
            is_v1 = (\<not> (start \<and> \<not> toggle) \<and> payload_ok);
            is_v0 = (\<not> (start \<and> toggle) \<and> payload_ok);
            common = rx_frame_zero
              \<lparr>fr_priority := ucast (drop_bit prio_shift can_id),
               fr_src := ucast (can_id AND node_id_max),
               fr_transfer_id := tail AND transfer_id_max,
               fr_start := start, fr_end := eot, fr_toggle := toggle, fr_payload := payload\<rparr>;
            (out_v1, ok_v1) = (if is_v1 then rx_parse_v1 can_id common else (rx_frame_zero, False));
            (out_v0, ok_v0) = (if is_v0 then rx_parse_v0 can_id common else (rx_frame_zero, False))
        in ((if ok_v0 then 1 else 0) OR (if ok_v1 then 2 else 0), out_v0, out_v1))"

text \<open>The frames of a parse as options: what the mask says about each.\<close>

definition parsed_v0 :: "u32 \<Rightarrow> bytes \<Rightarrow> rx_frame option" where
  "parsed_v0 can_id raw =
     (case rx_parse can_id raw of (m, v0, v1) \<Rightarrow> if m AND 1 \<noteq> 0 then Some v0 else None)"

definition parsed_v1 :: "u32 \<Rightarrow> bytes \<Rightarrow> rx_frame option" where
  "parsed_v1 can_id raw =
     (case rx_parse can_id raw of (m, v0, v1) \<Rightarrow> if m AND 2 \<noteq> 0 then Some v1 else None)"

lemma id_bit_iff [simp]: "id_bit w n = bit w n"
  by (simp add: id_bit_def bit_iff_and_push_bit_not_eq_0)

lemma tail_bits:
  "(t AND tail_sot \<noteq> 0) = bit t 7" "(t AND tail_eot \<noteq> 0) = bit t 6" "(t AND tail_toggle \<noteq> 0) = bit t 5"
  by (simp_all add: can_const bit_iff_and_push_bit_not_eq_0)

text \<open>Both halves of a parse, spelled out.\<close>

definition frame_common :: "u32 \<Rightarrow> bytes \<Rightarrow> rx_frame" where
  "frame_common can_id raw =
     \<lparr>fr_priority = ucast (drop_bit 26 can_id), fr_kind = KindMessage16b, fr_port_id = 0, fr_dst = 0,
      fr_src = ucast (can_id AND 127), fr_transfer_id = last raw AND 31,
      fr_start = bit (last raw) 7, fr_end = bit (last raw) 6, fr_toggle = bit (last raw) 5,
      fr_payload = butlast raw\<rparr>"

definition frame_ok :: "bytes \<Rightarrow> bool" where
  "frame_ok raw \<longleftrightarrow> raw \<noteq> [] \<and> (bit (last raw) 6 \<or> 8 \<le> length raw) \<and>
     (bit (last raw) 7 \<and> bit (last raw) 6 \<or> 2 \<le> length raw)"

lemma pair_mask:
  "(((if a then 1 else 0) OR (if b then 2 else 0) :: u8) AND 1 \<noteq> 0) = a"
  "(((if a then 1 else 0) OR (if b then 2 else 0) :: u8) AND 2 \<noteq> 0) = b"
  by (cases a; cases b; simp)+

lemma rx_parse_alt:
  "raw \<noteq> [] \<Longrightarrow> rx_parse can_id raw =
     (let p1 = (if frame_ok raw \<and> \<not> (bit (last raw) 7 \<and> \<not> bit (last raw) 5)
                then rx_parse_v1 can_id (frame_common can_id raw) else (rx_frame_zero, False));
          p0 = (if frame_ok raw \<and> \<not> (bit (last raw) 7 \<and> bit (last raw) 5)
                then rx_parse_v0 can_id (frame_common can_id raw) else (rx_frame_zero, False))
      in ((if snd p0 then 1 else 0) OR (if snd p1 then 2 else 0), fst p0, fst p1))"
  unfolding rx_parse_def frame_ok_def tail_bits
  by (cases "length raw" rule: nat.exhaust)
    (auto simp: frame_common_def rx_frame_zero_def can_const last_conv_nth butlast_conv_take
      split_beta Let_def)

lemma rx_parse_empty: "rx_parse can_id [] = (0, rx_frame_zero, rx_frame_zero)"
  by (simp add: rx_parse_def)

lemma parsed_v1_alt:
  "parsed_v1 can_id raw =
     (if frame_ok raw \<and> \<not> (bit (last raw) 7 \<and> \<not> bit (last raw) 5)
         \<and> snd (rx_parse_v1 can_id (frame_common can_id raw))
      then Some (fst (rx_parse_v1 can_id (frame_common can_id raw))) else None)"
  by (cases "raw = []")
    (auto simp: parsed_v1_def rx_parse_empty rx_parse_alt Let_def pair_mask frame_ok_def)

lemma parsed_v0_alt:
  "parsed_v0 can_id raw =
     (if frame_ok raw \<and> \<not> (bit (last raw) 7 \<and> bit (last raw) 5)
         \<and> snd (rx_parse_v0 can_id (frame_common can_id raw))
      then Some (fst (rx_parse_v0 can_id (frame_common can_id raw))) else None)"
  by (cases "raw = []")
    (auto simp: parsed_v0_def rx_parse_empty rx_parse_alt Let_def pair_mask frame_ok_def)

subsection \<open>What a parsed frame is\<close>

lemma rx_parse_v1_keeps [simp]:
  "fr_start (fst (rx_parse_v1 i f)) = fr_start f" "fr_end (fst (rx_parse_v1 i f)) = fr_end f"
  "fr_toggle (fst (rx_parse_v1 i f)) = fr_toggle f" "fr_payload (fst (rx_parse_v1 i f)) = fr_payload f"
  "fr_transfer_id (fst (rx_parse_v1 i f)) = fr_transfer_id f"
  "fr_priority (fst (rx_parse_v1 i f)) = fr_priority f"
  by (simp_all add: rx_parse_v1_def Let_def)

lemma rx_parse_v0_keeps [simp]:
  "fr_start (fst (rx_parse_v0 i f)) = fr_start f" "fr_end (fst (rx_parse_v0 i f)) = fr_end f"
  "fr_toggle (fst (rx_parse_v0 i f)) = fr_toggle f" "fr_payload (fst (rx_parse_v0 i f)) = fr_payload f"
  "fr_transfer_id (fst (rx_parse_v0 i f)) = fr_transfer_id f"
  "fr_priority (fst (rx_parse_v0 i f)) = fr_priority f"
  by (simp_all add: rx_parse_v0_def Let_def)

lemma frame_common_sel [simp]:
  "fr_start (frame_common i raw) = bit (last raw) 7" "fr_end (frame_common i raw) = bit (last raw) 6"
  "fr_toggle (frame_common i raw) = bit (last raw) 5" "fr_payload (frame_common i raw) = butlast raw"
  "fr_transfer_id (frame_common i raw) = last raw AND 31"
  "fr_priority (frame_common i raw) = ucast (drop_bit 26 i)"
  "fr_src (frame_common i raw) = ucast (i AND 127)"
  by (simp_all add: frame_common_def)

lemma word_and_le: "(a AND b) \<le> (b :: 'a::len word)"
  by (rule word_and_le1)

lemma ucast_and_le:
  fixes a m :: "'a::len word"
  assumes "unat m < 2 ^ LENGTH('b)"
  shows "(ucast (a AND m) :: 'b::len word) \<le> ucast m"
proof -
  have "unat (a AND m) \<le> unat m" using word_and_le1 [of a m] by (simp add: word_le_nat_alt)
  then show ?thesis using assms by (simp add: word_le_nat_alt unsigned_ucast_eq take_bit_nat_eq_self)
qed

definition kind_port_max :: "kind \<Rightarrow> u16" where
  "kind_port_max k = (case k of KindMessage16b \<Rightarrow> 0xFFFF | KindMessage13b \<Rightarrow> 8191
     | KindResponse \<Rightarrow> 511 | KindRequest \<Rightarrow> 511 | KindV0Message \<Rightarrow> 0xFFFF
     | KindV0Response \<Rightarrow> 255 | KindV0Request \<Rightarrow> 255)"

lemma src_le: "(ucast (i AND 127 :: u32) :: u8) \<le> 127"
  using ucast_and_le [of "127 :: u32" i, where 'b = 8] by simp

lemma prio_less: "i \<le> can_ext_id_mask \<Longrightarrow> (ucast (drop_bit 26 i :: u32) :: u8) < 8"
proof -
  assume "i \<le> can_ext_id_mask"
  then have "unat i < 2 ^ 29" by (simp add: can_const word_le_nat_alt)
  then have "unat (drop_bit 26 i) < 8"
    by (simp add: drop_bit_eq_div unat_div less_mult_imp_div_less)
  then show ?thesis by (simp only: word_less_nat_alt unsigned_ucast_eq) (simp add: take_bit_nat_eq_self)
qed

lemma rx_parse_v1_header:
  assumes "snd (rx_parse_v1 i f)" and "fr_src f \<le> 127"
  shows "kind_version (fr_kind (fst (rx_parse_v1 i f))) = 1"
    and "fr_port_id (fst (rx_parse_v1 i f)) \<le> kind_port_max (fr_kind (fst (rx_parse_v1 i f)))"
    and "fr_src (fst (rx_parse_v1 i f)) \<le> 127
       \<or> fr_src (fst (rx_parse_v1 i f)) = 255 \<and> fr_start f \<and> fr_end f"
    and "fr_dst (fst (rx_parse_v1 i f)) \<le> 127
       \<or> fr_dst (fst (rx_parse_v1 i f)) = 255"
  using assms ucast_and_le [of "511 :: u32" "drop_bit 14 i", where 'b = 16]
    ucast_and_le [of "8191 :: u32" "drop_bit 8 i", where 'b = 16]
    ucast_and_le [of "0xFFFF :: u32" "drop_bit 8 i", where 'b = 16]
    ucast_and_le [of "127 :: u32" "drop_bit 7 i", where 'b = 8]
  by (auto simp: rx_parse_v1_def Let_def kind_version_def kind_port_max_def can_const split: if_splits)

lemma rx_parse_v0_header:
  assumes "snd (rx_parse_v0 i f)" and "fr_src f \<le> 127"
  shows "kind_version (fr_kind (fst (rx_parse_v0 i f))) = 0"
    and "fr_port_id (fst (rx_parse_v0 i f)) \<le> kind_port_max (fr_kind (fst (rx_parse_v0 i f)))"
    and "fr_src (fst (rx_parse_v0 i f)) \<le> 127
       \<or> fr_src (fst (rx_parse_v0 i f)) = 255 \<and> fr_start f \<and> fr_end f"
    and "fr_dst (fst (rx_parse_v0 i f)) \<le> 127
       \<or> fr_dst (fst (rx_parse_v0 i f)) = 255"
  using assms ucast_and_le [of "0xFF :: u32" "drop_bit 16 i", where 'b = 16]
    order_trans [OF ucast_and_le [of "3 :: u32" "drop_bit 8 i", where 'b = 16], of "0xFFFF"]
    ucast_and_le [of "0xFFFF :: u32" "drop_bit 8 i", where 'b = 16]
    ucast_and_le [of "127 :: u32" "drop_bit 8 i", where 'b = 8]
  by (auto simp: rx_parse_v0_def Let_def kind_version_def kind_port_max_def can_const split: if_splits)

text \<open>A frame that the rest of the reception pipeline can rely on.\<close>

definition frame_valid :: "rx_frame \<Rightarrow> bool" where
  "frame_valid f \<longleftrightarrow> fr_priority f < 8 \<and> fr_transfer_id f \<le> 31 \<and>
     (fr_src f \<le> 127 \<or> fr_src f = node_id_anonymous \<and> fr_start f \<and> fr_end f) \<and>
     (fr_dst f \<le> 127 \<or> fr_dst f = node_id_anonymous) \<and>
     fr_port_id f \<le> kind_port_max (fr_kind f) \<and>
     (fr_start f \<longrightarrow> fr_toggle f = (kind_version (fr_kind f) = 1)) \<and>
     (\<not> fr_end f \<longrightarrow> 7 \<le> length (fr_payload f)) \<and>
     (fr_start f \<and> fr_end f \<or> fr_payload f \<noteq> [])"

lemma frame_ok_payload:
  "frame_ok raw \<Longrightarrow> (\<not> bit (last raw) 6 \<longrightarrow> 7 \<le> length (butlast raw)) \<and>
     (bit (last raw) 7 \<and> bit (last raw) 6 \<or> butlast raw \<noteq> [])"
  by (cases raw rule: rev_cases) (auto simp: frame_ok_def)

lemma parsed_frame_valid:
  assumes "i \<le> can_ext_id_mask" and "parsed_v1 i raw = Some f \<or> parsed_v0 i raw = Some f"
  shows "frame_valid f \<and> fr_payload f = butlast raw
    \<and> kind_version (fr_kind f) = (if parsed_v1 i raw = Some f then 1 else 0)"
proof -
  have tid: "last raw AND 31 \<le> (31 :: u8)" by (rule word_and_le)
  note c = tid prio_less [OF assms(1)] src_le [of i]
  show ?thesis
  proof (cases "parsed_v1 i raw = Some f")
    case True
    then have f: "f = fst (rx_parse_v1 i (frame_common i raw))" and ok: "snd (rx_parse_v1 i (frame_common i raw))"
      and raw: "frame_ok raw" and t: "\<not> (bit (last raw) 7 \<and> \<not> bit (last raw) 5)"
      by (auto simp: parsed_v1_alt split: if_splits)
    have "fr_src (frame_common i raw) \<le> 127" using c by simp
    note h = rx_parse_v1_header [OF ok this]
    show ?thesis using True h c frame_ok_payload [OF raw] t
      by (auto simp: frame_valid_def f node_id_anonymous_def)
  next
    case False
    with assms(2) have "parsed_v0 i raw = Some f" by simp
    then have f: "f = fst (rx_parse_v0 i (frame_common i raw))" and ok: "snd (rx_parse_v0 i (frame_common i raw))"
      and raw: "frame_ok raw" and t: "\<not> (bit (last raw) 7 \<and> bit (last raw) 5)"
      by (auto simp: parsed_v0_alt split: if_splits)
    have "fr_src (frame_common i raw) \<le> 127" using c by simp
    note h = rx_parse_v0_header [OF ok this]
    show ?thesis using False h c frame_ok_payload [OF raw] t
      by (auto simp: frame_valid_def f node_id_anonymous_def)
  qed
qed

text \<open>C22: every frame that the parser reports, for an identifier of 29 bits, is well-formed: its
  priority indexes a slot, its transfer-ID has five bits, its node-IDs are at most 127 or
  anonymous (anonymous sources send single frames only), its port is in the range of its kind,
  a first frame has the toggle bit of its version, a frame that is not the last has at least
  seven payload bytes; and no first frame is taken for both versions.\<close>

theorem rx_parse_valid:
  assumes "i \<le> can_ext_id_mask" and "rx_parse i raw = (m, v0, v1)"
  shows "(m AND 1 \<noteq> 0 \<longrightarrow> frame_valid v0 \<and> kind_version (fr_kind v0) = 0 \<and> fr_payload v0 = butlast raw) \<and>
    (m AND 2 \<noteq> 0 \<longrightarrow> frame_valid v1 \<and> kind_version (fr_kind v1) = 1 \<and> fr_payload v1 = butlast raw) \<and>
    (m AND 1 \<noteq> 0 \<and> m AND 2 \<noteq> 0 \<longrightarrow> \<not> fr_start v0 \<and> \<not> fr_start v1)"
proof -
  have p0: "m AND 1 \<noteq> 0 \<Longrightarrow> parsed_v0 i raw = Some v0" and p1: "m AND 2 \<noteq> 0 \<Longrightarrow> parsed_v1 i raw = Some v1"
    using assms(2) by (simp_all add: parsed_v0_def parsed_v1_def)
  have n: "parsed_v1 i raw \<noteq> Some v0" if "m AND 1 \<noteq> 0"
  proof
    assume a: "parsed_v1 i raw = Some v0"
    from p0 [OF that] have "kind_version (fr_kind v0) = 0"
      using rx_parse_v0_header(1) [of i "frame_common i raw"] src_le [of i]
      by (auto simp: parsed_v0_alt split: if_splits)
    with parsed_frame_valid [OF assms(1), of raw v0] a show False by auto
  qed
  have "\<not> fr_start v0 \<and> \<not> fr_start v1" if "m AND 1 \<noteq> 0" "m AND 2 \<noteq> 0"
    using p0 [OF that(1)] p1 [OF that(2)]
    by (auto simp: parsed_v0_alt parsed_v1_alt split: if_splits)
  then show ?thesis
    using parsed_frame_valid [OF assms(1), of raw v0] parsed_frame_valid [OF assms(1), of raw v1] p0 p1 n
    by (auto split: if_splits)
qed

theorem rx_parse_valid_witness:
  "fst (rx_parse 0x107D552A [1, 2, 0xE5]) = 2 \<and> frame_valid (snd (snd (rx_parse 0x107D552A [1, 2, 0xE5])))"
proof -
  have e: "rx_parse 0x107D552A [1, 2, 0xE5] = (2, fst (snd (rx_parse 0x107D552A [1, 2, 0xE5])), snd (snd (rx_parse 0x107D552A [1, 2, 0xE5])))"
    by code_simp
  have "(0x107D552A :: u32) \<le> can_ext_id_mask" by (simp add: can_const)
  from rx_parse_valid [OF this e] show ?thesis by (subst e) simp
qed

end
