(* ===== verification/CanRx.thy ===== *)
theory CanRx
  imports CanState CanRxParse CanCrc
begin

text \<open>
  Reassembly of transfers (\<open>rx.go\<close> without its filters): slots, sessions, admission, delivery
  and subscriptions.  A session is indexed by the remote node-ID in the tree of its subscription,
  a subscription by its port-ID in the tree of its kind.  Panics of the code are values; a call of
  \<open>OnMessage\<close> is an entry of \<open>rx_deliveries\<close>.
\<close>

definition rx_session_timeout :: int where "rx_session_timeout = 30 * 1000 * 1000"

definition transfer_id_mask :: "u8 \<Rightarrow> u8" where "transfer_id_mask tid = tid AND transfer_id_max"
definition iface_mask :: "u8 \<Rightarrow> u8" where "iface_mask i = i AND (push_bit iface_count 1 - 1)"

definition set_session :: "canard \<Rightarrow> nat \<Rightarrow> rx_session \<Rightarrow> canard" where
  "set_session self s ses = self\<lparr>rx_sessions := (rx_sessions self)(s := ses)\<rparr>"

definition set_sub :: "canard \<Rightarrow> nat \<Rightarrow> subscription \<Rightarrow> canard" where
  "set_sub self b sub = self\<lparr>rx_subs := (rx_subs self)(b := sub)\<rparr>"

subsection \<open>Slots\<close>

definition rx_slot_new :: "subscription \<Rightarrow> int \<Rightarrow> u8 \<Rightarrow> u8 \<Rightarrow> go_panic + rx_slot" where
  "rx_slot_new sub start_ts tid iface =
     (let extent_full = (if kind_version (sub_kind sub) = 0 then sub_extent sub + int crc_bytes else sub_extent sub)
      in if extent_full < 0 then Inl NegativeLength
         else Inr \<lparr>sl_start_ts = start_ts, sl_extent = nat extent_full, sl_total_size = 0,
                   sl_crc = sub_crc_seed sub, sl_transfer_id = transfer_id_mask tid,
                   sl_iface_index = iface_mask iface,
                   sl_expected_toggle = (kind_version (sub_kind sub) \<noteq> 0),
                   sl_payload = replicate (nat extent_full) 0\<rparr>)"

definition rx_slot_advance :: "rx_slot \<Rightarrow> bytes \<Rightarrow> rx_slot" where
  "rx_slot_advance slot payload =
     (let slot = (if sl_total_size slot < of_nat (sl_extent slot)
                  then let at = unat (sl_total_size slot);
                           copy_size = min (length payload) (sl_extent slot - at);
                           buf = sl_payload slot
                       in slot\<lparr>sl_payload := take at buf @ take copy_size payload @ drop (at + copy_size) buf\<rparr>
                  else slot)
      in slot\<lparr>sl_total_size := of_nat (unat (sl_total_size slot) + length payload),
              sl_expected_toggle := \<not> sl_expected_toggle slot\<rparr>)"

text \<open>
  The verdict on a complete slot: nothing when the checksum is wrong, else the payload.  A slot
  without a buffer, or one too small for the checksum of a legacy transfer, panics.
\<close>

definition slot_bytes :: "bytes \<Rightarrow> int \<Rightarrow> int \<Rightarrow> go_panic + bytes" where
  "slot_bytes buf lo hi =
     (if 0 \<le> lo \<and> lo \<le> hi \<and> hi \<le> int (length buf) then Inr (take (nat (hi - lo)) (drop (nat lo) buf))
      else Inl SliceBounds)"

definition rx_slot_verdict :: "subscription \<Rightarrow> rx_slot \<Rightarrow> go_panic + bytes option" where
  "rx_slot_verdict sub slot =
     (let v1 = (kind_version (sub_kind sub) = 1); buf = sl_payload slot; crcb = int crc_bytes;
          total = int (unat (sl_total_size slot)); extent = int (sl_extent slot) in
      if \<not> v1 \<and> length buf < 2 then Inl IndexOutOfRange
      else
        let crc_ref = (if v1 then crc_residue else ucast (buf ! 0) OR push_bit 8 (ucast (buf ! 1))) in
        if sl_crc slot = crc_ref
        then
          let sz = (if v1 then smaller (total - crcb) extent else smaller (total - crcb) (extent - crcb)) in
          and_then (if v1 then slot_bytes buf 0 sz else slot_bytes buf crcb (crcb + sz))
            (\<lambda>view. if buf = [] then Inl IndexOutOfRange else Inr (Some view))
        else Inr None)"

subsection \<open>Sessions\<close>

definition slot_at :: "rx_session \<Rightarrow> u8 \<Rightarrow> go_panic + rx_slot option" where
  "slot_at ses prio =
     (if unat prio < length (ses_slots ses) then Inr (ses_slots ses ! unat prio) else Inl IndexOutOfRange)"

definition put_slot :: "rx_session \<Rightarrow> u8 \<Rightarrow> rx_slot option \<Rightarrow> rx_session" where
  "put_slot ses prio v = ses\<lparr>ses_slots := (ses_slots ses)[unat prio := v]\<rparr>"

definition rx_session_compare :: "canard \<Rightarrow> u8 \<Rightarrow> nat \<Rightarrow> int" where
  "rx_session_compare self k s = int (unat k) - int (unat (ses_node_id (rx_sessions self s)))"

text \<open>A new session at the next free address, at the end of the list by activity.\<close>

definition rx_session_factory :: "canard \<Rightarrow> nat \<Rightarrow> u8 \<Rightarrow> u8 \<Rightarrow> canard" where
  "rx_session_factory self owner iface nid =
     (let s = rx_session_fresh self in
      self\<lparr>rx_sessions := (rx_sessions self)(s :=
              \<lparr>ses_last_admission_ts = big_bang, ses_slots = replicate prio_count None, ses_owner = owner,
               ses_node_id = nid, ses_last_transfer_id = 0, ses_last_priority = 0, ses_iface_index = iface\<rparr>),
           rx_session_fresh := Suc s,
           rx_sessions_by_animation := remove1 s (rx_sessions_by_animation self) @ [s]\<rparr>)"

definition rx_session_destroy :: "canard \<Rightarrow> nat \<Rightarrow> canard" where
  "rx_session_destroy self s =
     (let b = ses_owner (rx_sessions self s);
          sub = rx_subs self b;
          self = set_sub self b (sub\<lparr>sub_sessions := index_remove s (sub_sessions sub)\<rparr>)
      in self\<lparr>rx_sessions_by_animation := remove1 s (rx_sessions_by_animation self)\<rparr>)"

text \<open>Dropping the slots that started too long ago; the result counts the others.\<close>

definition cleanup_deadline :: "canard \<Rightarrow> rx_session \<Rightarrow> int \<Rightarrow> int" where
  "cleanup_deadline self ses now =
     now - later rx_session_timeout (sub_transfer_id_timeout (rx_subs self (ses_owner ses)))"

definition cleanup_turn :: "int \<Rightarrow> nat \<Rightarrow> rx_slot option list \<times> nat \<Rightarrow> rx_slot option list \<times> nat" where
  "cleanup_turn deadline i = (\<lambda>(slots, n). case slots ! i of None \<Rightarrow> (slots, n)
     | Some slot \<Rightarrow> if sl_start_ts slot < deadline then (slots[i := None], n) else (slots, Suc n))"

definition rx_session_cleanup :: "canard \<Rightarrow> nat \<Rightarrow> int \<Rightarrow> canard \<times> nat" where
  "rx_session_cleanup self s now =
     (let ses = rx_sessions self s;
          deadline = cleanup_deadline self ses now;
          (slots, n) =
            fold (cleanup_turn deadline) [0..<prio_count] (ses_slots ses, 0)
      in (set_session self s (ses\<lparr>ses_slots := slots\<rparr>), n))"

subsection \<open>Delivery\<close>

definition deliver :: "canard \<Rightarrow> nat \<Rightarrow> int \<Rightarrow> rx_frame \<Rightarrow> bytes \<Rightarrow> canard" where
  "deliver self b ts fr payload =
     self\<lparr>rx_deliveries := rx_deliveries self @
            [\<lparr>dv_subscription = b, dv_timestamp = ts, dv_priority = fr_priority fr, dv_source = fr_src fr,
              dv_transfer_id = fr_transfer_id fr, dv_payload = payload\<rparr>]\<rparr>"

definition rx_session_complete_single_frame :: "canard \<Rightarrow> nat \<Rightarrow> int \<Rightarrow> rx_frame \<Rightarrow> canard" where
  "rx_session_complete_single_frame self b ts fr = deliver self b ts fr (fr_payload fr)"

definition rx_session_complete_slot :: "canard \<Rightarrow> nat \<Rightarrow> rx_frame \<Rightarrow> go_panic + canard" where
  "rx_session_complete_slot self s fr =
     (let ses = rx_sessions self s; b = ses_owner ses; sub = rx_subs self b in
      and_then (slot_at ses (fr_priority fr)) (\<lambda>sl.
        case sl of
          None \<Rightarrow> Inl NilDereference
        | Some slot \<Rightarrow>
            let self = set_session self s (put_slot ses (fr_priority fr) None) in
            and_then (rx_slot_verdict sub slot) (\<lambda>verdict.
              case verdict of
                Some view \<Rightarrow> Inr (deliver self b (sl_start_ts slot) fr view)
              | None \<Rightarrow> Inr (self\<lparr>err_rx_transfer := err_rx_transfer self + 1\<rparr>))))"

definition rx_session_accept :: "canard \<Rightarrow> nat \<Rightarrow> int \<Rightarrow> rx_frame \<Rightarrow> go_panic + canard" where
  "rx_session_accept self s ts fr =
     (let ses = rx_sessions self s; b = ses_owner ses; sub = rx_subs self b in
      and_then (slot_at ses (fr_priority fr)) (\<lambda>sl.
        case sl of
          Some slot \<Rightarrow>
            let slot = rx_slot_advance slot (fr_payload fr);
                skip = kind_version (sub_kind sub) = 0 \<and> fr_start fr
            in if skip \<and> length (fr_payload fr) < crc_bytes then Inl SliceBounds
               else
                 let crc_input = (if skip then drop crc_bytes (fr_payload fr) else fr_payload fr);
                     slot = slot\<lparr>sl_crc := crc_add (sl_crc slot) (length crc_input) crc_input\<rparr>;
                     self = set_session self s (put_slot ses (fr_priority fr) (Some slot))
                 in if fr_end fr then rx_session_complete_slot self s fr else Inr self
        | None \<Rightarrow> Inr (rx_session_complete_single_frame self b ts fr)))"

subsection \<open>Admission\<close>

definition rx_session_record_admission :: "rx_session \<Rightarrow> u8 \<Rightarrow> u8 \<Rightarrow> int \<Rightarrow> u8 \<Rightarrow> rx_session" where
  "rx_session_record_admission ses prio tid ts iface =
     ses\<lparr>ses_last_admission_ts := ts, ses_last_transfer_id := transfer_id_mask tid,
         ses_last_priority := prio AND 7, ses_iface_index := iface_mask iface\<rparr>"

definition rx_session_solve_admission ::
  "subscription \<Rightarrow> rx_session \<Rightarrow> int \<Rightarrow> u8 \<Rightarrow> bool \<Rightarrow> bool \<Rightarrow> u8 \<Rightarrow> u8 \<Rightarrow> go_panic + bool"
where
  "rx_session_solve_admission owner ses ts prio start toggle tid iface =
     (if \<not> start
      then and_then (slot_at ses prio) (\<lambda>sl. Inr (case sl of
             None \<Rightarrow> False
           | Some slot \<Rightarrow> sl_transfer_id slot = tid \<and> sl_iface_index slot = iface
                           \<and> sl_expected_toggle slot = toggle))
      else
        let fresh = (tid \<noteq> ses_last_transfer_id ses \<or> prio \<noteq> ses_last_priority ses);
            affine = (ses_iface_index ses = iface);
            stale = (ts - sub_transfer_id_timeout owner > ses_last_admission_ts ses)
        in Inr ((fresh \<and> affine) \<or> (affine \<and> stale) \<or> (stale \<and> fresh)))"

subsection \<open>A frame for a subscription\<close>

text \<open>
  What \<open>rxSessionUpdate\<close> does with the session it found: admission, the slot of a
  first frame, acceptance.
\<close>

definition rx_session_step :: "canard \<Rightarrow> nat \<Rightarrow> nat \<Rightarrow> int \<Rightarrow> rx_frame \<Rightarrow> u8 \<Rightarrow> go_panic + canard" where
  "rx_session_step self b s ts frame iface =
     (let ses = rx_sessions self s in
      and_then (rx_session_solve_admission (rx_subs self (ses_owner ses)) ses ts (fr_priority frame)
                  (fr_start frame) (fr_toggle frame) (fr_transfer_id frame) iface) (\<lambda>admit.
        if \<not> admit then Inr self
        else if fr_start frame
        then let self = self\<lparr>rx_sessions_by_animation := remove1 s (rx_sessions_by_animation self) @ [s]\<rparr> in
          and_then (slot_at ses (fr_priority frame)) (\<lambda>old.
            let self = set_session self s (put_slot ses (fr_priority frame) None) in
            and_then
              (if fr_end frame then Inr self
               else let (self, _) = rx_session_cleanup self s ts in
                 and_then (rx_slot_new (rx_subs self b) ts (fr_transfer_id frame) iface) (\<lambda>slot.
                   Inr (set_session self s (put_slot (rx_sessions self s) (fr_priority frame) (Some slot)))))
              (\<lambda>self. rx_session_accept
                 (set_session self s (rx_session_record_admission (rx_sessions self s) (fr_priority frame)
                    (fr_transfer_id frame) ts iface)) s ts frame))
        else rx_session_accept self s ts frame))"

text \<open>
  The session of the sender: found or made for a first frame, only found for the others.
\<close>

definition rx_session_lookup :: "canard \<Rightarrow> nat \<Rightarrow> rx_frame \<Rightarrow> u8 \<Rightarrow> canard \<times> nat option" where
  "rx_session_lookup self b frame iface =
     (let sub = rx_subs self b; cmp = rx_session_compare self (fr_src frame) in
      if fr_start frame
      then let fresh = rx_session_fresh self;
               (t, s) = index_find_or_insert cmp fresh (sub_sessions sub)
           in (set_sub (if s = fresh then rx_session_factory self b iface (fr_src frame) else self) b
                 (sub\<lparr>sub_sessions := t\<rparr>), Some s)
      else (self, index_find cmp (sub_sessions sub)))"

definition rx_session_update :: "canard \<Rightarrow> nat \<Rightarrow> int \<Rightarrow> rx_frame \<Rightarrow> u8 \<Rightarrow> go_panic + canard" where
  "rx_session_update self b ts frame iface =
     (if fr_src frame = node_id_anonymous
      then Inr (rx_session_complete_single_frame self b ts frame)
      else case rx_session_lookup self b frame iface of
             (self, None) \<Rightarrow> Inr self
           | (self, Some s) \<Rightarrow> rx_session_step self b s ts frame iface)"

subsection \<open>Subscriptions\<close>

definition rx_subscription_compare :: "canard \<Rightarrow> u16 \<Rightarrow> nat \<Rightarrow> int" where
  "rx_subscription_compare self k b = int (unat k) - int (unat (sub_port_id (rx_subs self b)))"

definition rx_find_subscription :: "canard \<Rightarrow> kind \<Rightarrow> u16 \<Rightarrow> nat option" where
  "rx_find_subscription self k port = index_find (rx_subscription_compare self port) (rx_subscriptions self k)"

definition rx_route :: "canard \<Rightarrow> rx_frame \<Rightarrow> nat option" where
  "rx_route self fr =
     (if fr_dst fr \<noteq> node_id_anonymous \<and> fr_dst fr \<noteq> node_id self then None
      else rx_find_subscription self (fr_kind fr) (fr_port_id fr))"

text \<open>
  Registration of the subscription object at an address.  The result is the object that holds
  the port, an older one if the port was taken; the object is written to in any case.
\<close>

definition rx_subscribe :: "canard \<Rightarrow> nat \<Rightarrow> kind \<Rightarrow> u16 \<Rightarrow> u16 \<Rightarrow> int \<Rightarrow> int \<Rightarrow> bool \<Rightarrow> canard \<times> nat option" where
  "rx_subscribe self b k port seed extent timeout vtable_ok =
     (if vtable_ok \<and> timeout \<ge> 0
      then let self = set_sub self b \<lparr>sub_transfer_id_timeout = timeout, sub_extent = extent,
                        sub_port_id = port, sub_crc_seed = seed, sub_kind = k, sub_sessions = CLeaf\<rparr>;
               (t, r) = index_find_or_insert (rx_subscription_compare self port) b (rx_subscriptions self k)
           in (self\<lparr>rx_subscriptions := (rx_subscriptions self)(k := t),
                    rx_filters_dirty := rx_filters_dirty self \<or> r = b\<rparr>, Some r)
      else (self, None))"

end
