(* ===== verification/CanTxFrame.thy ===== *)
theory CanTxFrame
  imports CanState CanCrc CanDlc
begin

text \<open>
  The frames of a transfer (first part of \<open>tx.go\<close>): allocation and reference counting of
  frames, the tail byte, and the two spoolers that cut a payload into frames.  Shown here:
  the frames of a spool carry, in order, the payload followed by its checksum, cut into
  pieces of the frame size, each followed by its tail byte; their number is the one that
  \<open>txPredictFrameCount\<close> promised, and the out-of-memory path is never taken.
\<close>

subsection \<open>Frames\<close>

definition tx_frame_view :: "canard \<Rightarrow> nat \<Rightarrow> bytes" where
  "tx_frame_view self f = take (tf_size (tx_frames self f)) (tf_data (tx_frames self f))"

text \<open>Allocation; the callers ask for at least one byte, the tail.\<close>

definition tx_frame_new :: "canard \<Rightarrow> nat \<Rightarrow> (canard \<times> nat) option" where
  "tx_frame_new self data_size =
     (if data_size > mtu_fd then None
      else let f = tx_frame_fresh self in
        Some (self\<lparr>tx_frames := (tx_frames self)(f :=
                      \<lparr>tf_size = data_size, tf_refcount = 1, tf_dlc = len_to_dlc ! data_size,
                       tf_data = replicate data_size 0, tf_registered = True\<rparr>),
                   tx_frame_fresh := Suc f,
                   tx_queue_size := tx_queue_size self + 1\<rparr>, f))"

lemma tx_frame_new_dlc:
  "tx_frame_new self n = Some (self', f) \<Longrightarrow> tf_dlc (tx_frames self' f) = len_to_dlc ! n"
  by (auto simp: tx_frame_new_def Let_def split: if_splits)

text \<open>A view that is not the start of a registered frame is ignored.\<close>

definition ref_count_inc :: "canard \<Rightarrow> nat \<Rightarrow> canard" where
  "ref_count_inc self f =
     (if tf_size (tx_frames self f) = 0 \<or> \<not> tf_registered (tx_frames self f) then self
      else self\<lparr>tx_frames := (tx_frames self)(f := (tx_frames self f)
                  \<lparr>tf_refcount := tf_refcount (tx_frames self f) + 1\<rparr>)\<rparr>)"

definition ref_count_dec :: "canard \<Rightarrow> nat \<Rightarrow> canard" where
  "ref_count_dec self f =
     (if tf_size (tx_frames self f) = 0 \<or> \<not> tf_registered (tx_frames self f) then self
      else let rc = tf_refcount (tx_frames self f) - 1;
               self = self\<lparr>tx_frames := (tx_frames self)(f := (tx_frames self f)\<lparr>tf_refcount := rc\<rparr>)\<rparr>
           in if rc = 0
              then self\<lparr>tx_queue_size := tx_queue_size self - 1,
                        tx_frames := (tx_frames self)(f := (tx_frames self f)\<lparr>tf_registered := False\<rparr>)\<rparr>
              else self)"

definition set_frame_data :: "canard \<Rightarrow> nat \<Rightarrow> bytes \<Rightarrow> canard" where
  "set_frame_data self f d =
     self\<lparr>tx_frames := (tx_frames self)(f := (tx_frames self f)\<lparr>tf_data := d\<rparr>)\<rparr>"

definition tx_make_tail_byte :: "bool \<Rightarrow> bool \<Rightarrow> bool \<Rightarrow> u8 \<Rightarrow> u8" where
  "tx_make_tail_byte sot eot tog transfer_id =
     (let b = 0;
          b = (if sot then b OR tail_sot else b);
          b = (if eot then b OR tail_eot else b);
          b = (if tog then b OR tail_toggle else b)
      in b OR (transfer_id AND transfer_id_max))"

definition tx_ceil_frame_payload_size :: "nat \<Rightarrow> nat" where
  "tx_ceil_frame_payload_size x =
     (if x \<ge> length len_to_dlc
      then dlc_to_len ! (len_to_dlc ! (length len_to_dlc - 1))
      else dlc_to_len ! (len_to_dlc ! x))"

text \<open>Copying a piece of a list over another, from an index.\<close>

definition blit :: "nat \<Rightarrow> 'a list \<Rightarrow> 'a list \<Rightarrow> 'a list" where
  "blit i src dst = take i dst @ src @ drop (i + length src) dst"

record payload_reader =
  rd_data :: bytes
  rd_pos :: nat

definition reader_init :: "bytes \<Rightarrow> payload_reader" where
  "reader_init p = \<lparr>rd_data = p, rd_pos = 0\<rparr>"

definition reader_read :: "payload_reader \<Rightarrow> nat \<Rightarrow> bytes \<times> payload_reader" where
  "reader_read r n = (take n (drop (rd_pos r) (rd_data r)), r\<lparr>rd_pos := rd_pos r + n\<rparr>)"

definition tx_free_chain :: "canard \<Rightarrow> nat list \<Rightarrow> canard" where
  "tx_free_chain self fs = fold (\<lambda>f c. ref_count_dec c f) fs self"

subsection \<open>The spooler of Cyphal transfers\<close>

definition mtu_of :: "bool \<Rightarrow> nat" where
  "mtu_of fd = (if fd then mtu_fd else mtu_classic)"

text \<open>The size of the next frame, with its tail byte, when so many bytes remain.\<close>

definition frame_size_at :: "bool \<Rightarrow> nat \<Rightarrow> nat" where
  "frame_size_at fd remaining =
     (if remaining < mtu_of fd - 1
      then (if mtu_of fd = mtu_classic then tx_ceil_frame_payload_size (remaining + 1) else remaining + 1)
      else mtu_of fd)"

text \<open>
  One turn of the loop of \<open>txSpool\<close> fills a frame from the reader: the data, the index
  behind what was filled in, and the reader, checksum and offset afterwards.
\<close>

definition pad_frame :: "nat \<Rightarrow> bytes \<times> nat \<times> u16 \<Rightarrow> bytes \<times> nat \<times> u16" where
  "pad_frame frame_size = (\<lambda>(data, at, crc).
     fold (\<lambda>_ (data, at, crc). (data[at := padding_byte], Suc at, crc_add_byte crc padding_byte))
       [0..<frame_size - crc_bytes - at] (data, at, crc))"

definition fill_payload ::
  "nat \<Rightarrow> nat \<Rightarrow> payload_reader \<Rightarrow> u16 \<Rightarrow> nat \<Rightarrow> bytes \<times> nat \<times> payload_reader \<times> u16 \<times> nat"
where
  "fill_payload frame_size_with_tail sz reader crc off =
     (let data = replicate frame_size_with_tail 0 in
      if off < sz
      then let move_size = min (sz - off) (frame_size_with_tail - 1);
               (piece, reader) = reader_read reader move_size;
               data = blit 0 piece data
           in (data, move_size, reader, crc_add crc move_size (take move_size data), off + move_size)
      else (data, 0, reader, crc, off))"

definition fill_crc :: "nat \<Rightarrow> nat \<Rightarrow> bytes \<times> nat \<times> u16 \<times> nat \<Rightarrow> bytes \<times> nat \<times> u16 \<times> nat" where
  "fill_crc frame_size sz = (\<lambda>(data, at, crc, off).
     if off \<ge> sz
     then let (data, at, crc) = pad_frame frame_size (data, at, crc);
              (data, at, off) =
                (if at < frame_size \<and> off = sz
                 then (data[at := ucast (drop_bit 8 crc AND 0xFF)], at + 1, off + 1)
                 else (data, at, off));
              (data, at, off) =
                (if at < frame_size \<and> off > sz
                 then (data[at := ucast (crc AND 0xFF)], at + 1, off + 1)
                 else (data, at, off))
          in (data, at, crc, off)
     else (data, at, crc, off))"

definition tx_frame_fill ::
  "nat \<Rightarrow> nat \<Rightarrow> payload_reader \<Rightarrow> u16 \<Rightarrow> nat \<Rightarrow> bytes \<times> nat \<times> payload_reader \<times> u16 \<times> nat"
where
  "tx_frame_fill frame_size_with_tail sz reader crc off =
     (let (data, at, reader, crc, off) = fill_payload frame_size_with_tail sz reader crc off;
          (data, at, crc, off) = fill_crc (frame_size_with_tail - 1) sz (data, at, crc, off)
      in (data, at, reader, crc, off))"

lemma mtu_cases: "mtu_of fd = 8 \<or> mtu_of fd = 64"
  by (simp add: mtu_of_def can_const)

lemma ceil_classic: "x < 9 \<Longrightarrow> tx_ceil_frame_payload_size x = x"
  using dlc_round_classic [of x] by (simp add: tx_ceil_frame_payload_size_def)

lemma frame_size_at_eq: "frame_size_at fd remaining = Suc (min (mtu_of fd - 1) remaining)"
  using mtu_cases [of fd] by (auto simp: frame_size_at_def ceil_classic can_const mtu_of_def)

lemma frame_size_at_small: "frame_size_at fd 2 = 3" "frame_size_at fd (Suc 0) = 2"
  using mtu_cases [of fd] by (auto simp: frame_size_at_eq)

lemma tx_frame_fill_crc:
  "tx_frame_fill 3 sz reader crc sz =
     ([ucast (drop_bit 8 crc AND 0xFF), ucast (crc AND 0xFF), 0], 2, reader, crc, sz + 2)"
  "tx_frame_fill 2 sz reader crc (Suc sz) = ([ucast (crc AND 0xFF), 0], 1, reader, crc, sz + 2)"
  by (simp_all add: tx_frame_fill_def fill_payload_def fill_crc_def pad_frame_def numeral_2_eq_2 numeral_3_eq_3 crc_bytes_def)

lemma tx_frame_fill_off:
  assumes "off < sz"
  shows "off + min (sz - off) (n - 1) \<le> snd (snd (snd (snd (tx_frame_fill n sz reader crc off))))"
  using assms by (simp add: tx_frame_fill_def fill_payload_def fill_crc_def Let_def split_beta)

lemma tx_frame_fill_progress:
  assumes "off < sz + crc_bytes"
  shows "off < snd (snd (snd (snd (tx_frame_fill (frame_size_at fd (sz + crc_bytes - off)) sz reader crc off))))"
proof (cases "off < sz")
  case True
  have "0 < frame_size_at fd (sz + crc_bytes - off) - 1"
    using assms mtu_cases [of fd] by (auto simp: frame_size_at_eq)
  with True tx_frame_fill_off [OF True, of "frame_size_at fd (sz + crc_bytes - off)" reader crc]
  show ?thesis by linarith
next
  case False
  with assms consider "off = sz" | "off = Suc sz" unfolding crc_bytes_def by linarith
  then show ?thesis
    by cases (simp_all add: can_const frame_size_at_small [simplified] tx_frame_fill_crc [simplified])
qed

text \<open>
  The loop.  A failed allocation releases the frames built so far; otherwise the chain grows
  by one frame per turn.
\<close>

function tx_spool_loop ::
  "canard \<Rightarrow> bool \<Rightarrow> u8 \<Rightarrow> nat \<Rightarrow> payload_reader \<Rightarrow> u16 \<Rightarrow> nat \<Rightarrow> bool \<Rightarrow> nat list
     \<Rightarrow> canard \<times> nat list option"
where
  "tx_spool_loop self fd transfer_id sz reader crc off toggle chain =
     (if off < sz + crc_bytes
      then let n = frame_size_at fd (sz + crc_bytes - off) in
        (case tx_frame_new self n of
           None \<Rightarrow> (tx_free_chain self chain, None)
         | Some (self, item) \<Rightarrow>
             let fill = tx_frame_fill n sz reader crc off;
                 data = fst fill; at = fst (snd fill); reader = fst (snd (snd fill));
                 crc = fst (snd (snd (snd fill))); off = snd (snd (snd (snd fill)));
                 data = data[at := tx_make_tail_byte (chain = []) (off \<ge> sz + crc_bytes) toggle transfer_id]
             in tx_spool_loop (set_frame_data self item data) fd transfer_id sz reader crc off
                  (\<not> toggle) (chain @ [item]))
      else (self, Some chain))"
  by pat_completeness auto
termination
proof (relation "measure (\<lambda>(self, fd, tid, sz, reader, crc, off, toggle, chain). sz + crc_bytes - off)",
    goal_cases)
  case 1
  show ?case by simp
next
  case (2 self fd tid sz reader crc off toggle chain n a self' item fill data at reader' crc' off' data')
  have "off < off'"
    unfolding 2(10) 2(5) 2(2) by (rule tx_frame_fill_progress [OF 2(1)])
  with 2(1) show ?case by (simp add: diff_less_mono2)
qed

declare tx_spool_loop.simps [simp del]

definition tx_spool :: "canard \<Rightarrow> u16 \<Rightarrow> bool \<Rightarrow> u8 \<Rightarrow> bytes \<Rightarrow> canard \<times> nat list option" where
  "tx_spool self crc_seed fd transfer_id payload =
     (let sz = length payload; reader = reader_init payload; toggle = True in
      if sz < mtu_of fd
      then let frame_size = (if mtu_of fd = mtu_classic then tx_ceil_frame_payload_size (sz + 1) else sz + 1) in
        (case tx_frame_new self frame_size of
           None \<Rightarrow> (self, None)
         | Some (self, head) \<Rightarrow>
             let data = blit 0 (fst (reader_read reader sz)) (replicate frame_size 0);
                 data = fold (\<lambda>i d. d[i := padding_byte]) [sz..<frame_size - 1] data;
                 data = data[frame_size - 1 := tx_make_tail_byte True True toggle transfer_id]
             in (set_frame_data self head data, Some [head]))
      else tx_spool_loop self fd transfer_id sz reader crc_seed 0 toggle [])"

subsection \<open>The spooler of legacy transfers\<close>

function tx_spool_v0_loop ::
  "canard \<Rightarrow> u8 \<Rightarrow> nat \<Rightarrow> payload_reader \<Rightarrow> nat \<Rightarrow> bool \<Rightarrow> nat list \<Rightarrow> canard \<times> nat list option"
where
  "tx_spool_v0_loop self transfer_id size_total reader off toggle chain =
     (if off < size_total
      then let frame_data_size = min (size_total - off + 1) mtu_classic in
        (case tx_frame_new self frame_data_size of
           None \<Rightarrow> (tx_free_chain self chain, None)
         | Some (self, item) \<Rightarrow>
             let progress = min (size_total - off) (dlc_to_len ! (tf_dlc (tx_frames self item)) - 1);
                 (piece, reader) = reader_read reader progress;
                 data = blit 0 piece (replicate frame_data_size 0);
                 off' = off + progress;
                 data = data[progress := tx_make_tail_byte (chain = []) (off' = size_total) toggle transfer_id]
             in tx_spool_v0_loop (set_frame_data self item data) transfer_id size_total reader off'
                  (\<not> toggle) (chain @ [item]))
      else (self, Some chain))"
  by pat_completeness auto
termination
proof (relation "measure (\<lambda>(self, tid, total, reader, off, toggle, chain). total - off)", goal_cases)
  case 1
  show ?case by simp
next
  case (2 self tid total reader off toggle chain n a self' item progress b piece reader' data off' data')
  from 2(2,3,4) have "tx_frame_new self n = Some (self', item)" by simp
  then have "tf_dlc (tx_frames self' item) = len_to_dlc ! n" by (rule tx_frame_new_dlc)
  moreover have n: "n < 9" "0 < n - 1" using 2(1,2) by (auto simp: can_const)
  ultimately have "0 < progress"
    using 2(1,5) dlc_round_classic [of n] by simp
  then show ?case using 2(1,9) by simp
qed

declare tx_spool_v0_loop.simps [simp del]

definition tx_spool_v0 :: "canard \<Rightarrow> u16 \<Rightarrow> u8 \<Rightarrow> bytes \<Rightarrow> canard \<times> nat list option" where
  "tx_spool_v0 self crc_seed transfer_id payload =
     (let sz = length payload; toggle = False in
      if sz < mtu_classic
      then (case tx_frame_new self (sz + 1) of
              None \<Rightarrow> (self, None)
            | Some (self, item) \<Rightarrow>
                let data = blit 0 (fst (reader_read (reader_init payload) sz)) (replicate (sz + 1) 0);
                    data = data[sz := tx_make_tail_byte True True toggle transfer_id]
                in (set_frame_data self item data, Some [item]))
      else
        let crc = crc_add_chain crc_seed payload;
            full = [ucast (crc AND 0xFF), ucast (drop_bit 8 crc AND 0xFF)] @ payload
        in tx_spool_v0_loop self transfer_id (sz + crc_bytes) (reader_init full) 0 toggle [])"

text \<open>How many frames a transfer takes, computed before it is spooled.\<close>

definition tx_predict_frame_count :: "nat \<Rightarrow> nat \<Rightarrow> nat" where
  "tx_predict_frame_count transfer_size mtu =
     (let bytes_per_frame = mtu - 1 in
      if transfer_size \<le> bytes_per_frame then 1
      else (transfer_size + crc_bytes + bytes_per_frame - 1) div bytes_per_frame)"

subsection \<open>What a transfer looks like on the bus\<close>

text \<open>
  The reference: the bytes cut into pieces of \<open>k\<close>, each followed by its tail byte.
\<close>

function tail_frames :: "nat \<Rightarrow> bool \<Rightarrow> bool \<Rightarrow> u8 \<Rightarrow> bytes \<Rightarrow> bytes list" where
  "tail_frames k sot tog tid xs =
     (if k = 0 \<or> length xs \<le> k then [xs @ [tx_make_tail_byte sot True tog tid]]
      else (take k xs @ [tx_make_tail_byte sot False tog tid]) # tail_frames k False (\<not> tog) tid (drop k xs))"
  by pat_completeness auto
termination
  by (relation "measure (\<lambda>(k, sot, tog, tid, xs). length xs)") auto

declare tail_frames.simps [simp del]

definition transfer_frames :: "u16 \<Rightarrow> bool \<Rightarrow> u8 \<Rightarrow> bytes \<Rightarrow> bytes list" where
  "transfer_frames seed fd tid payload =
     (if length payload < mtu_of fd then [payload @ [tx_make_tail_byte True True True tid]]
      else let crc = crc_add_chain seed payload in
           tail_frames (mtu_of fd - 1) True True tid (payload @ [crc_hi crc, crc_lo crc]))"

definition transfer_frames_v0 :: "u16 \<Rightarrow> u8 \<Rightarrow> bytes \<Rightarrow> bytes list" where
  "transfer_frames_v0 seed tid payload =
     (if length payload < 8 then [payload @ [tx_make_tail_byte True True False tid]]
      else let crc = crc_add_chain seed payload in
           tail_frames 7 True False tid ([crc_lo crc, crc_hi crc] @ payload))"

text \<open>The effect of allocating and filling one frame after the other.\<close>

definition frame_with :: "bytes \<Rightarrow> tx_frame" where
  "frame_with d = \<lparr>tf_size = length d, tf_refcount = 1, tf_dlc = len_to_dlc ! length d,
     tf_data = d, tf_registered = True\<rparr>"

definition alloc_chain :: "canard \<Rightarrow> bytes list \<Rightarrow> canard" where
  "alloc_chain self ds =
     self\<lparr>tx_frames := (\<lambda>f. if tx_frame_fresh self \<le> f \<and> f < tx_frame_fresh self + length ds
                           then frame_with (ds ! (f - tx_frame_fresh self)) else tx_frames self f),
          tx_frame_fresh := tx_frame_fresh self + length ds,
          tx_queue_size := tx_queue_size self + int (length ds)\<rparr>"

lemma alloc_chain_Nil [simp]: "alloc_chain self [] = self"
proof -
  have "(\<lambda>f. if tx_frame_fresh self \<le> f \<and> f < tx_frame_fresh self
      then frame_with ([] ! (f - tx_frame_fresh self)) else tx_frames self f) = tx_frames self"
    by (rule ext) auto
  then show ?thesis by (simp add: alloc_chain_def)
qed

lemma alloc_chain_fresh [simp]: "tx_frame_fresh (alloc_chain self ds) = tx_frame_fresh self + length ds"
  by (simp add: alloc_chain_def)

lemma alloc_chain_append: "alloc_chain (alloc_chain self ds) es = alloc_chain self (ds @ es)"
  by (simp add: alloc_chain_def nth_append fun_eq_iff)

lemma tx_frame_new_alloc:
  assumes "n \<le> 64" and "length d = n"
  shows "\<exists>self'. tx_frame_new self n = Some (self', tx_frame_fresh self) \<and>
     tf_dlc (tx_frames self' (tx_frame_fresh self)) = len_to_dlc ! n \<and>
     set_frame_data self' (tx_frame_fresh self) d = alloc_chain self [d]"
  using assms by (simp add: tx_frame_new_def set_frame_data_def alloc_chain_def Let_def mtu_fd_def
    frame_with_def fun_eq_iff)

subsection \<open>The spooler fills the frames of the reference\<close>

lemma blit_0: "length src \<le> length dst \<Longrightarrow> blit 0 src dst = src @ drop (length src) dst"
  by (simp add: blit_def)

lemma blit_zeros: "length d = k \<Longrightarrow> blit 0 d (replicate (Suc k) x) = d @ [x]"
  unfolding blit_def by (simp del: replicate_Suc) simp

lemma update_at_end: "(xs @ y # ys)[length xs := v] = xs @ v # ys"
  by simp

lemma pad_frame_none: "frame_size \<le> at + 2 \<Longrightarrow> pad_frame frame_size (data, at, crc) = (data, at, crc)"
  by (simp add: pad_frame_def crc_bytes_def)

lemma crc_bytes_eq: "ucast (drop_bit 8 crc AND 0xFF) = crc_hi crc" "ucast (crc AND 0xFF) = crc_lo crc"
  by (simp_all add: crc_hi_def crc_lo_def)

lemma replicate_drop_Suc: "replicate (Suc n) x = replicate k x @ replicate (Suc n - k) x" if "k \<le> n"
  using that by (metis le_Suc_eq le_add_diff_inverse replicate_add)

definition reader_at :: "bytes \<Rightarrow> nat \<Rightarrow> payload_reader" where
  "reader_at payload off = \<lparr>rd_data = payload, rd_pos = min off (length payload)\<rparr>"

lemma reader_at_read:
  "off < length payload \<Longrightarrow> m \<le> length payload - off \<Longrightarrow>
     reader_read (reader_at payload off) m = (take m (drop off payload), reader_at payload (off + m))"
  by (simp add: reader_read_def reader_at_def)

text \<open>Filling in payload bytes, then the checksum behind them.\<close>

lemma fill_payload_eq:
  assumes "off < length payload" and k: "0 < k"
    and crc: "crc = crc_add_chain seed (take off payload)" and m: "m = min (length payload - off) k"
  shows "fill_payload (Suc k) (length payload) (reader_at payload off) crc off =
    (take m (drop off payload) @ replicate (Suc k - m) 0, m, reader_at payload (off + m),
     crc_add_chain seed (take (off + m) payload), off + m)"
proof -
  define d where "d = take m (drop off payload)"
  have rd: "reader_read (reader_at payload off) m = (d, reader_at payload (off + m))"
    unfolding d_def using reader_at_read [OF assms(1), of m] m by simp
  have len: "length d = m" using m by (simp add: d_def)
  have data: "blit 0 d (replicate (Suc k) 0) = d @ replicate (Suc k - m) 0"
    using m len by (simp add: blit_0 del: replicate_Suc)
  have "crc_add crc m d = crc_add_chain crc d" by (simp add: crc_add_chain_def len)
  also have "\<dots> = crc_add_chain seed (take (off + m) payload)"
    by (simp add: crc d_def take_add crc_add_chain_append)
  finally have crc': "crc_add crc m d = crc_add_chain seed (take (off + m) payload)" .
  have t: "take m (d @ replicate (Suc k - m) 0) = d" using len by simp
  show ?thesis
    unfolding fill_payload_def Let_def diff_Suc_1 m [symmetric] rd d_def [symmetric]
    using assms(1) by (simp only: if_True data t crc' prod.case)
qed

lemma fill_crc_eq:
  assumes "length d = m" and "m \<le> k" and "k \<le> m + 2"
  shows "fill_crc k sz (d @ replicate (Suc k - m) 0, m, crc, sz) =
    (d @ take (k - m) [crc_hi crc, crc_lo crc] @ [0], k, crc, sz + (k - m))"
proof -
  note p = pad_frame_none [of k m "d @ replicate (Suc k - m) 0" crc, OF assms(3)]
  consider "k = m" | "k = Suc m" | "k = Suc (Suc m)" using assms(2,3) by linarith
  then show ?thesis
    using p assms(1) by cases (simp_all add: fill_crc_def crc_bytes_eq(1) crc_bytes_eq(2) [of crc]
        list_update_append numeral_2_eq_2 numeral_3_eq_3)
qed

text \<open>One frame: the next \<open>k\<close> bytes of the payload with its checksum.\<close>

lemma tx_frame_fill_data:
  assumes "off < length payload" and k: "0 < k" "off + k \<le> length payload + 2"
    and crc: "crc = crc_add_chain seed (take off payload)"
    and full: "full = payload @ [crc_hi (crc_add_chain seed payload), crc_lo (crc_add_chain seed payload)]"
  shows "tx_frame_fill (Suc k) (length payload) (reader_at payload off) crc off =
    (take k (drop off full) @ [0], k, reader_at payload (off + k),
     crc_add_chain seed (take (off + k) payload), off + k)"
proof -
  let ?n = "length payload"
  define m where "m = min (?n - off) k"
  define d where "d = take m (drop off payload)"
  have m: "m \<le> k" "m \<le> ?n - off" by (auto simp: m_def)
  have len: "length d = m" using m(2) by (simp add: d_def)
  note fp = fill_payload_eq [OF assms(1) k(1) crc m_def, folded d_def]
  show ?thesis
  proof (cases "off + m < ?n")
    case True
    then have "m = k" using m_def by simp
    with True fp show ?thesis by (simp add: tx_frame_fill_def fill_crc_def full d_def)
  next
    case False
    then have om: "off + m = ?n" "?n - off = m" using m assms(1) by auto
    have k2: "k \<le> m + 2" using k(2) om by simp
    have dd: "d = drop off payload" using om(2) by (simp add: d_def)
    have rest: "take k (drop off full) = d @ take (k - m) [crc_hi (crc_add_chain seed payload), crc_lo (crc_add_chain seed payload)]"
      using assms(1) m(1) len by (simp add: full dd)
    have rd': "reader_at payload ?n = reader_at payload (off + k)"
      using om m by (simp add: reader_at_def)
    have "off + k = ?n + (k - m)" and "take (off + k) payload = payload" using om m by simp_all
    with fp fill_crc_eq [OF len m(1) k2, of ?n "crc_add_chain seed payload"]
    show ?thesis by (simp add: tx_frame_fill_def om(1) rest rd' del: replicate_Suc)
  qed
qed

subsection \<open>The loop builds the frames of the reference\<close>

lemma tail_frames_length: "length d = k \<Longrightarrow> tail_frames k sot tog tid d = [d @ [tx_make_tail_byte sot True tog tid]]"
  by (simp add: tail_frames.simps [of k])

lemma frame_fits: "0 < n \<Longrightarrow> n \<le> mtu_of fd \<Longrightarrow> n \<le> 64"
  using mtu_cases [of fd] by auto

lemma tx_spool_loop_done: "\<not> off < sz + crc_bytes \<Longrightarrow>
  tx_spool_loop self fd tid sz reader crc off toggle chain = (self, Some chain)"
  by (subst tx_spool_loop.simps) simp

text \<open>One turn of the loop, once the contents of the frame are known.\<close>

lemma tx_spool_loop_turn:
  assumes "off < sz + crc_bytes" and n: "n = frame_size_at fd (sz + crc_bytes - off)"
    and fill: "tx_frame_fill n sz reader crc off = (d @ [0], n - 1, reader', crc', off')"
    and len: "length d = n - 1"
  shows "tx_spool_loop self fd tid sz reader crc off toggle chain =
    tx_spool_loop
      (alloc_chain self [d @ [tx_make_tail_byte (chain = []) (off' \<ge> sz + crc_bytes) toggle tid]])
      fd tid sz reader' crc' off' (\<not> toggle) (chain @ [tx_frame_fresh self])"
proof -
  let ?d = "d @ [tx_make_tail_byte (chain = []) (off' \<ge> sz + crc_bytes) toggle tid]"
  have n64: "n \<le> 64" "length ?d = n"
    using mtu_cases [of fd] len unfolding n frame_size_at_eq by auto
  from tx_frame_new_alloc [OF n64] obtain self' where
    "tx_frame_new self n = Some (self', tx_frame_fresh self)"
    "set_frame_data self' (tx_frame_fresh self) ?d = alloc_chain self [?d]" by blast
  moreover have "(d @ [0])[n - 1 := v] = d @ [v]" for v using len by (metis list_update_length)
  ultimately show ?thesis
    using assms(1) by (subst tx_spool_loop.simps) (simp add: Let_def n [symmetric] fill)
qed

definition with_crc :: "u16 \<Rightarrow> bytes \<Rightarrow> bytes" where
  "with_crc seed payload = payload @ [crc_hi (crc_add_chain seed payload), crc_lo (crc_add_chain seed payload)]"

lemma length_with_crc [simp]: "length (with_crc seed payload) = length payload + 2"
  by (simp add: with_crc_def)

lemma with_crc_ne [simp]: "with_crc seed payload \<noteq> []"
  by (simp add: with_crc_def)

text \<open>Whatever the offset, a turn takes the next bytes of the payload with its checksum.\<close>

lemma tx_frame_fill_any:
  assumes off: "off < length payload + 2" and k: "k = min (mtu_of fd - 1) (length payload + 2 - off)"
    and crc: "crc = crc_add_chain seed (take off payload)"
  shows "tx_frame_fill (Suc k) (length payload) (reader_at payload off) crc off =
    (take k (drop off (with_crc seed payload)) @ [0], k, reader_at payload (off + k),
     crc_add_chain seed (take (off + k) payload), off + k)"
proof -
  have kp: "0 < k" "off + k \<le> length payload + 2" using mtu_cases [of fd] off k by auto
  consider "off < length payload" | "off = length payload" | "off = Suc (length payload)"
    using off by linarith
  then show ?thesis
  proof cases
    case 1
    from tx_frame_fill_data [OF this kp crc] show ?thesis by (simp add: with_crc_def)
  next
    case 2
    then have "k = 2" using mtu_cases [of fd] k by auto
    with 2 tx_frame_fill_crc(1) [of "length payload"] crc show ?thesis
      by (simp add: with_crc_def crc_bytes_eq(1) crc_bytes_eq(2) [of "crc_add_chain seed payload"] reader_at_def)
  next
    case 3
    then have "k = 1" using mtu_cases [of fd] k by auto
    with 3 tx_frame_fill_crc(2) [of "length payload"] crc show ?thesis
      by (simp add: with_crc_def crc_bytes_eq(2) [of "crc_add_chain seed payload"] reader_at_def numeral_2_eq_2)
  qed
qed

lemma tx_spool_loop_spec:
  assumes "off < length payload + 2" and "crc = crc_add_chain seed (take off payload)"
    and "ds = tail_frames (mtu_of fd - 1) (chain = []) toggle tid (drop off (with_crc seed payload))"
  shows "tx_spool_loop self fd tid (length payload) (reader_at payload off) crc off toggle chain =
    (alloc_chain self ds, Some (chain @ [tx_frame_fresh self..<tx_frame_fresh self + length ds]))"
  using assms
proof (induction "length payload + 2 - off" arbitrary: off crc self chain toggle ds rule: less_induct)
  case less
  let ?m = "mtu_of fd - 1" and ?full = "with_crc seed payload" and ?f = "tx_frame_fresh self"
  have m: "0 < ?m" using mtu_cases [of fd] by auto
  define k where "k = min ?m (length payload + 2 - off)"
  define d where "d = take k (drop off ?full)"
  have k: "0 < k" "off + k \<le> length payload + 2" using less.prems(1) m by (auto simp: k_def)
  have dl: "length d = k" using k by (simp add: d_def)
  have n: "Suc k = frame_size_at fd (length payload + crc_bytes - off)"
    by (simp add: frame_size_at_eq k_def crc_bytes_def)
  note fill = tx_frame_fill_any [OF less.prems(1) k_def less.prems(2), folded d_def]
  let ?t = "tx_make_tail_byte (chain = []) (off + k \<ge> length payload + 2) toggle tid"
  have turn: "tx_spool_loop self fd tid (length payload) (reader_at payload off) crc off toggle chain =
      tx_spool_loop (alloc_chain self [d @ [?t]]) fd tid (length payload) (reader_at payload (off + k))
        (crc_add_chain seed (take (off + k) payload)) (off + k) (\<not> toggle) (chain @ [?f])"
    using tx_spool_loop_turn [where n = "Suc k" and d = d and off' = "off + k", OF _ n] fill dl less.prems(1)
    by (simp add: crc_bytes_def)
  show ?case
  proof (cases "off + k < length payload + 2")
    case True
    then have km: "k = ?m" by (simp add: k_def)
    let ?es = "tail_frames ?m False (\<not> toggle) tid (drop (off + k) ?full)"
    have long: "\<not> (?m = 0 \<or> length (drop off ?full) \<le> ?m)" using True m km by auto
    have "ds = (d @ [?t]) # ?es"
      unfolding less.prems(3) tail_frames.simps [of ?m "chain = []"] if_not_P [OF long]
      using True by (simp add: d_def km add.commute)
    moreover have "[?f..<?f + Suc (length ?es)] = ?f # [Suc ?f..<Suc ?f + length ?es]"
      by (simp add: upt_conv_Cons del: upt_Suc)
    ultimately show ?thesis using less.hyps [of "off + k" "crc_add_chain seed (take (off + k) payload)" ?es "chain @ [?f]" "\<not> toggle"
        "alloc_chain self [d @ [?t]]"] True k
      by (simp add: turn alloc_chain_append del: upt_Suc)
  next
    case False
    then have "off + k = length payload + 2" using k by simp
    moreover have "ds = [d @ [?t]]"
      using False m less.prems(3) k by (subst (asm) tail_frames.simps) (auto simp: d_def k_def)
    ultimately show ?thesis by (simp add: turn tx_spool_loop_done crc_bytes_def)
  qed
qed

lemma tx_spool_eq:
  "tx_spool self seed fd tid payload =
    (let ds = transfer_frames seed fd tid payload in
      (alloc_chain self ds, Some [tx_frame_fresh self..<tx_frame_fresh self + length ds]))"
proof (cases "length payload < mtu_of fd")
  case True
  let ?n = "length payload" and ?t = "tx_make_tail_byte True True True tid"
  have n: "(if mtu_of fd = mtu_classic then tx_ceil_frame_payload_size (?n + 1) else ?n + 1) = Suc ?n"
    using True ceil_classic [of "Suc ?n"] by (auto simp: mtu_classic_def)
  have n64: "Suc ?n \<le> 64" "length (payload @ [?t]) = Suc ?n" using True mtu_cases [of fd] by auto
  from tx_frame_new_alloc [OF n64] obtain self' where
    new: "tx_frame_new self (Suc ?n) = Some (self', tx_frame_fresh self)"
    "set_frame_data self' (tx_frame_fresh self) (payload @ [?t]) = alloc_chain self [payload @ [?t]]" by blast
  have b: "blit 0 payload (replicate (Suc ?n) 0) = payload @ [0]"
    by (rule blit_zeros) simp
  show ?thesis
    unfolding tx_spool_def Let_def n using True new
    by (simp add: reader_init_def reader_read_def transfer_frames_def b del: replicate_Suc)
next
  case False
  have "reader_init payload = reader_at payload 0" by (simp add: reader_init_def reader_at_def)
  with False tx_spool_loop_spec [of 0 payload seed seed _ fd "[]" True tid self] show ?thesis
    by (simp add: tx_spool_def transfer_frames_def with_crc_def Let_def)
qed

subsection \<open>The legacy loop\<close>

lemma tx_spool_v0_loop_spec:
  assumes "off < length full" and "ds = tail_frames 7 (chain = []) toggle tid (drop off full)"
  shows "tx_spool_v0_loop self tid (length full) \<lparr>rd_data = full, rd_pos = off\<rparr> off toggle chain =
    (alloc_chain self ds, Some (chain @ [tx_frame_fresh self..<tx_frame_fresh self + length ds]))"
  using assms
proof (induction "length full - off" arbitrary: off self chain toggle ds rule: less_induct)
  case less
  let ?f = "tx_frame_fresh self"
  define k where "k = min (length full - off) 7"
  define d where "d = take k (drop off full)"
  have k: "0 < k" "k \<le> 7" "off + k \<le> length full" using less.prems(1) by (auto simp: k_def)
  have dl: "length d = k" using k by (simp add: d_def)
  let ?t = "tx_make_tail_byte (chain = []) (off + k = length full) toggle tid"
  have n: "min (length full - off + 1) mtu_classic = Suc k" "min (length full + 1 - off) mtu_classic = Suc k"
    using less.prems(1) by (auto simp: k_def mtu_classic_def)
  have n64: "Suc k \<le> 64" "length (d @ [?t]) = Suc k" using k dl by auto
  from tx_frame_new_alloc [OF n64] obtain self' where
    new: "tx_frame_new self (Suc k) = Some (self', ?f)" "tf_dlc (tx_frames self' ?f) = len_to_dlc ! Suc k"
    "set_frame_data self' ?f (d @ [?t]) = alloc_chain self [d @ [?t]]" by blast
  have pr: "min (length full - off) (dlc_to_len ! (len_to_dlc ! Suc k) - 1) = k"
    using dlc_round_classic [of "Suc k"] k by (simp add: k_def)
  have b: "blit 0 d (replicate (Suc k) 0) = d @ [0]"
    using dl by (rule blit_zeros)
  have u: "(d @ [0])[k := v] = d @ [v]" for v using dl by (metis list_update_length)
  have turn: "tx_spool_v0_loop self tid (length full) \<lparr>rd_data = full, rd_pos = off\<rparr> off toggle chain =
      tx_spool_v0_loop (alloc_chain self [d @ [?t]]) tid (length full) \<lparr>rd_data = full, rd_pos = off + k\<rparr>
        (off + k) (\<not> toggle) (chain @ [?f])"
    using less.prems(1) new
    by (subst tx_spool_v0_loop.simps)
      (simp add: Let_def n pr b u reader_read_def d_def [symmetric] del: replicate_Suc One_nat_def)
  show ?case
  proof (cases "off + k < length full")
    case True
    then have k7: "k = 7" by (auto simp: k_def)
    have long: "\<not> ((7 :: nat) = 0 \<or> length (drop off full) \<le> 7)" using True k7 by auto
    let ?es = "tail_frames 7 False (\<not> toggle) tid (drop (off + k) full)"
    have "ds = (d @ [?t]) # ?es"
      unfolding less.prems(2) tail_frames.simps [of 7 "chain = []"] if_not_P [OF long]
      using True by (simp add: d_def k7 add.commute)
    moreover have "[?f..<?f + Suc (length ?es)] = ?f # [Suc ?f..<Suc ?f + length ?es]"
      by (simp add: upt_conv_Cons del: upt_Suc)
    ultimately show ?thesis
      using less.hyps [of "off + k" ?es "chain @ [?f]" "\<not> toggle" "alloc_chain self [d @ [?t]]"] True k
      by (simp add: turn alloc_chain_append del: upt_Suc)
  next
    case False
    then have e: "off + k = length full" using k by simp
    then have "length (drop off full) \<le> 7" using k by simp
    then have "ds = [d @ [?t]]"
      using less.prems(2) e by (subst (asm) tail_frames.simps) (simp add: d_def)
    with e show ?thesis by (simp add: turn tx_spool_v0_loop.simps [of _ _ "length full" _ "length full"])
  qed
qed

lemma tx_spool_v0_eq:
  "tx_spool_v0 self seed tid payload =
    (let ds = transfer_frames_v0 seed tid payload in
      (alloc_chain self ds, Some [tx_frame_fresh self..<tx_frame_fresh self + length ds]))"
proof (cases "length payload < 8")
  case True
  let ?n = "length payload" and ?t = "tx_make_tail_byte True True False tid"
  have n64: "Suc ?n \<le> 64" "length (payload @ [?t]) = Suc ?n" using True by auto
  from tx_frame_new_alloc [OF n64] obtain self' where
    new: "tx_frame_new self (Suc ?n) = Some (self', tx_frame_fresh self)"
    "set_frame_data self' (tx_frame_fresh self) (payload @ [?t]) = alloc_chain self [payload @ [?t]]" by blast
  have b: "blit 0 payload (replicate (Suc ?n) 0) = payload @ [0]"
    by (rule blit_zeros) simp
  show ?thesis
    unfolding tx_spool_v0_def Let_def mtu_classic_def using True new
    by (simp add: reader_init_def reader_read_def transfer_frames_v0_def b del: replicate_Suc)
next
  case False
  let ?c = "crc_add_chain seed payload"
  let ?full = "[crc_lo ?c, crc_hi ?c] @ payload"
  have "[ucast (?c AND 0xFF), ucast (drop_bit 8 ?c AND 0xFF)] @ payload = ?full"
    by (simp only: crc_bytes_eq(1)) (simp add: crc_bytes_eq(2) [of ?c])
  with False tx_spool_v0_loop_spec [of 0 ?full _ "[]" False tid self] show ?thesis
    by (simp add: tx_spool_v0_def transfer_frames_v0_def Let_def mtu_classic_def crc_bytes_def reader_init_def)
qed

subsection \<open>The number of frames\<close>

lemma length_tail_frames:
  "0 < k \<Longrightarrow> xs \<noteq> [] \<Longrightarrow> length (tail_frames k sot tog tid xs) = (length xs + k - 1) div k"
proof (induction k sot tog tid xs rule: tail_frames.induct)
  case (1 k sot tog tid xs)
  show ?case
  proof (cases "length xs \<le> k")
    case True
    then have "length xs + k - 1 = k + (length xs - 1)" and "length xs - 1 < k"
      using 1(2,3) by (auto simp: le_less_trans[of "length xs - 1" "length xs - 1"] neq_Nil_conv)
    then have "(length xs + k - 1) div k = 1" using 1(2) by (simp only: div_add_self1) simp
    with True show ?thesis by (subst tail_frames.simps) simp
  next
    case False
    then have "drop k xs \<noteq> []" and e: "length xs + k - 1 = (length xs - 1) + k" using 1(2) by auto
    moreover have "(length xs + k - 1) div k = Suc ((length xs - 1) div k)"
      unfolding e using 1(2) by (subst div_add_self2) auto
    ultimately show ?thesis using False 1 by (subst tail_frames.simps) simp
  qed
qed

lemma length_transfer_frames:
  "length (transfer_frames seed fd tid payload) = tx_predict_frame_count (length payload) (mtu_of fd)"
  using mtu_cases [of fd]
  by (auto simp: transfer_frames_def tx_predict_frame_count_def Let_def length_tail_frames crc_bytes_def)

lemma length_transfer_frames_v0:
  "length (transfer_frames_v0 seed tid payload) = tx_predict_frame_count (length payload) mtu_classic"
  by (auto simp: transfer_frames_v0_def tx_predict_frame_count_def Let_def length_tail_frames crc_bytes_def
      mtu_classic_def)

subsection \<open>The shape of the frames\<close>

lemma tail_byte_bits:
  "bit (tx_make_tail_byte sot eot tog tid) 7 = sot" "bit (tx_make_tail_byte sot eot tog tid) 6 = eot"
  "bit (tx_make_tail_byte sot eot tog tid) 5 = tog"
  "tx_make_tail_byte sot eot tog tid AND 31 = tid AND 31"
proof -
  have m: "(31 :: u8) = mask 5" and p: "(128 :: u8) = push_bit 7 1" "(64 :: u8) = push_bit 6 1"
    "(32 :: u8) = push_bit 5 1"
    by (simp_all add: mask_eq_exp_minus_1)
  note d = tx_make_tail_byte_def tail_sot_def tail_eot_def tail_toggle_def transfer_id_max_def Let_def m p
  show "bit (tx_make_tail_byte sot eot tog tid) 7 = sot" "bit (tx_make_tail_byte sot eot tog tid) 6 = eot"
    "bit (tx_make_tail_byte sot eot tog tid) 5 = tog"
    unfolding d by (simp_all add: bit_simps)
  show "tx_make_tail_byte sot eot tog tid AND 31 = tid AND 31"
    by (cases sot; cases eot; cases tog)
      (simp_all add: tx_make_tail_byte_def tail_sot_def tail_eot_def tail_toggle_def transfer_id_max_def
        bit.conj_disj_distrib2 and.assoc)
qed

lemma concat_tail_frames: "concat (map butlast (tail_frames k sot tog tid xs)) = xs"
proof (induction k sot tog tid xs rule: tail_frames.induct)
  case (1 k sot tog tid xs)
  then show ?case by (subst tail_frames.simps) auto
qed

lemma tail_frames_sizes:
  "0 < k \<Longrightarrow> d \<in> set (tail_frames k sot tog tid xs) \<Longrightarrow> 0 < length d \<and> length d \<le> Suc k"
proof (induction k sot tog tid xs rule: tail_frames.induct)
  case (1 k sot tog tid xs)
  then show ?case by (subst (asm) (2) tail_frames.simps) (auto split: if_splits)
qed

lemma tail_frames_ne [simp]: "tail_frames k sot tog tid xs \<noteq> []"
  by (subst tail_frames.simps) simp

lemma transfer_frames_ne [simp]: "transfer_frames seed fd tid payload \<noteq> []"
  "transfer_frames_v0 seed tid payload \<noteq> []"
  by (simp_all add: transfer_frames_def transfer_frames_v0_def Let_def)

lemma transfer_frames_sizes:
  "d \<in> set (transfer_frames seed fd tid payload) \<Longrightarrow> 0 < length d \<and> length d \<le> mtu_of fd"
  "d \<in> set (transfer_frames_v0 seed tid payload) \<Longrightarrow> 0 < length d \<and> length d \<le> 8"
  using mtu_cases [of fd] tail_frames_sizes [of "mtu_of fd - 1" d] tail_frames_sizes [of 7 d]
  by (auto simp: transfer_frames_def transfer_frames_v0_def Let_def split: if_splits)

text \<open>C21: \<open>txSpool\<close> never fails, and the frames it adds to the store, one after the other,
  are exactly those of the transfer: the payload alone when it fits one frame, otherwise the
  payload and its checksum, high byte first, cut into pieces of the frame size less one, each
  followed by a tail byte with the start flag on the first frame only, the end flag on the last
  only and the toggle alternating from one.  Their number is what \<open>txPredictFrameCount\<close> says and
  the queue size grows by it; no other part of the state changes.\<close>

theorem tx_spool_frames:
  "tx_spool self seed fd tid payload =
    (alloc_chain self (transfer_frames seed fd tid payload),
     Some [tx_frame_fresh self..<tx_frame_fresh self + tx_predict_frame_count (length payload) (mtu_of fd)])
   \<and> concat (map butlast (transfer_frames seed fd tid payload)) =
       (if length payload < mtu_of fd then payload else with_crc seed payload)"
  by (simp add: tx_spool_eq Let_def length_transfer_frames)
    (simp add: transfer_frames_def concat_tail_frames with_crc_def Let_def)

text \<open>\<open>txSpoolV0\<close> never fails either; a legacy transfer of several frames is its
  checksum, low byte first, followed by the payload, in pieces of seven bytes, with the toggle
  alternating from zero, and takes the predicted number of frames.\<close>

theorem tx_spool_v0_frames:
  "tx_spool_v0 self seed tid payload =
    (alloc_chain self (transfer_frames_v0 seed tid payload),
     Some [tx_frame_fresh self..<tx_frame_fresh self + tx_predict_frame_count (length payload) mtu_classic])
   \<and> concat (map butlast (transfer_frames_v0 seed tid payload)) =
       (if length payload < 8 then payload
        else [crc_lo (crc_add_chain seed payload), crc_hi (crc_add_chain seed payload)] @ payload)"
  by (simp add: tx_spool_v0_eq Let_def length_transfer_frames_v0)
    (simp add: transfer_frames_v0_def concat_tail_frames Let_def)

text \<open>
  A CAN FD frame is not padded to a length that a data length code can express, although the
  comment on \<open>txCeilFramePayloadSize\<close> has it so: the code calls that function for classic frames
  only, where it changes nothing.
\<close>

lemma fd_frame_not_padded:
  "map length (transfer_frames crc_initial True 0 [1, 2, 3, 4, 5, 6, 7, 8, 9]) = [10]
   \<and> 10 \<notin> set dlc_to_len"
  by (simp add: transfer_frames_def mtu_of_def mtu_fd_def dlc_to_len_def)

end
