(* ===== verification/CanReassembly.thy ===== *)
theory CanReassembly
  imports CanRx CanTxFrame
begin

text \<open>
  Reassembly against the reference of the transmitter: feeding the frames of a transfer, as
  theory \<open>CanTxFrame\<close> cuts them, to a session delivers the payload once, truncated to
  the extent of the subscription.
\<close>

subsection \<open>What a slot has received\<close>

definition slot_having :: "subscription \<Rightarrow> int \<Rightarrow> u8 \<Rightarrow> u8 \<Rightarrow> bool \<Rightarrow> bytes \<Rightarrow> bytes \<Rightarrow> rx_slot" where
  "slot_having sub ts tid iface toggle received summed =
     (let n = nat (if kind_version (sub_kind sub) = 0 then sub_extent sub + 2 else sub_extent sub) in
      \<lparr>sl_start_ts = ts, sl_extent = n, sl_total_size = of_nat (length received),
       sl_crc = crc_add_chain (sub_crc_seed sub) summed, sl_transfer_id = tid AND 31,
       sl_iface_index = iface_mask iface, sl_expected_toggle = toggle,
       sl_payload = take n received @ replicate (n - length received) 0\<rparr>)"

lemma slot_having_sel [simp]:
  "sl_start_ts (slot_having sub ts tid iface toggle xs ys) = ts"
  "sl_transfer_id (slot_having sub ts tid iface toggle xs ys) = tid AND 31"
  "sl_iface_index (slot_having sub ts tid iface toggle xs ys) = iface_mask iface"
  "sl_expected_toggle (slot_having sub ts tid iface toggle xs ys) = toggle"
  "sl_crc (slot_having sub ts tid iface toggle xs ys) = crc_add_chain (sub_crc_seed sub) ys"
  by (simp_all add: slot_having_def Let_def)

lemma kind_version_cases: "kind_version k = 0 \<or> kind_version k = 1"
  by (simp add: kind_version_def)

lemma rx_slot_new_having:
  "0 \<le> sub_extent sub \<Longrightarrow> rx_slot_new sub ts tid iface =
     Inr (slot_having sub ts tid iface (kind_version (sub_kind sub) = 1) [] [])"
  using kind_version_cases [of "sub_kind sub"]
  by (auto simp: rx_slot_new_def slot_having_def Let_def transfer_id_mask_def can_const crc_bytes_def)

lemma rx_slot_advance_having:
  assumes "sub_extent sub + 2 < 2 ^ 32" and "length xs + length ys < 2 ^ 32"
  shows "rx_slot_advance (slot_having sub ts tid iface toggle xs zs) ys =
    slot_having sub ts tid iface (\<not> toggle) (xs @ ys) zs"
proof -
  define n where "n = nat (if kind_version (sub_kind sub) = 0 then sub_extent sub + 2 else sub_extent sub)"
  have n: "n < 2 ^ 32" using assms(1) by (auto simp: n_def)
  have less: "(of_nat (length xs) :: u32) < of_nat n \<longleftrightarrow> length xs < n"
    using assms(2) n by (simp add: word_less_nat_alt unat_of_nat_small)
  have at: "unat (of_nat (length xs) :: u32) = length xs" using assms(2) by (simp add: unat_of_nat_small)
  have "take (length xs) (xs @ replicate (n - length xs) (0 :: byte)) @ take (min (length ys) (n - length xs)) ys
      @ drop (length xs + min (length ys) (n - length xs)) (xs @ replicate (n - length xs) 0)
      = take n (xs @ ys) @ replicate (n - (length xs + length ys)) 0" if "length xs < n"
    using that by (auto simp: min_def)
  then show ?thesis
    unfolding slot_having_def rx_slot_advance_def n_def [symmetric] Let_def
    by (auto simp: less at)
qed

subsection \<open>The verdict\<close>

lemma slot_bytes_ok:
  "0 \<le> lo \<Longrightarrow> 0 \<le> n \<Longrightarrow> lo + n \<le> int (length buf) \<Longrightarrow>
     slot_bytes buf lo (lo + n) = Inr (take (nat n) (drop (nat lo) buf))"
  by (simp add: slot_bytes_def)

lemma rx_slot_verdict_v1:
  assumes v: "kind_version (sub_kind sub) = 1" and e: "0 < sub_extent sub" "sub_extent sub + 2 < 2 ^ 32"
    and len: "length payload + 2 < 2 ^ 32"
    and full: "full = with_crc (sub_crc_seed sub) payload"
  shows "rx_slot_verdict sub (slot_having sub ts tid iface toggle full full) =
    Inr (Some (take (nat (sub_extent sub)) payload))"
proof -
  let ?n = "nat (sub_extent sub)" and ?l = "length payload"
  have crc: "crc_add_chain (sub_crc_seed sub) full = crc_residue"
    unfolding full with_crc_def by (rule crc_residue_append)
  have total: "unat (of_nat (length full) :: u32) = ?l + 2"
    unfolding full length_with_crc using len by (subst unat_of_nat_small) auto
  have sz: "smaller (int (?l + 2) - int crc_bytes) (int ?n) = int (min ?l ?n)"
    using e(1) by (auto simp: smaller_min crc_bytes_def min_def)
  let ?buf = "take ?n full @ replicate (?n - length full) (0 :: byte)"
  have "slot_bytes ?buf 0 (0 + int (min ?l ?n)) = Inr (take (min ?l ?n) ?buf)"
    by (subst slot_bytes_ok) auto
  moreover have "take (min ?l ?n) ?buf = take ?n payload"
    by (auto simp: full with_crc_def min_def)
  moreover have "?buf \<noteq> []" using e full by auto
  ultimately show ?thesis
    using v crc total sz by (simp add: rx_slot_verdict_def slot_having_def Let_def)
qed

lemma le_bytes_crc: "ucast (crc_lo c) OR push_bit 8 (ucast (crc_hi c)) = c"
  by (rule bit_word_eqI)
    (auto simp: crc_lo_def crc_hi_def bit_simps ff_mask not_less intro!: le_add_diff_inverse2 [symmetric]
      split: if_splits)

lemma rx_slot_verdict_v0:
  assumes v: "kind_version (sub_kind sub) = 0" and e: "0 \<le> sub_extent sub" "sub_extent sub + 2 < 2 ^ 32"
    and len: "length payload + 2 < 2 ^ 32"
    and c: "c = crc_add_chain (sub_crc_seed sub) payload"
  shows "rx_slot_verdict sub (slot_having sub ts tid iface toggle ([crc_lo c, crc_hi c] @ payload) payload) =
    Inr (Some (take (nat (sub_extent sub)) payload))"
proof -
  let ?n = "nat (sub_extent sub)" and ?l = "length payload"
  have total: "unat (of_nat (Suc (Suc ?l)) :: u32) = ?l + 2"
    using len by (subst unat_of_nat_small) auto
  have n2: "nat (sub_extent sub + 2) = Suc (Suc ?n)" using e by simp
  define buf where "buf = take ?n payload @ replicate (?n - ?l) (0 :: byte)"
  have sz: "smaller (int (?l + 2) - int crc_bytes) (int (Suc (Suc ?n)) - int crc_bytes) = int (min ?l ?n)"
    using e(1) by (auto simp: smaller_min crc_bytes_def min_def)
  have "slot_bytes (crc_lo c # crc_hi c # buf) 2 (2 + int (min ?l ?n)) = Inr (take (min ?l ?n) buf)"
    by (subst slot_bytes_ok) (auto simp: buf_def)
  moreover have "take (min ?l ?n) buf = take ?n payload" by (auto simp: buf_def min_def)
  ultimately show ?thesis
    using v total sz le_bytes_crc [of c]
    by (simp add: rx_slot_verdict_def slot_having_def Let_def n2 c [symmetric] buf_def [symmetric] crc_bytes_def)
qed

subsection \<open>One session\<close>

text \<open>The frames of one transfer, handed to the session one after the other.\<close>

fun rx_run :: "canard \<Rightarrow> nat \<Rightarrow> nat \<Rightarrow> u8 \<Rightarrow> (int \<times> rx_frame) list \<Rightarrow> go_panic + canard" where
  "rx_run self b s iface [] = Inr self"
| "rx_run self b s iface ((ts, fr) # frs) =
     and_then (rx_session_step self b s ts fr iface) (\<lambda>self. rx_run self b s iface frs)"

lemma set_session_set_session [simp]: "set_session (set_session self s a) s c = set_session self s c"
  by (simp add: set_session_def)

lemma set_session_sel [simp]:
  "rx_sessions (set_session self s ses) = (rx_sessions self)(s := ses)"
  "rx_subs (set_session self s ses) = rx_subs self"
  by (simp_all add: set_session_def)

lemma put_slot_sel [simp]:
  "ses_owner (put_slot ses p v) = ses_owner ses"
  "length (ses_slots (put_slot ses p v)) = length (ses_slots ses)"
  "put_slot (put_slot ses p v) p w = put_slot ses p w"
  by (simp_all add: put_slot_def)

lemma slot_at_put [simp]: "unat p < length (ses_slots ses) \<Longrightarrow> slot_at (put_slot ses p v) p = Inr v"
  by (simp add: slot_at_def put_slot_def)

text \<open>A continuation frame that matches the slot.\<close>

lemma rx_session_step_continue:
  assumes ses: "rx_sessions self s = put_slot ses p (Some slot)" "unat p < length (ses_slots ses)"
    and fr: "\<not> fr_start fr" "fr_priority fr = p" "fr_transfer_id fr = sl_transfer_id slot"
      "fr_toggle fr = sl_expected_toggle slot" "iface = sl_iface_index slot"
    and own: "ses_owner ses = b"
  shows "rx_session_step self b s ts fr iface =
    (let slot' = rx_slot_advance slot (fr_payload fr);
         slot'' = slot'\<lparr>sl_crc := crc_add_chain (sl_crc slot') (fr_payload fr)\<rparr>;
         self' = set_session self s (put_slot ses p (Some slot''))
     in if fr_end fr then rx_session_complete_slot self' s fr else Inr self')"
  using assms by (simp add: rx_session_step_def Let_def rx_session_solve_admission_def
      rx_session_accept_def crc_add_chain_def)

lemma rx_session_complete:
  assumes "rx_sessions self s = put_slot ses p (Some slot)" "unat p < length (ses_slots ses)"
    and "fr_priority fr = p" and "ses_owner ses = b"
    and "rx_slot_verdict (rx_subs self b) slot = Inr (Some view)"
  shows "rx_session_complete_slot self s fr =
    Inr (deliver (set_session self s (put_slot ses p None)) b (sl_start_ts slot) fr view)"
  using assms by (simp add: rx_session_complete_slot_def Let_def)

text \<open>What the frames of one transfer have in common.\<close>

definition frame_of :: "rx_frame \<Rightarrow> bytes \<Rightarrow> rx_frame" where
  "frame_of hdr raw = hdr\<lparr>fr_start := bit (last raw) 7, fr_end := bit (last raw) 6,
     fr_toggle := bit (last raw) 5, fr_transfer_id := last raw AND 31, fr_payload := butlast raw\<rparr>"

lemma frame_of_sel [simp]:
  "fr_start (frame_of hdr raw) = bit (last raw) 7" "fr_end (frame_of hdr raw) = bit (last raw) 6"
  "fr_toggle (frame_of hdr raw) = bit (last raw) 5" "fr_transfer_id (frame_of hdr raw) = last raw AND 31"
  "fr_payload (frame_of hdr raw) = butlast raw" "fr_priority (frame_of hdr raw) = fr_priority hdr"
  "fr_src (frame_of hdr raw) = fr_src hdr" "fr_dst (frame_of hdr raw) = fr_dst hdr"
  "fr_kind (frame_of hdr raw) = fr_kind hdr" "fr_port_id (frame_of hdr raw) = fr_port_id hdr"
  by (simp_all add: frame_of_def)

lemma deliver_cong:
  "fr_priority f = fr_priority g \<Longrightarrow> fr_src f = fr_src g \<Longrightarrow> fr_transfer_id f = fr_transfer_id g \<Longrightarrow>
     deliver self b ts f view = deliver self b ts g view"
  by (simp add: deliver_def)

lemma iface_mask_idem [simp]: "iface_mask (iface_mask i) = iface_mask i"
  by (simp add: iface_mask_def and.assoc)

text \<open>
  The continuation: a session whose slot has received the first part of the bytes receives the
  frames of the rest and delivers.
\<close>

lemma rx_run_continue:
  assumes "rx_sessions self s = put_slot ses p (Some (slot_having sub ts0 tid iface tog xs zs))"
    and "unat p < length (ses_slots ses)" and "ses_owner ses = b" and "rx_subs self b = sub"
    and "fr_priority hdr = p" and "iface_mask iface = iface" and "0 < k"
    and "sub_extent sub + 2 < 2 ^ 32" and "length (xs @ rest) < 2 ^ 32"
    and "rx_slot_verdict sub (slot_having sub ts0 tid iface ftog (xs @ rest) (zs @ rest)) = Inr (Some view)"
    and "ftog = (tog \<noteq> odd (length (tail_frames k False tog tid rest)))"
    and "length tss = length (tail_frames k False tog tid rest)"
  shows "rx_run self b s iface (zip tss (map (frame_of hdr) (tail_frames k False tog tid rest))) =
    Inr (deliver (set_session self s (put_slot ses p None)) b ts0
      (hdr\<lparr>fr_transfer_id := tid AND 31\<rparr>) view)"
  using assms
proof (induction k False tog tid rest arbitrary: self xs zs tss rule: tail_frames.induct)
  case (1 k tog tid rest)
  show ?case
  proof (cases "k = 0 \<or> length rest \<le> k")
    case True
    let ?d = "rest @ [tx_make_tail_byte False True tog tid]"
    have t: "tail_frames k False tog tid rest = [?d]" using True by (subst tail_frames.simps) simp
    obtain ts where tss: "tss = [ts]" using 1(13) unfolding t by (cases tss) auto
    have ft: "ftog = (\<not> tog)" using 1(12) unfolding t by simp
    let ?slot = "slot_having sub ts0 tid iface tog xs zs"
    have adv: "rx_slot_advance ?slot rest = slot_having sub ts0 tid iface (\<not> tog) (xs @ rest) zs"
      using rx_slot_advance_having [of sub xs rest] 1(9,10) by simp
    have fed: "(slot_having sub ts0 tid iface (\<not> tog) (xs @ rest) zs)
        \<lparr>sl_crc := crc_add_chain (crc_add_chain (sub_crc_seed sub) zs) rest\<rparr>
        = slot_having sub ts0 tid iface ftog (xs @ rest) (zs @ rest)"
      by (simp add: slot_having_def Let_def crc_add_chain_append ft)
    have "rx_session_step self b s ts (frame_of hdr ?d) iface =
        rx_session_complete_slot (set_session self s
          (put_slot ses p (Some (slot_having sub ts0 tid iface ftog (xs @ rest) (zs @ rest))))) s (frame_of hdr ?d)"
      using rx_session_step_continue [OF 1(2,3), of "frame_of hdr ?d" iface b] 1(4,6,7)
      by (simp add: tail_byte_bits adv fed)
    also have "\<dots> = Inr (deliver (set_session self s (put_slot ses p None)) b ts0 (frame_of hdr ?d) view)"
      using rx_session_complete [of "set_session self s (put_slot ses p
            (Some (slot_having sub ts0 tid iface ftog (xs @ rest) (zs @ rest))))" s ses p
          "slot_having sub ts0 tid iface ftog (xs @ rest) (zs @ rest)" "frame_of hdr ?d" b view]
        1(3-6,11) by simp
    also have "deliver (set_session self s (put_slot ses p None)) b ts0 (frame_of hdr ?d) view
        = deliver (set_session self s (put_slot ses p None)) b ts0 (hdr\<lparr>fr_transfer_id := tid AND 31\<rparr>) view"
      by (rule deliver_cong) (simp_all add: tail_byte_bits)
    finally show ?thesis by (simp add: t tss)
  next
    case False
    let ?c = "take k rest"
    let ?d = "?c @ [tx_make_tail_byte False False tog tid]"
    let ?es = "tail_frames k False (\<not> tog) tid (drop k rest)"
    have t: "tail_frames k False tog tid rest = ?d # ?es" using False by (subst tail_frames.simps) simp
    obtain ts tss' where tss: "tss = ts # tss'" and len: "length tss' = length ?es"
      using 1(13) unfolding t by (cases tss) auto
    let ?slot = "slot_having sub ts0 tid iface tog xs zs"
    have l: "length xs + length ?c < 2 ^ 32" using 1(10) by simp
    have adv: "rx_slot_advance ?slot ?c = slot_having sub ts0 tid iface (\<not> tog) (xs @ ?c) zs"
      using rx_slot_advance_having [OF 1(9) l] by simp
    have fed: "(slot_having sub ts0 tid iface (\<not> tog) (xs @ ?c) zs)
        \<lparr>sl_crc := crc_add_chain (crc_add_chain (sub_crc_seed sub) zs) ?c\<rparr>
        = slot_having sub ts0 tid iface (\<not> tog) (xs @ ?c) (zs @ ?c)"
      by (simp add: slot_having_def Let_def crc_add_chain_append)
    let ?self = "set_session self s (put_slot ses p (Some (slot_having sub ts0 tid iface (\<not> tog) (xs @ ?c) (zs @ ?c))))"
    have step: "rx_session_step self b s ts (frame_of hdr ?d) iface = Inr ?self"
      using rx_session_step_continue [OF 1(2,3), of "frame_of hdr ?d" iface b] 1(4,6,7)
      by (simp add: tail_byte_bits adv fed)
    have "rx_run ?self b s iface (zip tss' (map (frame_of hdr) ?es)) =
        Inr (deliver (set_session ?self s (put_slot ses p None)) b ts0 (hdr\<lparr>fr_transfer_id := tid AND 31\<rparr>) view)"
      by (rule 1(1) [OF False _ 1(3,4) _ 1(6-9)]) (use 1(5,10-12) t len in auto)
    then show ?thesis by (simp add: t tss step)
  qed
qed

subsection \<open>Cleaning up\<close>

definition live_slot :: "int \<Rightarrow> rx_slot option \<Rightarrow> rx_slot option" where
  "live_slot deadline e =
     (case e of None \<Rightarrow> None | Some sl \<Rightarrow> if sl_start_ts sl < deadline then None else Some sl)"

lemma cleanup_fold:
  "k \<le> length slots \<Longrightarrow> fold (cleanup_turn deadline) [0..<k] (slots, 0) =
   (map (live_slot deadline) (take k slots) @ drop k slots,
    length (filter (\<lambda>e. live_slot deadline e \<noteq> None) (take k slots)))"
proof (induction k)
  case 0
  then show ?case by simp
next
  case (Suc k)
  obtain as x bs where s: "slots = as @ x # bs" "length as = k"
    using Suc.prems id_take_nth_drop [of k slots] by (metis Suc_le_eq length_take less_imp_le min.absorb2)
  have IH: "fold (cleanup_turn deadline) [0..<k] (slots, 0) = (map (live_slot deadline) as @ x # bs,
       length (filter (\<lambda>e. live_slot deadline e \<noteq> None) as))"
    using Suc s by simp
  have "fold (cleanup_turn deadline) [0..<Suc k] (slots, 0) =
      cleanup_turn deadline k (map (live_slot deadline) as @ x # bs,
        length (filter (\<lambda>e. live_slot deadline e \<noteq> None) as))"
    by (simp add: IH)
  also have "\<dots> = (map (live_slot deadline) as @ live_slot deadline x # bs,
      length (filter (\<lambda>e. live_slot deadline e \<noteq> None) (as @ [x])))"
    unfolding s(2) [symmetric] cleanup_turn_def
    by (cases x) (simp_all add: live_slot_def nth_append list_update_append)
  finally show ?case by (simp add: s)
qed

definition cleaned :: "int \<Rightarrow> rx_session \<Rightarrow> rx_session" where
  "cleaned deadline ses = ses\<lparr>ses_slots := map (live_slot deadline) (ses_slots ses)\<rparr>"

lemma cleaned_sel [simp]:
  "length (ses_slots (cleaned d ses)) = length (ses_slots ses)" "ses_owner (cleaned d ses) = ses_owner ses"
  "ses_node_id (cleaned d ses) = ses_node_id ses"
  by (simp_all add: cleaned_def)

lemma rx_session_cleanup_eq:
  assumes "length (ses_slots (rx_sessions self s)) = prio_count"
  shows "rx_session_cleanup self s now =
    (set_session self s (cleaned (cleanup_deadline self (rx_sessions self s) now) (rx_sessions self s)),
     length (filter (\<lambda>e. live_slot (cleanup_deadline self (rx_sessions self s) now) e \<noteq> None)
               (ses_slots (rx_sessions self s))))"
  using cleanup_fold [of prio_count "ses_slots (rx_sessions self s)"
      "cleanup_deadline self (rx_sessions self s) now"] assms
  by (simp add: rx_session_cleanup_def Let_def cleaned_def)

subsection \<open>A whole transfer\<close>

definition moved_to_tail :: "canard \<Rightarrow> nat \<Rightarrow> canard" where
  "moved_to_tail self s =
     self\<lparr>rx_sessions_by_animation := remove1 s (rx_sessions_by_animation self) @ [s]\<rparr>"

lemma moved_to_tail_sel [simp]:
  "rx_sessions (moved_to_tail self s) = rx_sessions self" "rx_subs (moved_to_tail self s) = rx_subs self"
  by (simp_all add: moved_to_tail_def)

lemma rx_session_record_admission_sel [simp]:
  "ses_slots (rx_session_record_admission ses p tid ts iface) = ses_slots ses"
  "ses_owner (rx_session_record_admission ses p tid ts iface) = ses_owner ses"
  "ses_node_id (rx_session_record_admission ses p tid ts iface) = ses_node_id ses"
  by (simp_all add: rx_session_record_admission_def)

lemma record_put_slot:
  "rx_session_record_admission (put_slot ses p v) q tid ts iface =
   put_slot (rx_session_record_admission ses q tid ts iface) p v"
  by (simp add: put_slot_def rx_session_record_admission_def)

text \<open>The session once a first frame is admitted: its old slots, and the record of the admission.\<close>

definition session_started :: "canard \<Rightarrow> nat \<Rightarrow> int \<Rightarrow> rx_frame \<Rightarrow> u8 \<Rightarrow> rx_session" where
  "session_started self s ts fr iface =
     (let ses = put_slot (rx_sessions self s) (fr_priority fr) None;
          ses = (if fr_end fr then ses else cleaned (cleanup_deadline self ses ts) ses)
      in rx_session_record_admission ses (fr_priority fr) (fr_transfer_id fr) ts iface)"

lemma session_started_sel [simp]:
  "length (ses_slots (session_started self s ts fr iface)) = length (ses_slots (rx_sessions self s))"
  "ses_owner (session_started self s ts fr iface) = ses_owner (rx_sessions self s)"
  "ses_node_id (session_started self s ts fr iface) = ses_node_id (rx_sessions self s)"
  by (simp_all add: session_started_def Let_def) (simp_all add: put_slot_def)

lemma cleanup_deadline_cong [simp]:
  "cleanup_deadline (set_session self s ses') ses ts = cleanup_deadline self ses ts"
  "cleanup_deadline (moved_to_tail self s) ses ts = cleanup_deadline self ses ts"
  by (simp_all add: cleanup_deadline_def)

lemma rx_session_step_start:
  assumes "fr_start fr" and "ses_owner (rx_sessions self s) = b"
    and len: "length (ses_slots (rx_sessions self s)) = prio_count" and p: "fr_priority fr < 8"
    and adm: "rx_session_solve_admission (rx_subs self b) (rx_sessions self s) ts (fr_priority fr) True
       (fr_toggle fr) (fr_transfer_id fr) iface = Inr True"
    and ext: "fr_end fr \<or> 0 \<le> sub_extent (rx_subs self b)"
  shows "rx_session_step self b s ts fr iface =
    rx_session_accept
      (set_session (moved_to_tail self s) s
        (put_slot (session_started self s ts fr iface) (fr_priority fr)
          (if fr_end fr then None
           else Some (slot_having (rx_subs self b) ts (fr_transfer_id fr) iface
                  (kind_version (sub_kind (rx_subs self b)) = 1) [] [])))) s ts fr"
proof -
  have pl: "unat (fr_priority fr) < length (ses_slots (rx_sessions self s))"
    using p len by (simp add: word_less_nat_alt prio_count_def)
  have sl: "\<exists>old. slot_at (rx_sessions self s) (fr_priority fr) = Inr old" using pl by (simp add: slot_at_def)
  have cl: "rx_session_cleanup (set_session (moved_to_tail self s) s ses') s ts =
     (set_session (moved_to_tail self s) s (cleaned (cleanup_deadline self ses' ts) ses'), n)"
    if "length (ses_slots ses') = prio_count" and
     "n = length (filter (\<lambda>e. live_slot (cleanup_deadline self ses' ts) e \<noteq> None) (ses_slots ses'))" for ses' n
    using rx_session_cleanup_eq [of "set_session (moved_to_tail self s) s ses'" s ts] that by simp
  have none: "put_slot (cleaned d (put_slot ses q None)) q None = cleaned d (put_slot ses q None)" for d ses q
    by (cases "unat q < length (ses_slots ses)")
      (simp_all add: put_slot_def cleaned_def list_update_id [of _ "unat q", symmetric] map_update live_slot_def)
  show ?thesis
  proof (cases "fr_end fr")
    case True
    with assms sl show ?thesis
      by (auto simp: rx_session_step_def Let_def session_started_def record_put_slot
          moved_to_tail_def [symmetric] set_session_def)
  next
    case False
    with assms sl ext show ?thesis
      by (auto simp: rx_session_step_def Let_def session_started_def record_put_slot cl split_beta
          moved_to_tail_def [symmetric] rx_slot_new_having)
  qed
qed

text \<open>The first frame of several.\<close>

lemma rx_accept_first:
  assumes ses: "rx_sessions self s = put_slot ses p (Some (slot_having sub ts0 tid iface tog [] []))"
    and pl: "unat p < length (ses_slots ses)" and own: "ses_owner ses = b" "rx_subs self b = sub"
    and fr: "fr_priority fr = p" "fr_start fr" "\<not> fr_end fr" and len: "2 \<le> length (fr_payload fr)"
    and e: "sub_extent sub + 2 < 2 ^ 32" and l32: "length (fr_payload fr) < 2 ^ 32"
  shows "rx_session_accept self s ts fr = Inr (set_session self s (put_slot ses p
    (Some (slot_having sub ts0 tid iface (\<not> tog) (fr_payload fr)
       (if kind_version (sub_kind sub) = 0 then drop 2 (fr_payload fr) else fr_payload fr)))))"
proof -
  have adv: "rx_slot_advance (slot_having sub ts0 tid iface tog [] []) (fr_payload fr) =
      slot_having sub ts0 tid iface (\<not> tog) (fr_payload fr) []"
    using rx_slot_advance_having [OF e, of "[]"] l32 by simp
  have fed: "(slot_having sub ts0 tid iface (\<not> tog) (fr_payload fr) [])
      \<lparr>sl_crc := crc_add_chain (sub_crc_seed sub) zs\<rparr> = slot_having sub ts0 tid iface (\<not> tog) (fr_payload fr) zs"
    for zs by (simp add: slot_having_def Let_def)
  show ?thesis
    using assms by (simp add: rx_session_accept_def Let_def adv fed crc_bytes_def crc_add_chain_def [symmetric]
        crc_add_chain_def [of _ "drop 2 (fr_payload fr)", simplified, symmetric])
qed

lemma drop2_take: "2 \<le> k \<Longrightarrow> drop 2 (take k xs) @ drop k xs = drop 2 xs"
proof -
  assume "2 \<le> k"
  then have "drop k xs = drop (k - 2) (drop 2 xs)" by (simp only: drop_drop le_add_diff_inverse2)
  then show ?thesis by (simp only: drop_take append_take_drop_id)
qed

lemma rx_run_tail_frames:
  assumes own: "ses_owner (rx_sessions self s) = b" and sub: "rx_subs self b = sub"
    and len8: "length (ses_slots (rx_sessions self s)) = prio_count" and p: "fr_priority hdr < 8"
    and k: "2 \<le> k" "k < length full" and tog: "tog = (kind_version (sub_kind sub) = 1)"
    and fr0: "fr0 = frame_of hdr (take k full @ [tx_make_tail_byte True False tog tid])"
    and adm: "rx_session_solve_admission sub (rx_sessions self s) ts (fr_priority hdr) True
       tog (tid AND 31) iface = Inr True"
    and iface: "iface_mask iface = iface"
    and ext: "0 \<le> sub_extent sub" "sub_extent sub + 2 < 2 ^ 32" and l32: "length full < 2 ^ 32"
    and verdict: "\<And>t. rx_slot_verdict sub (slot_having sub ts tid iface t full
       (if kind_version (sub_kind sub) = 0 then drop 2 full else full)) = Inr (Some view)"
    and tss: "length (ts # tss) = length (tail_frames k True tog tid full)"
  shows "rx_run self b s iface (zip (ts # tss) (map (frame_of hdr) (tail_frames k True tog tid full))) =
    Inr (deliver (set_session (moved_to_tail self s) s
           (put_slot (session_started self s ts fr0 iface) (fr_priority hdr) None)) b ts
           (hdr\<lparr>fr_transfer_id := tid AND 31\<rparr>) view)"
proof -
  let ?p = "fr_priority hdr" and ?c = "take k full"
  let ?zs = "if kind_version (sub_kind sub) = 0 then drop 2 ?c else ?c"
  let ?es = "tail_frames k False (\<not> tog) tid (drop k full)"
  let ?ses = "session_started self s ts fr0 iface"
  have t: "map (frame_of hdr) (tail_frames k True tog tid full) = fr0 # map (frame_of hdr) ?es"
    using k by (subst tail_frames.simps) (simp add: fr0)
  have tl: "length tss = length ?es"
    using tss k by (subst (asm) tail_frames.simps) (simp split: if_splits)
  have f0 [simp]: "fr_start fr0" "\<not> fr_end fr0" "fr_toggle fr0 = tog" "fr_transfer_id fr0 = tid AND 31"
    "fr_payload fr0 = ?c" "fr_priority fr0 = ?p"
    by (simp_all add: fr0 tail_byte_bits)
  have pl: "unat ?p < length (ses_slots ?ses)"
    using p len8 by (simp add: word_less_nat_alt prio_count_def)
  have tid: "slot_having sub ts (tid AND 31) iface t xs zs = slot_having sub ts tid iface t xs zs" for t xs zs
    by (simp add: slot_having_def and.assoc)
  let ?self = "set_session (moved_to_tail self s) s (put_slot ?ses ?p (Some (slot_having sub ts tid iface tog [] [])))"
  have "rx_session_step self b s ts fr0 iface = rx_session_accept ?self s ts fr0"
    using rx_session_step_start [of fr0 self s b ts iface] own len8 p adm ext sub tog by (simp add: tid)
  also have "\<dots> = Inr (set_session ?self s (put_slot ?ses ?p (Some (slot_having sub ts tid iface (\<not> tog) ?c ?zs))))"
    using rx_accept_first [of ?self s ?ses ?p sub ts tid iface tog b fr0 ts] pl own sub k ext l32 by simp
  finally have step: "rx_session_step self b s ts fr0 iface = \<dots>" .
  let ?self' = "set_session ?self s (put_slot ?ses ?p (Some (slot_having sub ts tid iface (\<not> tog) ?c ?zs)))"
  have zs: "?zs @ drop k full = (if kind_version (sub_kind sub) = 0 then drop 2 full else full)"
    using drop2_take [OF k(1), of full] by simp
  have "rx_run ?self' b s iface (zip tss (map (frame_of hdr) ?es)) =
      Inr (deliver (set_session ?self' s (put_slot ?ses ?p None)) b ts (hdr\<lparr>fr_transfer_id := tid AND 31\<rparr>) view)"
    by (rule rx_run_continue [OF _ pl _ _ refl iface _ ext(2) _ _ refl tl, where zs = ?zs and xs = ?c])
      (use own sub k l32 verdict in \<open>auto simp: zs\<close>)
  then show ?thesis by (simp add: t step)
qed

lemma frame_of_tail:
  "frame_of hdr (d @ [tx_make_tail_byte sot eot tog tid]) = hdr\<lparr>fr_start := sot, fr_end := eot,
     fr_toggle := tog, fr_transfer_id := tid AND 31, fr_payload := d\<rparr>"
  by (simp add: frame_of_def tail_byte_bits)

lemma rx_run_single:
  assumes own: "ses_owner (rx_sessions self s) = b" and sub: "rx_subs self b = sub"
    and len8: "length (ses_slots (rx_sessions self s)) = prio_count" and p: "fr_priority hdr < 8"
    and fr0: "fr0 = frame_of hdr (payload @ [tx_make_tail_byte True True tog tid])"
    and adm: "rx_session_solve_admission sub (rx_sessions self s) ts (fr_priority hdr) True
       tog (tid AND 31) iface = Inr True"
  shows "rx_run self b s iface [(ts, fr0)] =
    Inr (deliver (set_session (moved_to_tail self s) s
           (put_slot (session_started self s ts fr0 iface) (fr_priority hdr) None)) b ts
           (hdr\<lparr>fr_transfer_id := tid AND 31\<rparr>) payload)"
proof -
  let ?p = "fr_priority hdr"
  have f0 [simp]: "fr_start fr0" "fr_end fr0" "fr_toggle fr0 = tog" "fr_transfer_id fr0 = tid AND 31"
    "fr_payload fr0 = payload" "fr_priority fr0 = ?p" "fr_src fr0 = fr_src hdr"
    by (simp_all add: fr0 frame_of_tail)
  let ?self = "set_session (moved_to_tail self s) s (put_slot (session_started self s ts fr0 iface) ?p None)"
  have "rx_session_step self b s ts fr0 iface = rx_session_accept ?self s ts fr0"
    using rx_session_step_start [of fr0 self s b ts iface] own len8 p adm sub by simp
  also have "\<dots> = Inr (deliver ?self b ts (hdr\<lparr>fr_transfer_id := tid AND 31\<rparr>) payload)"
    using own len8 p by (simp add: rx_session_accept_def Let_def word_less_nat_alt prio_count_def
        rx_session_complete_single_frame_def deliver_def)
  finally show ?thesis by simp
qed

text \<open>
  A session that admits the first frame of a transfer receives the transfer: one delivery, with
  the time of the first frame, the payload cut to the extent if it took several frames.
\<close>

definition delivered_view :: "int \<Rightarrow> nat \<Rightarrow> bytes \<Rightarrow> bytes" where
  "delivered_view extent mtu payload = (if length payload < mtu then payload else take (nat extent) payload)"

definition reassembled :: "canard \<Rightarrow> nat \<Rightarrow> nat \<Rightarrow> int \<Rightarrow> rx_frame \<Rightarrow> rx_frame \<Rightarrow> u8 \<Rightarrow> u8 \<Rightarrow> bytes \<Rightarrow> canard" where
  "reassembled self b s ts fr0 hdr tid iface view =
     deliver (set_session (moved_to_tail self s) s
       (put_slot (session_started self s ts fr0 iface) (fr_priority hdr) None)) b ts
       (hdr\<lparr>fr_transfer_id := tid AND 31\<rparr>) view"

lemma rx_run_v1:
  assumes own: "ses_owner (rx_sessions self s) = b" and sub: "rx_subs self b = sub"
    and v1: "kind_version (sub_kind sub) = 1"
    and len8: "length (ses_slots (rx_sessions self s)) = prio_count" and p: "fr_priority hdr < 8"
    and ds: "ds = transfer_frames (sub_crc_seed sub) fd tid payload"
    and adm: "rx_session_solve_admission sub (rx_sessions self s) ts (fr_priority hdr) True
       True (tid AND 31) iface = Inr True"
    and iface: "iface_mask iface = iface"
    and ext: "0 < sub_extent sub" "sub_extent sub + 2 < 2 ^ 32" and l32: "length payload + 2 < 2 ^ 32"
    and tss: "length (ts # tss) = length ds"
  shows "rx_run self b s iface (zip (ts # tss) (map (frame_of hdr) ds)) =
    Inr (reassembled self b s ts (frame_of hdr (hd ds)) hdr tid iface
      (delivered_view (sub_extent sub) (mtu_of fd) payload))"
proof (cases "length payload < mtu_of fd")
  case True
  then have d: "ds = [payload @ [tx_make_tail_byte True True True tid]]" by (simp add: ds transfer_frames_def)
  then have "tss = []" using tss by simp
  with rx_run_single [OF own sub len8 p refl adm, of payload] True d show ?thesis
    by (simp add: reassembled_def delivered_view_def)
next
  case False
  let ?k = "mtu_of fd - 1" and ?full = "with_crc (sub_crc_seed sub) payload"
  have k: "2 \<le> ?k" "?k < length ?full" using False mtu_cases [of fd] by auto
  have d: "ds = tail_frames ?k True True tid ?full"
    using False by (simp add: ds transfer_frames_def with_crc_def Let_def)
  then have hd: "hd ds = take ?k ?full @ [tx_make_tail_byte True False True tid]"
    using k by (subst (asm) tail_frames.simps) simp
  have e0: "0 \<le> sub_extent sub" using ext by simp
  have lf: "length ?full < 2 ^ 32" using l32 by simp
  have tog: "True = (kind_version (sub_kind sub) = 1)" using v1 by simp
  have verdict: "rx_slot_verdict sub (slot_having sub ts tid iface t ?full
      (if kind_version (sub_kind sub) = 0 then drop 2 ?full else ?full)) =
      Inr (Some (take (nat (sub_extent sub)) payload))" for t
    using rx_slot_verdict_v1 [OF v1 ext l32 refl] v1 by simp
  from rx_run_tail_frames [OF own sub len8 p k tog refl adm iface e0 ext(2) lf verdict] tss
  show ?thesis unfolding d using False hd
    by (simp add: reassembled_def delivered_view_def d)
qed

lemma rx_run_v0:
  assumes own: "ses_owner (rx_sessions self s) = b" and sub: "rx_subs self b = sub"
    and v0: "kind_version (sub_kind sub) = 0"
    and len8: "length (ses_slots (rx_sessions self s)) = prio_count" and p: "fr_priority hdr < 8"
    and ds: "ds = transfer_frames_v0 (sub_crc_seed sub) tid payload"
    and adm: "rx_session_solve_admission sub (rx_sessions self s) ts (fr_priority hdr) True
       False (tid AND 31) iface = Inr True"
    and iface: "iface_mask iface = iface"
    and ext: "0 \<le> sub_extent sub" "sub_extent sub + 2 < 2 ^ 32" and l32: "length payload + 2 < 2 ^ 32"
    and tss: "length (ts # tss) = length ds"
  shows "rx_run self b s iface (zip (ts # tss) (map (frame_of hdr) ds)) =
    Inr (reassembled self b s ts (frame_of hdr (hd ds)) hdr tid iface
      (delivered_view (sub_extent sub) 8 payload))"
proof (cases "length payload < 8")
  case True
  then have d: "ds = [payload @ [tx_make_tail_byte True True False tid]]" by (simp add: ds transfer_frames_v0_def)
  then have "tss = []" using tss by simp
  with rx_run_single [OF own sub len8 p refl adm, of payload] True d show ?thesis
    by (simp add: reassembled_def delivered_view_def)
next
  case False
  let ?c = "crc_add_chain (sub_crc_seed sub) payload"
  let ?full = "[crc_lo ?c, crc_hi ?c] @ payload"
  have k: "2 \<le> (7 :: nat)" "7 < length ?full" using False by auto
  have d: "ds = tail_frames 7 True False tid ?full"
    using False by (simp add: ds transfer_frames_v0_def Let_def)
  then have hd: "hd ds = take 7 ?full @ [tx_make_tail_byte True False False tid]"
    using k by (subst (asm) tail_frames.simps) simp
  have lf: "length ?full < 2 ^ 32" using l32 by simp
  have tog: "False = (kind_version (sub_kind sub) = 1)" using v0 by simp
  have verdict: "rx_slot_verdict sub (slot_having sub ts tid iface t ?full
      (if kind_version (sub_kind sub) = 0 then drop 2 ?full else ?full)) =
      Inr (Some (take (nat (sub_extent sub)) payload))" for t
    using rx_slot_verdict_v0 [OF v0 ext l32 refl] v0 by simp
  from rx_run_tail_frames [OF own sub len8 p k tog refl adm iface ext lf verdict] tss
  show ?thesis unfolding d using False hd
    by (simp add: reassembled_def delivered_view_def d)
qed

end
