(* ===== verification/CanTxQueue.thy ===== *)
theory CanTxQueue
  imports CanTxFrame
begin

text \<open>
  The transmission queue (second part of \<open>tx.go\<close>): transfers with their cursors into the
  spool, the indices by priority and by deadline, the list by age; expiration, sacrifice of
  the oldest transfers, enqueueing, hand-over to the platform and purging.  The loops over the
  interfaces run over \<open>[0..<iface_count]\<close>.
\<close>

definition transfer_of :: "canard \<Rightarrow> nat \<Rightarrow> tx_transfer" where
  "transfer_of self t = tx_transfers self t"

definition set_transfer :: "canard \<Rightarrow> nat \<Rightarrow> tx_transfer \<Rightarrow> canard" where
  "set_transfer self t tr = self\<lparr>tx_transfers := (tx_transfers self)(t := tr)\<rparr>"

text \<open>A new transfer at the next free address; it takes a sequence number.\<close>

definition tx_transfer_new :: "canard \<Rightarrow> int \<Rightarrow> u32 \<Rightarrow> bool \<Rightarrow> nat \<Rightarrow> canard \<times> nat" where
  "tx_transfer_new self deadline can_id_template fd user_context =
     (let t = tx_transfer_fresh self in
      (self\<lparr>tx_transfers := (tx_transfers self)(t :=
               \<lparr>tr_user_context = user_context, tr_deadline = deadline, tr_seqno = tx_seqno self,
                tr_can_id_msb = drop_bit 7 can_id_template AND (push_bit 22 1 - 1), tr_fd = fd,
                tr_multi_frame = False, tr_first_frame_departed = False, tr_cursor = (\<lambda>i. [])\<rparr>),
            tx_transfer_fresh := Suc t,
            tx_seqno := tx_seqno self + 1\<rparr>, t))"

definition tx_compare_pending_order :: "canard \<Rightarrow> nat \<Rightarrow> nat \<Rightarrow> int" where
  "tx_compare_pending_order self a b =
     (let lhs = tx_transfers self a; rhs = tx_transfers self b in
      if tr_can_id_msb lhs < tr_can_id_msb rhs then -1
      else if tr_can_id_msb lhs > tr_can_id_msb rhs then 1
      else if tr_seqno lhs < tr_seqno rhs then -1 else 1)"

definition tx_compare_deadline :: "canard \<Rightarrow> nat \<Rightarrow> nat \<Rightarrow> int" where
  "tx_compare_deadline self a b =
     (let lhs = tx_transfers self a; rhs = tx_transfers self b in
      if tr_deadline lhs < tr_deadline rhs then -1
      else if tr_deadline lhs > tr_deadline rhs then 1
      else if tr_seqno lhs < tr_seqno rhs then -1 else 1)"

definition tx_is_pending :: "canard \<Rightarrow> nat \<Rightarrow> bool" where
  "tx_is_pending self t = list_ex (\<lambda>i. index_inserted t (tx_pending self i)) [0..<iface_count]"

definition set_cursor :: "canard \<Rightarrow> nat \<Rightarrow> nat \<Rightarrow> nat list \<Rightarrow> canard" where
  "set_cursor self t i fs =
     set_transfer self t ((tx_transfers self t)\<lparr>tr_cursor := (tr_cursor (tx_transfers self t))(i := fs)\<rparr>)"

definition tx_free_payload :: "canard \<Rightarrow> nat \<Rightarrow> canard" where
  "tx_free_payload self t =
     fold (\<lambda>i self. set_cursor (tx_free_chain self (tr_cursor (tx_transfers self t) i)) t i [])
       [0..<iface_count] self"

definition tx_retire :: "canard \<Rightarrow> nat \<Rightarrow> canard" where
  "tx_retire self t =
     (let self = fold (\<lambda>i self. self\<lparr>tx_pending := (tx_pending self)
                   (i := fst (index_remove_if t (tx_pending self i)))\<rparr>) [0..<iface_count] self;
          self = self\<lparr>tx_deadline := index_remove t (tx_deadline self)\<rparr>;
          self = self\<lparr>tx_agewise := remove1 t (tx_agewise self)\<rparr>
      in tx_free_payload self t)"

definition tx_make_pending :: "canard \<Rightarrow> nat \<Rightarrow> canard" where
  "tx_make_pending self t =
     fold (\<lambda>i self.
         if tr_cursor (tx_transfers self t) i \<noteq> [] \<and> \<not> index_inserted t (tx_pending self i)
         then self\<lparr>tx_pending := (tx_pending self)
                (i := fst (index_find_or_insert (tx_compare_pending_order self t) t (tx_pending self i)))\<rparr>
         else self)
       [0..<iface_count] self"

subsection \<open>Room in the queue\<close>

lemma tx_free_chain_agewise [simp]: "tx_agewise (tx_free_chain self fs) = tx_agewise self"
  by (induction fs arbitrary: self) (simp_all add: tx_free_chain_def ref_count_dec_def Let_def)

lemma tx_retire_agewise [simp]: "tx_agewise (tx_retire self t) = remove1 t (tx_agewise self)"
proof -
  have "tx_agewise (tx_free_payload c t) = tx_agewise c" for c
    by (simp add: tx_free_payload_def iface_count_def set_cursor_def set_transfer_def)
  then show ?thesis by (simp add: tx_retire_def iface_count_def Let_def)
qed

text \<open>Sacrificing the oldest transfers until the frames fit or none is left.\<close>

function tx_sacrifice :: "canard \<Rightarrow> int \<Rightarrow> canard" where
  "tx_sacrifice self needed =
     (if needed > tx_queue_capacity self - tx_queue_size self
      then (case tx_agewise self of
              [] \<Rightarrow> self
            | t # _ \<Rightarrow> let self = tx_retire self t in
                tx_sacrifice (self\<lparr>err_tx_sacrifice := err_tx_sacrifice self + 1\<rparr>) needed)
      else self)"
  by pat_completeness auto
termination
  by (relation "measure (\<lambda>(self, needed). length (tx_agewise self))") auto

declare tx_sacrifice.simps [simp del]

definition tx_ensure_queue_space :: "canard \<Rightarrow> int \<Rightarrow> canard \<times> bool" where
  "tx_ensure_queue_space self needed =
     (if needed > tx_queue_capacity self then (self, False)
      else let self = tx_sacrifice self needed in
        (self, needed \<le> tx_queue_capacity self - tx_queue_size self))"

subsection \<open>Expiration\<close>

lemma tx_free_payload_indices [simp]:
  "tx_deadline (tx_free_payload self t) = tx_deadline self" "tx_pending (tx_free_payload self t) = tx_pending self"
proof -
  have "tx_deadline (tx_free_chain c fs) = tx_deadline c \<and> tx_pending (tx_free_chain c fs) = tx_pending c" for c fs
    by (induction fs arbitrary: c) (simp_all add: tx_free_chain_def ref_count_dec_def Let_def)
  then show "tx_deadline (tx_free_payload self t) = tx_deadline self"
    "tx_pending (tx_free_payload self t) = tx_pending self"
    by (simp_all add: tx_free_payload_def iface_count_def set_cursor_def set_transfer_def)
qed

lemma tx_retire_deadline [simp]: "tx_deadline (tx_retire self t) = index_remove t (tx_deadline self)"
  by (simp add: tx_retire_def iface_count_def Let_def)

text \<open>
  The loop walks the deadline index from its first node; the successor is read before the
  transfer is retired.
\<close>

function tx_expire_from :: "canard \<Rightarrow> int \<Rightarrow> nat \<Rightarrow> canard" where
  "tx_expire_from self now t =
     (if now > tr_deadline (tx_transfers self t)
      then let nxt = index_next t (tx_deadline self);
               self = tx_retire self t;
               self = self\<lparr>err_tx_expiration := err_tx_expiration self + 1\<rparr>
           in case nxt of None \<Rightarrow> self | Some t' \<Rightarrow> tx_expire_from self now t'
      else self)"
  by pat_completeness auto
termination
  by (relation "measure (\<lambda>(self, now, t). length (inorder (tx_deadline self)))")
    (auto dest!: sym [of "Some _"] index_next_member intro: index_remove_length)

declare tx_expire_from.simps [simp del]

definition tx_expire :: "canard \<Rightarrow> int \<Rightarrow> canard" where
  "tx_expire self now = (case index_min (tx_deadline self) of
     None \<Rightarrow> self | Some t \<Rightarrow> tx_expire_from self now t)"

subsection \<open>Enqueueing\<close>

definition tx_push ::
  "'e platform \<Rightarrow> canard \<Rightarrow> 'e \<Rightarrow> nat \<Rightarrow> bool \<Rightarrow> u8 \<Rightarrow> u8 \<Rightarrow> bytes \<Rightarrow> u16 \<Rightarrow> canard \<times> 'e \<times> bool"
where
  "tx_push pf self env t v0 ifaces transfer_id payload crc_seed =
     (let effective = ifaces AND iface_bitmap self in
      if effective = 0 then (self, env, False)
      else
        let (now, env) = p_now pf env;
            self = tx_expire self now;
            fd = tr_fd (tx_transfers self t);
            sz = length payload;
            n_frames = tx_predict_frame_count sz (mtu_of fd);
            self = set_transfer self t ((tx_transfers self t)\<lparr>tr_multi_frame := n_frames > 1\<rparr>);
            (self, ok) = tx_ensure_queue_space self (int n_frames)
        in if \<not> ok then (self\<lparr>err_tx_capacity := err_tx_capacity self + 1\<rparr>, env, False)
           else
             case (if v0 then tx_spool_v0 self crc_seed transfer_id payload
                   else tx_spool self crc_seed fd transfer_id payload) of
               (self, None) \<Rightarrow> (self\<lparr>err_oom := err_oom self + 1\<rparr>, env, False)
             | (self, Some spool) \<Rightarrow>
                 let inc = popcount (ucast effective) - 1;
                     self = (if inc > 0
                             then fold (\<lambda>f self. self\<lparr>tx_frames := (tx_frames self)(f := (tx_frames self f)
                                     \<lparr>tf_refcount := tf_refcount (tx_frames self f) + ucast inc\<rparr>)\<rparr>) spool self
                             else self);
                     self = fold (\<lambda>i self. if effective AND push_bit i 1 \<noteq> 0 then set_cursor self t i spool else self)
                              [0..<iface_count] self;
                     self = self\<lparr>tx_deadline :=
                              fst (index_find_or_insert (tx_compare_deadline self t) t (tx_deadline self))\<rparr>;
                     self = self\<lparr>tx_agewise := remove1 t (tx_agewise self) @ [t]\<rparr>;
                     self = tx_make_pending self t
                 in (self, env, True))"

subsection \<open>Hand-over to the platform\<close>

text \<open>
  One turn of the loop: the frame offered is the first of the most urgent pending transfer.
  The result is nothing when the interface has no pending transfer or the platform refused.
\<close>

definition tx_request_of :: "canard \<Rightarrow> nat \<Rightarrow> nat \<Rightarrow> nat \<Rightarrow> tx_request" where
  "tx_request_of self i t frame =
     (let tr = tx_transfers self t in
      \<lparr>rq_user_context = tr_user_context tr, rq_deadline = tr_deadline tr, rq_iface_index = i, rq_fd = tr_fd tr,
       rq_can_id = push_bit 7 (tr_can_id_msb tr) OR ucast (node_id self), rq_data = tx_frame_view self frame\<rparr>)"

definition tx_departed :: "canard \<Rightarrow> nat \<Rightarrow> nat \<Rightarrow> nat \<Rightarrow> nat list \<Rightarrow> canard" where
  "tx_departed self i t frame next =
     (let self = set_transfer self t ((tx_transfers self t)\<lparr>tr_first_frame_departed := True\<rparr>);
          self = set_cursor self t i next;
          self = ref_count_dec self frame
      in if next = []
         then let self = self\<lparr>tx_pending := (tx_pending self)(i := fst (index_remove_if t (tx_pending self i)))\<rparr>
              in if tx_is_pending self t then self else tx_retire self t
         else self)"

text \<open>The measure of the loop: the frames still to be sent on the interface.\<close>

definition frames_to_send :: "canard \<Rightarrow> nat \<Rightarrow> nat" where
  "frames_to_send self i = (\<Sum>t \<in> set (inorder (tx_pending self i)). length (tr_cursor (tx_transfers self t) i))"

lemma ref_count_dec_other [simp]:
  "tx_transfers (ref_count_dec self f) = tx_transfers self" "tx_pending (ref_count_dec self f) = tx_pending self"
  "tx_deadline (ref_count_dec self f) = tx_deadline self" "tx_agewise (ref_count_dec self f) = tx_agewise self"
  by (simp_all add: ref_count_dec_def Let_def)

lemma tx_free_chain_other [simp]:
  "tx_transfers (tx_free_chain self fs) = tx_transfers self" "tx_pending (tx_free_chain self fs) = tx_pending self"
  "tx_deadline (tx_free_chain self fs) = tx_deadline self"
  by (induction fs arbitrary: self) (simp_all add: tx_free_chain_def)

lemma set_cursor_other [simp]:
  "tx_pending (set_cursor self t i fs) = tx_pending self" "tx_deadline (set_cursor self t i fs) = tx_deadline self"
  "tx_agewise (set_cursor self t i fs) = tx_agewise self"
  "tr_cursor (tx_transfers (set_cursor self t i fs) u) j =
     (if u = t \<and> j = i then fs else tr_cursor (tx_transfers self u) j)"
  by (simp_all add: set_cursor_def set_transfer_def)

lemma tx_free_payload_cursor [simp]:
  "tr_cursor (tx_transfers (tx_free_payload self t) u) j =
     (if u = t \<and> j < iface_count then [] else tr_cursor (tx_transfers self u) j)"
  by (simp add: tx_free_payload_def iface_count_def)

lemma tx_retire_cursor [simp]:
  "tr_cursor (tx_transfers (tx_retire self t) u) j =
     (if u = t \<and> j < iface_count then [] else tr_cursor (tx_transfers self u) j)"
  by (simp add: tx_retire_def Let_def) (simp add: iface_count_def)

lemma index_remove_if_subset: "set (inorder (fst (index_remove_if t x))) \<subseteq> set (inorder x)"
  using index_remove_subset [of t x] by (simp add: index_remove_if_def)

lemma tx_retire_pending_subset: "set (inorder (tx_pending (tx_retire self t) i)) \<subseteq> set (inorder (tx_pending self i))"
  using index_remove_if_subset [of t "tx_pending self 0"]
  by (auto simp: tx_retire_def iface_count_def Let_def)

lemma frames_to_send_less:
  assumes "index_min (tx_pending self i) = Some t" and "tr_cursor (tx_transfers self t) i = frame # next"
  shows "frames_to_send (tx_departed self i t frame next) i < frames_to_send self i"
proof -
  let ?new = "tx_departed self i t frame next"
  let ?A = "set (inorder (tx_pending self i))" and ?A' = "set (inorder (tx_pending ?new i))"
  let ?f = "\<lambda>u. length (tr_cursor (tx_transfers self u) i)" and ?f' = "\<lambda>u. length (tr_cursor (tx_transfers ?new u) i)"
  have t: "t \<in> ?A" using assms(1) by (cases "inorder (tx_pending self i)") (auto simp: index_min_hd)
  have sub: "?A' \<subseteq> ?A"
    by (auto simp: tx_departed_def Let_def set_transfer_def split: if_splits
        dest!: subsetD [OF tx_retire_pending_subset] subsetD [OF index_remove_if_subset])
  have le: "?f' u \<le> ?f u" for u
    using assms(2) by (auto simp: tx_departed_def Let_def set_transfer_def)
  have lt: "?f' t < ?f t"
    using assms(2) by (auto simp: tx_departed_def Let_def set_transfer_def)
  have "sum ?f' ?A' \<le> sum ?f' ?A" using sub by (intro sum_mono2) auto
  also have "\<dots> < sum ?f ?A" using t le lt by (intro sum_strict_mono_ex1) auto
  finally show ?thesis by (simp add: frames_to_send_def)
qed

function tx_eject_pending :: "'e platform \<Rightarrow> canard \<Rightarrow> 'e \<Rightarrow> nat \<Rightarrow> go_panic + canard \<times> 'e" where
  "tx_eject_pending pf self env i =
     (case index_min (tx_pending self i) of
        None \<Rightarrow> Inr (self, env)
      | Some t \<Rightarrow>
          (case tr_cursor (tx_transfers self t) i of
             [] \<Rightarrow> Inl NilDereference
           | frame # next \<Rightarrow>
               let (ejected, env) = p_tx pf (tx_request_of self i t frame) env
               in if \<not> ejected then Inr (self, env)
                  else tx_eject_pending pf (tx_departed self i t frame next) env i))"
  by pat_completeness auto
termination
  by (relation "measure (\<lambda>(pf, self, env, i). frames_to_send self i)") (simp_all add: frames_to_send_less)

declare tx_eject_pending.simps [simp del]

subsection \<open>Purging\<close>

text \<open>
  The loop follows the list by age; the successor of a transfer is read before it is retired,
  and retiring takes nothing else out of the list, so that the loop sees the list as it was.
\<close>

fun tx_purge_from :: "canard \<Rightarrow> nat list \<Rightarrow> canard" where
  "tx_purge_from self [] = self"
| "tx_purge_from self (t # next) =
     (let tr = tx_transfers self t;
          self = (if tr_multi_frame tr \<and> tr_first_frame_departed tr then tx_retire self t else self)
      in tx_purge_from self next)"

definition tx_purge_continuations :: "canard \<Rightarrow> canard" where
  "tx_purge_continuations self = tx_purge_from self (tx_agewise self)"

definition pending_ifaces :: "canard \<Rightarrow> u8" where
  "pending_ifaces self =
     fold (\<lambda>i out. if tx_pending self i \<noteq> CLeaf then out OR push_bit i 1 else out) [0..<iface_count] 0"

end
