(* ===== verification/CanTxInv.thy ===== *)
theory CanTxInv
  imports CanTxQueue CavlIndex "HOL-Library.Multiset"
begin

text \<open>
  The invariant of the transmission queue and the operations that keep it: every frame of a
  queued transfer is registered and belongs to it alone, the queue size counts the registered
  frames, the two indices are sorted, hold exactly the queued transfers, and those with frames
  left to send.
\<close>

subsection \<open>Frames\<close>

definition registered_frames :: "canard \<Rightarrow> nat set" where
  "registered_frames self = {f. f < tx_frame_fresh self \<and> tf_registered (tx_frames self f)}"

definition frames_inv :: "canard \<Rightarrow> nat list \<Rightarrow> bool" where
  "frames_inv self L \<longleftrightarrow> distinct L \<and>
     (\<forall>f \<in> set L. f \<in> registered_frames self \<and> 0 < tf_size (tx_frames self f)) \<and>
     tx_queue_size self = int (card (registered_frames self))"

lemma finite_registered [simp]: "finite (registered_frames self)"
  by (rule finite_subset [of _ "{..<tx_frame_fresh self}"]) (auto simp: registered_frames_def)

lemma frames_inv_perm: "mset L = mset L' \<Longrightarrow> frames_inv self L = frames_inv self L'"
  by (metis frames_inv_def mset_eq_imp_distinct_iff mset_eq_setD)

lemma ref_count_dec_fresh [simp]: "tx_frame_fresh (ref_count_dec self f) = tx_frame_fresh self"
  by (simp add: ref_count_dec_def Let_def)

lemma ref_count_dec_registered:
  "registered_frames (ref_count_dec self f) =
     (if 0 < tf_size (tx_frames self f) \<and> tf_refcount (tx_frames self f) = 1
      then registered_frames self - {f} else registered_frames self)"
  by (auto simp: ref_count_dec_def Let_def registered_frames_def)

lemma ref_count_dec_size [simp]: "tf_size (tx_frames (ref_count_dec self f) g) = tf_size (tx_frames self g)"
  by (simp add: ref_count_dec_def Let_def)

lemma ref_count_dec_data [simp]: "tf_data (tx_frames (ref_count_dec self f) g) = tf_data (tx_frames self g)"
  by (simp add: ref_count_dec_def Let_def)

lemma ref_count_dec_queue:
  "tx_queue_size (ref_count_dec self f) =
     (if 0 < tf_size (tx_frames self f) \<and> tf_registered (tx_frames self f) \<and> tf_refcount (tx_frames self f) = 1
      then tx_queue_size self - 1 else tx_queue_size self)"
  by (auto simp: ref_count_dec_def Let_def)

lemma frames_inv_dec:
  assumes "frames_inv self (f # L)"
  shows "frames_inv (ref_count_dec self f) L"
proof -
  from assms have f: "f \<in> registered_frames self" "0 < tf_size (tx_frames self f)" "f \<notin> set L"
    by (auto simp: frames_inv_def)
  then have "card (registered_frames self - {f}) = card (registered_frames self) - 1"
    and "0 < card (registered_frames self)" by (auto simp: card_gt_0_iff)
  with assms f show ?thesis
    by (auto simp: frames_inv_def ref_count_dec_registered ref_count_dec_queue)
      (auto simp: registered_frames_def)
qed

lemma tx_free_chain_simps [simp]:
  "tx_free_chain self [] = self" "tx_free_chain self (f # fs) = tx_free_chain (ref_count_dec self f) fs"
  by (simp_all add: tx_free_chain_def)

lemma frames_inv_free: "frames_inv self (fs @ L) \<Longrightarrow> frames_inv (tx_free_chain self fs) L"
  by (induction fs arbitrary: self) (auto dest: frames_inv_dec)

lemma frames_inv_other:
  "tx_frames self' = tx_frames self \<Longrightarrow> tx_frame_fresh self' = tx_frame_fresh self \<Longrightarrow>
     tx_queue_size self' = tx_queue_size self \<Longrightarrow> frames_inv self' L = frames_inv self L"
  by (simp add: frames_inv_def registered_frames_def)

lemma frames_inv_alloc:
  assumes "frames_inv self L" and "\<forall>d \<in> set ds. d \<noteq> []"
  shows "frames_inv (alloc_chain self ds) (L @ [tx_frame_fresh self..<tx_frame_fresh self + length ds])"
proof -
  let ?n = "tx_frame_fresh self" and ?new = "{tx_frame_fresh self..<tx_frame_fresh self + length ds}"
  have r: "registered_frames (alloc_chain self ds) = registered_frames self \<union> ?new"
    by (auto simp: registered_frames_def alloc_chain_def frame_with_def)
  have d: "registered_frames self \<inter> ?new = {}" by (auto simp: registered_frames_def)
  have "card (registered_frames (alloc_chain self ds)) = card (registered_frames self) + length ds"
    unfolding r using d by (subst card_Un_disjoint) auto
  moreover have "\<forall>f \<in> set L. f < ?n" using assms(1) by (auto simp: frames_inv_def registered_frames_def)
  moreover have "tf_size (tx_frames (alloc_chain self ds) f) > 0" if "f \<in> ?new" for f
    using that assms(2) by (auto simp: alloc_chain_def frame_with_def)
  ultimately show ?thesis
    using assms(1) unfolding frames_inv_def r
    by (auto simp: alloc_chain_def)
qed

subsection \<open>What retiring does\<close>

lemma tx_free_chain_fields [simp]:
  "tx_queue_capacity (tx_free_chain self fs) = tx_queue_capacity self" "tx_seqno (tx_free_chain self fs) = tx_seqno self"
  "tx_transfer_fresh (tx_free_chain self fs) = tx_transfer_fresh self" "tx_frame_fresh (tx_free_chain self fs) = tx_frame_fresh self"
  "tf_size (tx_frames (tx_free_chain self fs) f) = tf_size (tx_frames self f)"
  "tf_data (tx_frames (tx_free_chain self fs) f) = tf_data (tx_frames self f)"
  "node_id (tx_free_chain self fs) = node_id self" "iface_bitmap (tx_free_chain self fs) = iface_bitmap self"
proof (induction fs arbitrary: self)
  case (Cons g fs)
  {
    case 1 from Cons show ?case by (simp add: ref_count_dec_def Let_def)
  next
    case 2 from Cons show ?case by (simp add: ref_count_dec_def Let_def)
  next
    case 3 from Cons show ?case by (simp add: ref_count_dec_def Let_def)
  next
    case 4 from Cons show ?case by simp
  next
    case 5 from Cons show ?case by simp
  next
    case 6 from Cons show ?case by simp
  next
    case 7 from Cons show ?case by (simp add: ref_count_dec_def Let_def)
  next
    case 8 from Cons show ?case by (simp add: ref_count_dec_def Let_def)
  }
qed simp_all

text \<open>Retiring, with its loop over the single interface unfolded.\<close>

lemma tx_retire_eq:
  "tx_retire self t =
     set_cursor (tx_free_chain
       (self\<lparr>tx_pending := (tx_pending self)(0 := fst (index_remove_if t (tx_pending self 0))),
             tx_deadline := index_remove t (tx_deadline self),
             tx_agewise := remove1 t (tx_agewise self)\<rparr>) (tr_cursor (tx_transfers self t) 0)) t 0 []"
  by (simp add: tx_retire_def iface_count_def tx_free_payload_def Let_def)

lemma set_cursor_fields [simp]:
  "tx_queue_capacity (set_cursor self t i fs) = tx_queue_capacity self" "tx_seqno (set_cursor self t i fs) = tx_seqno self"
  "tx_transfer_fresh (set_cursor self t i fs) = tx_transfer_fresh self" "tx_frame_fresh (set_cursor self t i fs) = tx_frame_fresh self"
  "tx_frames (set_cursor self t i fs) = tx_frames self" "tx_queue_size (set_cursor self t i fs) = tx_queue_size self"
  "node_id (set_cursor self t i fs) = node_id self" "iface_bitmap (set_cursor self t i fs) = iface_bitmap self"
  "tr_user_context (tx_transfers (set_cursor self t i fs) u) = tr_user_context (tx_transfers self u)"
  "tr_deadline (tx_transfers (set_cursor self t i fs) u) = tr_deadline (tx_transfers self u)"
  "tr_seqno (tx_transfers (set_cursor self t i fs) u) = tr_seqno (tx_transfers self u)"
  "tr_can_id_msb (tx_transfers (set_cursor self t i fs) u) = tr_can_id_msb (tx_transfers self u)"
  "tr_fd (tx_transfers (set_cursor self t i fs) u) = tr_fd (tx_transfers self u)"
  "tr_multi_frame (tx_transfers (set_cursor self t i fs) u) = tr_multi_frame (tx_transfers self u)"
  "tr_first_frame_departed (tx_transfers (set_cursor self t i fs) u) = tr_first_frame_departed (tx_transfers self u)"
  by (simp_all add: set_cursor_def set_transfer_def)

lemma tx_retire_fields [simp]:
  "tx_queue_capacity (tx_retire self t) = tx_queue_capacity self" "tx_seqno (tx_retire self t) = tx_seqno self"
  "tx_transfer_fresh (tx_retire self t) = tx_transfer_fresh self" "tx_frame_fresh (tx_retire self t) = tx_frame_fresh self"
  "tf_size (tx_frames (tx_retire self t) f) = tf_size (tx_frames self f)"
  "tf_data (tx_frames (tx_retire self t) f) = tf_data (tx_frames self f)"
  "node_id (tx_retire self t) = node_id self" "iface_bitmap (tx_retire self t) = iface_bitmap self"
  "tr_user_context (tx_transfers (tx_retire self t) u) = tr_user_context (tx_transfers self u)"
  "tr_deadline (tx_transfers (tx_retire self t) u) = tr_deadline (tx_transfers self u)"
  "tr_seqno (tx_transfers (tx_retire self t) u) = tr_seqno (tx_transfers self u)"
  "tr_can_id_msb (tx_transfers (tx_retire self t) u) = tr_can_id_msb (tx_transfers self u)"
  "tr_fd (tx_transfers (tx_retire self t) u) = tr_fd (tx_transfers self u)"
  "tr_multi_frame (tx_transfers (tx_retire self t) u) = tr_multi_frame (tx_transfers self u)"
  "tr_first_frame_departed (tx_transfers (tx_retire self t) u) = tr_first_frame_departed (tx_transfers self u)"
  by (simp_all add: tx_retire_eq)

subsection \<open>The invariant\<close>

definition more_urgent :: "canard \<Rightarrow> nat \<Rightarrow> nat \<Rightarrow> bool" where
  "more_urgent self a b \<longleftrightarrow> tr_can_id_msb (tx_transfers self a) < tr_can_id_msb (tx_transfers self b) \<or>
     tr_can_id_msb (tx_transfers self a) = tr_can_id_msb (tx_transfers self b) \<and>
     tr_seqno (tx_transfers self a) < tr_seqno (tx_transfers self b)"

definition sooner :: "canard \<Rightarrow> nat \<Rightarrow> nat \<Rightarrow> bool" where
  "sooner self a b \<longleftrightarrow> tr_deadline (tx_transfers self a) < tr_deadline (tx_transfers self b) \<or>
     tr_deadline (tx_transfers self a) = tr_deadline (tx_transfers self b) \<and>
     tr_seqno (tx_transfers self a) < tr_seqno (tx_transfers self b)"

definition chain :: "canard \<Rightarrow> nat \<Rightarrow> nat list" where
  "chain self t = tr_cursor (tx_transfers self t) 0"

definition queue_frames :: "canard \<Rightarrow> nat list" where
  "queue_frames self = concat (map (chain self) (tx_agewise self))"

definition tx_inv :: "canard \<Rightarrow> bool" where
  "tx_inv self \<longleftrightarrow>
     distinct (tx_agewise self) \<and>
     sorted_wrt (sooner self) (inorder (tx_deadline self)) \<and>
     set (inorder (tx_deadline self)) = set (tx_agewise self) \<and>
     sorted_wrt (more_urgent self) (inorder (tx_pending self 0)) \<and>
     set (inorder (tx_pending self 0)) = {t \<in> set (tx_agewise self). chain self t \<noteq> []} \<and>
     (\<forall>t \<in> set (tx_agewise self). t < tx_transfer_fresh self \<and> tr_seqno (tx_transfers self t) < tx_seqno self) \<and>
     inj_on (\<lambda>t. tr_seqno (tx_transfers self t)) (set (tx_agewise self)) \<and>
     frames_inv self (queue_frames self)"

text \<open>Two transfers are told apart by their sequence numbers; both comparators agree with an order.\<close>

definition other_seqno :: "canard \<Rightarrow> nat \<Rightarrow> nat \<Rightarrow> bool" where
  "other_seqno self a b \<longleftrightarrow> tr_seqno (tx_transfers self a) \<noteq> tr_seqno (tx_transfers self b)"

interpretation by_urgency: ordered_index "more_urgent self" "tx_compare_pending_order self" "\<lambda>t. t" "other_seqno self"
  for self
  by unfold_locales
    (auto simp: more_urgent_def tx_compare_pending_order_def Let_def other_seqno_def split: if_splits)

interpretation by_deadline: ordered_index "sooner self" "tx_compare_deadline self" "\<lambda>t. t" "other_seqno self"
  for self
  by unfold_locales
    (auto simp: sooner_def tx_compare_deadline_def Let_def other_seqno_def split: if_splits)

lemma order_cong:
  "tx_transfers self' = tx_transfers self \<Longrightarrow> sooner self' = sooner self"
  "tx_transfers self' = tx_transfers self \<Longrightarrow> more_urgent self' = more_urgent self"
  "tx_transfers self' = tx_transfers self \<Longrightarrow> chain self' = chain self"
  by (simp_all add: sooner_def more_urgent_def chain_def fun_eq_iff)

text \<open>The parts of the state that the invariant is about.\<close>

lemma tx_inv_cong:
  assumes "tx_agewise self' = tx_agewise self" "tx_deadline self' = tx_deadline self"
    "tx_pending self' = tx_pending self" "tx_transfers self' = tx_transfers self"
    "tx_transfer_fresh self' = tx_transfer_fresh self" "tx_seqno self' = tx_seqno self"
    "tx_frames self' = tx_frames self" "tx_frame_fresh self' = tx_frame_fresh self"
    "tx_queue_size self' = tx_queue_size self"
  shows "tx_inv self' = tx_inv self"
  using assms order_cong [OF assms(4)] frames_inv_other [OF assms(7-9)]
  by (simp add: tx_inv_def queue_frames_def)

lemma tx_inv_distinct:
  assumes "tx_inv self"
  shows "distinct (inorder (tx_deadline self))" "distinct (inorder (tx_pending self 0))"
  using assms by (auto simp: tx_inv_def intro: by_deadline.sorted_distinct by_urgency.sorted_distinct)

lemma sorted_wrt_remove1: "sorted_wrt R xs \<Longrightarrow> sorted_wrt R (remove1 x xs)"
proof (induction xs)
  case (Cons y xs)
  with set_remove1_subset [of x xs] show ?case by auto
qed simp

lemma inorder_remove_if:
  "distinct (inorder x) \<Longrightarrow> inorder (fst (index_remove_if t x)) = remove1 t (inorder x)"
  by (auto simp: index_remove_if_def index_inserted_def inorder_index_remove remove1_idem)

lemma tx_retire_pending:
  "tx_inv self \<Longrightarrow> inorder (tx_pending (tx_retire self t) 0) = remove1 t (inorder (tx_pending self 0))"
  using tx_inv_distinct [of self] by (simp add: tx_retire_eq inorder_remove_if)

lemma tx_retire_deadline_list:
  "tx_inv self \<Longrightarrow> inorder (tx_deadline (tx_retire self t)) = remove1 t (inorder (tx_deadline self))"
  using tx_inv_distinct [of self] by (simp add: inorder_index_remove)

lemma chain_retire [simp]: "chain (tx_retire self t) u = (if u = t then [] else chain self u)"
  by (simp add: chain_def iface_count_def)

lemma order_retire [simp]:
  "sooner (tx_retire self t) = sooner self" "more_urgent (tx_retire self t) = more_urgent self"
  by (simp_all add: sooner_def more_urgent_def fun_eq_iff)

text \<open>Retiring a queued transfer gives up its frames and keeps the invariant.\<close>

lemma tx_retire_inv:
  assumes inv: "tx_inv self" and t: "t \<in> set (tx_agewise self)"
  shows "tx_inv (tx_retire self t)"
proof -
  obtain as bs where ab: "tx_agewise self = as @ t # bs" "t \<notin> set as"
    using split_list_first [OF t] by blast
  then have "t \<notin> set bs" using inv by (simp add: tx_inv_def)
  note ab = ab this
  have fr: "frames_inv self (chain self t @ concat (map (chain self) (as @ bs)))"
  proof -
    have "frames_inv self (queue_frames self)" using inv by (simp add: tx_inv_def)
    moreover have "mset (queue_frames self) = mset (chain self t @ concat (map (chain self) (as @ bs)))"
      by (simp add: queue_frames_def ab)
    ultimately show ?thesis using frames_inv_perm by blast
  qed
  let ?mid = "self\<lparr>tx_pending := (tx_pending self)(0 := fst (index_remove_if t (tx_pending self 0))),
             tx_deadline := index_remove t (tx_deadline self), tx_agewise := remove1 t (tx_agewise self)\<rparr>"
  have "frames_inv ?mid (chain self t @ concat (map (chain self) (as @ bs)))"
    using fr frames_inv_other [of ?mid self] by simp
  from frames_inv_free [OF this]
  have "frames_inv (tx_retire self t) (concat (map (chain self) (as @ bs)))"
    unfolding tx_retire_eq chain_def [symmetric] by (subst frames_inv_other) simp_all
  moreover have "queue_frames (tx_retire self t) = concat (map (chain self) (as @ bs))"
  proof -
    have "tx_agewise (tx_retire self t) = as @ bs" using ab by (simp add: remove1_append)
    moreover have "map (chain (tx_retire self t)) (as @ bs) = map (chain self) (as @ bs)"
      by (rule map_cong) (use ab in auto)
    ultimately show ?thesis by (simp only: queue_frames_def)
  qed
  ultimately have fq: "frames_inv (tx_retire self t) (queue_frames (tx_retire self t))" by simp
  show ?thesis
    using inv fq unfolding tx_inv_def
    by (auto simp: tx_retire_pending [OF inv] inorder_index_remove [OF tx_inv_distinct(1) [OF inv]] sorted_wrt_remove1
        tx_inv_distinct [OF inv] intro: inj_on_subset)
qed

end
