(* ===== verification/CanTxSpec.thy ===== *)
theory CanTxSpec
  imports CanTxInv
begin

text \<open>
  What the operations of the transmission queue do to the list of queued transfers, on a state
  that satisfies the invariant: expiration, sacrifice and purging filter it, enqueueing appends,
  and the hand-over to the platform sends frames in the order of urgency, each once.
\<close>

subsection \<open>What no operation on the queue touches\<close>

text \<open>
  Transfers keep their parameters, frames their data, and the transfers that stay in the queue
  their frames.
\<close>

definition tx_keeps :: "canard \<Rightarrow> canard \<Rightarrow> bool" where
  "tx_keeps self self' \<longleftrightarrow>
     (\<forall>u. tr_user_context (tx_transfers self' u) = tr_user_context (tx_transfers self u) \<and>
          tr_deadline (tx_transfers self' u) = tr_deadline (tx_transfers self u) \<and>
          tr_seqno (tx_transfers self' u) = tr_seqno (tx_transfers self u) \<and>
          tr_can_id_msb (tx_transfers self' u) = tr_can_id_msb (tx_transfers self u) \<and>
          tr_fd (tx_transfers self' u) = tr_fd (tx_transfers self u) \<and>
          tr_multi_frame (tx_transfers self' u) = tr_multi_frame (tx_transfers self u) \<and>
          tr_first_frame_departed (tx_transfers self' u) = tr_first_frame_departed (tx_transfers self u)) \<and>
     (\<forall>f. tx_frame_view self' f = tx_frame_view self f) \<and>
     set (tx_agewise self') \<subseteq> set (tx_agewise self) \<and>
     (\<forall>u. chain self' u = chain self u \<or> chain self' u = [] \<and> u \<notin> set (tx_agewise self')) \<and>
     tx_queue_size self' \<le> tx_queue_size self \<and>
     tx_queue_capacity self' = tx_queue_capacity self \<and> tx_seqno self' = tx_seqno self \<and>
     tx_transfer_fresh self' = tx_transfer_fresh self \<and> tx_frame_fresh self' = tx_frame_fresh self \<and>
     node_id self' = node_id self \<and> iface_bitmap self' = iface_bitmap self"

lemma tx_keeps_refl [simp]: "tx_keeps self self"
  by (simp add: tx_keeps_def)

lemma tx_keeps_trans: "tx_keeps a b \<Longrightarrow> tx_keeps b c \<Longrightarrow> tx_keeps a c"
  unfolding tx_keeps_def by (intro conjI) (auto, (metis subsetD)+)

lemma tx_retire_queue_size: "tx_queue_size (tx_retire self t) \<le> tx_queue_size self"
proof -
  have "tx_queue_size (tx_free_chain c fs) \<le> tx_queue_size c" for c fs
  proof (induction fs arbitrary: c)
    case (Cons f fs)
    from Cons [of "ref_count_dec c f"] show ?case by (simp add: ref_count_dec_queue split: if_splits)
  qed simp
  from this [of "self\<lparr>tx_pending := (tx_pending self)(0 := fst (index_remove_if t (tx_pending self 0))),
             tx_deadline := index_remove t (tx_deadline self),
             tx_agewise := remove1 t (tx_agewise self)\<rparr>"]
  show ?thesis by (simp add: tx_retire_eq)
qed

lemma tx_keeps_retire: "tx_inv self \<Longrightarrow> tx_keeps self (tx_retire self t)"
  by (auto simp: tx_keeps_def tx_frame_view_def tx_inv_def tx_retire_queue_size dest: set_remove1_subset [THEN subsetD])

lemma err_inv [simp]:
  "tx_inv (self\<lparr>err_tx_expiration := n\<rparr>) = tx_inv self" "tx_inv (self\<lparr>err_tx_sacrifice := n\<rparr>) = tx_inv self"
  "tx_inv (self\<lparr>err_tx_capacity := n\<rparr>) = tx_inv self"
  by (rule tx_inv_cong; simp)+

lemma err_keeps [simp]:
  "tx_keeps self (self'\<lparr>err_tx_expiration := n\<rparr>) = tx_keeps self self'"
  "tx_keeps self (self'\<lparr>err_tx_sacrifice := n\<rparr>) = tx_keeps self self'"
  "tx_keeps self (self'\<lparr>err_tx_capacity := n\<rparr>) = tx_keeps self self'"
  by (simp_all add: tx_keeps_def tx_frame_view_def chain_def)

lemma filter_remove1_not: "\<not> P x \<Longrightarrow> filter P (remove1 x xs) = filter P xs"
  by (induction xs) auto

lemma distinct_set_singleton: "distinct xs \<Longrightarrow> set xs = {x} \<Longrightarrow> xs = [x]"
  by (cases xs; cases "tl xs") auto

lemma length_filter_remove1:
  "P x \<Longrightarrow> x \<in> set xs \<Longrightarrow> length (filter P xs) = Suc (length (filter P (remove1 x xs)))"
  by (induction xs) auto

subsection \<open>Expiration\<close>

definition expired :: "canard \<Rightarrow> int \<Rightarrow> nat \<Rightarrow> bool" where
  "expired self now t \<longleftrightarrow> tr_deadline (tx_transfers self t) < now"

lemma tx_keeps_expired: "tx_keeps self self' \<Longrightarrow> expired self' now = expired self now"
  by (simp add: tx_keeps_def expired_def fun_eq_iff)

definition expire_result :: "canard \<Rightarrow> int \<Rightarrow> canard \<Rightarrow> bool" where
  "expire_result self now self' \<longleftrightarrow> tx_inv self' \<and> tx_keeps self self' \<and>
     tx_agewise self' = filter (\<lambda>u. \<not> expired self now u) (tx_agewise self) \<and>
     err_tx_expiration self' =
       err_tx_expiration self + of_nat (length (filter (expired self now) (tx_agewise self)))"

lemma expire_result_none:
  assumes "tx_inv self" and "\<forall>u \<in> set (tx_agewise self). \<not> expired self now u"
  shows "expire_result self now self"
proof -
  have "filter (\<lambda>u. \<not> expired self now u) (tx_agewise self) = tx_agewise self"
    "filter (expired self now) (tx_agewise self) = []"
    using assms(2) by (auto simp: filter_id_conv filter_empty_conv)
  with assms(1) show ?thesis by (simp add: expire_result_def)
qed

lemma expire_result_step:
  assumes inv: "tx_inv self" and t: "t \<in> set (tx_agewise self)" "expired self now t"
    and r: "expire_result ((tx_retire self t)\<lparr>err_tx_expiration := err_tx_expiration self + 1\<rparr>) now self'"
  shows "expire_result self now self'"
proof -
  have k: "tx_keeps self (tx_retire self t)" by (rule tx_keeps_retire [OF inv])
  have e: "expired ((tx_retire self t)\<lparr>err_tx_expiration := n\<rparr>) now = expired self now" for n
    using tx_keeps_expired [OF k] by (simp add: expired_def fun_eq_iff)
  have f: "filter (\<lambda>u. \<not> expired self now u) (remove1 t (tx_agewise self))
      = filter (\<lambda>u. \<not> expired self now u) (tx_agewise self)"
    using t(2) by (simp add: filter_remove1_not)
  have "tx_keeps self self'"
    using r tx_keeps_trans [of self "(tx_retire self t)\<lparr>err_tx_expiration := err_tx_expiration self + 1\<rparr>" self'] k
    by (simp add: expire_result_def)
  with r f length_filter_remove1 [of "expired self now" t "tx_agewise self"] t show ?thesis
    by (simp add: expire_result_def e add.assoc)
qed

lemma tx_retire_err [simp]: "err_tx_expiration (tx_retire self t) = err_tx_expiration self"
  "err_tx_sacrifice (tx_retire self t) = err_tx_sacrifice self"
proof -
  have "err_tx_expiration (tx_free_chain c fs) = err_tx_expiration c \<and>
        err_tx_sacrifice (tx_free_chain c fs) = err_tx_sacrifice c" for c fs
    by (induction fs arbitrary: c) (simp_all add: ref_count_dec_def Let_def)
  then show "err_tx_expiration (tx_retire self t) = err_tx_expiration self"
    "err_tx_sacrifice (tx_retire self t) = err_tx_sacrifice self"
    by (simp_all add: tx_retire_eq set_cursor_def set_transfer_def)
qed

lemma tx_expire_from_spec:
  assumes "tx_inv self" and "inorder (tx_deadline self) = t # rest"
  shows "expire_result self now (tx_expire_from self now t)"
  using assms
proof (induction rest arbitrary: self t)
  case Nil
  then have a: "tx_agewise self = [t]"
    by (intro distinct_set_singleton) (auto simp: tx_inv_def)
  show ?case
  proof (cases "expired self now t")
    case True
    let ?mid = "(tx_retire self t)\<lparr>err_tx_expiration := err_tx_expiration self + 1\<rparr>"
    have "expire_result ?mid now ?mid"
      by (rule expire_result_none) (use tx_retire_inv [OF Nil(1), of t] a in simp_all)
    from expire_result_step [OF Nil(1) _ True this] a True Nil(2) show ?thesis
      by (subst tx_expire_from.simps) (simp add: expired_def index_next_def Let_def)
  next
    case False
    with a expire_result_none [OF Nil(1)] show ?thesis
      by (subst tx_expire_from.simps) (simp add: expired_def)
  qed
next
  case (Cons t' rest)
  have s: "sorted_wrt (sooner self) (t # t' # rest)" and a: "set (tx_agewise self) = set (t # t' # rest)"
    using Cons.prems by (auto simp: tx_inv_def)
  show ?case
  proof (cases "expired self now t")
    case True
    let ?mid = "(tx_retire self t)\<lparr>err_tx_expiration := err_tx_expiration self + 1\<rparr>"
    have t: "t \<in> set (tx_agewise self)" using a by simp
    have inv: "tx_inv ?mid" using tx_retire_inv [OF Cons.prems(1) t] by simp
    have "inorder (tx_deadline ?mid) = t' # rest"
      using tx_retire_deadline_list [OF Cons.prems(1), of t] Cons.prems(2) by simp
    from expire_result_step [OF Cons.prems(1) t True Cons.IH [OF inv this]] True Cons.prems(2)
    show ?thesis
      by (subst tx_expire_from.simps) (simp add: expired_def index_next_def Let_def)
  next
    case False
    then have "\<forall>u \<in> set (tx_agewise self). \<not> expired self now u"
      using s a by (auto simp: expired_def sooner_def)
    with False expire_result_none [OF Cons.prems(1)] show ?thesis
      by (subst tx_expire_from.simps) (simp add: expired_def)
  qed
qed

lemma tx_expire_spec: "tx_inv self \<Longrightarrow> expire_result self now (tx_expire self now)"
proof (cases "inorder (tx_deadline self)")
  case Nil
  assume inv: "tx_inv self"
  with Nil have "set (tx_agewise self) = {}" by (auto simp: tx_inv_def)
  with inv Nil expire_result_none [of self now] show ?thesis by (simp add: tx_expire_def index_min_hd)
next
  case (Cons t rest)
  assume "tx_inv self"
  from tx_expire_from_spec [OF this Cons] Cons show ?thesis by (simp add: tx_expire_def index_min_hd)
qed

lemma tx_expire_facts:
  assumes "tx_inv self"
  shows "tx_agewise (tx_expire self now) =
      filter (\<lambda>t. now \<le> tr_deadline (tx_transfers self t)) (tx_agewise self) \<and>
    err_tx_expiration (tx_expire self now) = err_tx_expiration self +
      of_nat (length (filter (\<lambda>t. tr_deadline (tx_transfers self t) < now) (tx_agewise self))) \<and>
    tx_inv (tx_expire self now) \<and> tx_keeps self (tx_expire self now)"
proof -
  have "(\<lambda>u. \<not> expired self now u) = (\<lambda>t. now \<le> tr_deadline (tx_transfers self t))"
    "expired self now = (\<lambda>t. tr_deadline (tx_transfers self t) < now)"
    by (auto simp: expired_def)
  with tx_expire_spec [OF assms, of now] show ?thesis by (simp add: expire_result_def)
qed

text \<open>\<open>txExpire\<close> removes exactly the queued transfers whose deadline is in the past, counts
  them, keeps the order of the others and everything about them, and keeps the invariant of the
  queue.\<close>

theorem tx_expire_exact:
  assumes "tx_inv self"
  shows "tx_agewise (tx_expire self now) =
      filter (\<lambda>t. now \<le> tr_deadline (tx_transfers self t)) (tx_agewise self) \<and>
    err_tx_expiration (tx_expire self now) = err_tx_expiration self +
      of_nat (length (filter (\<lambda>t. tr_deadline (tx_transfers self t) < now) (tx_agewise self))) \<and>
    tx_inv (tx_expire self now) \<and> tx_keeps self (tx_expire self now)"
  by (rule tx_expire_facts [OF assms])

subsection \<open>Sacrifice\<close>

lemma tx_sacrifice_spec:
  assumes "tx_inv self"
  shows "tx_inv (tx_sacrifice self needed) \<and> tx_keeps self (tx_sacrifice self needed) \<and>
    (\<exists>k. tx_agewise (tx_sacrifice self needed) = drop k (tx_agewise self)) \<and>
    (tx_agewise (tx_sacrifice self needed) = [] \<or>
     needed \<le> tx_queue_capacity self - tx_queue_size (tx_sacrifice self needed))"
  using assms
proof (induction self needed rule: tx_sacrifice.induct)
  case (1 self needed)
  show ?case
  proof (cases "needed > tx_queue_capacity self - tx_queue_size self \<and> tx_agewise self \<noteq> []")
    case False
    then have "tx_sacrifice self needed = self"
      by (subst tx_sacrifice.simps) (auto split: list.splits)
    with False 1(2) show ?thesis by (auto intro: exI [of _ 0])
  next
    case True
    then obtain t rest where a: "tx_agewise self = t # rest" by (cases "tx_agewise self") auto
    let ?mid = "(tx_retire self t)\<lparr>err_tx_sacrifice := err_tx_sacrifice self + 1\<rparr>"
    have inv: "tx_inv ?mid" using tx_retire_inv [OF 1(2), of t] a by simp
    have k: "tx_keeps self ?mid" using tx_keeps_retire [OF 1(2), of t] by simp
    have r: "tx_agewise ?mid = rest" using a by simp
    have e: "tx_sacrifice self needed = tx_sacrifice ?mid needed"
      using True a by (subst tx_sacrifice.simps) (simp add: Let_def)
    have IH: "tx_inv (tx_sacrifice ?mid needed) \<and> tx_keeps ?mid (tx_sacrifice ?mid needed) \<and>
        (\<exists>k. tx_agewise (tx_sacrifice ?mid needed) = drop k rest) \<and>
        (tx_agewise (tx_sacrifice ?mid needed) = [] \<or>
         needed \<le> tx_queue_capacity ?mid - tx_queue_size (tx_sacrifice ?mid needed))"
      using 1(1) [OF _ a refl] True inv r by simp
    then have "tx_keeps self (tx_sacrifice ?mid needed)" using k tx_keeps_trans by blast
    moreover from IH obtain j where "tx_agewise (tx_sacrifice ?mid needed) = drop (Suc j) (tx_agewise self)"
      using a by auto
    ultimately show ?thesis using IH unfolding e by auto
  qed
qed

subsection \<open>Enqueueing\<close>

text \<open>The links of a transfer whose frames are in place.\<close>

definition tx_linked :: "canard \<Rightarrow> nat \<Rightarrow> canard" where
  "tx_linked self t =
     tx_make_pending
       (self\<lparr>tx_deadline := fst (index_find_or_insert (tx_compare_deadline self t) t (tx_deadline self)),
             tx_agewise := remove1 t (tx_agewise self) @ [t]\<rparr>) t"

definition tx_queueable :: "canard \<Rightarrow> nat \<Rightarrow> bool" where
  "tx_queueable self t \<longleftrightarrow> t \<notin> set (tx_agewise self) \<and> t < tx_transfer_fresh self \<and>
     tr_seqno (tx_transfers self t) < tx_seqno self \<and>
     (\<forall>u \<in> set (tx_agewise self). tr_seqno (tx_transfers self u) \<noteq> tr_seqno (tx_transfers self t))"

lemma set_cursor_orders [simp]:
  "sooner (set_cursor self t i fs) = sooner self" "more_urgent (set_cursor self t i fs) = more_urgent self"
  "chain (set_cursor self t 0 fs) u = (if u = t then fs else chain self u)"
  by (simp_all add: sooner_def more_urgent_def chain_def fun_eq_iff)

lemma tx_linked_inv:
  assumes inv: "tx_inv self" and q: "tx_queueable self t"
    and fr: "frames_inv self' (queue_frames self @ fs)" and fs: "fs \<noteq> []"
    and s': "tx_agewise self' = tx_agewise self" "tx_deadline self' = tx_deadline self"
      "tx_pending self' = tx_pending self" "tx_transfers self' = tx_transfers self"
      "tx_seqno self' = tx_seqno self" "tx_transfer_fresh self' = tx_transfer_fresh self"
  shows "tx_inv (tx_linked (set_cursor self' t 0 fs) t) \<and>
    tx_agewise (tx_linked (set_cursor self' t 0 fs) t) = tx_agewise self @ [t] \<and>
    chain (tx_linked (set_cursor self' t 0 fs) t) t = fs"
proof -
  let ?c = "set_cursor self' t 0 fs"
  have t: "t \<notin> set (tx_agewise self)" using q by (simp add: tx_queueable_def)
  have ord: "sooner ?c = sooner self" "more_urgent ?c = more_urgent self"
    using order_cong [OF s'(4)] by simp_all
  have ap: "\<forall>x \<in> set (inorder (tx_deadline self)). other_seqno ?c t x"
    "\<forall>x \<in> set (inorder (tx_pending self 0)). other_seqno ?c t x"
    using inv q by (auto simp: tx_inv_def tx_queueable_def other_seqno_def s')
  have nz: "tx_compare_deadline c t x \<noteq> 0" "tx_compare_pending_order c t x \<noteq> 0" for c x
    by (simp_all add: tx_compare_deadline_def tx_compare_pending_order_def Let_def)
  have sd: "sorted_wrt (sooner ?c) (inorder (tx_deadline self))"
    and sp: "sorted_wrt (more_urgent ?c) (inorder (tx_pending self 0))"
    using inv by (simp_all add: tx_inv_def order_cong(1,2) [OF s'(4)])
  obtain D y where D: "index_find_or_insert (tx_compare_deadline ?c t) t (tx_deadline self) = (D, y)" by fastforce
  from by_deadline.insert_sorted [OF sd _ ap(1) D] nz
  have D': "sorted_wrt (sooner ?c) (inorder D)" "set (inorder D) = insert t (set (inorder (tx_deadline self)))"
    by auto
  let ?m = "?c\<lparr>tx_deadline := D, tx_agewise := tx_agewise self @ [t]\<rparr>"
  have cm: "tx_compare_pending_order ?m t = tx_compare_pending_order ?c t"
    by (simp add: tx_compare_pending_order_def fun_eq_iff)
  obtain P z where P: "index_find_or_insert (tx_compare_pending_order ?c t) t (tx_pending self 0) = (P, z)" by fastforce
  from by_urgency.insert_sorted [OF sp _ ap(2) P] nz
  have P': "sorted_wrt (more_urgent ?c) (inorder P)" "set (inorder P) = insert t (set (inorder (tx_pending self 0)))"
    by auto
  have "\<not> index_inserted t (tx_pending self 0)"
    using inv t by (auto simp: index_inserted_def tx_inv_def)
  then have L: "tx_linked ?c t = ?m\<lparr>tx_pending := (tx_pending self)(0 := P)\<rparr>"
    using fs t by (simp add: tx_linked_def tx_make_pending_def iface_count_def s' D remove1_idem cm P)
  have ch: "chain ?c u = chain self u" if "u \<noteq> t" for u
    using that order_cong(3) [OF s'(4)] by simp
  have qf: "queue_frames (tx_linked ?c t) = queue_frames self @ fs"
  proof -
    have "map (chain (tx_linked ?c t)) (tx_agewise self) = map (chain self) (tx_agewise self)"
      by (rule map_cong) (use t ch in \<open>auto simp: L chain_def\<close>)
    moreover have "chain (tx_linked ?c t) t = fs" by (simp add: L chain_def)
    moreover have "tx_agewise (tx_linked ?c t) = tx_agewise self @ [t]" by (simp add: L)
    ultimately show ?thesis
      by (simp only: queue_frames_def map_append concat_append list.map concat.simps append_Nil2)
  qed
  have "frames_inv (tx_linked ?c t) (queue_frames (tx_linked ?c t))"
    unfolding qf using fr by (subst frames_inv_other [of _ self']) (simp_all add: L)
  moreover have "sooner (tx_linked ?c t) = sooner ?c" "more_urgent (tx_linked ?c t) = more_urgent ?c"
    by (simp_all add: L sooner_def more_urgent_def fun_eq_iff)
  moreover have chL: "chain (tx_linked ?c t) u = (if u = t then fs else chain self u)" for u
    using order_cong(3) [OF s'(4)] by (simp add: L chain_def fun_eq_iff)
  moreover have "inj_on (\<lambda>u. tr_seqno (tx_transfers self u)) (insert t (set (tx_agewise self)))"
    using inv q by (auto simp: tx_inv_def tx_queueable_def)
  ultimately have "tx_inv (tx_linked ?c t)"
    using inv q fs D' P' unfolding tx_inv_def
    by (auto simp: L s' tx_queueable_def)
  with chL show ?thesis by (simp add: L)
qed

lemma tx_queueable_keeps:
  "tx_keeps self self' \<Longrightarrow> tx_queueable self t \<Longrightarrow> tx_queueable self' t"
  by (auto simp: tx_keeps_def tx_queueable_def)

definition set_multi :: "canard \<Rightarrow> nat \<Rightarrow> bool \<Rightarrow> canard" where
  "set_multi self t b = set_transfer self t ((tx_transfers self t)\<lparr>tr_multi_frame := b\<rparr>)"

lemma set_multi_sel [simp]:
  "tr_deadline (tx_transfers (set_multi self t b) u) = tr_deadline (tx_transfers self u)"
  "tr_seqno (tx_transfers (set_multi self t b) u) = tr_seqno (tx_transfers self u)"
  "tr_can_id_msb (tx_transfers (set_multi self t b) u) = tr_can_id_msb (tx_transfers self u)"
  "tr_cursor (tx_transfers (set_multi self t b) u) = tr_cursor (tx_transfers self u)"
  "tr_fd (tx_transfers (set_multi self t b) u) = tr_fd (tx_transfers self u)"
  "tx_agewise (set_multi self t b) = tx_agewise self" "tx_deadline (set_multi self t b) = tx_deadline self"
  "tx_pending (set_multi self t b) = tx_pending self" "tx_seqno (set_multi self t b) = tx_seqno self"
  "tx_transfer_fresh (set_multi self t b) = tx_transfer_fresh self"
  "tx_frames (set_multi self t b) = tx_frames self" "tx_frame_fresh (set_multi self t b) = tx_frame_fresh self"
  "tx_queue_size (set_multi self t b) = tx_queue_size self"
  "tx_queue_capacity (set_multi self t b) = tx_queue_capacity self"
  by (simp_all add: set_multi_def set_transfer_def)

lemma tx_inv_set_multi [simp]: "tx_inv (set_multi self t b) = tx_inv self"
proof -
  have "sooner (set_multi self t b) = sooner self" "more_urgent (set_multi self t b) = more_urgent self"
    "chain (set_multi self t b) = chain self"
    by (simp_all add: sooner_def more_urgent_def chain_def fun_eq_iff)
  then show ?thesis
    using frames_inv_other [of "set_multi self t b" self] by (simp add: tx_inv_def queue_frames_def)
qed

lemma tx_queueable_set_multi [simp]: "tx_queueable (set_multi self t b) u = tx_queueable self u"
  by (simp add: tx_queueable_def)

lemma alloc_chain_views:
  "map (tx_frame_view (alloc_chain self ds)) [tx_frame_fresh self..<tx_frame_fresh self + length ds] = ds"
  by (rule nth_equalityI) (simp_all add: alloc_chain_def tx_frame_view_def frame_with_def)

lemma alloc_chain_view_old:
  "f < tx_frame_fresh self \<Longrightarrow> tx_frame_view (alloc_chain self ds) f = tx_frame_view self f"
  by (simp add: alloc_chain_def tx_frame_view_def)

lemma tx_linked_sel [simp]:
  "tx_queue_size (tx_linked self t) = tx_queue_size self" "tx_frames (tx_linked self t) = tx_frames self"
  "tx_frame_view (tx_linked self t) f = tx_frame_view self f"
  "tx_queue_capacity (tx_linked self t) = tx_queue_capacity self"
  "tx_transfers (tx_linked self t) = tx_transfers self" "node_id (tx_linked self t) = node_id self"
  by (auto simp: tx_linked_def tx_make_pending_def iface_count_def tx_frame_view_def)

lemma single_iface:
  assumes "bm AND iface_bitmap_all = (bm :: u8)" and "ifaces AND bm \<noteq> 0"
  shows "ifaces AND bm = 1"
proof -
  have one: "iface_bitmap_all = 1" by (simp add: iface_bitmap_all_def iface_count_def)
  have bool: "x AND 1 = of_bool (odd x)" for x :: u8
    by (simp add: and_one_eq mod_2_eq_odd)
  have "bm = of_bool (odd bm)" using assms(1) unfolding one bool by simp
  then have "bm = 0 \<or> bm = 1" by (cases "odd bm") simp_all
  with assms(2) show ?thesis by (auto simp: bool split: if_splits)
qed

lemma popcount_one: "popcount 1 = 1"
  by code_simp

text \<open>Everything after the room has been made.\<close>

definition tx_enqueue :: "canard \<Rightarrow> nat \<Rightarrow> bytes list \<Rightarrow> canard" where
  "tx_enqueue self t ds =
     tx_linked (set_cursor (alloc_chain self ds) t 0 [tx_frame_fresh self..<tx_frame_fresh self + length ds]) t"

lemma tx_enqueue_spec:
  assumes inv: "tx_inv self" and q: "tx_queueable self t" and ds: "ds \<noteq> []" "\<forall>d \<in> set ds. d \<noteq> []"
  shows "tx_inv (tx_enqueue self t ds) \<and> tx_agewise (tx_enqueue self t ds) = tx_agewise self @ [t] \<and>
    map (tx_frame_view (tx_enqueue self t ds)) (chain (tx_enqueue self t ds) t) = ds \<and>
    tx_queue_size (tx_enqueue self t ds) = tx_queue_size self + int (length ds)"
proof -
  have fr: "frames_inv self (queue_frames self)" using inv by (simp add: tx_inv_def)
  let ?fs = "[tx_frame_fresh self..<tx_frame_fresh self + length ds]"
  have s: "tx_agewise (alloc_chain self ds) = tx_agewise self" "tx_deadline (alloc_chain self ds) = tx_deadline self"
    "tx_pending (alloc_chain self ds) = tx_pending self" "tx_transfers (alloc_chain self ds) = tx_transfers self"
    "tx_seqno (alloc_chain self ds) = tx_seqno self" "tx_transfer_fresh (alloc_chain self ds) = tx_transfer_fresh self"
    by (simp_all add: alloc_chain_def)
  have ne: "?fs \<noteq> []" using ds(1) by simp
  from tx_linked_inv [OF inv q frames_inv_alloc [OF fr ds(2)] ne s]
  have r: "tx_inv (tx_enqueue self t ds)" "tx_agewise (tx_enqueue self t ds) = tx_agewise self @ [t]"
    "chain (tx_enqueue self t ds) t = ?fs" by (simp_all add: tx_enqueue_def)
  have "tx_frame_view (tx_enqueue self t ds) = tx_frame_view (alloc_chain self ds)"
    by (simp add: tx_enqueue_def tx_frame_view_def fun_eq_iff)
  then have "map (tx_frame_view (tx_enqueue self t ds)) ?fs = ds"
    using alloc_chain_views [of self ds] by simp
  with r show ?thesis by (simp add: tx_enqueue_def) (simp add: alloc_chain_def)
qed

definition wire_frames :: "bool \<Rightarrow> u16 \<Rightarrow> bool \<Rightarrow> u8 \<Rightarrow> bytes \<Rightarrow> bytes list" where
  "wire_frames v0 seed fd tid payload =
     (if v0 then transfer_frames_v0 seed tid payload else transfer_frames seed fd tid payload)"

lemma wire_frames_ne: "wire_frames v0 seed fd tid payload \<noteq> []" "\<forall>d \<in> set (wire_frames v0 seed fd tid payload). d \<noteq> []"
  by (auto simp: wire_frames_def dest: transfer_frames_sizes)

lemma tx_push_unfold:
  assumes eff: "ifaces AND iface_bitmap self = 1" and now: "p_now pf env = (now, env1)"
    and fd: "tr_fd (tx_transfers (tx_expire self now) t) = fd" and v0: "v0 \<longrightarrow> \<not> fd"
    and ds: "ds = wire_frames v0 seed fd tid payload"
  shows "tx_push pf self env t v0 ifaces tid payload seed =
    (let s2 = set_multi (tx_expire self now) t (length ds > 1);
         (s3, ok) = tx_ensure_queue_space s2 (int (length ds))
     in if ok then (tx_enqueue s3 t ds, env1, True)
        else (s3\<lparr>err_tx_capacity := err_tx_capacity s3 + 1\<rparr>, env1, False))"
proof -
  have n: "tx_predict_frame_count (length payload) (mtu_of fd) = length ds"
    using v0 by (auto simp: ds wire_frames_def length_transfer_frames length_transfer_frames_v0 mtu_of_def)
  have pc: "popcount (ucast (1 :: u8)) - 1 = 0" using popcount_one by simp
  have sp: "(if v0 then tx_spool_v0 c seed tid payload else tx_spool c seed fd tid payload) =
      (alloc_chain c ds, Some [tx_frame_fresh c..<tx_frame_fresh c + length ds])" for c
    by (simp add: ds wire_frames_def tx_spool_eq tx_spool_v0_eq Let_def)
  show ?thesis
    unfolding tx_push_def Let_def eff now prod.case fd n set_multi_def [symmetric] sp option.case pc
    by (simp add: split_beta iface_count_def tx_enqueue_def tx_linked_def)
qed

lemma tx_push_refused: "ifaces AND iface_bitmap self = 0 \<Longrightarrow>
  tx_push pf self env t v0 ifaces tid payload seed = (self, env, False)"
  by (simp add: tx_push_def)

text \<open>What stays of the transfers in the queue: their order, and the frames of each.\<close>

definition same_frames :: "canard \<Rightarrow> canard \<Rightarrow> nat \<Rightarrow> bool" where
  "same_frames self self' u \<longleftrightarrow> chain self' u = chain self u \<and>
     (\<forall>f \<in> set (chain self u). tx_frame_view self' f = tx_frame_view self f)"

lemma tx_keeps_frames: "tx_keeps self self' \<Longrightarrow> u \<in> set (tx_agewise self') \<Longrightarrow> same_frames self self' u"
  by (simp add: tx_keeps_def same_frames_def) blast

lemma chain_fresh:
  "tx_inv self \<Longrightarrow> u \<in> set (tx_agewise self) \<Longrightarrow> f \<in> set (chain self u) \<Longrightarrow> f < tx_frame_fresh self"
  by (auto simp: tx_inv_def frames_inv_def queue_frames_def registered_frames_def)

lemma tx_enqueue_others:
  assumes "tx_inv self" and "u \<in> set (tx_agewise self)" and "u \<noteq> t"
  shows "same_frames self (tx_enqueue self t ds) u"
proof -
  have "chain (tx_enqueue self t ds) u = chain self u"
    using assms(3) by (simp add: tx_enqueue_def chain_def) (simp add: alloc_chain_def)
  moreover have "tx_frame_view (tx_enqueue self t ds) f = tx_frame_view self f" if "f \<in> set (chain self u)" for f
    using chain_fresh [OF assms(1,2) that] alloc_chain_view_old [of f self ds]
    by (simp add: tx_enqueue_def tx_frame_view_def)
  ultimately show ?thesis by (simp add: same_frames_def)
qed

lemma same_frames_trans: "same_frames a b u \<Longrightarrow> same_frames b c u \<Longrightarrow> same_frames a c u"
  by (simp add: same_frames_def)

text \<open>
  The specification of an enqueueing at a time: what room was made, and the transfer at the end
  of the list by age with its frames, or not at all.
\<close>

definition push_result ::
  "canard \<Rightarrow> nat \<Rightarrow> bytes list \<Rightarrow> int \<Rightarrow> canard \<Rightarrow> bool \<Rightarrow> bool"
where
  "push_result self t ds now self' ok \<longleftrightarrow> tx_inv self' \<and>
     tx_queue_capacity self' = tx_queue_capacity self \<and>
     (\<exists>k. tx_agewise self' =
        drop k (filter (\<lambda>u. now \<le> tr_deadline (tx_transfers self u)) (tx_agewise self)) @ (if ok then [t] else [])) \<and>
     (\<forall>u \<in> set (tx_agewise self') - {t}. same_frames self self' u) \<and>
     (if ok then map (tx_frame_view self') (chain self' t) = ds \<and> tx_queue_size self' \<le> tx_queue_capacity self
      else tx_queue_size self' \<le> tx_queue_size self)"

lemma tx_push_spec:
  assumes inv: "tx_inv self" and q: "tx_queueable self t" and v0: "v0 \<longrightarrow> \<not> tr_fd (tx_transfers self t)"
    and eff: "ifaces AND iface_bitmap self = 1" and now: "p_now pf env = (now, env1)"
    and r: "tx_push pf self env t v0 ifaces tid payload seed = (self', env', ok)"
  shows "push_result self t (wire_frames v0 seed (tr_fd (tx_transfers self t)) tid payload) now self' ok \<and> env' = env1"
proof -
  let ?fd = "tr_fd (tx_transfers self t)" and ?s1 = "tx_expire self now"
  let ?ds = "wire_frames v0 seed ?fd tid payload"
  note e = tx_expire_facts [OF inv, of now]
  have k1: "tx_keeps self ?s1" and i1: "tx_inv ?s1" using e by auto
  have fd1: "tr_fd (tx_transfers ?s1 t) = ?fd" using k1 by (simp add: tx_keeps_def)
  let ?s2 = "set_multi ?s1 t (length ?ds > 1)"
  let ?n = "int (length ?ds)"
  have i2: "tx_inv ?s2" and q2: "tx_queueable ?s2 t" using i1 tx_queueable_keeps [OF k1 q] by simp_all
  obtain s3 b where s3: "tx_ensure_queue_space ?s2 ?n = (s3, b)" by fastforce
  note sac = tx_sacrifice_spec [OF i2, of ?n]
  have k3: "tx_keeps ?s2 s3" and i3: "tx_inv s3" and d3: "\<exists>k. tx_agewise s3 = drop k (tx_agewise ?s2)"
    and fit: "b \<Longrightarrow> ?n \<le> tx_queue_capacity s3 - tx_queue_size s3"
    using s3 sac i2 by (auto simp: tx_ensure_queue_space_def Let_def split: if_splits intro: exI [of _ 0])
  have sub: "\<forall>u \<in> set (tx_agewise s3). same_frames self s3 u"
  proof
    fix u assume u: "u \<in> set (tx_agewise s3)"
    then have "u \<in> set (tx_agewise ?s1)" using d3 set_drop_subset by fastforce
    then have "same_frames self ?s1 u" by (rule tx_keeps_frames [OF k1])
    moreover have "same_frames ?s1 ?s2 u" by (simp add: same_frames_def chain_def tx_frame_view_def)
    ultimately show "same_frames self s3 u"
      using tx_keeps_frames [OF k3 u] same_frames_trans by blast
  qed
  have cap: "tx_queue_capacity s3 = tx_queue_capacity self" "tx_queue_size s3 \<le> tx_queue_size self"
    using k1 k3 by (auto simp: tx_keeps_def)
  have age: "\<exists>k. tx_agewise s3 =
      drop k (filter (\<lambda>u. now \<le> tr_deadline (tx_transfers self u)) (tx_agewise self))"
    using d3 e by simp
  have push: "tx_push pf self env t v0 ifaces tid payload seed =
      (if b then (tx_enqueue s3 t ?ds, env1, True) else (s3\<lparr>err_tx_capacity := err_tx_capacity s3 + 1\<rparr>, env1, False))"
    using tx_push_unfold [OF eff now fd1 v0 refl] s3 by (simp add: Let_def)
  show ?thesis
  proof (cases b)
    case True
    then have r': "self' = tx_enqueue s3 t ?ds" "env' = env1" "ok" using r push by auto
    note en = tx_enqueue_spec [OF i3 tx_queueable_keeps [OF k3 q2] wire_frames_ne]
    have "\<forall>u \<in> set (tx_agewise s3) - {t}. same_frames self self' u"
      using sub tx_enqueue_others [OF i3] same_frames_trans unfolding r'(1) by blast
    moreover have "tx_queue_capacity self' = tx_queue_capacity self"
      using cap unfolding r'(1) by (simp add: tx_enqueue_def) (simp add: alloc_chain_def)
    ultimately show ?thesis
      using en age cap fit [OF True] r' by (auto simp: push_result_def)
  next
    case False
    then have r': "self' = s3\<lparr>err_tx_capacity := err_tx_capacity s3 + 1\<rparr>" "env' = env1" "\<not> ok" using r push by auto
    have "\<forall>u \<in> set (tx_agewise s3). same_frames self self' u"
      using sub by (simp add: r' same_frames_def chain_def tx_frame_view_def)
    then show ?thesis using i3 age cap r' by (auto simp: push_result_def)
  qed
qed

subsection \<open>Purging\<close>

definition purgeable :: "canard \<Rightarrow> nat \<Rightarrow> bool" where
  "purgeable self u \<longleftrightarrow> tr_multi_frame (tx_transfers self u) \<and> tr_first_frame_departed (tx_transfers self u)"

lemma tx_keeps_purgeable: "tx_keeps self self' \<Longrightarrow> purgeable self' u = purgeable self u"
  by (simp add: tx_keeps_def purgeable_def)

lemma remove1_filter: "distinct xs \<Longrightarrow> remove1 t xs = filter (\<lambda>u. u \<noteq> t) xs"
  by (simp add: distinct_remove1_removeAll removeAll_filter_not_eq eq_commute)

lemma tx_purge_from_spec:
  assumes "tx_inv self" and "distinct xs" and "set xs \<subseteq> set (tx_agewise self)"
  shows "tx_inv (tx_purge_from self xs) \<and> tx_keeps self (tx_purge_from self xs) \<and>
    tx_agewise (tx_purge_from self xs) = filter (\<lambda>u. \<not> (u \<in> set xs \<and> purgeable self u)) (tx_agewise self)"
  using assms
proof (induction xs arbitrary: self)
  case (Cons t xs)
  let ?mid = "if purgeable self t then tx_retire self t else self"
  have t: "t \<in> set (tx_agewise self)" using Cons.prems(3) by simp
  have inv: "tx_inv ?mid" and k: "tx_keeps self ?mid"
    using Cons.prems(1) tx_retire_inv [OF Cons.prems(1) t] tx_keeps_retire by simp_all
  have d: "distinct (tx_agewise self)" using Cons.prems(1) by (simp add: tx_inv_def)
  have a: "tx_agewise ?mid = filter (\<lambda>u. \<not> (u = t \<and> purgeable self u)) (tx_agewise self)"
    using remove1_filter [OF d] by (auto simp: filter_id_conv intro: filter_cong)
  have s: "set xs \<subseteq> set (tx_agewise ?mid)" using Cons.prems(2,3) unfolding a by auto
  have e: "tx_purge_from self (t # xs) = tx_purge_from ?mid xs"
    by (simp add: purgeable_def Let_def)
  have p: "purgeable ?mid = purgeable self" using tx_keeps_purgeable [OF k] by (rule ext)
  from Cons.IH [OF inv _ s] Cons.prems(2) have
    r: "tx_inv (tx_purge_from ?mid xs)" "tx_keeps ?mid (tx_purge_from ?mid xs)"
    "tx_agewise (tx_purge_from ?mid xs) = filter (\<lambda>u. \<not> (u \<in> set xs \<and> purgeable self u)) (tx_agewise ?mid)"
    unfolding p by simp_all
  from tx_keeps_trans [OF k r(2)] r(1,3) show ?case
    unfolding e a by (auto simp: conj_commute intro: filter_cong)
qed (simp add: filter_id_conv)

lemma tx_purge_spec:
  assumes "tx_inv self"
  shows "tx_inv (tx_purge_continuations self) \<and> tx_keeps self (tx_purge_continuations self) \<and>
    tx_agewise (tx_purge_continuations self) = filter (\<lambda>u. \<not> purgeable self u) (tx_agewise self)"
proof -
  have "distinct (tx_agewise self)" using assms by (simp add: tx_inv_def)
  from tx_purge_from_spec [OF assms this order_refl] show ?thesis
    by (auto simp: tx_purge_continuations_def intro: filter_cong)
qed

text \<open>After \<open>txPurgeContinuations\<close> no queued transfer of several frames has had its first
  frame sent; all other transfers are still queued, in the same order and with the same frames.\<close>

theorem tx_purge_exact:
  assumes "tx_inv self"
  shows "tx_agewise (tx_purge_continuations self) =
      filter (\<lambda>t. \<not> (tr_multi_frame (tx_transfers self t) \<and> tr_first_frame_departed (tx_transfers self t)))
        (tx_agewise self) \<and>
    tx_inv (tx_purge_continuations self) \<and> tx_keeps self (tx_purge_continuations self)"
  using tx_purge_spec [OF assms] by (simp add: purgeable_def)

subsection \<open>Hand-over to the platform\<close>

text \<open>All frames waiting on the interface, as requests, in the order in which they are due.\<close>

definition waiting :: "canard \<Rightarrow> tx_request list" where
  "waiting self = concat (map (\<lambda>t. map (tx_request_of self 0 t) (chain self t)) (inorder (tx_pending self 0)))"

text \<open>Offering requests to the platform until it refuses one: how many it took.\<close>

fun offer :: "'e platform \<Rightarrow> tx_request list \<Rightarrow> 'e \<Rightarrow> nat \<times> 'e" where
  "offer pf [] env = (0, env)"
| "offer pf (r # rs) env =
     (let (ok, env) = p_tx pf r env in
      if ok then let (n, env) = offer pf rs env in (Suc n, env) else (0, env))"

definition tx_sent :: "canard \<Rightarrow> nat \<Rightarrow> nat \<Rightarrow> nat list \<Rightarrow> canard" where
  "tx_sent self t frame next =
     (let c = ref_count_dec (set_cursor (set_transfer self t
                ((tx_transfers self t)\<lparr>tr_first_frame_departed := True\<rparr>)) t 0 next) frame
      in if next = [] then c\<lparr>tx_pending := (tx_pending c)(0 := fst (index_remove_if t (tx_pending c 0)))\<rparr> else c)"

lemma tx_sent_sel [simp]:
  "tx_agewise (tx_sent self t f next) = tx_agewise self" "tx_deadline (tx_sent self t f next) = tx_deadline self"
  "tx_seqno (tx_sent self t f next) = tx_seqno self" "tx_transfer_fresh (tx_sent self t f next) = tx_transfer_fresh self"
  "tr_user_context (tx_transfers (tx_sent self t f next) u) = tr_user_context (tx_transfers self u)"
  "tr_deadline (tx_transfers (tx_sent self t f next) u) = tr_deadline (tx_transfers self u)"
  "tr_seqno (tx_transfers (tx_sent self t f next) u) = tr_seqno (tx_transfers self u)"
  "tr_can_id_msb (tx_transfers (tx_sent self t f next) u) = tr_can_id_msb (tx_transfers self u)"
  "tr_fd (tx_transfers (tx_sent self t f next) u) = tr_fd (tx_transfers self u)"
  "chain (tx_sent self t f next) u = (if u = t then next else chain self u)"
  "tx_frame_view (tx_sent self t f next) g = tx_frame_view self g"
  "tx_pending (tx_sent self t f next) 0 =
     (if next = [] then fst (index_remove_if t (tx_pending self 0)) else tx_pending self 0)"
  by (auto simp: tx_sent_def Let_def chain_def set_transfer_def tx_frame_view_def ref_count_dec_def)

lemma tx_sent_node [simp]: "node_id (tx_sent self t f next) = node_id self"
  "tx_queue_capacity (tx_sent self t f next) = tx_queue_capacity self"
  by (auto simp: tx_sent_def Let_def set_transfer_def ref_count_dec_def)

lemma tx_sent_orders [simp]:
  "sooner (tx_sent self t f next) = sooner self" "more_urgent (tx_sent self t f next) = more_urgent self"
  by (simp_all add: sooner_def more_urgent_def fun_eq_iff)

lemma tx_sent_inv:
  assumes inv: "tx_inv self" and t: "t \<in> set (tx_agewise self)" and ch: "chain self t = f # next"
  shows "tx_inv (tx_sent self t f next)"
proof -
  obtain as bs where ab: "tx_agewise self = as @ t # bs" "t \<notin> set as"
    using split_list_first [OF t] by blast
  then have "t \<notin> set bs" using inv by (simp add: tx_inv_def)
  note ab = ab this
  have map_as: "map (chain (tx_sent self t f next)) as = map (chain self) as"
    and map_bs: "map (chain (tx_sent self t f next)) bs = map (chain self) bs"
    by (rule map_cong; use ab in auto)+
  have "frames_inv self (f # queue_frames (tx_sent self t f next))"
  proof -
    have q: "queue_frames (tx_sent self t f next) =
        concat (map (chain self) as) @ next @ concat (map (chain self) bs)"
      by (simp only: queue_frames_def tx_sent_sel(1) ab map_append list.map concat_append concat.simps map_as map_bs)
        simp
    have "frames_inv self (queue_frames self)" using inv by (simp add: tx_inv_def)
    moreover have "mset (queue_frames self) = mset (f # queue_frames (tx_sent self t f next))"
      unfolding q by (simp add: queue_frames_def ab ch)
    ultimately show ?thesis using frames_inv_perm by blast
  qed
  then have "frames_inv (set_cursor (set_transfer self t ((tx_transfers self t)\<lparr>tr_first_frame_departed := True\<rparr>)) t 0 next)
      (f # queue_frames (tx_sent self t f next))"
    by (subst frames_inv_other) (simp_all add: set_transfer_def)
  from frames_inv_dec [OF this] have "frames_inv (tx_sent self t f next) (queue_frames (tx_sent self t f next))"
    by (subst frames_inv_other [rotated 3]) (auto simp: tx_sent_def Let_def)
  then show ?thesis
    using inv ch t tx_inv_distinct [OF inv] unfolding tx_inv_def
    by (auto simp: inorder_remove_if sorted_wrt_remove1)
qed

lemma tx_departed_eq:
  assumes "tx_inv self"
  shows "tx_departed self 0 t f next = (if next = [] then tx_retire (tx_sent self t f next) t else tx_sent self t f next)"
proof -
  have "\<not> tx_is_pending (tx_sent self t f []) t"
    using tx_inv_distinct [OF assms]
    by (simp add: tx_is_pending_def iface_count_def index_inserted_def inorder_remove_if)
  then show ?thesis by (simp add: tx_departed_def tx_sent_def Let_def)
qed

lemma tx_request_cong:
  "tr_user_context (tx_transfers a t) = tr_user_context (tx_transfers b t) \<Longrightarrow>
   tr_deadline (tx_transfers a t) = tr_deadline (tx_transfers b t) \<Longrightarrow> tr_fd (tx_transfers a t) = tr_fd (tx_transfers b t) \<Longrightarrow>
   tr_can_id_msb (tx_transfers a t) = tr_can_id_msb (tx_transfers b t) \<Longrightarrow> node_id a = node_id b \<Longrightarrow>
   tx_frame_view a f = tx_frame_view b f \<Longrightarrow> tx_request_of a 0 t f = tx_request_of b 0 t f"
  by (simp add: tx_request_of_def Let_def)

lemma tx_retire_view [simp]: "tx_frame_view (tx_retire self t) f = tx_frame_view self f"
  by (simp add: tx_frame_view_def)

text \<open>One frame taken by the platform: the invariant stays and the rest is still waiting.\<close>

lemma tx_departed_spec:
  assumes inv: "tx_inv self" and m: "index_min (tx_pending self 0) = Some t" and ch: "chain self t = f # next"
  shows "tx_inv (tx_departed self 0 t f next)"
    and "waiting self = tx_request_of self 0 t f # waiting (tx_departed self 0 t f next)"
    and "set (tx_agewise (tx_departed self 0 t f next)) \<subseteq> set (tx_agewise self)"
proof -
  let ?s = "tx_sent self t f next" and ?d = "tx_departed self 0 t f next"
  obtain rest where p: "inorder (tx_pending self 0) = t # rest"
    using m by (auto simp: index_min_hd split: list.splits)
  have t: "t \<in> set (tx_agewise self)" using inv p by (auto simp: tx_inv_def)
  have si: "tx_inv ?s" by (rule tx_sent_inv [OF inv t ch])
  show "tx_inv ?d" using si tx_retire_inv [OF si, of t] t by (auto simp: tx_departed_eq [OF inv])
  show "set (tx_agewise ?d) \<subseteq> set (tx_agewise self)"
    using set_remove1_subset [of t "tx_agewise self"] by (auto simp: tx_departed_eq [OF inv])
  have tr: "t \<notin> set rest" using tx_inv_distinct(2) [OF inv] p by simp
  have pd: "inorder (tx_pending ?d 0) = (if next = [] then rest else t # rest)"
    using p tx_retire_pending [OF si, of t] tx_inv_distinct(2) [OF inv] tr
    by (auto simp: tx_departed_eq [OF inv] inorder_remove_if remove1_idem)
  have rq: "tx_request_of ?d 0 u = tx_request_of self 0 u" for u
    by (rule ext, rule tx_request_cong) (auto simp: tx_departed_eq [OF inv])
  have cd: "chain ?d u = (if u = t then next else chain self u)" for u
    by (simp add: tx_departed_eq [OF inv])
  let ?F = "\<lambda>u. map (tx_request_of ?d 0 u) (chain ?d u)"
  have F: "map ?F rest = map (\<lambda>u. map (tx_request_of self 0 u) (chain self u)) rest"
    by (rule map_cong) (use tr in \<open>auto simp: rq cd\<close>)
  have Ft: "?F t = map (tx_request_of self 0 t) next" by (simp only: rq cd simp_thms if_True)
  have "waiting ?d = concat (map ?F (if next = [] then rest else t # rest))"
    unfolding waiting_def pd by (rule refl)
  also have "\<dots> = (if next = [] then [] else ?F t) @ concat (map ?F rest)" by simp
  also have "\<dots> = map (tx_request_of self 0 t) next
      @ concat (map (\<lambda>u. map (tx_request_of self 0 u) (chain self u)) rest)"
    unfolding F Ft by simp
  finally have "waiting ?d = \<dots>" .
  moreover have "waiting self = map (tx_request_of self 0 t) (f # next)
      @ concat (map (\<lambda>u. map (tx_request_of self 0 u) (chain self u)) rest)"
    by (simp only: waiting_def p list.map concat.simps ch)
  ultimately show "waiting self = tx_request_of self 0 t f # waiting ?d" by simp
qed

lemma tx_eject_spec:
  assumes "tx_inv self"
  shows "\<exists>self'. tx_eject_pending pf self env 0 = Inr (self', snd (offer pf (waiting self) env)) \<and>
    tx_inv self' \<and> waiting self' = drop (fst (offer pf (waiting self) env)) (waiting self) \<and>
    set (tx_agewise self') \<subseteq> set (tx_agewise self)"
  using assms
proof (induction "length (waiting self)" arbitrary: self env rule: less_induct)
  case less
  show ?case
  proof (cases "index_min (tx_pending self 0)")
    case None
    then have "inorder (tx_pending self 0) = []" by (auto simp: index_min_hd split: list.splits)
    then have "waiting self = []" by (simp add: waiting_def)
    with None less.prems show ?thesis by (subst tx_eject_pending.simps) simp
  next
    case (Some t)
    then have "t \<in> set (inorder (tx_pending self 0))" by (auto simp: index_min_hd split: list.splits)
    then have "chain self t \<noteq> []" using less.prems by (simp add: tx_inv_def)
    then obtain f nx where ch: "chain self t = f # nx" by (cases "chain self t") auto
    obtain ok env1 where tx: "p_tx pf (tx_request_of self 0 t f) env = (ok, env1)" by fastforce
    note d = tx_departed_spec [OF less.prems Some ch]
    show ?thesis
    proof (cases ok)
      case False
      with Some ch tx d(2) less.prems show ?thesis
        by (subst tx_eject_pending.simps) (simp add: chain_def)
    next
      case True
      have e: "tx_eject_pending pf self env 0 = tx_eject_pending pf (tx_departed self 0 t f nx) env1 0"
        using Some ch tx True by (subst tx_eject_pending.simps) (simp add: chain_def)
      have "length (waiting (tx_departed self 0 t f nx)) < length (waiting self)" using d(2) by simp
      from less.hyps [OF this d(1), of env1] obtain self' where
        r: "tx_eject_pending pf (tx_departed self 0 t f nx) env1 0 =
            Inr (self', snd (offer pf (waiting (tx_departed self 0 t f nx)) env1))"
          "tx_inv self'" "waiting self' = drop (fst (offer pf (waiting (tx_departed self 0 t f nx)) env1))
             (waiting (tx_departed self 0 t f nx))"
          "set (tx_agewise self') \<subseteq> set (tx_agewise (tx_departed self 0 t f nx))" by blast
      have o: "offer pf (waiting self) env =
          (Suc (fst (offer pf (waiting (tx_departed self 0 t f nx)) env1)),
           snd (offer pf (waiting (tx_departed self 0 t f nx)) env1))"
        unfolding d(2) by (simp add: tx True split_beta)
      have "waiting self' = drop (fst (offer pf (waiting self) env)) (waiting self)"
        unfolding o fst_conv by (subst d(2)) (simp add: r(3))
      with r d(3) show ?thesis unfolding e o by auto
    qed
  qed
qed



subsection \<open>An example\<close>

text \<open>A node with one transfer of two frames in its queue, on a platform that takes two frames.\<close>

definition demo_platform :: "nat platform" where
  "demo_platform = \<lparr>p_now = (\<lambda>n. (int n, n)), p_tx = (\<lambda>r n. (0 < n, n - 1)), p_filter = (\<lambda>fs n. (True, n))\<rparr>"

definition demo_node :: canard where
  "demo_node = canard_zero\<lparr>node_id := 42, iface_bitmap := 1, tx_queue_capacity := 8\<rparr>"

definition demo_ready :: canard where
  "demo_ready = fst (tx_transfer_new demo_node 100 0x107D5500 False 0)"

definition demo_queue :: canard where
  "demo_queue = fst (tx_push demo_platform demo_ready (2::nat) 0 False 1 5 [1, 2, 3, 4, 5, 6, 7, 8, 9] crc_initial)"

lemma demo_node_inv: "tx_inv demo_node"
  by (simp add: demo_node_def canard_zero_def tx_inv_def frames_inv_def queue_frames_def registered_frames_def)

lemma demo_ready_inv: "tx_inv demo_ready"
  by (simp add: demo_ready_def demo_node_def canard_zero_def tx_inv_def frames_inv_def queue_frames_def
      registered_frames_def tx_transfer_new_def)

lemma demo_ready_queueable: "tx_queueable demo_ready 0"
  by (simp add: demo_ready_def demo_node_def canard_zero_def tx_queueable_def tx_transfer_new_def)

lemma demo_values:
  "iface_bitmap demo_ready = 1" "tx_queue_size demo_ready = 0" "tx_queue_capacity demo_ready = 8"
  "tr_fd (tx_transfers demo_ready 0) = False" "tr_deadline (tx_transfers demo_ready 0) = 100" "tx_agewise demo_ready = []"
  by (simp_all add: demo_ready_def demo_node_def canard_zero_def tx_transfer_new_def)


abbreviation demo_frames :: "bytes list" where
  "demo_frames \<equiv> transfer_frames crc_initial False 5 [1, 2, 3, 4, 5, 6, 7, 8, 9]"

lemma demo_frame_count: "length demo_frames = 2"
  by (simp add: length_transfer_frames tx_predict_frame_count_def mtu_of_def mtu_classic_def crc_bytes_def)

lemma demo_queue_eq: "demo_queue = tx_enqueue (set_multi demo_ready 0 True) 0 demo_frames"
proof -
  have e: "tx_expire demo_ready 2 = demo_ready"
    by (simp add: tx_expire_def demo_ready_def demo_node_def canard_zero_def tx_transfer_new_def)
  have "tx_ensure_queue_space (set_multi demo_ready 0 True) 2 = (set_multi demo_ready 0 True, True)"
    by (simp add: tx_ensure_queue_space_def tx_sacrifice.simps demo_values)
  then show ?thesis
    using tx_push_unfold [of 1 demo_ready demo_platform 2 2 2 0 False False demo_frames crc_initial 5 "[1, 2, 3, 4, 5, 6, 7, 8, 9]"]
      demo_frame_count
    by (simp add: demo_queue_def demo_values e demo_platform_def wire_frames_def Let_def)
qed

lemma demo_queue_spec:
  "tx_inv demo_queue \<and> tx_agewise demo_queue = [0] \<and>
     map (tx_frame_view demo_queue) (chain demo_queue 0) = demo_frames \<and> tx_queue_size demo_queue = 2"
  unfolding demo_queue_eq
  using tx_enqueue_spec [of "set_multi demo_ready 0 True" 0 demo_frames] demo_ready_inv demo_ready_queueable
    wire_frames_ne [of False crc_initial False 5 "[1, 2, 3, 4, 5, 6, 7, 8, 9]"] demo_frame_count
  by (simp add: demo_values wire_frames_def)

lemma demo_queue_deadline: "tr_deadline (tx_transfers demo_queue 0) = 100"
  by (simp add: demo_queue_eq tx_enqueue_def alloc_chain_def demo_values set_cursor_def set_transfer_def)

theorem tx_expire_exact_witness: "tx_agewise (tx_expire demo_queue 100) = [0] \<and> tx_agewise (tx_expire demo_queue 101) = []"
  using tx_expire_exact [of demo_queue 100] tx_expire_exact [of demo_queue 101] demo_queue_spec demo_queue_deadline
  by simp

theorem tx_purge_exact_witness: "tx_agewise (tx_purge_continuations demo_queue) = [0]"
proof -
  have "\<not> tr_first_frame_departed (tx_transfers demo_queue 0)"
    by (simp add: demo_queue_eq tx_enqueue_def)
      (simp add: alloc_chain_def set_multi_def set_transfer_def demo_ready_def tx_transfer_new_def
        demo_node_def canard_zero_def Let_def)
  with tx_purge_exact [of demo_queue] demo_queue_spec show ?thesis by simp
qed


end
