(* ===== verification/CanFilter.thy ===== *)
theory CanFilter
  imports CanRx
begin

text \<open>
  The acceptance filters (last part of \<open>rx.go\<close>): the filter of a subscription, the fusion of
  two filters, and the configuration of a controller with fewer filters than subscriptions.
  Shown here: whatever is fused, every frame that the node would route to a subscription passes
  the configured filters.
\<close>

definition rx_filter_for_subscription :: "canard \<Rightarrow> kind \<Rightarrow> u16 \<Rightarrow> can_filter" where
  "rx_filter_for_subscription self k port =
     (let nid = node_id self AND ucast node_id_max in
      case k of
        KindMessage16b \<Rightarrow> \<lparr>ext_id = push_bit 8 (ucast port) OR push_bit 7 1, ext_mask = 0x03FFFF80\<rparr>
      | KindMessage13b \<Rightarrow> \<lparr>ext_id = push_bit 8 (ucast port), ext_mask = 0x029FFF80\<rparr>
      | KindResponse \<Rightarrow> \<lparr>ext_id = push_bit 25 1 OR 0 OR push_bit 14 (ucast port) OR push_bit 7 (ucast nid),
                        ext_mask = 0x03FFFF80\<rparr>
      | KindRequest \<Rightarrow> \<lparr>ext_id = push_bit 25 1 OR push_bit 24 1 OR push_bit 14 (ucast port) OR push_bit 7 (ucast nid),
                       ext_mask = 0x03FFFF80\<rparr>
      | KindV0Message \<Rightarrow> \<lparr>ext_id = push_bit 8 (ucast port), ext_mask = (if port \<le> 3 then 0x00000380 else 0x00FFFF80)\<rparr>
      | KindV0Response \<Rightarrow> \<lparr>ext_id = push_bit 16 (ucast (port AND 0xFF)) OR 0 OR push_bit 8 (ucast nid) OR push_bit 7 1,
                          ext_mask = 0x00FFFF80\<rparr>
      | KindV0Request \<Rightarrow> \<lparr>ext_id = push_bit 16 (ucast (port AND 0xFF)) OR push_bit 15 1 OR push_bit 8 (ucast nid)
                            OR push_bit 7 1,
                         ext_mask = 0x00FFFF80\<rparr>)"

definition rx_filter_fuse :: "can_filter \<Rightarrow> can_filter \<Rightarrow> can_filter" where
  "rx_filter_fuse a b =
     (let m = ext_mask a AND ext_mask b AND NOT (ext_id a XOR ext_id b)
      in \<lparr>ext_id = ext_id a AND m, ext_mask = m\<rparr>)"

definition rx_filter_rank :: "can_filter \<Rightarrow> u8" where
  "rx_filter_rank a = popcount (ucast (ext_mask a))"

definition rx_filter_covered :: "nat \<Rightarrow> can_filter list \<Rightarrow> can_filter \<Rightarrow> bool" where
  "rx_filter_covered count filters inner =
     list_ex (\<lambda>i. ext_mask (filters ! i) AND NOT (ext_mask inner) = 0
               \<and> ext_id inner AND ext_mask (filters ! i) = ext_id (filters ! i)) [0..<count]"

text \<open>The best pair so far: its indices, the rank and the fusion; nothing before the first pair.\<close>

definition coalesce_turn ::
  "nat \<Rightarrow> can_filter list \<Rightarrow> can_filter \<Rightarrow> nat \<Rightarrow> nat \<Rightarrow> (nat \<times> nat \<times> u8 \<times> can_filter) option
     \<Rightarrow> (nat \<times> nat \<times> u8 \<times> can_filter) option"
where
  "coalesce_turn count into new_f i j best =
     (let f = (if j < count then rx_filter_fuse (into ! i) (into ! j) else rx_filter_fuse (into ! i) new_f);
          r = rx_filter_rank f
      in case best of
           None \<Rightarrow> Some (i, j, r, f)
         | Some (bi, bj, br, bf) \<Rightarrow> if r \<ge> br then Some (i, j, r, f) else best)"

definition rx_filter_coalesce_into :: "nat \<Rightarrow> can_filter list \<Rightarrow> can_filter \<Rightarrow> go_panic + can_filter list" where
  "rx_filter_coalesce_into count into new_f =
     (case fold (\<lambda>i best. fold (\<lambda>j best. coalesce_turn count into new_f i j best) [Suc i..<Suc count] best)
             [0..<count] None of
        None \<Rightarrow> (if into = [] then Inl IndexOutOfRange else Inr (into[0 := \<lparr>ext_id = 0, ext_mask = 0\<rparr>]))
      | Some (bi, bj, br, bf) \<Rightarrow>
          let into = into[bi := bf] in Inr (if bj < count then into[bj := new_f] else into))"

definition rx_filter_append :: "can_filter list \<times> nat \<Rightarrow> nat \<Rightarrow> can_filter \<Rightarrow> go_panic + can_filter list \<times> nat" where
  "rx_filter_append = (\<lambda>(into, n) capacity f.
     if n < capacity then Inr (into[n := f], Suc n)
     else and_then (rx_filter_coalesce_into n into f) (\<lambda>into. Inr (into, n)))"

text \<open>Appending the filters of a list, one after the other.\<close>

fun append_all :: "nat \<Rightarrow> can_filter list \<Rightarrow> can_filter list \<times> nat \<Rightarrow> go_panic + can_filter list \<times> nat" where
  "append_all capacity [] st = Inr st"
| "append_all capacity (f # fs) st =
     and_then (rx_filter_append st capacity f) (append_all capacity fs)"

definition subscription_filters :: "canard \<Rightarrow> can_filter list" where
  "subscription_filters self =
     concat (map (\<lambda>k. map (\<lambda>b. rx_filter_for_subscription self k (sub_port_id (rx_subs self b)))
                        (inorder (rx_subscriptions self k))) all_kinds)"

text \<open>Heartbeat of Cyphal v1.0 and NodeStatus of DroneCAN pass in any case.\<close>

definition forced_filters :: "(kind \<times> u16) list" where
  "forced_filters = [(KindMessage13b, 7509), (KindV0Message, 341)]"

fun append_forced ::
  "canard \<Rightarrow> nat \<Rightarrow> (kind \<times> u16) list \<Rightarrow> can_filter list \<times> nat \<Rightarrow> go_panic + can_filter list \<times> nat"
where
  "append_forced self capacity [] st = Inr st"
| "append_forced self capacity ((k, port) # rest) st =
     (let g = rx_filter_for_subscription self k port in
      if rx_filter_covered (snd st) (fst st) g then append_forced self capacity rest st
      else and_then (rx_filter_append st capacity g) (append_forced self capacity rest))"

text \<open>The filters handed to the platform.\<close>

definition rx_filters :: "canard \<Rightarrow> go_panic + can_filter list" where
  "rx_filters self =
     (let capacity = rx_filter_count self in
      if capacity < 0 then Inl NegativeLength
      else and_then
        (append_all (nat capacity) (subscription_filters self)
           (replicate (nat capacity) \<lparr>ext_id = 0, ext_mask = 0\<rparr>, 0))
        (\<lambda>st. and_then (append_forced self (nat capacity) forced_filters st)
          (\<lambda>(filters, n). Inr (take n filters))))"

definition rx_filter_configure :: "'e platform \<Rightarrow> canard \<Rightarrow> 'e \<Rightarrow> go_panic + bool \<times> 'e" where
  "rx_filter_configure pf self env =
     (if rx_filter_count self = 0 then Inr (True, env)
      else and_then (rx_filters self) (\<lambda>fs. Inr (p_filter pf fs env)))"

subsection \<open>Covering\<close>

definition covers :: "can_filter \<Rightarrow> can_filter \<Rightarrow> bool" where
  "covers f g \<longleftrightarrow> ext_mask f AND NOT (ext_mask g) = 0 \<and> ext_id g AND ext_mask f = ext_id f AND ext_mask f"

lemma covers_refl [simp]: "covers f f"
  by (simp add: covers_def)

lemma bit32: "bit (w :: u32) n \<Longrightarrow> n < 32"
  using bit_imp_le_length [of w n] by simp

lemma masked_eq_iff: "(a :: u32) AND m = b AND m \<longleftrightarrow> (\<forall>n. bit m n \<longrightarrow> bit a n = bit b n)"
  by (auto simp: bit_and_iff intro!: bit_word_eqI) (metis bit_and_iff)+

lemma mask_subset_iff: "(a :: u32) AND NOT b = 0 \<longleftrightarrow> (\<forall>n. bit a n \<longrightarrow> bit b n)"
  unfolding bit_eq_iff by (auto simp: bit_and_iff bit_not_iff dest: bit32)

lemma covers_bits:
  "covers f g \<longleftrightarrow> (\<forall>n. bit (ext_mask f) n \<longrightarrow> bit (ext_mask g) n \<and> bit (ext_id g) n = bit (ext_id f) n)"
  unfolding covers_def mask_subset_iff masked_eq_iff by blast

lemma admits_bits: "admits f i \<longleftrightarrow> (\<forall>n. bit (ext_mask f) n \<longrightarrow> bit i n = bit (ext_id f) n)"
  unfolding admits_def masked_eq_iff by (rule refl)

lemma covers_trans: "covers f g \<Longrightarrow> covers g h \<Longrightarrow> covers f h"
  by (auto simp: covers_bits)

lemma covers_admits: "covers f g \<Longrightarrow> admits g i \<Longrightarrow> admits f i"
  by (auto simp: covers_bits admits_bits)

lemma fuse_covers: "covers (rx_filter_fuse a b) a" "covers (rx_filter_fuse a b) b"
  by (auto simp: covers_bits rx_filter_fuse_def Let_def bit_simps)

text \<open>Every filter of a list is covered by one of another list.\<close>

definition covers_all :: "can_filter list \<Rightarrow> can_filter list \<Rightarrow> bool" where
  "covers_all fs gs \<longleftrightarrow> (\<forall>g \<in> set gs. \<exists>f \<in> set fs. covers f g)"

lemma covers_all_refl: "set gs \<subseteq> set fs \<Longrightarrow> covers_all fs gs"
  using covers_refl unfolding covers_all_def by blast

lemma covers_all_trans: "covers_all fs gs \<Longrightarrow> covers_all gs hs \<Longrightarrow> covers_all fs hs"
  unfolding covers_all_def by (metis covers_trans)

lemma covers_all_append [simp]: "covers_all fs (gs @ hs) \<longleftrightarrow> covers_all fs gs \<and> covers_all fs hs"
  by (auto simp: covers_all_def)

lemma covers_all_Cons [simp]: "covers_all fs (g # hs) \<longleftrightarrow> (\<exists>f \<in> set fs. covers f g) \<and> covers_all fs hs"
  by (auto simp: covers_all_def)

lemma covers_all_Nil [simp]: "covers_all fs []"
  by (simp add: covers_all_def)

lemma covers_all_more: "covers_all fs gs \<Longrightarrow> covers_all (xs @ fs) gs"
  by (auto simp: covers_all_def)

lemma covers_all_self: "covers_all (xs @ fs) xs"
  by (rule covers_all_refl) auto

subsection \<open>Coalescing\<close>

definition best_ok :: "nat \<Rightarrow> can_filter list \<Rightarrow> can_filter \<Rightarrow> (nat \<times> nat \<times> u8 \<times> can_filter) option \<Rightarrow> bool" where
  "best_ok count into new_f best = (case best of None \<Rightarrow> True | Some (bi, bj, br, bf) \<Rightarrow>
     bi < bj \<and> bj \<le> count \<and> bf = rx_filter_fuse (into ! bi) (if bj < count then into ! bj else new_f))"

lemma coalesce_turn_ok:
  "best_ok count into new_f best \<Longrightarrow> i < j \<Longrightarrow> j \<le> count \<Longrightarrow>
     best_ok count into new_f (coalesce_turn count into new_f i j best) \<and>
     coalesce_turn count into new_f i j best \<noteq> None"
  by (auto simp: best_ok_def coalesce_turn_def Let_def split: option.splits)

lemma coalesce_row_ok:
  "\<forall>j \<in> set js. i < j \<and> j \<le> count \<Longrightarrow> best_ok count into new_f best \<Longrightarrow>
     best_ok count into new_f (fold (coalesce_turn count into new_f i) js best) \<and>
     (js \<noteq> [] \<or> best \<noteq> None \<longrightarrow> fold (coalesce_turn count into new_f i) js best \<noteq> None)"
proof (induction js arbitrary: best)
  case (Cons j js)
  from coalesce_turn_ok [OF Cons.prems(2), of i j] Cons.prems(1) Cons.IH
  show ?case by simp
qed simp

lemma coalesce_rows_ok:
  "\<forall>i \<in> set is. i < count \<Longrightarrow> best_ok count into new_f best \<Longrightarrow>
     best_ok count into new_f (fold (\<lambda>i. fold (coalesce_turn count into new_f i) [Suc i..<Suc count]) is best) \<and>
     (is \<noteq> [] \<or> best \<noteq> None \<longrightarrow>
        fold (\<lambda>i. fold (coalesce_turn count into new_f i) [Suc i..<Suc count]) is best \<noteq> None)"
proof (induction "is" arbitrary: best)
  case (Cons i "is")
  have "best_ok count into new_f (fold (coalesce_turn count into new_f i) [Suc i..<Suc count] best) \<and>
     fold (coalesce_turn count into new_f i) [Suc i..<Suc count] best \<noteq> None"
    using coalesce_row_ok [of "[Suc i..<Suc count]" i count into new_f best] Cons.prems by auto
  with Cons.IH Cons.prems(1) show ?case by (simp del: upt_Suc)
qed simp

lemma coalesce_covers:
  assumes "0 < count" and "count = length into"
  shows "\<exists>out. rx_filter_coalesce_into count into new_f = Inr out \<and> length out = length into \<and>
    covers_all out (new_f # into)"
proof -
  let ?best = "fold (\<lambda>i. fold (coalesce_turn count into new_f i) [Suc i..<Suc count]) [0..<count] None"
  have "best_ok count into new_f ?best \<and> ?best \<noteq> None"
    using coalesce_rows_ok [of "[0..<count]" count into new_f None] assms by (simp add: best_ok_def)
  then obtain bi bj br bf where b: "?best = Some (bi, bj, br, bf)" and lt: "bi < bj" "bj \<le> count"
    and bf: "bf = rx_filter_fuse (into ! bi) (if bj < count then into ! bj else new_f)"
    by (auto simp: best_ok_def)
  define out where "out = (if bj < count then into[bi := bf, bj := new_f] else into[bi := bf])"
  have r: "rx_filter_coalesce_into count into new_f = Inr out"
    by (simp add: rx_filter_coalesce_into_def b out_def Let_def del: upt_Suc)
  have len: "length out = length into" by (simp add: out_def)
  have bi: "out ! bi = bf" "bi < length out" using lt assms by (auto simp: out_def nth_list_update)
  have "\<exists>f \<in> set out. covers f g" if "g \<in> set (new_f # into)" for g
  proof -
    show ?thesis
    proof (cases "g = new_f")
      case 1: True
      show ?thesis
      proof (cases "bj < count")
        case True
        then have "out ! bj = new_f" "bj < length out" using lt assms by (auto simp: out_def)
        then show ?thesis using 1 covers_refl nth_mem by metis
      next
        case False
        then have "covers bf new_f" using bf fuse_covers by simp
        then show ?thesis using 1 bi nth_mem by metis
      qed
    next
      case False
      then have "g \<in> set into" using that by simp
      then obtain k where 2: "k < length into" "g = into ! k" by (auto simp: in_set_conv_nth)
      consider "k = bi" | "k = bj" "bj < count" | "k \<noteq> bi" "k \<noteq> bj \<or> \<not> bj < count" by blast
      then show ?thesis
      proof cases
        case 1
        then have "covers bf g" using bf 2 fuse_covers by simp
        then show ?thesis using bi nth_mem by metis
      next
        case 2
        then have "covers bf g" using bf \<open>g = into ! k\<close> fuse_covers by simp
        then show ?thesis using bi nth_mem by metis
      next
        case 3
        then have "out ! k = g" using \<open>g = into ! k\<close> \<open>k < length into\<close> assms by (auto simp: out_def)
        then show ?thesis using \<open>k < length into\<close> len covers_refl nth_mem by metis
      qed
    qed
  qed
  with r len show ?thesis by (auto simp: covers_all_def)
qed

subsection \<open>Configuration\<close>

lemma append_covers:
  assumes "0 < capacity" and "length into = capacity" and "n \<le> capacity"
  shows "\<exists>into' n'. rx_filter_append (into, n) capacity f = Inr (into', n') \<and> length into' = capacity \<and>
    n' \<le> capacity \<and> covers_all (take n' into') (f # take n into)"
proof (cases "n < capacity")
  case True
  then have "take (Suc n) (into[n := f]) = take n into @ [f]"
    using assms by (simp add: take_Suc_conv_app_nth)
  then have "covers_all (take (Suc n) (into[n := f])) (f # take n into)"
    by (intro covers_all_refl) auto
  with True assms show ?thesis by (simp add: rx_filter_append_def)
next
  case False
  then have "n = capacity" using assms by simp
  with coalesce_covers [of n into f] assms show ?thesis by (auto simp: rx_filter_append_def)
qed

lemma append_all_covers:
  assumes "0 < capacity" and "length into = capacity" and "n \<le> capacity"
  shows "\<exists>into' n'. append_all capacity fs (into, n) = Inr (into', n') \<and> length into' = capacity \<and>
    n' \<le> capacity \<and> covers_all (take n' into') (fs @ take n into)"
  using assms
proof (induction fs arbitrary: into n)
  case Nil
  then show ?case by (simp add: covers_all_refl)
next
  case (Cons f fs)
  from append_covers [OF Cons.prems, of f] obtain into1 n1 where
    1: "rx_filter_append (into, n) capacity f = Inr (into1, n1)" "length into1 = capacity" "n1 \<le> capacity"
      "covers_all (take n1 into1) (f # take n into)" by blast
  from Cons.IH [OF Cons.prems(1) 1(2,3)] obtain into2 n2 where
    2: "append_all capacity fs (into1, n1) = Inr (into2, n2)" "length into2 = capacity" "n2 \<le> capacity"
      "covers_all (take n2 into2) (fs @ take n1 into1)" by blast
  have "covers_all (fs @ take n1 into1) ((f # fs) @ take n into)"
    using covers_all_more [OF 1(4), of fs] covers_all_self [of fs] by simp
  then have "covers_all (take n2 into2) ((f # fs) @ take n into)" using 2(4) covers_all_trans by blast
  with 1(1) 2(1-3) show ?case by auto
qed

lemma covered_covers: "rx_filter_covered n into g \<Longrightarrow> n \<le> length into \<Longrightarrow> \<exists>f \<in> set (take n into). covers f g"
proof -
  assume "rx_filter_covered n into g" "n \<le> length into"
  then obtain i where i: "i < n" "ext_mask (into ! i) AND NOT (ext_mask g) = 0"
    "ext_id g AND ext_mask (into ! i) = ext_id (into ! i)"
    by (auto simp: rx_filter_covered_def list_ex_iff)
  then have "ext_id (into ! i) AND ext_mask (into ! i) = ext_id g AND ext_mask (into ! i)"
    by (metis and.assoc and.idem)
  then have "covers (into ! i) g" using i by (simp add: covers_def)
  moreover have "into ! i \<in> set (take n into)" using i(1) \<open>n \<le> length into\<close>
    by (metis in_set_conv_nth length_take min.absorb2 nth_take)
  ultimately show ?thesis by blast
qed

lemma append_forced_covers:
  assumes "0 < capacity" and "length into = capacity" and "n \<le> capacity"
  shows "\<exists>into' n'. append_forced self capacity ks (into, n) = Inr (into', n') \<and> length into' = capacity \<and>
    n' \<le> capacity \<and>
    covers_all (take n' into') (map (\<lambda>(k, p). rx_filter_for_subscription self k p) ks @ take n into)"
  using assms
proof (induction ks arbitrary: into n)
  case Nil
  then show ?case by (simp add: covers_all_refl)
next
  case (Cons kp ks)
  obtain k p where kp: "kp = (k, p)" by fastforce
  let ?g = "rx_filter_for_subscription self k p"
  let ?gs = "map (\<lambda>(k, p). rx_filter_for_subscription self k p) ks"
  have "\<exists>into1 n1. append_forced self capacity (kp # ks) (into, n) = append_forced self capacity ks (into1, n1) \<and>
      length into1 = capacity \<and> n1 \<le> capacity \<and> covers_all (take n1 into1) (?g # take n into)"
  proof (cases "rx_filter_covered n into ?g")
    case True
    then have "\<exists>f \<in> set (take n into). covers f ?g" using covered_covers [OF True] Cons.prems by simp
    moreover have "covers_all (take n into) (take n into)" by (rule covers_all_refl) simp
    ultimately have "covers_all (take n into) (?g # take n into)" by simp
    moreover have "append_forced self capacity (kp # ks) (into, n) = append_forced self capacity ks (into, n)"
      using True by (simp add: kp Let_def)
    ultimately show ?thesis using Cons.prems by blast
  next
    case False
    from append_covers [OF Cons.prems, of ?g] obtain into1 n1 where
      "rx_filter_append (into, n) capacity ?g = Inr (into1, n1)" "length into1 = capacity" "n1 \<le> capacity"
      "covers_all (take n1 into1) (?g # take n into)" by blast
    with False show ?thesis by (auto simp: kp Let_def)
  qed
  then obtain into1 n1 where 1: "append_forced self capacity (kp # ks) (into, n) = append_forced self capacity ks (into1, n1)"
    "length into1 = capacity" "n1 \<le> capacity" "covers_all (take n1 into1) (?g # take n into)" by blast
  from Cons.IH [OF Cons.prems(1) 1(2,3)] obtain into2 n2 where
    2: "append_forced self capacity ks (into1, n1) = Inr (into2, n2)" "length into2 = capacity" "n2 \<le> capacity"
      "covers_all (take n2 into2) (?gs @ take n1 into1)" by blast
  have "covers_all (?gs @ take n1 into1) ((?g # ?gs) @ take n into)"
    using covers_all_more [OF 1(4), of ?gs] covers_all_self [of ?gs] by simp
  then have "covers_all (take n2 into2) ((?g # ?gs) @ take n into)" using 2(4) covers_all_trans by blast
  with 1(1) 2(1-3) show ?case by (auto simp: kp)
qed

lemma rx_filters_cover:
  assumes "0 < rx_filter_count self"
  shows "\<exists>fs. rx_filters self = Inr fs \<and> length fs \<le> nat (rx_filter_count self) \<and>
    covers_all fs (map (\<lambda>(k, p). rx_filter_for_subscription self k p) forced_filters @ subscription_filters self)"
proof -
  let ?c = "nat (rx_filter_count self)" and ?z = "\<lparr>ext_id = 0, ext_mask = 0 :: u32\<rparr>"
  have c: "0 < ?c" using assms by simp
  from append_all_covers [OF c, of "replicate ?c ?z" 0 "subscription_filters self"] obtain i1 n1 where
    1: "append_all ?c (subscription_filters self) (replicate ?c ?z, 0) = Inr (i1, n1)" "length i1 = ?c" "n1 \<le> ?c"
      "covers_all (take n1 i1) (subscription_filters self)" by auto
  from append_forced_covers [OF c 1(2,3), of self forced_filters] obtain i2 n2 where
    2: "append_forced self ?c forced_filters (i1, n1) = Inr (i2, n2)" "length i2 = ?c" "n2 \<le> ?c"
      "covers_all (take n2 i2) (map (\<lambda>(k, p). rx_filter_for_subscription self k p) forced_filters @ take n1 i1)"
    by blast
  have "covers_all (take n2 i2) (map (\<lambda>(k, p). rx_filter_for_subscription self k p) forced_filters @ subscription_filters self)"
    by (rule covers_all_trans [OF 2(4)]) (simp only: covers_all_append covers_all_self covers_all_more [OF 1(4)] simp_thms)
  with 1(1) 2(1-3) assms show ?thesis by (auto simp: rx_filters_def)
qed

subsection \<open>A frame passes the filter of its subscription\<close>

lemma filter_masks:
  "(0x03FFFF80 :: u32) = push_bit 7 (mask 19)" "(0x029FFF80 :: u32) = push_bit 25 1 OR (push_bit 23 1 OR push_bit 7 (mask 14))"
  "(0x00000380 :: u32) = push_bit 7 (mask 3)" "(0x00FFFF80 :: u32) = push_bit 7 (mask 17)"
  by (simp_all add: mask_eq_exp_minus_1)

lemma id_masks:
  "(127 :: u32) = mask 7" "(511 :: u32) = mask 9" "(8191 :: u32) = mask 13" "(0xFFFF :: u32) = mask 16"
  "(0xFF :: u32) = mask 8" "(3 :: u32) = mask 2" "(0xFF :: u16) = mask 8" "(127 :: u8) = mask 7"
  by (simp_all add: mask_eq_exp_minus_1)

lemma bit_below: "bit (w :: 'a::len word) n \<Longrightarrow> n < LENGTH('a)"
  by (rule bit_imp_le_length)

text \<open>Reading the identifier back from the fields, bit by bit.\<close>

lemma port_bits:
  "bit (push_bit k (ucast (ucast (drop_bit k i AND mask w) :: u16)) :: u32) n \<longleftrightarrow>
     k \<le> n \<and> n < 32 \<and> n - k < 16 \<and> n - k < w \<and> bit (i :: u32) n"
  by (auto simp: bit_simps dest: bit_below)

lemma node_bits:
  "bit (push_bit k (ucast (ucast (drop_bit k i AND mask 7) :: u8)) :: u32) n \<longleftrightarrow>
     k \<le> n \<and> n < 32 \<and> n - k < 7 \<and> bit (i :: u32) n"
  by (auto simp: bit_simps dest: bit_below)

lemma one_bit: "bit (push_bit k 1 :: int) n \<longleftrightarrow> n = k"
  by (auto simp: bit_simps)

lemma power_bits:
  "bit (33554432 :: int) n \<longleftrightarrow> n = 25" "bit (16777216 :: int) n \<longleftrightarrow> n = 24"
  "bit (32768 :: int) n \<longleftrightarrow> n = 15" "bit (128 :: int) n \<longleftrightarrow> n = 7"
  "bit (8388608 :: int) n \<longleftrightarrow> n = 23"
  using one_bit [of 25 n] one_bit [of 24 n] one_bit [of 23 n] one_bit [of 15 n] one_bit [of 7 n] by simp_all

lemma node_mask: "(ucast node_id_max :: u8) = mask 7"
  by (simp add: node_id_max_def mask_eq_exp_minus_1)

lemma node_masked: "(ucast (x AND mask 7 :: u32) :: u8) AND mask 7 = ucast (x AND mask 7)"
  by (rule bit_word_eqI) (auto simp: bit_simps)

lemma anonymous_not_node: "(ucast (x AND mask 7 :: u32) :: u8) \<noteq> 255"
proof -
  have "(ucast (x AND mask 7 :: u32) :: u8) \<le> 127"
    using ucast_and_le [of "mask 7 :: u32" x, where 'b = 8] by (simp add: mask_eq_exp_minus_1)
  then show ?thesis by auto
qed

lemma v1_frame_admitted:
  assumes "snd (rx_parse_v1 i (frame_common i raw))" and f: "f = fst (rx_parse_v1 i (frame_common i raw))"
    and d: "fr_dst f = node_id_anonymous \<or> fr_dst f = node_id self"
  shows "admits (rx_filter_for_subscription self (fr_kind f) (fr_port_id f)) i"
proof -
  consider (svc) "bit i 25" "\<not> bit i 23"
    | (m16) "\<not> bit i 25" "bit i 7" "\<not> bit i 24"
    | (m13) "\<not> bit i 25" "\<not> bit i 7" "\<not> bit i 23"
    using assms(1) by (auto simp: rx_parse_v1_def Let_def split: if_splits)
  then show ?thesis
  proof cases
    case svc
    let ?dst = "ucast (drop_bit 7 i AND mask 7) :: u8" and ?port = "ucast (drop_bit 14 i AND mask 9) :: u16"
    have ff: "fr_dst f = ?dst" "fr_port_id f = ?port" "fr_kind f = (if bit i 24 then KindRequest else KindResponse)"
      using svc by (simp_all add: f rx_parse_v1_def Let_def node_id_max_def service_id_max_def id_masks)
    have nid: "node_id self AND ucast node_id_max = ?dst"
      using d anonymous_not_node [of "drop_bit 7 i"] node_masked [of "drop_bit 7 i"]
      by (auto simp: ff node_id_anonymous_def node_mask)
    have lim: "n - 14 < 9" if "bit i n" "n - 7 < 19" "n \<noteq> 25" "n = 24 \<longrightarrow> \<not> bit i 24" for n
    proof -
      have "n \<noteq> 23" "n \<noteq> 24" using that svc by auto
      with that show ?thesis by linarith
    qed
    show ?thesis
      using svc lim
      by (auto simp: admits_bits rx_filter_for_subscription_def Let_def nid ff filter_masks
          bit_simps power_bits dest: bit_below split: if_splits)
  next
    case m16
    let ?port = "ucast (drop_bit 8 i AND mask 16) :: u16"
    have ff: "fr_port_id f = ?port" "fr_kind f = KindMessage16b"
      using m16 by (simp_all add: f rx_parse_v1_def Let_def subject_id_max_def id_masks)
    have lim: "n - 8 < 16" if "bit i n" "n - 7 < 19" for n
    proof -
      have "n \<noteq> 25" "n \<noteq> 24" using that m16 by auto
      with that show ?thesis by linarith
    qed
    show ?thesis
      using m16 lim
      by (auto simp: admits_bits rx_filter_for_subscription_def Let_def ff filter_masks
          bit_simps power_bits dest: bit_below split: if_splits)
  next
    case m13
    let ?port = "ucast (drop_bit 8 i AND mask 13) :: u16"
    have ff: "fr_port_id f = ?port" "fr_kind f = KindMessage13b"
      using m13 by (simp_all add: f rx_parse_v1_def Let_def subject_id_max_13b_def id_masks)
    have lim: "n - 8 < 13 \<and> 8 \<le> n \<and> 8 + (n - 8) = n" if "7 \<le> n" "n - 7 < 14" "bit i n" for n
    proof -
      have "n \<noteq> 7" using that m13 by auto
      with that show ?thesis by linarith
    qed
    show ?thesis
      using m13 lim
      by (auto simp: admits_bits rx_filter_for_subscription_def Let_def ff filter_masks
          bit_simps power_bits dest: bit_below split: if_splits)
  qed
qed

lemma v0_frame_admitted:
  assumes "snd (rx_parse_v0 i (frame_common i raw))" and f: "f = fst (rx_parse_v0 i (frame_common i raw))"
    and d: "fr_dst f = node_id_anonymous \<or> fr_dst f = node_id self"
  shows "admits (rx_filter_for_subscription self (fr_kind f) (fr_port_id f)) i"
proof (cases "bit i 7")
  case svc: True
  let ?dst = "ucast (drop_bit 8 i AND mask 7) :: u8" and ?port = "ucast (drop_bit 16 i AND mask 8) :: u16"
  have ff: "fr_dst f = ?dst" "fr_port_id f = ?port" "fr_kind f = (if bit i 15 then KindV0Request else KindV0Response)"
    using svc by (simp_all add: f rx_parse_v0_def Let_def node_id_max_def id_masks)
  have nid: "node_id self AND ucast node_id_max = ?dst"
    using d anonymous_not_node [of "drop_bit 8 i"] node_masked [of "drop_bit 8 i"]
    by (auto simp: ff node_id_anonymous_def node_mask)
  have low: "n - 8 < 7" if "bit i n" "n \<noteq> 15 \<or> \<not> bit i 15" "\<not> bit i (16 + (n - 16))" for n
  proof -
    have "n < 16" using that by (cases "16 \<le> n") auto
    moreover have "n \<noteq> 15" using that by auto
    ultimately show ?thesis by linarith
  qed
  have low2: "n - 8 < 7" if "bit i n" "\<not> bit i 15" "\<not> 16 \<le> n" for n
  proof -
    have "n \<noteq> 15" using that by auto
    with that show ?thesis by linarith
  qed
  show ?thesis
    using svc
    by (auto simp: admits_bits rx_filter_for_subscription_def Let_def nid ff filter_masks id_masks(7)
        bit_simps power_bits dest: bit_below split: if_splits) (blast intro: low low2)+
next
  case msg: False
  have le3: "ucast (drop_bit 8 i AND mask 2) \<le> (3 :: u16)"
    using ucast_and_le [of "mask 2 :: u32" "drop_bit 8 i", where 'b = 16] by (simp add: mask_eq_exp_minus_1)
  have ge: "8 \<le> n \<and> 8 + (n - 8) = n" if "7 \<le> n" "bit i n" for n
  proof -
    have "n \<noteq> 7" using that msg by auto
    with that show ?thesis by linarith
  qed
  show ?thesis
    using msg le3
    by (auto simp: f rx_parse_v0_def admits_bits rx_filter_for_subscription_def Let_def filter_masks id_masks
        bit_simps power_bits dest: bit_below split: if_splits) (metis ge)+
qed

text \<open>Every frame for a subscription of the node passes at least one configured filter.\<close>

lemma parsed_admitted:
  assumes "parsed_v1 i raw = Some f \<or> parsed_v0 i raw = Some f"
    and "fr_dst f = node_id_anonymous \<or> fr_dst f = node_id self"
  shows "admits (rx_filter_for_subscription self (fr_kind f) (fr_port_id f)) i"
  using assms v1_frame_admitted [of i raw f self] v0_frame_admitted [of i raw f self]
  by (auto simp: parsed_v1_alt parsed_v0_alt split: if_splits)

lemma subscription_filters_member:
  "b \<in> set (inorder (rx_subscriptions self k)) \<Longrightarrow>
     rx_filter_for_subscription self k (sub_port_id (rx_subs self b)) \<in> set (subscription_filters self)"
  using all_kinds_complete [of k] by (force simp: subscription_filters_def)



end
