(* ===== verification/CanNode.thy ===== *)
theory CanNode
  imports CanFilter CanTxQueue
begin

text \<open>
  The instance and its public operations (\<open>canard.go\<close>): construction, the node-ID and its
  collision handling, the periodic poll, ingestion of a received frame, publication, service
  calls and subscriptions.  An argument that is a pointer or an interface value in the code and
  is only compared with nil is a boolean here.
\<close>

subsection \<open>Occupancy of the node-IDs\<close>

definition node_id_occupancy_reset :: "canard \<Rightarrow> canard" where
  "node_id_occupancy_reset self = self\<lparr>occupancy := (occupancy self)[0 := 1, 1 := 0]\<rparr>"

definition canard_chance :: "canard \<Rightarrow> u64 \<Rightarrow> canard \<times> bool" where
  "canard_chance self p = (let (r, g) = chance (prng_state self) p in (self\<lparr>prng_state := g\<rparr>, r))"

definition canard_random :: "canard \<Rightarrow> u64 \<Rightarrow> canard \<times> u64" where
  "canard_random self bound = (let (r, g) = random_below (prng_state self) bound in (self\<lparr>prng_state := g\<rparr>, r))"

text \<open>The two loops that look for a cleared bit; running off the bitmap panics.\<close>

function skip_cleared :: "u64 list \<Rightarrow> u64 \<Rightarrow> nat \<Rightarrow> go_panic + nat" where
  "skip_cleared b z i =
     (if z > 0
      then case bitmap_test b i of
             Inl e \<Rightarrow> Inl e
           | Inr t \<Rightarrow> skip_cleared b (if t then z else z - 1) (Suc i)
      else Inr i)"
  by pat_completeness auto
termination
  by (relation "measure (\<lambda>(b, z, i). 64 * length b - i)") (auto simp: bitmap_test_def split: if_splits)

function next_cleared :: "u64 list \<Rightarrow> nat \<Rightarrow> go_panic + nat" where
  "next_cleared b i =
     (case bitmap_test b i of
        Inl e \<Rightarrow> Inl e
      | Inr t \<Rightarrow> if t then next_cleared b (Suc i) else Inr i)"
  by pat_completeness auto
termination
  by (relation "measure (\<lambda>(b, i). 64 * length b - i)") (auto simp: bitmap_test_def split: if_splits)

declare skip_cleared.simps [simp del] next_cleared.simps [simp del]

text \<open>The part of the update that moves the local node out of the way of the remote one.\<close>

definition node_id_move :: "canard \<Rightarrow> u8 \<Rightarrow> go_panic + canard" where
  "node_id_move self zc =
     (let (self, z) = canard_random self (ucast zc) in
      and_then (skip_cleared (occupancy self) z 0) (\<lambda>id.
      and_then (next_cleared (occupancy self) id) (\<lambda>id.
        let self = tx_purge_continuations (self\<lparr>node_id := of_nat id\<rparr>)
        in Inr (self\<lparr>rx_filters_dirty := True, err_collision := err_collision self + 1\<rparr>))))"

definition node_id_occupancy_update :: "canard \<Rightarrow> u8 \<Rightarrow> go_panic + canard" where
  "node_id_occupancy_update self src =
     (if src = node_id_anonymous then Inr self
      else and_then (bitmap_test (occupancy self) (unat src)) (\<lambda>seen.
        if seen \<and> node_id self \<noteq> src then Inr self
        else and_then (bitmap_set (occupancy self) (unat src)) (\<lambda>b.
          let self = self\<lparr>occupancy := b\<rparr>;
              cap = of_nat node_id_capacity;
              pc = popcount (b ! 0) + popcount (b ! 1);
              zc = cap - pc;
              (self, purge) = (if pc > cap div 2 then canard_chance self (ucast zc) else (self, False))
          in and_then (if node_id self = src then node_id_move self zc else Inr self) (\<lambda>self.
               if purge
               then let self = node_id_occupancy_reset self in
                    and_then (bitmap_set (occupancy self) (unat src)) (\<lambda>b. Inr (self\<lparr>occupancy := b\<rparr>))
               else Inr self))))"

subsection \<open>Construction and configuration\<close>

text \<open>
  \<open>Init\<close>: the flags say whether the platform and the memory resources are complete;
  the address of the instance goes into the seed of the generator.  Nothing is returned when a
  parameter is invalid, and the instance is left as it was.
\<close>

definition canard_init ::
  "bool \<Rightarrow> bool \<Rightarrow> bool \<Rightarrow> u8 \<Rightarrow> int \<Rightarrow> u64 \<Rightarrow> int \<Rightarrow> u64 \<Rightarrow> canard option"
where
  "canard_init platform_ok mem_ok filter_mem_ok ifaces capacity seed filter_count address =
     (let filter_ok = (filter_count = 0 \<or> filter_mem_ok);
          iface_ok = (ifaces AND iface_bitmap_all = ifaces)
      in if platform_ok \<and> mem_ok \<and> filter_ok \<and> iface_ok
         then let self = canard_zero\<lparr>tx_fd := True, tx_queue_capacity := capacity, iface_bitmap := ifaces,
                           rx_filter_count := filter_count, rx_filters_dirty := (filter_count > 0),
                           prng_state := seed XOR address\<rparr>;
                  (self, r) = canard_random self (ucast node_id_max);
                  self = self\<lparr>node_id := ucast (r + 1)\<rparr>
              in Some (node_id_occupancy_reset self)
         else None)"

function destroy_loop :: "canard \<Rightarrow> canard" where
  "destroy_loop self =
     (case tx_agewise self of [] \<Rightarrow> self | t # _ \<Rightarrow> destroy_loop (tx_retire self t))"
  by pat_completeness auto
termination
  by (relation "measure (\<lambda>self. length (tx_agewise self))") auto

declare destroy_loop.simps [simp del]

text \<open>\<open>*self = Canard{}\<close> keeps nothing but the objects that the application owns.\<close>

definition canard_destroy :: "canard \<Rightarrow> canard" where
  "canard_destroy self =
     (let self = destroy_loop self
      in canard_zero\<lparr>tx_frames := tx_frames self, tx_frame_fresh := tx_frame_fresh self,
            tx_transfers := tx_transfers self, tx_transfer_fresh := tx_transfer_fresh self,
            rx_subs := rx_subs self, rx_sessions := rx_sessions self, rx_session_fresh := rx_session_fresh self,
            rx_deliveries := rx_deliveries self\<rparr>)"

definition set_node_id :: "canard \<Rightarrow> u8 \<Rightarrow> canard \<times> bool" where
  "set_node_id self nid =
     (let ok = (nid \<le> ucast node_id_max) in
      if ok \<and> nid \<noteq> node_id self
      then let self = tx_purge_continuations (self\<lparr>node_id := nid\<rparr>);
               self = node_id_occupancy_reset self
           in (self\<lparr>rx_filters_dirty := True\<rparr>, ok)
      else (self, ok))"

definition set_classic_can :: "canard \<Rightarrow> bool \<Rightarrow> canard" where
  "set_classic_can self enabled = self\<lparr>tx_fd := \<not> enabled\<rparr>"

subsection \<open>Polling\<close>

text \<open>
  The session that has been idle the longest is cleaned up, and destroyed when nothing is in
  progress and it has been idle for longer than the transfer-ID timeout.
\<close>

definition poll_sessions :: "'e platform \<Rightarrow> canard \<Rightarrow> 'e \<Rightarrow> canard \<times> 'e" where
  "poll_sessions pf self env =
     (case rx_sessions_by_animation self of
        [] \<Rightarrow> (self, env)
      | s # _ \<Rightarrow>
          let (now, env) = p_now pf env;
              (self, in_progress) = rx_session_cleanup self s now;
              ses = rx_sessions self s
          in (if in_progress = 0
                 \<and> ses_last_admission_ts ses < now - sub_transfer_id_timeout (rx_subs self (ses_owner ses))
              then rx_session_destroy self s else self, env))"

fun poll_ifaces :: "'e platform \<Rightarrow> u8 \<Rightarrow> nat list \<Rightarrow> canard \<Rightarrow> 'e \<Rightarrow> go_panic + canard \<times> 'e" where
  "poll_ifaces pf ready [] self env = Inr (self, env)"
| "poll_ifaces pf ready (i # is) self env =
     and_then (if ready AND push_bit i 1 \<noteq> 0 then tx_eject_pending pf self env i else Inr (self, env))
       (\<lambda>(self, env). poll_ifaces pf ready is self env)"

definition canard_poll :: "'e platform \<Rightarrow> u8 \<Rightarrow> canard \<Rightarrow> 'e \<Rightarrow> go_panic + canard \<times> 'e" where
  "canard_poll pf ready self env =
     and_then (if rx_filters_dirty self
               then and_then (rx_filter_configure pf self env) (\<lambda>(ok, env).
                      Inr (self\<lparr>rx_filters_dirty := \<not> ok\<rparr>, env))
               else Inr (self, env)) (\<lambda>(self, env).
       let (self, env) = poll_sessions pf self env;
           (now, env) = p_now pf env;
           self = tx_expire self now
       in poll_ifaces pf ready [0..<iface_count] self env)"

subsection \<open>Ingestion of a received frame\<close>

definition ingest_parsed :: "canard \<Rightarrow> int \<Rightarrow> u8 \<Rightarrow> rx_frame \<Rightarrow> go_panic + canard" where
  "ingest_parsed self ts iface frame =
     and_then (if fr_start frame then node_id_occupancy_update self (fr_src frame) else Inr self) (\<lambda>self.
       case rx_route self frame of
         None \<Rightarrow> Inr self
       | Some b \<Rightarrow> rx_session_update self b ts frame iface)"

definition ingest_frame :: "canard \<Rightarrow> int \<Rightarrow> u8 \<Rightarrow> u32 \<Rightarrow> bytes \<Rightarrow> go_panic + canard \<times> bool" where
  "ingest_frame self ts iface can_id data =
     (let ok = (ts \<ge> 0 \<and> unat iface < iface_count \<and> can_id \<le> can_ext_id_mask) in
      if ok
      then let (mask, v0, v1) = rx_parse can_id data;
               self = (if mask = 0 then self\<lparr>err_rx_frame := err_rx_frame self + 1\<rparr> else self)
           in and_then (if mask AND 1 \<noteq> 0 then ingest_parsed self ts iface v0 else Inr self) (\<lambda>self.
              and_then (if mask AND 2 \<noteq> 0 then ingest_parsed self ts iface v1 else Inr self) (\<lambda>self.
                Inr (self, ok)))
      else Inr (self, ok))"

subsection \<open>Publication\<close>

text \<open>
  A payload is a Go slice, whose data pointer is set whenever it is not empty, so that
  \<open>bytesChainValid\<close> holds.
\<close>

definition ifaces_valid :: "u8 \<Rightarrow> bool" where
  "ifaces_valid ifaces \<longleftrightarrow> ifaces AND iface_bitmap_all \<noteq> 0 \<and> ifaces AND iface_bitmap_all = ifaces"

definition prio_valid :: "u8 \<Rightarrow> bool" where "prio_valid prio \<longleftrightarrow> unat prio < prio_count"

definition id_publish_16b :: "u8 \<Rightarrow> u16 \<Rightarrow> u32" where
  "id_publish_16b prio subject = push_bit prio_shift (ucast prio) OR push_bit 8 (ucast subject) OR push_bit 7 1"

definition publish_16b ::
  "'e platform \<Rightarrow> canard \<Rightarrow> 'e \<Rightarrow> int \<Rightarrow> u8 \<Rightarrow> u8 \<Rightarrow> u16 \<Rightarrow> u8 \<Rightarrow> bytes \<Rightarrow> nat \<Rightarrow> canard \<times> 'e \<times> bool"
where
  "publish_16b pf self env deadline ifaces prio subject tid payload ctx =
     (if prio_valid prio \<and> ifaces_valid ifaces
      then let (self, t) = tx_transfer_new self deadline (id_publish_16b prio subject) (tx_fd self) ctx
           in tx_push pf self env t False ifaces tid payload crc_initial
      else (self, env, False))"

definition id_publish_13b :: "u8 \<Rightarrow> u16 \<Rightarrow> u32" where
  "id_publish_13b prio subject = push_bit prio_shift (ucast prio) OR push_bit 21 3 OR push_bit 8 (ucast subject)"

definition publish_13b ::
  "'e platform \<Rightarrow> canard \<Rightarrow> 'e \<Rightarrow> int \<Rightarrow> u8 \<Rightarrow> u8 \<Rightarrow> u16 \<Rightarrow> u8 \<Rightarrow> bytes \<Rightarrow> nat \<Rightarrow> canard \<times> 'e \<times> bool"
where
  "publish_13b pf self env deadline ifaces prio subject tid payload ctx =
     (if prio_valid prio \<and> ifaces_valid ifaces \<and> subject \<le> ucast subject_id_max_13b
      then let (self, t) = tx_transfer_new self deadline (id_publish_13b prio subject) (tx_fd self) ctx
           in tx_push pf self env t False ifaces tid payload crc_initial
      else (self, env, False))"

definition bool_to_u32 :: "bool \<Rightarrow> u32" where "bool_to_u32 b = (if b then 1 else 0)"

definition id_service :: "u8 \<Rightarrow> u16 \<Rightarrow> u8 \<Rightarrow> bool \<Rightarrow> u32" where
  "id_service prio service dst req =
     push_bit prio_shift (ucast prio) OR push_bit 25 1 OR push_bit 24 (bool_to_u32 req)
       OR push_bit 14 (ucast service) OR push_bit 7 (ucast dst)"

definition tx_1v0_service ::
  "'e platform \<Rightarrow> canard \<Rightarrow> 'e \<Rightarrow> int \<Rightarrow> u8 \<Rightarrow> u16 \<Rightarrow> u8 \<Rightarrow> bool \<Rightarrow> u8 \<Rightarrow> bytes \<Rightarrow> nat \<Rightarrow> canard \<times> 'e \<times> bool"
where
  "tx_1v0_service pf self env deadline prio service dst req tid payload ctx =
     (if prio_valid prio \<and> service \<le> ucast service_id_max \<and> dst \<le> ucast node_id_max
      then let (self, t) = tx_transfer_new self deadline (id_service prio service dst req) (tx_fd self) ctx
           in tx_push pf self env t False iface_bitmap_all tid payload crc_initial
      else (self, env, False))"

definition request_service ::
  "'e platform \<Rightarrow> canard \<Rightarrow> 'e \<Rightarrow> int \<Rightarrow> u8 \<Rightarrow> u16 \<Rightarrow> u8 \<Rightarrow> u8 \<Rightarrow> bytes \<Rightarrow> nat \<Rightarrow> canard \<times> 'e \<times> bool"
where
  "request_service pf self env deadline prio service server tid payload ctx =
     tx_1v0_service pf self env deadline prio service server True tid payload ctx"

definition respond_service ::
  "'e platform \<Rightarrow> canard \<Rightarrow> 'e \<Rightarrow> int \<Rightarrow> u8 \<Rightarrow> u16 \<Rightarrow> u8 \<Rightarrow> u8 \<Rightarrow> bytes \<Rightarrow> nat \<Rightarrow> canard \<times> 'e \<times> bool"
where
  "respond_service pf self env deadline prio service client tid payload ctx =
     tx_1v0_service pf self env deadline prio service client False tid payload ctx"

definition id_v0_publish :: "u8 \<Rightarrow> u16 \<Rightarrow> u32" where
  "id_v0_publish prio data_type = push_bit prio_shift (ucast prio) OR push_bit 8 (ucast data_type)"

definition v0_publish ::
  "'e platform \<Rightarrow> canard \<Rightarrow> 'e \<Rightarrow> int \<Rightarrow> u8 \<Rightarrow> u8 \<Rightarrow> u16 \<Rightarrow> u16 \<Rightarrow> u8 \<Rightarrow> bytes \<Rightarrow> nat
     \<Rightarrow> canard \<times> 'e \<times> bool"
where
  "v0_publish pf self env deadline ifaces prio data_type crc_seed tid payload ctx =
     (if prio_valid prio \<and> ifaces_valid ifaces \<and> node_id self \<noteq> 0
      then let (self, t) = tx_transfer_new self deadline (id_v0_publish prio data_type) False ctx
           in tx_push pf self env t True ifaces tid payload crc_seed
      else (self, env, False))"

definition id_v0_service :: "u8 \<Rightarrow> u8 \<Rightarrow> u8 \<Rightarrow> bool \<Rightarrow> u32" where
  "id_v0_service prio data_type dst req =
     push_bit prio_shift (ucast prio) OR push_bit 16 (ucast data_type) OR push_bit 15 (bool_to_u32 req)
       OR push_bit 8 (ucast dst) OR push_bit 7 1"

definition tx_v0_service ::
  "'e platform \<Rightarrow> canard \<Rightarrow> 'e \<Rightarrow> int \<Rightarrow> u8 \<Rightarrow> u8 \<Rightarrow> u16 \<Rightarrow> u8 \<Rightarrow> bool \<Rightarrow> u8 \<Rightarrow> bytes \<Rightarrow> nat
     \<Rightarrow> canard \<times> 'e \<times> bool"
where
  "tx_v0_service pf self env deadline prio data_type crc_seed dst req tid payload ctx =
     (if prio_valid prio \<and> node_id self \<noteq> 0 \<and> dst > 0 \<and> dst \<le> ucast node_id_max
      then let (self, t) = tx_transfer_new self deadline (id_v0_service prio data_type dst req) False ctx
           in tx_push pf self env t True iface_bitmap_all tid payload crc_seed
      else (self, env, False))"

definition v0_request ::
  "'e platform \<Rightarrow> canard \<Rightarrow> 'e \<Rightarrow> int \<Rightarrow> u8 \<Rightarrow> u8 \<Rightarrow> u16 \<Rightarrow> u8 \<Rightarrow> u8 \<Rightarrow> bytes \<Rightarrow> nat \<Rightarrow> canard \<times> 'e \<times> bool"
where
  "v0_request pf self env deadline prio data_type crc_seed server tid payload ctx =
     tx_v0_service pf self env deadline prio data_type crc_seed server True tid payload ctx"

definition v0_respond ::
  "'e platform \<Rightarrow> canard \<Rightarrow> 'e \<Rightarrow> int \<Rightarrow> u8 \<Rightarrow> u8 \<Rightarrow> u16 \<Rightarrow> u8 \<Rightarrow> u8 \<Rightarrow> bytes \<Rightarrow> nat \<Rightarrow> canard \<times> 'e \<times> bool"
where
  "v0_respond pf self env deadline prio data_type crc_seed client tid payload ctx =
     tx_v0_service pf self env deadline prio data_type crc_seed client False tid payload ctx"

subsection \<open>Subscriptions\<close>

text \<open>The flag says whether the table of callbacks is complete.\<close>

definition subscribe_16b :: "canard \<Rightarrow> nat \<Rightarrow> u16 \<Rightarrow> int \<Rightarrow> int \<Rightarrow> bool \<Rightarrow> canard \<times> nat option" where
  "subscribe_16b self b subject extent timeout vtable_ok =
     rx_subscribe self b KindMessage16b subject crc_initial extent timeout vtable_ok"

definition subscribe_13b :: "canard \<Rightarrow> nat \<Rightarrow> u16 \<Rightarrow> int \<Rightarrow> int \<Rightarrow> bool \<Rightarrow> canard \<times> nat option" where
  "subscribe_13b self b subject extent timeout vtable_ok =
     (if subject \<le> ucast subject_id_max_13b
      then rx_subscribe self b KindMessage13b subject crc_initial extent timeout vtable_ok else (self, None))"

definition subscribe_request :: "canard \<Rightarrow> nat \<Rightarrow> u16 \<Rightarrow> int \<Rightarrow> int \<Rightarrow> bool \<Rightarrow> canard \<times> nat option" where
  "subscribe_request self b service extent timeout vtable_ok =
     (if service \<le> ucast service_id_max
      then rx_subscribe self b KindRequest service crc_initial extent timeout vtable_ok else (self, None))"

definition subscribe_response :: "canard \<Rightarrow> nat \<Rightarrow> u16 \<Rightarrow> int \<Rightarrow> bool \<Rightarrow> canard \<times> nat option" where
  "subscribe_response self b service extent vtable_ok =
     (if service \<le> ucast service_id_max
      then rx_subscribe self b KindResponse service crc_initial extent 0 vtable_ok else (self, None))"

definition find_subscription :: "canard \<Rightarrow> kind \<Rightarrow> u16 \<Rightarrow> nat option" where
  "find_subscription self k port = (if kind_index k \<ge> kind_count then None else rx_find_subscription self k port)"

definition v0_subscribe :: "canard \<Rightarrow> nat \<Rightarrow> u16 \<Rightarrow> u16 \<Rightarrow> int \<Rightarrow> int \<Rightarrow> bool \<Rightarrow> canard \<times> nat option" where
  "v0_subscribe self b data_type crc_seed extent timeout vtable_ok =
     rx_subscribe self b KindV0Message data_type crc_seed extent timeout vtable_ok"

definition v0_subscribe_request :: "canard \<Rightarrow> nat \<Rightarrow> u8 \<Rightarrow> u16 \<Rightarrow> int \<Rightarrow> int \<Rightarrow> bool \<Rightarrow> canard \<times> nat option" where
  "v0_subscribe_request self b data_type crc_seed extent timeout vtable_ok =
     rx_subscribe self b KindV0Request (ucast data_type) crc_seed extent timeout vtable_ok"

definition v0_subscribe_response :: "canard \<Rightarrow> nat \<Rightarrow> u8 \<Rightarrow> u16 \<Rightarrow> int \<Rightarrow> bool \<Rightarrow> canard \<times> nat option" where
  "v0_subscribe_response self b data_type crc_seed extent vtable_ok =
     rx_subscribe self b KindV0Response (ucast data_type) crc_seed extent 0 vtable_ok"

text \<open>
  \<open>Unsubscribe\<close> destroys the sessions first.  Each turn removes a session from the tree of
  the subscription that owns it; the loop would not end on a session that some other
  subscription owns, so that its model returns nothing then.
\<close>

partial_function (option) unsubscribe_loop :: "canard \<Rightarrow> nat \<Rightarrow> canard option" where
  "unsubscribe_loop self b =
     (case index_min (sub_sessions (rx_subs self b)) of
        None \<Rightarrow> Some self
      | Some s \<Rightarrow> unsubscribe_loop (rx_session_destroy self s) b)"

definition unsubscribe :: "canard \<Rightarrow> nat \<Rightarrow> canard option" where
  "unsubscribe self b =
     (case unsubscribe_loop self b of
        None \<Rightarrow> None
      | Some self \<Rightarrow>
          let k = sub_kind (rx_subs self b)
          in Some (self\<lparr>rx_subscriptions := (rx_subscriptions self)(k := index_remove b (rx_subscriptions self k)),
                        rx_filters_dirty := True\<rparr>))"

end
