(* ===== verification/CanIds.thy ===== *)
theory CanIds
  imports CanNode CanReassembly
begin

text \<open>
  The identifiers on the wire: what each kind of publication puts into the 29 bits, and that the
  parser of the receiver takes it apart again.
\<close>

text \<open>The identifier that \<open>txEjectPending\<close> hands to the platform for a transfer made from a template.\<close>

definition wire_id :: "u32 \<Rightarrow> u8 \<Rightarrow> u32" where
  "wire_id template nid = push_bit 7 (drop_bit 7 template AND (push_bit 22 1 - 1)) OR ucast nid"

lemma bit_u8: "bit (w :: u8) n \<Longrightarrow> n < 8" using bit_imp_le_length [of w n] by simp
lemma bit_u16: "bit (w :: u16) n \<Longrightarrow> n < 16" using bit_imp_le_length [of w n] by simp

lemma mask22: "(push_bit 22 1 - 1 :: u32) = mask 22" by (simp add: mask_eq_exp_minus_1)

lemma unat_bit_below:
  assumes "unat (w :: 'a::len word) < 2 ^ k" and "k \<le> n"
  shows "\<not> bit w n"
proof -
  have "unat w < 2 ^ n" using assms by (meson less_le_trans one_le_numeral power_increasing)
  then have "\<not> bit (unat w) n" by (simp add: bit_iff_odd)
  then show ?thesis by (auto simp: bit_unsigned_iff dest: bit_imp_le_length)
qed

lemma node_id_bits: "(nid :: u8) \<le> 127 \<Longrightarrow> 7 \<le> n \<Longrightarrow> \<not> bit nid n"
  by (rule unat_bit_below [of nid 7]) (simp_all add: word_le_nat_alt)

lemma bit_wire_id:
  assumes "nid \<le> 127"
  shows "bit (wire_id t nid) n \<longleftrightarrow> (if n < 7 then bit nid n else n < 29 \<and> bit t n)"
proof -
  have "\<not> bit nid n" if "7 \<le> n" by (rule node_id_bits [OF assms that])
  then show ?thesis
    unfolding wire_id_def mask22
    by (auto simp: bit_or_iff bit_push_bit_iff bit_and_iff bit_drop_bit_eq bit_mask_iff bit_unsigned_iff dest: bit_u8)
qed

lemma wire_id_src: "nid \<le> 127 \<Longrightarrow> ucast (wire_id t nid AND 127) = nid"
proof (rule bit_word_eqI)
  fix n assume a: "nid \<le> 127" "n < LENGTH(8)"
  have m: "(127 :: u32) = mask 7" by (simp add: mask_eq_exp_minus_1)
  have "\<not> bit nid n" if "7 \<le> n" by (rule node_id_bits [OF a(1) that])
  with a show "bit (ucast (wire_id t nid AND 127) :: u8) n = bit nid n"
    unfolding m by (auto simp: bit_ucast_iff bit_and_iff bit_mask_iff bit_wire_id split: if_splits)
qed

lemma wire_id_le: "nid \<le> 127 \<Longrightarrow> wire_id t nid \<le> can_ext_id_mask"
proof -
  assume nid: "nid \<le> 127"
  have "take_bit 29 (wire_id t nid) = wire_id t nid"
    by (rule bit_word_eqI) (auto simp: bit_take_bit_iff bit_wire_id [OF nid] dest: bit_u8 split: if_splits)
  then have "unat (wire_id t nid) = take_bit 29 (unat (wire_id t nid))"
    by (metis unsigned_take_bit_eq)
  also have "\<dots> < 2 ^ 29" by (rule take_bit_nat_less_exp)
  finally show ?thesis by (simp add: can_ext_id_mask_def word_le_nat_alt)
qed

text \<open>A field of the identifier.\<close>

lemma wire_id_field:
  assumes "nid \<le> 127" "7 \<le> i" "i + k \<le> 29" "k \<le> LENGTH('a)"
  shows "(ucast (drop_bit i (wire_id t nid) AND mask k) :: 'a::len word) = ucast (drop_bit i t AND mask k)"
  by (rule bit_word_eqI)
    (use assms in \<open>auto simp: bit_ucast_iff bit_and_iff bit_mask_iff bit_drop_bit_eq bit_wire_id\<close>)

lemma wire_id_bit: "nid \<le> 127 \<Longrightarrow> 7 \<le> n \<Longrightarrow> n < 29 \<Longrightarrow> bit (wire_id t nid) n = bit t n"
  by (simp add: bit_wire_id)

text \<open>A small word in a field of a larger one.\<close>

lemma prio_bits: "prio_valid prio \<Longrightarrow> 3 \<le> n \<Longrightarrow> \<not> bit prio n"
proof -
  assume "prio_valid prio" "3 \<le> n"
  then have "unat prio < 2 ^ 3" by (simp add: prio_valid_def prio_count_def)
  then show ?thesis using \<open>3 \<le> n\<close> by (rule unat_bit_below)
qed

lemma wire_id_prio:
  assumes "nid \<le> 127" "prio_valid prio" "\<And>n. 26 \<le> n \<Longrightarrow> n < 29 \<Longrightarrow> bit t n = bit prio (n - 26)"
  shows "ucast (drop_bit 26 (wire_id t nid)) = prio"
proof (rule bit_word_eqI)
  fix n assume n: "n < LENGTH(8)"
  show "bit (ucast (drop_bit 26 (wire_id t nid)) :: u8) n = bit prio n"
    using n assms prio_bits [OF assms(2), of n] assms(3) [of "26 + n"]
    by (cases "n < 3") (auto simp: bit_ucast_iff bit_drop_bit_eq bit_wire_id)
qed

lemma wire_id_prio_push:
  assumes "nid \<le> 127" "prio_valid prio"
    and "t = push_bit prio_shift (ucast prio) OR rest" "\<And>n. 26 \<le> n \<Longrightarrow> \<not> bit rest n"
  shows "ucast (drop_bit 26 (wire_id t nid)) = prio"
  using assms by (intro wire_id_prio) (auto simp: prio_shift_def bit_or_iff bit_push_bit_iff bit_ucast_iff)

subsection \<open>Every kind of transfer\<close>

lemma masks:
  "(127 :: u32) = mask 7" "(511 :: u32) = mask 9" "(0xFFFF :: u32) = mask 16" "(8191 :: u32) = mask 13"
  "(0xFF :: u32) = mask 8"
  by (simp_all add: mask_eq_exp_minus_1)

lemmas id_bits = bit_or_iff bit_push_bit_iff bit_ucast_iff bit_and_iff bit_mask_iff bit_drop_bit_eq

text \<open>The header that the receiver sees, before the tail byte is looked at.\<close>

definition header :: "u8 \<Rightarrow> kind \<Rightarrow> u16 \<Rightarrow> u8 \<Rightarrow> u8 \<Rightarrow> rx_frame" where
  "header prio k port dst src = rx_frame_zero\<lparr>fr_priority := prio, fr_kind := k, fr_port_id := port,
     fr_dst := dst, fr_src := src\<rparr>"

lemma frame_of_header:
  "frame_of (header prio k port dst src) raw = (frame_common i raw)\<lparr>fr_priority := prio, fr_kind := k,
     fr_port_id := port, fr_dst := dst, fr_src := src\<rparr>"
  by (simp add: frame_of_def header_def frame_common_def rx_frame_zero_def)

definition tail_v1 :: "bytes \<Rightarrow> bool" where
  "tail_v1 raw \<longleftrightarrow> frame_ok raw \<and> (bit (last raw) 7 \<longrightarrow> bit (last raw) 5)"

definition tail_v0 :: "bytes \<Rightarrow> bool" where
  "tail_v0 raw \<longleftrightarrow> frame_ok raw \<and> (bit (last raw) 7 \<longrightarrow> \<not> bit (last raw) 5)"

lemma word_le_bits: "unat (w :: 'a::len word) < 2 ^ k \<Longrightarrow> k \<le> n \<Longrightarrow> bit w n = False"
  using unat_bit_below by blast

lemma parse_16b:
  assumes "nid \<le> 127" "prio_valid prio" "tail_v1 raw"
  shows "parsed_v1 (wire_id (id_publish_16b prio subject) nid) raw =
    Some (frame_of (header prio KindMessage16b subject node_id_anonymous nid) raw)"
proof -
  let ?t = "id_publish_16b prio subject" and ?i = "wire_id (id_publish_16b prio subject) nid"
  have "\<not> bit ?t 25" "bit ?t 7" "\<not> bit ?t 24"
    unfolding id_publish_16b_def id_bits prio_shift_def by (auto dest: bit_u16)
  then have bits: "\<not> bit ?i 25" "bit ?i 7" "\<not> bit ?i 24" by (simp_all add: wire_id_bit [OF assms(1)])
  have port: "ucast (drop_bit 8 ?i AND subject_id_max) = subject"
  proof -
    have "(ucast (drop_bit 8 ?i AND mask 16) :: u16) = ucast (drop_bit 8 ?t AND mask 16)"
      by (rule wire_id_field [OF assms(1)]) simp_all
    also have "\<dots> = subject"
      by (rule bit_word_eqI, unfold id_publish_16b_def id_bits prio_shift_def) (auto simp: bit_1_iff)
    finally show ?thesis by (simp add: subject_id_max_def masks)
  qed
  have prio: "ucast (drop_bit 26 ?i) = prio"
    by (rule wire_id_prio_push [OF assms(1,2), of _ "push_bit 8 (ucast subject) OR push_bit 7 1"],
        unfold id_publish_16b_def or.assoc id_bits, auto simp: bit_1_iff dest: bit_u16)
  have src: "ucast (?i AND 127) = nid" by (rule wire_id_src [OF assms(1)])
  show ?thesis
    using assms(3) bits port prio src
    by (simp add: parsed_v1_alt tail_v1_def rx_parse_v1_def Let_def frame_of_header [of _ _ _ _ _ _ ?i])
qed

lemma parse_13b:
  assumes "nid \<le> 127" "prio_valid prio" "subject \<le> 8191" "tail_v1 raw"
  shows "parsed_v1 (wire_id (id_publish_13b prio subject) nid) raw =
    Some (frame_of (header prio KindMessage13b subject node_id_anonymous nid) raw)"
proof -
  let ?t = "id_publish_13b prio subject" and ?i = "wire_id (id_publish_13b prio subject) nid"
  have sub: "\<not> bit subject n" if "13 \<le> n" for n
    by (rule unat_bit_below [of subject 13]) (use assms(3) that in \<open>simp_all add: word_le_nat_alt\<close>)
  have three: "\<not> bit (3 :: u32) n" if "2 \<le> n" for n by (rule unat_bit_below [of 3 2]) (use that in simp_all)
  have "\<not> bit ?t 25" "\<not> bit ?t 7" "\<not> bit ?t 24" "\<not> bit ?t 23"
    unfolding id_publish_13b_def id_bits prio_shift_def using sub by (auto dest: bit_u16)
  then have bits: "\<not> bit ?i 25" "\<not> bit ?i 7" "\<not> bit ?i 24" "\<not> bit ?i 23" by (simp_all add: wire_id_bit [OF assms(1)])
  have port: "ucast (drop_bit 8 ?i AND subject_id_max_13b) = subject"
  proof -
    have "(ucast (drop_bit 8 ?i AND mask 13) :: u16) = ucast (drop_bit 8 ?t AND mask 13)"
      by (rule wire_id_field [OF assms(1)]) simp_all
    also have "\<dots> = subject"
    proof (rule bit_word_eqI)
      fix n assume "n < LENGTH(16)"
      with \<open>n < LENGTH(16)\<close> sub [of n] show "bit (ucast (drop_bit 8 ?t AND mask 13) :: u16) n = bit subject n"
        unfolding id_publish_13b_def id_bits prio_shift_def by (cases "n < 13") auto
    qed
    finally show ?thesis by (simp add: subject_id_max_13b_def masks)
  qed
  have prio: "ucast (drop_bit 26 ?i) = prio"
    by (rule wire_id_prio_push [OF assms(1,2), of _ "push_bit 21 3 OR push_bit 8 (ucast subject)"],
        unfold id_publish_13b_def or.assoc id_bits, use three in \<open>auto dest: bit_u16\<close>)
  have src: "ucast (?i AND 127) = nid" by (rule wire_id_src [OF assms(1)])
  show ?thesis
    using assms(4) bits port prio src
    by (simp add: parsed_v1_alt tail_v1_def rx_parse_v1_def Let_def frame_of_header [of _ _ _ _ _ _ ?i])
qed

lemma parse_service:
  assumes "nid \<le> 127" "prio_valid prio" "service \<le> 511" "dst \<le> 127" "tail_v1 raw" "nid \<noteq> dst"
  shows "parsed_v1 (wire_id (id_service prio service dst req) nid) raw =
    Some (frame_of (header prio (if req then KindRequest else KindResponse) service dst nid) raw)"
proof -
  let ?t = "id_service prio service dst req" and ?i = "wire_id (id_service prio service dst req) nid"
  have sub: "\<not> bit service n" if "9 \<le> n" for n
    by (rule unat_bit_below [of service 9]) (use assms(3) that in \<open>simp_all add: word_le_nat_alt\<close>)
  note db = node_id_bits [OF assms(4)]
  have "bit ?t 25" "bit ?t 24 = req" "\<not> bit ?t 23"
    unfolding id_service_def id_bits prio_shift_def bool_to_u32_def using sub db by (auto dest: bit_u16 bit_u8)
  then have bits: "bit ?i 25" "bit ?i 24 = req" "\<not> bit ?i 23" by (simp_all add: wire_id_bit [OF assms(1)])
  have port: "ucast (drop_bit 14 ?i AND service_id_max) = service"
  proof -
    have "(ucast (drop_bit 14 ?i AND mask 9) :: u16) = ucast (drop_bit 14 ?t AND mask 9)"
      by (rule wire_id_field [OF assms(1)]) simp_all
    also have "\<dots> = service"
    proof (rule bit_word_eqI)
      fix n assume "n < LENGTH(16)"
      with sub [of n] db [of "14 + n - 7"]
      show "bit (ucast (drop_bit 14 ?t AND mask 9) :: u16) n = bit service n"
        unfolding id_service_def id_bits prio_shift_def bool_to_u32_def by (cases "n < 9") auto
    qed
    finally show ?thesis by (simp add: service_id_max_def masks)
  qed
  have dst: "ucast (drop_bit 7 ?i AND node_id_max) = dst"
  proof -
    have "(ucast (drop_bit 7 ?i AND mask 7) :: u8) = ucast (drop_bit 7 ?t AND mask 7)"
      by (rule wire_id_field [OF assms(1)]) simp_all
    also have "\<dots> = dst"
    proof (rule bit_word_eqI)
      fix n assume "n < LENGTH(8)"
      with db [of n] show "bit (ucast (drop_bit 7 ?t AND mask 7) :: u8) n = bit dst n"
        unfolding id_service_def id_bits prio_shift_def bool_to_u32_def by (cases "n < 7") auto
    qed
    finally show ?thesis by (simp add: node_id_max_def masks)
  qed
  have prio: "ucast (drop_bit 26 ?i) = prio"
    by (rule wire_id_prio_push [OF assms(1,2), of _ "push_bit 25 1 OR push_bit 24 (bool_to_u32 req)
         OR push_bit 14 (ucast service) OR push_bit 7 (ucast dst)"],
        unfold id_service_def or.assoc id_bits bool_to_u32_def, use sub db in \<open>auto simp: bit_1_iff\<close>)
  have src: "ucast (?i AND 127) = nid" by (rule wire_id_src [OF assms(1)])
  show ?thesis
    using assms(5,6) bits port prio src dst
    by (simp add: parsed_v1_alt tail_v1_def rx_parse_v1_def Let_def frame_of_header [of _ _ _ _ _ _ ?i])
qed

lemma parse_v0_message:
  assumes "nid \<le> 127" "nid \<noteq> 0" "prio_valid prio" "tail_v0 raw"
  shows "parsed_v0 (wire_id (id_v0_publish prio data_type) nid) raw =
    Some (frame_of (header prio KindV0Message data_type node_id_anonymous nid) raw)"
proof -
  let ?t = "id_v0_publish prio data_type" and ?i = "wire_id (id_v0_publish prio data_type) nid"
  have "\<not> bit ?t 7"
    unfolding id_v0_publish_def id_bits prio_shift_def by auto
  then have bits: "\<not> bit ?i 7" by (simp add: wire_id_bit [OF assms(1)])
  have port: "ucast (drop_bit 8 ?i AND 0xFFFF) = data_type"
  proof -
    have "(ucast (drop_bit 8 ?i AND mask 16) :: u16) = ucast (drop_bit 8 ?t AND mask 16)"
      by (rule wire_id_field [OF assms(1)]) simp_all
    also have "\<dots> = data_type"
      by (rule bit_word_eqI, unfold id_v0_publish_def id_bits prio_shift_def) auto
    finally show ?thesis by (simp add: masks)
  qed
  have prio: "ucast (drop_bit 26 ?i) = prio"
    by (rule wire_id_prio_push [OF assms(1,3), of _ "push_bit 8 (ucast data_type)"],
        unfold id_v0_publish_def or.assoc id_bits, auto dest: bit_u16)
  have src: "ucast (?i AND 127) = nid" by (rule wire_id_src [OF assms(1)])
  show ?thesis
    using assms(2,4) bits port prio src
    by (simp add: parsed_v0_alt tail_v0_def rx_parse_v0_def Let_def frame_of_header [of _ _ _ _ _ _ ?i])
qed

lemma parse_v0_service:
  assumes "nid \<le> 127" "nid \<noteq> 0" "prio_valid prio" "dst \<le> 127" "dst \<noteq> 0" "tail_v0 raw" "nid \<noteq> dst"
  shows "parsed_v0 (wire_id (id_v0_service prio data_type dst req) nid) raw =
    Some (frame_of (header prio (if req then KindV0Request else KindV0Response) (ucast data_type) dst nid) raw)"
proof -
  let ?t = "id_v0_service prio data_type dst req" and ?i = "wire_id (id_v0_service prio data_type dst req) nid"
  note db = node_id_bits [OF assms(4)]
  have "bit ?t 7" "bit ?t 15 = req"
    unfolding id_v0_service_def id_bits prio_shift_def bool_to_u32_def using db by (auto dest: bit_u8)
  then have bits: "bit ?i 7" "bit ?i 15 = req" by (simp_all add: wire_id_bit [OF assms(1)])
  have port: "ucast (drop_bit 16 ?i AND 0xFF) = (ucast data_type :: u16)"
  proof -
    have "(ucast (drop_bit 16 ?i AND mask 8) :: u16) = ucast (drop_bit 16 ?t AND mask 8)"
      by (rule wire_id_field [OF assms(1)]) simp_all
    also have "\<dots> = ucast data_type"
    proof (rule bit_word_eqI)
      fix n assume "n < LENGTH(16)"
      with db [of "16 + n - 8"] show "bit (ucast (drop_bit 16 ?t AND mask 8) :: u16) n = bit (ucast data_type :: u16) n"
        unfolding id_v0_service_def id_bits prio_shift_def bool_to_u32_def
        by (cases "n < 8") (auto simp: bit_1_iff dest: bit_u8)
    qed
    finally show ?thesis by (simp add: masks)
  qed
  have dst: "ucast (drop_bit 8 ?i AND node_id_max) = dst"
  proof -
    have "(ucast (drop_bit 8 ?i AND mask 7) :: u8) = ucast (drop_bit 8 ?t AND mask 7)"
      by (rule wire_id_field [OF assms(1)]) simp_all
    also have "\<dots> = dst"
    proof (rule bit_word_eqI)
      fix n assume "n < LENGTH(8)"
      with db [of n] show "bit (ucast (drop_bit 8 ?t AND mask 7) :: u8) n = bit dst n"
        unfolding id_v0_service_def id_bits prio_shift_def bool_to_u32_def by (cases "n < 7") (auto simp: bit_1_iff)
    qed
    finally show ?thesis by (simp add: node_id_max_def masks)
  qed
  have prio: "ucast (drop_bit 26 ?i) = prio"
    by (rule wire_id_prio_push [OF assms(1,3), of _ "push_bit 16 (ucast data_type) OR push_bit 15 (bool_to_u32 req)
         OR push_bit 8 (ucast dst) OR push_bit 7 1"],
        unfold id_v0_service_def or.assoc id_bits bool_to_u32_def, auto simp: bit_1_iff dest: bit_u8)
  have src: "ucast (?i AND 127) = nid" by (rule wire_id_src [OF assms(1)])
  show ?thesis
    using assms(2,5-7) bits port prio src dst
    by (simp add: parsed_v0_alt tail_v0_def rx_parse_v0_def Let_def frame_of_header [of _ _ _ _ _ _ ?i])
qed

text \<open>C16: whatever is published, the parser of the receiver reads from the identifier what the
  sender put into it: the priority, the kind of transfer, the subject, service or data type, the
  destination of a service call and the sender, for both kinds of messages, both directions of a
  service call and the legacy message and service calls.\<close>

theorem identifier_round_trip:
  assumes "nid \<le> 127" and "prio_valid prio" and "dst \<le> 127" and "nid \<noteq> dst"
  shows "(tail_v1 raw \<longrightarrow>
      parsed_v1 (wire_id (id_publish_16b prio port) nid) raw =
        Some (frame_of (header prio KindMessage16b port node_id_anonymous nid) raw)) \<and>
    (tail_v1 raw \<and> port \<le> 8191 \<longrightarrow>
      parsed_v1 (wire_id (id_publish_13b prio port) nid) raw =
        Some (frame_of (header prio KindMessage13b port node_id_anonymous nid) raw)) \<and>
    (tail_v1 raw \<and> port \<le> 511 \<longrightarrow>
      parsed_v1 (wire_id (id_service prio port dst req) nid) raw =
        Some (frame_of (header prio (if req then KindRequest else KindResponse) port dst nid) raw)) \<and>
    (tail_v0 raw \<and> nid \<noteq> 0 \<longrightarrow>
      parsed_v0 (wire_id (id_v0_publish prio port) nid) raw =
        Some (frame_of (header prio KindV0Message port node_id_anonymous nid) raw)) \<and>
    (tail_v0 raw \<and> nid \<noteq> 0 \<and> dst \<noteq> 0 \<longrightarrow>
      parsed_v0 (wire_id (id_v0_service prio data_type dst req) nid) raw =
        Some (frame_of (header prio (if req then KindV0Request else KindV0Response) (ucast data_type) dst nid) raw))"
  using assms by (simp add: parse_16b parse_13b parse_service parse_v0_message parse_v0_service)

theorem identifier_round_trip_witness:
  "parsed_v1 (wire_id (id_service 4 430 7 True) 42) [1, 0xE0] =
     Some (frame_of (header 4 KindRequest 430 7 42) [1, 0xE0])"
proof -
  have "tail_v1 [1, 0xE0]" by (simp add: tail_v1_def frame_ok_def)
  moreover have "prio_valid 4" by (simp add: prio_valid_def prio_count_def)
  ultimately show ?thesis using identifier_round_trip [of 42 4 7 "[1, 0xE0]" 430 True 0] by simp
qed

end
