(* ===== verification/CanNodeId.thy ===== *)
theory CanNodeId
  imports CanNode CanTxSpec
begin

text \<open>
  The node-ID of an instance: the bitmap of occupied identifiers never fills up, the search for
  a free one never runs off the bitmap, and a collision moves the local node to an identifier
  that nobody was seen to use.
\<close>

subsection \<open>The search for a cleared bit\<close>

definition free_from :: "u64 list \<Rightarrow> nat \<Rightarrow> nat list" where
  "free_from b i = filter (\<lambda>j. j \<notin> bitmap_bits b) [i..<64 * length b]"

lemma free_from_step:
  "i < 64 * length b \<Longrightarrow> free_from b i = (if i \<in> bitmap_bits b then [] else [i]) @ free_from b (Suc i)"
  by (simp add: free_from_def upt_conv_Cons)

lemma free_from_end: "64 * length b \<le> i \<Longrightarrow> free_from b i = []"
  by (simp add: free_from_def)

lemma next_cleared_hd: "free_from b i \<noteq> [] \<Longrightarrow> next_cleared b i = Inr (hd (free_from b i))"
proof (induction b i rule: next_cleared.induct)
  case (1 b i)
  then have i: "i < 64 * length b" by (meson free_from_end not_le)
  show ?case
  proof (cases "i \<in> bitmap_bits b")
    case True
    with i have "bitmap_test b i = Inr True" by (simp add: bitmap_test_iff)
    moreover have "free_from b i = free_from b (Suc i)" using True i by (simp add: free_from_step)
    ultimately show ?thesis using 1 by (subst next_cleared.simps) simp
  next
    case False
    with i have "bitmap_test b i = Inr False" by (simp add: bitmap_test_iff)
    with False i show ?thesis by (subst next_cleared.simps) (simp add: free_from_step)
  qed
qed

lemma skip_cleared_nth:
  "unat z < length (free_from b i) \<Longrightarrow>
   \<exists>id. skip_cleared b z i = Inr id \<and> free_from b id = drop (unat z) (free_from b i)"
proof (induction b z i rule: skip_cleared.induct)
  case (1 b z i)
  show ?case
  proof (cases "z = 0")
    case True
    then show ?thesis by (subst skip_cleared.simps) simp
  next
    case False
    then have "z > 0" by (simp add: word_gt_0)
    moreover from this have "0 < unat z" by (simp add: unat_gt_0)
    moreover have "unat (z - 1) = unat z - 1" using False by (simp add: unat_minus_one)
    ultimately have z: "z > 0" "unat z = Suc (unat (z - 1))" by simp_all
    from 1(2) have i: "i < 64 * length b" by (metis free_from_end length_0_conv not_le not_less0)
    then have t: "bitmap_test b i = Inr (i \<in> bitmap_bits b)" by (rule bitmap_test_iff)
    show ?thesis
    proof (cases "i \<in> bitmap_bits b")
      case True
      with i have fs: "free_from b i = free_from b (Suc i)" by (simp add: free_from_step)
      with 1 z t True obtain id where "skip_cleared b z (Suc i) = Inr id" "free_from b id = drop (unat z) (free_from b (Suc i))"
        by fastforce
      with z t True fs show ?thesis by (subst skip_cleared.simps) simp
    next
      case False
      with i have fs: "free_from b i = i # free_from b (Suc i)" by (simp add: free_from_step)
      with 1(2) z have "unat (z - 1) < length (free_from b (Suc i))" by simp
      with 1(1) [OF z(1) t] False obtain id
        where "skip_cleared b (z - 1) (Suc i) = Inr id" "free_from b id = drop (unat (z - 1)) (free_from b (Suc i))"
        by auto
      with z t False fs show ?thesis by (subst skip_cleared.simps) simp
    qed
  qed
qed

lemma free_search:
  assumes "unat z < length (free_from b 0)"
  shows "and_then (skip_cleared b z 0) (next_cleared b) = Inr (free_from b 0 ! unat z)"
proof -
  from skip_cleared_nth [OF assms] obtain id
    where id: "skip_cleared b z 0 = Inr id" "free_from b id = drop (unat z) (free_from b 0)" by blast
  then have "next_cleared b id = Inr (hd (drop (unat z) (free_from b 0)))"
    using assms by (subst next_cleared_hd) auto
  with id assms show ?thesis by (simp add: hd_drop_conv_nth)
qed

lemma length_free_from: "length (free_from b 0) = 64 * length b - card (bitmap_bits b)"
proof -
  have "set (free_from b 0) = {..<64 * length b} - bitmap_bits b" by (auto simp: free_from_def)
  moreover have "distinct (free_from b 0)" by (simp add: free_from_def)
  ultimately have "length (free_from b 0) = card ({..<64 * length b} - bitmap_bits b)"
    by (metis distinct_card)
  also have "\<dots> = 64 * length b - card (bitmap_bits b)"
    using bitmap_bits_subset [of b] by (subst card_Diff_subset) auto
  finally show ?thesis .
qed

subsection \<open>What purging and resetting leave alone\<close>

text \<open>The state that the transmission side never touches.\<close>

definition rx_part where
  "rx_part self = (occupancy self, prng_state self, rx_subscriptions self, rx_sessions_by_animation self,
     rx_filter_count self, rx_filters_dirty self, err_rx_frame self, err_rx_transfer self, err_collision self,
     rx_subs self, rx_sessions self, rx_session_fresh self, rx_deliveries self)"

lemma rx_part_ref_count_dec [simp]: "rx_part (ref_count_dec self f) = rx_part self"
  by (simp add: rx_part_def ref_count_dec_def Let_def)

lemma rx_part_free_chain [simp]: "rx_part (tx_free_chain self fs) = rx_part self"
  by (induction fs arbitrary: self) (simp_all add: tx_free_chain_def)

lemma rx_part_retire [simp]: "rx_part (tx_retire self t) = rx_part self"
proof -
  have "rx_part (set_cursor c t 0 []) = rx_part c" for c
    by (simp add: rx_part_def set_cursor_def set_transfer_def)
  then show ?thesis by (simp add: tx_retire_eq) (simp add: rx_part_def)
qed

lemma rx_part_purge [simp]: "rx_part (tx_purge_continuations self) = rx_part self"
proof -
  have "rx_part (tx_purge_from c xs) = rx_part c" for c xs
    by (induction xs arbitrary: c) (simp_all add: Let_def)
  then show ?thesis by (simp add: tx_purge_continuations_def)
qed

subsection \<open>The occupancy of the node-IDs\<close>

definition occupied :: "canard \<Rightarrow> nat set" where "occupied self = bitmap_bits (occupancy self)"

definition occupancy_inv :: "canard \<Rightarrow> bool" where
  "occupancy_inv self \<longleftrightarrow> length (occupancy self) = 2 \<and> 0 \<in> occupied self \<and> card (occupied self) \<le> 126"

lemma bitmap_bits_reset: "bitmap_bits [1, 0] = {0}"
proof (rule set_eqI)
  fix i :: nat
  have "i = 64 * (i div 64) + i mod 64" by simp
  moreover have "bit ([1, 0 :: u64] ! k) n \<longleftrightarrow> k = 0 \<and> n = 0" if "k < 2" for k n
    using that by (cases k) (auto simp: bit_1_iff)
  ultimately show "i \<in> bitmap_bits [1, 0] \<longleftrightarrow> i \<in> {0}"
    unfolding bitmap_bits_def by (cases "i div 64 < 2") auto
qed

lemma reset_occupied:
  assumes "length (occupancy self) = 2"
  shows "occupancy (node_id_occupancy_reset self) = [1, 0]"
  using assms by (auto simp: node_id_occupancy_reset_def length_Suc_conv numeral_2_eq_2)

text \<open>The number of cleared bits as the code computes it, in eight bits.\<close>

definition cleared_count :: "u64 list \<Rightarrow> u8" where
  "cleared_count b = of_nat node_id_capacity - (popcount (b ! 0) + popcount (b ! 1))"

lemma unat_occupied_count:
  assumes "length b = 2"
  shows "unat (popcount (b ! 0) + popcount (b ! 1)) = card (bitmap_bits b)" "card (bitmap_bits b) \<le> 128"
proof -
  obtain v0 v1 where b: "b = [v0, v1]" using assms by (auto simp: length_Suc_conv numeral_2_eq_2)
  have c: "card (bitmap_bits b) = unat (popcount v0) + unat (popcount v1)" by (simp add: b card_bitmap_bits_pair)
  have "unat (popcount v) \<le> 64" for v by (simp add: unat_popcount card_bit_le)
  from this [of v0] this [of v1] have "unat (popcount v0) + unat (popcount v1) \<le> 128" by simp
  with c show "unat (popcount (b ! 0) + popcount (b ! 1)) = card (bitmap_bits b)" "card (bitmap_bits b) \<le> 128"
    by (simp_all add: b unat_word_ariths)
qed

lemma unat_cleared_count:
  assumes "length b = 2"
  shows "unat (cleared_count b) = 128 - card (bitmap_bits b)"
proof -
  note c = unat_occupied_count [OF assms]
  have n: "unat (of_nat node_id_capacity :: u8) = 128" by (simp add: node_id_capacity_def)
  have "popcount (b ! 0) + popcount (b ! 1) \<le> (of_nat node_id_capacity :: u8)"
    using c n by (simp only: word_le_nat_alt)
  then show ?thesis using c n by (simp only: cleared_count_def unat_sub)
qed

subsection \<open>Moving out of the way\<close>

lemma rx_part_simps:
  "rx_part a = rx_part b \<Longrightarrow> occupancy a = occupancy b \<and> prng_state a = prng_state b \<and>
     rx_filters_dirty a = rx_filters_dirty b \<and> err_collision a = err_collision b"
  by (simp add: rx_part_def)

lemma node_id_purge [simp]: "node_id (tx_purge_continuations self) = node_id self"
proof -
  have "node_id (tx_purge_from c xs) = node_id c" for c xs
    by (induction xs arbitrary: c) (simp_all add: Let_def)
  then show ?thesis by (simp add: tx_purge_continuations_def)
qed

lemma node_id_move_spec:
  assumes "length (occupancy self) = 2" "card (occupied self) \<le> 127"
  shows "\<exists>self'. node_id_move self (cleared_count (occupancy self)) = Inr self' \<and>
    occupancy self' = occupancy self \<and> unat (node_id self') < 128 \<and> unat (node_id self') \<notin> occupied self \<and>
    rx_filters_dirty self' \<and> err_collision self' = err_collision self + 1 \<and>
    node_id self' = of_nat (free_from (occupancy self) 0 !
       unat (fst (random_below (prng_state self) (ucast (cleared_count (occupancy self))))))"
proof -
  let ?b = "occupancy self"
  let ?zc = "ucast (cleared_count ?b) :: u64"
  obtain z g where zg: "random_below (prng_state self) ?zc = (z, g)" by fastforce
  have uz: "unat ?zc = length (free_from ?b 0)"
    using unat_cleared_count [OF assms(1)] assms(1) by (simp add: length_free_from unat_ucast_up)
  moreover have "0 < unat ?zc"
    using unat_cleared_count [OF assms(1)] assms(2) by (simp add: unat_ucast_up occupied_def)
  then have "0 < ?zc" by (simp add: unat_gt_0 word_gt_0)
  from random_below_less [OF this, of "prng_state self"] zg have "z < ?zc" by simp
  ultimately have z: "unat z < length (free_from ?b 0)" by (simp only: word_less_nat_alt)
  define id where "id = free_from ?b 0 ! unat z"
  have "id \<in> set (free_from ?b 0)" unfolding id_def using z by (rule nth_mem)
  then have id: "id < 128" "id \<notin> bitmap_bits ?b" using assms(1) by (auto simp: free_from_def)
  from free_search [OF z] obtain i where "skip_cleared ?b z 0 = Inr i" "next_cleared ?b i = Inr id"
    by (auto simp: and_then_Inr_iff id_def)
  moreover have "unat (of_nat id :: u8) = id" using id by (simp add: unat_of_nat_small)
  ultimately show ?thesis
    using id rx_part_simps [OF rx_part_purge [of "self\<lparr>prng_state := g, node_id := of_nat id\<rparr>"]]
    by (simp add: node_id_move_def canard_random_def zg Let_def occupied_def id_def)
qed

subsection \<open>The update\<close>

lemma canard_chance_fields:
  "canard_chance self p = (self', r) \<Longrightarrow> r = fst (chance (prng_state self) p) \<and> (\<exists>g. self' = self\<lparr>prng_state := g\<rparr>)"
  by (auto simp: canard_chance_def split: prod.splits)

text \<open>The state after the new identifier was marked, with the decision whether to forget the others.\<close>

definition marked :: "canard \<Rightarrow> u8 \<Rightarrow> u64 list \<Rightarrow> canard \<times> bool" where
  "marked self src b =
     (let self = self\<lparr>occupancy := b\<rparr>
      in if popcount (b ! 0) + popcount (b ! 1) > of_nat node_id_capacity div 2
         then canard_chance self (ucast (cleared_count b)) else (self, False))"

lemma marked_spec:
  assumes "length b = 2" "card (bitmap_bits b) \<le> 127"
  obtains g purge where "marked self src b = (self\<lparr>occupancy := b, prng_state := g\<rparr>, purge)"
    "card (bitmap_bits b) = 127 \<Longrightarrow> purge"
proof -
  have half: "unat (of_nat node_id_capacity div 2 :: u8) = 64" by (simp add: node_id_capacity_def)
  have pc: "popcount (b ! 0) + popcount (b ! 1) > of_nat node_id_capacity div 2"
    if "card (bitmap_bits b) = 127"
    using that unat_occupied_count(1) [OF assms(1)] half by (simp only: word_less_nat_alt)
  have zc: "cleared_count b = 1" if "card (bitmap_bits b) = 127"
    using that unat_cleared_count [OF assms(1)] by (intro word_unat_eq_iff [THEN iffD2]) simp
  show ?thesis
  proof (cases "popcount (b ! 0) + popcount (b ! 1) > of_nat node_id_capacity div 2")
    case True
    then show ?thesis
      using zc by (cases "chance (prng_state self) (ucast (cleared_count b))")
        (auto simp: marked_def canard_chance_def Let_def intro!: that dest: arg_cong [of _ _ fst])
  next
    case False
    with pc show ?thesis by (intro that [of "prng_state self" False]) (auto simp: marked_def Let_def)
  qed
qed

lemma occupancy_update_unfold:
  assumes "src \<noteq> node_id_anonymous" "bitmap_test (occupancy self) (unat src) = Inr seen"
    "\<not> (seen \<and> node_id self \<noteq> src)" "bitmap_set (occupancy self) (unat src) = Inr b"
    "marked self src b = (self', purge)"
  shows "node_id_occupancy_update self src =
    and_then (if node_id self' = src then node_id_move self' (cleared_count b) else Inr self') (\<lambda>self.
      if purge then and_then (bitmap_set (occupancy (node_id_occupancy_reset self)) (unat src))
                      (\<lambda>b. Inr ((node_id_occupancy_reset self)\<lparr>occupancy := b\<rparr>))
      else Inr self)"
proof -
  note m = assms(5) [unfolded marked_def Let_def]
  show ?thesis
    by (simp only: node_id_occupancy_update_def Let_def assms(1-4) if_False and_then.simps
        cleared_count_def [symmetric] m prod.case)
qed

text \<open>Forgetting the others keeps the identifier just seen.\<close>

lemma forget_spec:
  assumes "length (occupancy self) = 2" "unat src < 128"
  shows "\<exists>b. bitmap_set (occupancy (node_id_occupancy_reset self)) (unat src) = Inr b \<and> length b = 2 \<and>
    bitmap_bits b = {0, unat src}"
  using bitmap_set_bits [of "unat src" "[1, 0]"] assms by (auto simp: reset_occupied bitmap_bits_reset)

definition update_ignored :: "canard \<Rightarrow> u8 \<Rightarrow> bool" where
  "update_ignored self src \<longleftrightarrow> src = node_id_anonymous \<or> unat src \<in> occupied self \<and> node_id self \<noteq> src"

lemma occupancy_update_spec:
  assumes inv: "occupancy_inv self" and src: "src = node_id_anonymous \<or> unat src < 128"
  shows "\<exists>self'. node_id_occupancy_update self src = Inr self' \<and> occupancy_inv self' \<and>
    (update_ignored self src \<longrightarrow> self' = self) \<and>
    (\<not> update_ignored self src \<longrightarrow>
       (occupied self' = insert (unat src) (occupied self) \<or> occupied self' = {0, unat src}) \<and>
       (if node_id self = src
        then unat (node_id self') < 128 \<and> unat (node_id self') \<notin> insert (unat src) (occupied self) \<and>
             rx_filters_dirty self' \<and> err_collision self' = err_collision self + 1
        else node_id self' = node_id self))"
proof (cases "update_ignored self src")
  case True
  have "node_id_occupancy_update self src = Inr self"
  proof (cases "src = node_id_anonymous")
    case False
    with True src inv have "bitmap_test (occupancy self) (unat src) = Inr True" "node_id self \<noteq> src"
      by (auto simp: update_ignored_def occupancy_inv_def bitmap_test_iff occupied_def)
    then show ?thesis by (simp add: node_id_occupancy_update_def)
  qed (simp add: node_id_occupancy_update_def)
  with True inv show ?thesis by simp
next
  case False
  then have na: "src \<noteq> node_id_anonymous" and s128: "unat src < 128"
    and seen: "\<not> (unat src \<in> occupied self \<and> node_id self \<noteq> src)"
    using src by (auto simp: update_ignored_def)
  have len: "length (occupancy self) = 2" using inv by (simp add: occupancy_inv_def)
  then have t: "bitmap_test (occupancy self) (unat src) = Inr (unat src \<in> occupied self)"
    using s128 by (simp add: bitmap_test_iff occupied_def)
  obtain b where b: "bitmap_set (occupancy self) (unat src) = Inr b" "length b = 2"
    "bitmap_bits b = insert (unat src) (occupied self)"
    using bitmap_set_bits [of "unat src" "occupancy self"] s128 len by (auto simp: occupied_def)
  have c127: "card (bitmap_bits b) \<le> 127"
    using inv by (auto simp: b occupancy_inv_def occupied_def card_insert_if)
  obtain g purge where m: "marked self src b = (self\<lparr>occupancy := b, prng_state := g\<rparr>, purge)"
    "card (bitmap_bits b) = 127 \<Longrightarrow> purge"
    using marked_spec [OF b(2) c127, of self src] by metis
  let ?m = "self\<lparr>occupancy := b, prng_state := g\<rparr>"
  note e = occupancy_update_unfold [OF na t seen b(1) m(1)]
  have "\<exists>mid. (if node_id ?m = src then node_id_move ?m (cleared_count b) else Inr ?m) = Inr mid \<and>
      occupancy mid = b \<and> (if node_id self = src
        then unat (node_id mid) < 128 \<and> unat (node_id mid) \<notin> insert (unat src) (occupied self) \<and>
             rx_filters_dirty mid \<and> err_collision mid = err_collision self + 1
        else node_id mid = node_id self)"
    using node_id_move_spec [of ?m] b(2,3) c127 by (auto simp: occupied_def)
  then obtain mid where mid: "(if node_id ?m = src then node_id_move ?m (cleared_count b) else Inr ?m) = Inr mid"
      "occupancy mid = b" "if node_id self = src
        then unat (node_id mid) < 128 \<and> unat (node_id mid) \<notin> insert (unat src) (occupied self) \<and>
             rx_filters_dirty mid \<and> err_collision mid = err_collision self + 1
        else node_id mid = node_id self" by blast
  show ?thesis
  proof (cases purge)
    case True
    obtain b' where b': "bitmap_set (occupancy (node_id_occupancy_reset mid)) (unat src) = Inr b'" "length b' = 2"
        "bitmap_bits b' = {0, unat src}"
      using forget_spec [of mid src] mid(2) b(2) s128 by auto
    have "card {0, unat src} \<le> 2" by (simp add: card_insert_if)
    with True mid b' e False show ?thesis
      by (simp add: occupancy_inv_def occupied_def [of "_\<lparr>occupancy := _\<rparr>"] b) (auto simp: node_id_occupancy_reset_def)
  next
    case no: False
    with m(2) c127 have "card (bitmap_bits b) \<le> 126" by linarith
    moreover have "0 \<in> bitmap_bits b" using inv by (simp add: b occupancy_inv_def)
    ultimately show ?thesis using no mid e False b by (simp add: occupancy_inv_def occupied_def [of mid])
  qed
qed

end
