(* ===== verification/CanRxInv.thy ===== *)
theory CanRxInv
  imports CanNodeId CanReassembly CavlIndex
begin

text \<open>
  The invariant of reception: the indices of subscriptions and of sessions are sorted by their
  keys, every session belongs to the subscription in whose index it is and has its place in the
  list by activity, and the slots have buffers that fit.  Every frame keeps it, and no frame
  makes the code panic as long as the byte counters of the slots do not overflow.
\<close>

subsection \<open>The indices\<close>

definition node_before :: "canard \<Rightarrow> nat \<Rightarrow> nat \<Rightarrow> bool" where
  "node_before self a c \<longleftrightarrow> ses_node_id (rx_sessions self a) < ses_node_id (rx_sessions self c)"

definition port_before :: "canard \<Rightarrow> nat \<Rightarrow> nat \<Rightarrow> bool" where
  "port_before self a c \<longleftrightarrow> sub_port_id (rx_subs self a) < sub_port_id (rx_subs self c)"

interpretation by_node: ordered_index "node_before self" "rx_session_compare self"
  "\<lambda>s. ses_node_id (rx_sessions self s)" "\<lambda>a b. True" for self
  by unfold_locales (auto simp: node_before_def rx_session_compare_def word_less_def)

interpretation by_port: ordered_index "port_before self" "rx_subscription_compare self"
  "\<lambda>b. sub_port_id (rx_subs self b)" "\<lambda>a b. True" for self
  by unfold_locales (auto simp: port_before_def rx_subscription_compare_def word_less_def)

lemma rx_session_compare_0: "rx_session_compare self k s = 0 \<longleftrightarrow> ses_node_id (rx_sessions self s) = k"
proof -
  have "rx_session_compare self k s = 0 \<longleftrightarrow> unat k = unat (ses_node_id (rx_sessions self s))"
    unfolding rx_session_compare_def by linarith
  then show ?thesis by (auto simp: word_unat_eq_iff)
qed

lemma rx_subscription_compare_0: "rx_subscription_compare self k b = 0 \<longleftrightarrow> sub_port_id (rx_subs self b) = k"
proof -
  have "rx_subscription_compare self k b = 0 \<longleftrightarrow> unat k = unat (sub_port_id (rx_subs self b))"
    unfolding rx_subscription_compare_def by linarith
  then show ?thesis by (auto simp: word_unat_eq_iff)
qed

subsection \<open>Slots and sessions\<close>

definition slot_capacity :: "subscription \<Rightarrow> int" where
  "slot_capacity sub = (if kind_version (sub_kind sub) = 0 then sub_extent sub + int crc_bytes else sub_extent sub)"

text \<open>A slot with a first frame in it, and at least the given number of bytes before its counter overflows.\<close>

definition slot_ok :: "nat \<Rightarrow> subscription \<Rightarrow> rx_slot \<Rightarrow> bool" where
  "slot_ok room sub slot \<longleftrightarrow>
     int (length (sl_payload slot)) = slot_capacity sub \<and> sl_extent slot = length (sl_payload slot) \<and>
     crc_bytes \<le> unat (sl_total_size slot) \<and> unat (sl_total_size slot) + room < 2 ^ 32"

definition slots_ok :: "nat \<Rightarrow> subscription \<Rightarrow> rx_slot option list \<Rightarrow> bool" where
  "slots_ok room sub slots \<longleftrightarrow> length slots = prio_count \<and>
     (\<forall>e \<in> set slots. case e of None \<Rightarrow> True | Some slot \<Rightarrow> slot_ok room sub slot)"

definition members :: "canard \<Rightarrow> nat \<Rightarrow> nat set" where
  "members self b = set (inorder (sub_sessions (rx_subs self b)))"

definition registered :: "canard \<Rightarrow> kind \<Rightarrow> nat set" where
  "registered self k = set (inorder (rx_subscriptions self k))"

definition member_ok :: "nat \<Rightarrow> canard \<Rightarrow> nat \<Rightarrow> nat \<Rightarrow> bool" where
  "member_ok room self b s \<longleftrightarrow> ses_owner (rx_sessions self s) = b \<and> s < rx_session_fresh self \<and>
     s \<in> set (rx_sessions_by_animation self) \<and> slots_ok room (rx_subs self b) (ses_slots (rx_sessions self s))"

definition sub_ok :: "nat \<Rightarrow> canard \<Rightarrow> kind \<Rightarrow> nat \<Rightarrow> bool" where
  "sub_ok room self k b \<longleftrightarrow> sub_kind (rx_subs self b) = k \<and> 0 < sub_extent (rx_subs self b) \<and>
     sorted_wrt (node_before self) (inorder (sub_sessions (rx_subs self b))) \<and>
     (\<forall>s \<in> members self b. member_ok room self b s)"

definition rx_inv :: "nat \<Rightarrow> canard \<Rightarrow> bool" where
  "rx_inv room self \<longleftrightarrow>
     (\<forall>k. sorted_wrt (port_before self) (inorder (rx_subscriptions self k)) \<and>
          (\<forall>b \<in> registered self k. sub_ok room self k b)) \<and>
     distinct (rx_sessions_by_animation self) \<and>
     set (rx_sessions_by_animation self) = (\<Union>k. \<Union>b \<in> registered self k. members self b)"

lemma slot_ok_mono: "slot_ok room sub slot \<Longrightarrow> room' \<le> room \<Longrightarrow> slot_ok room' sub slot"
  by (auto simp: slot_ok_def)

lemma slots_ok_mono: "slots_ok room sub slots \<Longrightarrow> room' \<le> room \<Longrightarrow> slots_ok room' sub slots"
  by (auto simp: slots_ok_def intro: slot_ok_mono split: option.splits)

lemma member_ok_mono: "member_ok room self b s \<Longrightarrow> room' \<le> room \<Longrightarrow> member_ok room' self b s"
  unfolding member_ok_def by (meson slots_ok_mono)

lemma rx_inv_mono: "rx_inv room self \<Longrightarrow> room' \<le> room \<Longrightarrow> rx_inv room' self"
  unfolding rx_inv_def sub_ok_def by (meson member_ok_mono)

text \<open>The parts of the state that the invariant is about.\<close>

lemma rx_inv_cong:
  assumes "rx_subscriptions self' = rx_subscriptions self"
    "rx_sessions_by_animation self' = rx_sessions_by_animation self" "rx_subs self' = rx_subs self"
    "rx_sessions self' = rx_sessions self" "rx_session_fresh self' = rx_session_fresh self"
  shows "rx_inv room self' = rx_inv room self"
proof -
  have "port_before self' = port_before self" "node_before self' = node_before self"
    "members self' = members self" "registered self' = registered self"
    using assms by (simp_all add: fun_eq_iff port_before_def node_before_def members_def registered_def)
  with assms show ?thesis by (simp add: rx_inv_def sub_ok_def member_ok_def)
qed

text \<open>A session belongs to one subscription.\<close>

lemma rx_inv_member:
  assumes "rx_inv room self" "b \<in> registered self k" "s \<in> members self b"
  shows "member_ok room self b s" "sub_ok room self k b" "s \<in> set (rx_sessions_by_animation self)"
  using assms by (auto simp: rx_inv_def sub_ok_def member_ok_def)

subsection \<open>Replacing the contents of a session\<close>

lemma rx_inv_set_session:
  assumes inv: "rx_inv room self" and b: "b \<in> registered self k" "s \<in> members self b"
    and ses: "ses_owner ses = b" "ses_node_id ses = ses_node_id (rx_sessions self s)"
      "slots_ok room' (rx_subs self b) (ses_slots ses)" and le: "room' \<le> room"
  shows "rx_inv room' (set_session self s ses)"
proof -
  let ?n = "set_session self s ses"
  have same: "members ?n = members self" "registered ?n = registered self" "port_before ?n = port_before self"
    "node_before ?n = node_before self"
    using ses(2) by (auto simp: members_def registered_def port_before_def node_before_def fun_eq_iff set_session_def)
  have own: "b' = b" if "s \<in> members self b'" "b' \<in> registered self k'" for b' k'
    using rx_inv_member [OF inv that(2,1)] rx_inv_member [OF inv b] by (simp add: member_ok_def)
  have "member_ok room' ?n b' u" if "member_ok room self b' u" "u \<in> members self b'" "b' \<in> registered self k'" for b' u k'
    using that own [of b' k'] ses le slots_ok_mono by (auto simp: member_ok_def set_session_def)
  with inv show ?thesis
    unfolding rx_inv_def sub_ok_def same by (auto simp: set_session_def)
qed

lemma rx_inv_moved_to_tail:
  assumes "rx_inv room self" "s \<in> set (rx_sessions_by_animation self)"
  shows "rx_inv room (moved_to_tail self s)"
proof -
  let ?n = "moved_to_tail self s"
  have same: "members ?n = members self" "registered ?n = registered self" "port_before ?n = port_before self"
    "node_before ?n = node_before self" "rx_subs ?n = rx_subs self" "rx_sessions ?n = rx_sessions self"
    "rx_session_fresh ?n = rx_session_fresh self" "rx_subscriptions ?n = rx_subscriptions self"
    by (auto simp: members_def registered_def port_before_def node_before_def fun_eq_iff moved_to_tail_def)
  have d: "distinct (rx_sessions_by_animation self)" using assms by (simp add: rx_inv_def)
  have a: "set (rx_sessions_by_animation ?n) = set (rx_sessions_by_animation self)"
    "distinct (rx_sessions_by_animation ?n)"
    using d assms(2) by (auto simp: moved_to_tail_def)
  then have "member_ok room ?n = member_ok room self" by (simp add: fun_eq_iff member_ok_def same)
  with a assms(1) show ?thesis unfolding rx_inv_def sub_ok_def same by simp
qed

subsection \<open>Bytes into a slot\<close>

definition slot_growing :: "nat \<Rightarrow> subscription \<Rightarrow> rx_slot \<Rightarrow> nat \<Rightarrow> bool" where
  "slot_growing room sub slot n \<longleftrightarrow>
     int (length (sl_payload slot)) = slot_capacity sub \<and> sl_extent slot = length (sl_payload slot) \<and>
     crc_bytes \<le> unat (sl_total_size slot) + n \<and> unat (sl_total_size slot) + n + room < 2 ^ 32"

lemma slot_ok_growing: "slot_ok (room + n) sub slot \<Longrightarrow> slot_growing room sub slot n"
  by (auto simp: slot_ok_def slot_growing_def)

lemma rx_slot_advance_ok:
  assumes "slot_growing room sub slot (length payload)"
  shows "slot_ok room sub (rx_slot_advance slot payload\<lparr>sl_crc := c\<rparr>)"
proof -
  have at: "unat (sl_total_size slot) < sl_extent slot" if "sl_total_size slot < of_nat (sl_extent slot)"
  proof -
    have "unat (sl_total_size slot) < unat (of_nat (sl_extent slot) :: u32)"
      using that by (simp only: word_less_nat_alt)
    also have "\<dots> \<le> sl_extent slot" by (simp add: unat_of_nat)
    finally show ?thesis .
  qed
  have len: "length (sl_payload (rx_slot_advance slot payload)) = length (sl_payload slot)"
    using at assms by (auto simp: rx_slot_advance_def Let_def slot_growing_def)
  have tot: "unat (sl_total_size (rx_slot_advance slot payload)) = unat (sl_total_size slot) + length payload"
  proof -
    have "sl_total_size (rx_slot_advance slot payload) = of_nat (unat (sl_total_size slot) + length payload)"
      by (simp add: rx_slot_advance_def Let_def)
    moreover have "unat (sl_total_size slot) + length payload < 2 ^ 32" using assms by (simp add: slot_growing_def)
    ultimately show ?thesis by (simp only:) (rule unat_of_nat_small, simp)
  qed
  have ext: "sl_extent (rx_slot_advance slot payload) = sl_extent slot"
    by (simp add: rx_slot_advance_def Let_def)
  show ?thesis using assms by (simp add: slot_ok_def slot_growing_def len tot ext)
qed

lemma rx_slot_new_growing:
  assumes "0 < sub_extent sub" "crc_bytes \<le> n" "n + room < 2 ^ 32"
  shows "\<exists>slot. rx_slot_new sub ts tid iface = Inr slot \<and> slot_growing room sub slot n"
  using assms by (simp add: rx_slot_new_def Let_def slot_growing_def slot_capacity_def)

lemma rx_slot_verdict_total:
  assumes "slot_ok room sub slot" "0 < sub_extent sub"
  shows "\<exists>v. rx_slot_verdict sub slot = Inr v"
proof -
  let ?t = "int (unat (sl_total_size slot))" and ?l = "length (sl_payload slot)"
  have "2 \<le> unat (sl_total_size slot)" using assms(1) by (simp add: slot_ok_def crc_bytes_def)
  then have t: "2 \<le> ?t" by linarith
  have e: "sl_extent slot = ?l" and c: "int ?l = slot_capacity sub"
    using assms(1) by (simp_all add: slot_ok_def crc_bytes_def)
  have b: "\<exists>v. slot_bytes (sl_payload slot) lo hi = Inr v" if "0 \<le> lo" "lo \<le> hi" "hi \<le> int ?l" for lo hi
    using that by (simp add: slot_bytes_def)
  show ?thesis
  proof (cases "kind_version (sub_kind sub) = 1")
    case True
    with c assms(2) have "int ?l = sub_extent sub" by (simp add: slot_capacity_def)
    then have "\<exists>v. slot_bytes (sl_payload slot) 0 (smaller (?t - int crc_bytes) (int ?l)) = Inr v"
      "sl_payload slot \<noteq> []"
      using assms(2) t by (auto intro!: b simp: smaller_min crc_bytes_def)
    with True e show ?thesis by (auto simp: rx_slot_verdict_def Let_def)
  next
    case False
    then have "kind_version (sub_kind sub) = 0" using kind_version_cases by blast
    with c have l: "int ?l = sub_extent sub + 2" by (simp add: slot_capacity_def crc_bytes_def)
    then have "\<exists>v. slot_bytes (sl_payload slot) (int crc_bytes)
        (int crc_bytes + smaller (?t - int crc_bytes) (int ?l - int crc_bytes)) = Inr v"
      using assms(2) t by (intro b) (auto simp: smaller_min crc_bytes_def)
    moreover have "2 \<le> ?l" using l assms(2) by linarith
    moreover from this have "sl_payload slot \<noteq> []" by auto
    ultimately show ?thesis using False e by (auto simp: rx_slot_verdict_def Let_def)
  qed
qed

lemma slots_ok_update:
  "slots_ok room sub slots \<Longrightarrow> (case e of None \<Rightarrow> True | Some slot \<Rightarrow> slot_ok room sub slot) \<Longrightarrow>
     slots_ok room sub (slots[i := e])"
  by (auto simp: slots_ok_def dest!: set_update_subset_insert [THEN subsetD])

lemma slots_ok_put:
  "slots_ok room sub (ses_slots ses) \<Longrightarrow> (case e of None \<Rightarrow> True | Some slot \<Rightarrow> slot_ok room sub slot) \<Longrightarrow>
     slots_ok room sub (ses_slots (put_slot ses p e))"
  by (simp add: put_slot_def slots_ok_update)

subsection \<open>Accepting a frame\<close>

text \<open>What a frame may do to the state once its session is known.\<close>

definition touched :: "nat \<Rightarrow> canard \<Rightarrow> nat \<Rightarrow> nat \<Rightarrow> canard \<Rightarrow> bool" where
  "touched room self b s self' \<longleftrightarrow>
     (\<exists>ses ds e. self' = (set_session self s ses)\<lparr>rx_deliveries := ds, err_rx_transfer := e\<rparr> \<and>
        ses_owner ses = b \<and> ses_node_id ses = ses_node_id (rx_sessions self s) \<and>
        slots_ok room (rx_subs self b) (ses_slots ses))"

lemma put_slot_node_id [simp]: "ses_node_id (put_slot ses p v) = ses_node_id ses"
  by (simp add: put_slot_def)

lemma complete_slot_touched:
  assumes own: "ses_owner (rx_sessions self s) = b" and e: "0 < sub_extent (rx_subs self b)"
    and ok: "slots_ok room (rx_subs self b) (ses_slots (rx_sessions self s))" and p: "fr_priority fr < 8"
    and sl: "slot_at (rx_sessions self s) (fr_priority fr) = Inr (Some slot)"
  shows "\<exists>self'. rx_session_complete_slot self s fr = Inr self' \<and> touched room self b s self'"
proof -
  let ?ses = "rx_sessions self s"
  have "Some slot \<in> set (ses_slots ?ses)" using sl by (simp add: slot_at_def split: if_splits) (metis nth_mem)
  then have "slot_ok room (rx_subs self b) slot" using ok by (auto simp: slots_ok_def split: option.splits)
  from rx_slot_verdict_total [OF this e] obtain v where v: "rx_slot_verdict (rx_subs self b) slot = Inr v" ..
  have ok': "slots_ok room (rx_subs self b) (ses_slots (put_slot ?ses (fr_priority fr) None))"
    by (rule slots_ok_put [OF ok]) simp
  show ?thesis
  proof (cases v)
    case None
    let ?r = "(set_session self s (put_slot ?ses (fr_priority fr) None))\<lparr>err_rx_transfer := err_rx_transfer self + 1\<rparr>"
    have "rx_session_complete_slot self s fr = Inr ?r"
      using own sl v None by (simp add: rx_session_complete_slot_def Let_def set_session_def)
    moreover have "touched room self b s ?r"
      unfolding touched_def using own ok'
      by (intro exI [of _ "put_slot ?ses (fr_priority fr) None"] exI [of _ "rx_deliveries self"]
          exI [of _ "err_rx_transfer self + 1"]) (simp add: set_session_def)
    ultimately show ?thesis by blast
  next
    case (Some view)
    let ?r = "deliver (set_session self s (put_slot ?ses (fr_priority fr) None)) b (sl_start_ts slot) fr view"
    have "rx_session_complete_slot self s fr = Inr ?r"
      using own sl v Some by (simp add: rx_session_complete_slot_def Let_def)
    moreover have "touched room self b s ?r"
      unfolding touched_def using own ok'
      by (intro exI [of _ "put_slot ?ses (fr_priority fr) None"] exI [of _ "rx_deliveries ?r"]
          exI [of _ "err_rx_transfer self"]) (simp add: set_session_def deliver_def)
    ultimately show ?thesis by blast
  qed
qed

lemma touched_set_session:
  "touched room (set_session self s ses) b s self' \<Longrightarrow> ses_node_id ses = ses_node_id (rx_sessions self s) \<Longrightarrow>
     touched room self b s self'"
  by (auto simp: touched_def)

text \<open>A frame for a session whose slot of that priority is about to be empty or has room.\<close>

lemma accept_touched:
  assumes own: "ses_owner (rx_sessions self s) = b" and e: "0 < sub_extent (rx_subs self b)"
    and len: "length (ses_slots (rx_sessions self s)) = prio_count"
    and others: "slots_ok room (rx_subs self b) (ses_slots (put_slot (rx_sessions self s) (fr_priority fr) None))"
    and p: "fr_priority fr < 8"
    and sl: "slot_at (rx_sessions self s) (fr_priority fr) = Inr sl"
      "case sl of None \<Rightarrow> True | Some slot \<Rightarrow> slot_growing room (rx_subs self b) slot (length (fr_payload fr))
         \<and> (fr_start fr \<longrightarrow> crc_bytes \<le> length (fr_payload fr))"
  shows "\<exists>self'. rx_session_accept self s ts fr = Inr self' \<and> touched room self b s self'"
proof (cases sl)
  case None
  then have "ses_slots (put_slot (rx_sessions self s) (fr_priority fr) None) = ses_slots (rx_sessions self s)"
    using sl(1) by (simp add: put_slot_def slot_at_def split: if_splits) (metis list_update_id)
  with others own have "touched room self b s (rx_session_complete_single_frame self b ts fr)"
    unfolding touched_def
    by (intro exI [of _ "rx_sessions self s"] exI [of _ "rx_deliveries (rx_session_complete_single_frame self b ts fr)"]
        exI [of _ "err_rx_transfer self"])
      (simp add: rx_session_complete_single_frame_def deliver_def set_session_def)
  then show ?thesis using None sl own by (simp add: rx_session_accept_def Let_def)
next
  case (Some slot)
  let ?ses = "rx_sessions self s" and ?p = "fr_priority fr"
  let ?input = "if kind_version (sub_kind (rx_subs self b)) = 0 \<and> fr_start fr
     then drop crc_bytes (fr_payload fr) else fr_payload fr"
  let ?slot = "rx_slot_advance slot (fr_payload fr)"
  let ?new = "?slot\<lparr>sl_crc := crc_add (sl_crc ?slot) (length ?input) ?input\<rparr>"
  let ?self = "set_session self s (put_slot ?ses ?p (Some ?new))"
  have ok: "slot_ok room (rx_subs self b) ?new"
    using sl(2) Some by (intro rx_slot_advance_ok) simp
  have pl: "unat ?p < length (ses_slots ?ses)" using p len by (simp add: word_less_nat_alt prio_count_def)
  have acc: "rx_session_accept self s ts fr = (if fr_end fr then rx_session_complete_slot ?self s fr else Inr ?self)"
    using Some sl own by (auto simp: rx_session_accept_def Let_def)
  have ok': "slots_ok room (rx_subs self b) (ses_slots (put_slot ?ses ?p (Some ?new)))"
    using slots_ok_put [OF others, of "Some ?new" ?p] ok by simp
  show ?thesis
  proof (cases "fr_end fr")
    case False
    have "touched room self b s ?self" unfolding touched_def using own ok'
      by (intro exI [of _ "put_slot ?ses ?p (Some ?new)"] exI [of _ "rx_deliveries self"]
          exI [of _ "err_rx_transfer self"]) (simp add: set_session_def)
    with acc False show ?thesis by simp
  next
    case True
    have "\<exists>self'. rx_session_complete_slot ?self s fr = Inr self' \<and> touched room ?self b s self'"
      by (rule complete_slot_touched [where slot = ?new]) (use own e ok' p pl in simp_all)
    with acc True show ?thesis using touched_set_session [of room self s _ b] by auto
  qed
qed

subsection \<open>A frame and its session\<close>

lemma rx_inv_touched:
  assumes "rx_inv room self" "b \<in> registered self k" "s \<in> members self b" "touched room' self b s self'" "room' \<le> room"
  shows "rx_inv room' self'"
proof -
  obtain ses ds e where n: "self' = (set_session self s ses)\<lparr>rx_deliveries := ds, err_rx_transfer := e\<rparr>"
    and ses: "ses_owner ses = b" "ses_node_id ses = ses_node_id (rx_sessions self s)"
    "slots_ok room' (rx_subs self b) (ses_slots ses)" using assms(4) by (auto simp: touched_def)
  have "rx_inv room' (set_session self s ses)" by (rule rx_inv_set_session [OF assms(1-3) ses assms(5)])
  then show ?thesis using rx_inv_cong [of self' "set_session self s ses" room'] by (simp add: n)
qed

lemma live_slot_ok:
  "slots_ok room sub slots \<Longrightarrow> slots_ok room sub (map (live_slot d) slots)"
  by (auto simp: slots_ok_def live_slot_def split: option.splits)

lemma session_started_slots:
  assumes "slots_ok room sub (ses_slots (rx_sessions self s))"
  shows "slots_ok room sub (ses_slots (put_slot (session_started self s ts fr iface) (fr_priority fr) None))"
  using assms by (auto intro!: slots_ok_put slots_ok_update live_slot_ok
      simp: session_started_def Let_def rx_session_record_admission_def cleaned_def put_slot_def)

lemma members_moved [simp]: "members (moved_to_tail self s) = members self"
  "registered (moved_to_tail self s) = registered self"
  by (simp_all add: members_def registered_def fun_eq_iff moved_to_tail_def)

lemma step_start_inv:
  assumes inv: "rx_inv (room + n) self" and b: "b \<in> registered self k" "s \<in> members self b"
    and fr: "frame_valid fr" "fr_start fr" "length (fr_payload fr) \<le> n" and n: "n + room < 2 ^ 32"
    and adm: "rx_session_solve_admission (rx_subs self b) (rx_sessions self s) ts (fr_priority fr) True
       (fr_toggle fr) (fr_transfer_id fr) iface = Inr True"
  shows "\<exists>self'. rx_session_step self b s ts fr iface = Inr self' \<and> rx_inv room self'"
proof -
  note m = rx_inv_member [OF inv b]
  have own: "ses_owner (rx_sessions self s) = b" and slots: "slots_ok (room + n) (rx_subs self b) (ses_slots (rx_sessions self s))"
    using m by (auto simp: member_ok_def)
  have e: "0 < sub_extent (rx_subs self b)" using m by (simp add: sub_ok_def)
  have len: "length (ses_slots (rx_sessions self s)) = prio_count" using slots by (simp add: slots_ok_def)
  have p: "fr_priority fr < 8" using fr by (simp add: frame_valid_def)
  let ?new = "if fr_end fr then None else Some (slot_having (rx_subs self b) ts (fr_transfer_id fr) iface
                  (kind_version (sub_kind (rx_subs self b)) = 1) [] [])"
  let ?ses = "put_slot (session_started self s ts fr iface) (fr_priority fr) ?new"
  let ?self = "set_session (moved_to_tail self s) s ?ses"
  have eq: "rx_session_step self b s ts fr iface = rx_session_accept ?self s ts fr"
    by (rule rx_session_step_start [OF fr(2) own len p adm]) (use e in simp)
  have grow: "slot_growing room (rx_subs self b) slot (length (fr_payload fr)) \<and> crc_bytes \<le> length (fr_payload fr)"
    if "?new = Some slot" for slot
  proof -
    have "\<not> fr_end fr" using that by (auto split: if_splits)
    then have l: "crc_bytes \<le> length (fr_payload fr)" using fr(1) by (auto simp: frame_valid_def crc_bytes_def)
    have "\<exists>slot. rx_slot_new (rx_subs self b) ts (fr_transfer_id fr) iface = Inr slot \<and>
        slot_growing room (rx_subs self b) slot (length (fr_payload fr))"
      using fr(3) n by (intro rx_slot_new_growing [OF e l]) simp
    with that l e show ?thesis by (auto simp: rx_slot_new_having split: if_splits)
  qed
  have others: "slots_ok room (rx_subs self b) (ses_slots (put_slot (session_started self s ts fr iface) (fr_priority fr) None))"
    by (rule session_started_slots) (rule slots_ok_mono [OF slots], simp)
  have "\<exists>self'. rx_session_accept ?self s ts fr = Inr self' \<and> touched room ?self b s self'"
  proof (rule accept_touched [where sl = ?new])
    show "slot_at (rx_sessions ?self s) (fr_priority fr) = Inr ?new"
      using p len by (simp add: word_less_nat_alt prio_count_def)
    show "case ?new of None \<Rightarrow> True | Some slot \<Rightarrow> slot_growing room (rx_subs ?self b) slot (length (fr_payload fr))
        \<and> (fr_start fr \<longrightarrow> crc_bytes \<le> length (fr_payload fr))"
      using grow by (auto split: option.splits)
  qed (use own e len others p in simp_all)
  then obtain self' where acc: "rx_session_accept ?self s ts fr = Inr self'" and t: "touched room ?self b s self'" by blast
  have t': "touched room (moved_to_tail self s) b s self'" by (rule touched_set_session [OF t]) simp
  have "rx_inv room self'"
    by (rule rx_inv_touched [OF rx_inv_moved_to_tail [OF inv m(3)] _ _ t', of k]) (use b in simp_all)
  with eq acc show ?thesis by simp
qed

lemma step_continue_inv:
  assumes inv: "rx_inv (room + n) self" and b: "b \<in> registered self k" "s \<in> members self b"
    and fr: "frame_valid fr" "\<not> fr_start fr" "length (fr_payload fr) \<le> n"
    and adm: "rx_session_solve_admission (rx_subs self b) (rx_sessions self s) ts (fr_priority fr) False
       (fr_toggle fr) (fr_transfer_id fr) iface = Inr True"
  shows "\<exists>self'. rx_session_step self b s ts fr iface = Inr self' \<and> rx_inv room self'"
proof -
  note m = rx_inv_member [OF inv b]
  have own: "ses_owner (rx_sessions self s) = b" and slots: "slots_ok (room + n) (rx_subs self b) (ses_slots (rx_sessions self s))"
    using m by (auto simp: member_ok_def)
  have e: "0 < sub_extent (rx_subs self b)" using m by (simp add: sub_ok_def)
  obtain slot where sl: "slot_at (rx_sessions self s) (fr_priority fr) = Inr (Some slot)"
    using adm by (auto simp: rx_session_solve_admission_def and_then_Inr_iff split: option.splits)
  then have "Some slot \<in> set (ses_slots (rx_sessions self s))"
    by (simp add: slot_at_def split: if_splits) (metis nth_mem)
  then have "slot_ok (room + n) (rx_subs self b) slot" using slots by (auto simp: slots_ok_def split: option.splits)
  then have "slot_growing room (rx_subs self b) slot (length (fr_payload fr))"
    using fr(3) slot_ok_mono [of "room + n" _ _ "room + length (fr_payload fr)"] by (intro slot_ok_growing) simp
  moreover have "slots_ok room (rx_subs self b) (ses_slots (put_slot (rx_sessions self s) (fr_priority fr) None))"
    by (rule slots_ok_put [OF slots_ok_mono [OF slots]]) simp_all
  moreover have "length (ses_slots (rx_sessions self s)) = prio_count" using slots by (simp add: slots_ok_def)
  moreover have "fr_priority fr < 8" using fr by (simp add: frame_valid_def)
  ultimately obtain self' where "rx_session_accept self s ts fr = Inr self'" "touched room self b s self'"
    using accept_touched [OF own e _ _ _ sl, of room ts] fr(2) by auto
  moreover from rx_inv_touched [OF inv b this(2)] have "rx_inv room self'" by simp
  ultimately show ?thesis using fr(2) own adm by (auto simp: rx_session_step_def Let_def)
qed

lemma step_inv:
  assumes inv: "rx_inv (room + n) self" and b: "b \<in> registered self k" "s \<in> members self b"
    and fr: "frame_valid fr" "length (fr_payload fr) \<le> n" and n: "n + room < 2 ^ 32"
  shows "\<exists>self'. rx_session_step self b s ts fr iface = Inr self' \<and> rx_inv room self'"
proof -
  note m = rx_inv_member [OF inv b]
  have own: "ses_owner (rx_sessions self s) = b" and len: "length (ses_slots (rx_sessions self s)) = prio_count"
    using m by (auto simp: member_ok_def slots_ok_def)
  have "unat (fr_priority fr) < 8" using fr by (simp add: frame_valid_def word_less_nat_alt)
  then have "\<exists>admit. rx_session_solve_admission (rx_subs self b) (rx_sessions self s) ts (fr_priority fr)
      (fr_start fr) (fr_toggle fr) (fr_transfer_id fr) iface = Inr admit"
    using len by (simp add: rx_session_solve_admission_def slot_at_def prio_count_def Let_def)
  then obtain admit where adm: "rx_session_solve_admission (rx_subs self b) (rx_sessions self s) ts (fr_priority fr)
      (fr_start fr) (fr_toggle fr) (fr_transfer_id fr) iface = Inr admit" ..
  show ?thesis
  proof (cases admit)
    case False
    then have "rx_session_step self b s ts fr iface = Inr self" using adm own by (simp add: rx_session_step_def Let_def)
    moreover have "rx_inv room self" by (rule rx_inv_mono [OF inv]) simp
    ultimately show ?thesis by blast
  next
    case True
    show ?thesis
    proof (cases "fr_start fr")
      case s: True
      show ?thesis using adm True s by (intro step_start_inv [OF inv b fr(1) s fr(2) n]) simp
    next
      case s: False
      show ?thesis using adm True s by (intro step_continue_inv [OF inv b fr(1) s fr(2)]) simp
    qed
  qed
qed

subsection \<open>The session of a sender\<close>

text \<open>A new session in the index of its subscription.\<close>

definition with_session :: "canard \<Rightarrow> nat \<Rightarrow> u8 \<Rightarrow> u8 \<Rightarrow> nat cavl \<Rightarrow> canard" where
  "with_session self b iface nid t =
     set_sub (rx_session_factory self b iface nid) b ((rx_subs self b)\<lparr>sub_sessions := t\<rparr>)"

lemma with_session_sel:
  "rx_subscriptions (with_session self b iface nid t) = rx_subscriptions self"
  "rx_session_fresh (with_session self b iface nid t) = Suc (rx_session_fresh self)"
  "rx_subs (with_session self b iface nid t) = (rx_subs self)(b := (rx_subs self b)\<lparr>sub_sessions := t\<rparr>)"
  "rx_sessions_by_animation (with_session self b iface nid t) =
     remove1 (rx_session_fresh self) (rx_sessions_by_animation self) @ [rx_session_fresh self]"
  "rx_sessions (with_session self b iface nid t) =
     (rx_sessions self)(rx_session_fresh self :=
        \<lparr>ses_last_admission_ts = big_bang, ses_slots = replicate prio_count None, ses_owner = b,
         ses_node_id = nid, ses_last_transfer_id = 0, ses_last_priority = 0, ses_iface_index = iface\<rparr>)"
  by (simp_all add: with_session_def set_sub_def rx_session_factory_def Let_def)

lemma rx_inv_fresh:
  assumes "rx_inv room self"
  shows "rx_session_fresh self \<notin> set (rx_sessions_by_animation self)"
    and "b \<in> registered self k \<Longrightarrow> rx_session_fresh self \<notin> members self b"
  using assms by (auto simp: rx_inv_def sub_ok_def member_ok_def)

lemma slots_ok_replicate: "slots_ok room sub (replicate prio_count None)"
  by (simp add: slots_ok_def)

lemma slots_ok_sub_cong:
  "sub_kind sub' = sub_kind sub \<Longrightarrow> sub_extent sub' = sub_extent sub \<Longrightarrow> slots_ok room sub' = slots_ok room sub"
proof -
  assume "sub_kind sub' = sub_kind sub" "sub_extent sub' = sub_extent sub"
  then have "slot_ok room sub' = slot_ok room sub" by (simp add: fun_eq_iff slot_ok_def slot_capacity_def)
  then show "slots_ok room sub' = slots_ok room sub" unfolding slots_ok_def [abs_def] by (simp only:)
qed

lemma rx_inv_with_session:
  assumes inv: "rx_inv room self" and b: "b \<in> registered self k"
    and new: "\<forall>s \<in> members self b. ses_node_id (rx_sessions self s) \<noteq> nid"
    and t: "index_find_or_insert (rx_session_compare self nid) (rx_session_fresh self) (sub_sessions (rx_subs self b)) = (t, r)"
  shows "r = rx_session_fresh self \<and> rx_inv room (with_session self b iface nid t) \<and>
    members (with_session self b iface nid t) b = insert (rx_session_fresh self) (members self b) \<and>
    registered (with_session self b iface nid t) = registered self"
proof -
  let ?f = "rx_session_fresh self" and ?n = "with_session self b iface nid t"
  let ?old = "sub_sessions (rx_subs self b)"
  note fresh = rx_inv_fresh [OF inv]
  have reg: "registered ?n = registered self" by (simp add: registered_def fun_eq_iff with_session_sel)
  have port: "port_before ?n = port_before self" by (simp add: port_before_def fun_eq_iff with_session_sel)
  have nb: "sorted_wrt (node_before ?n) (inorder (sub_sessions (rx_subs self b')))" if "b' \<in> registered self k'" for b' k'
  proof (rule sorted_wrt_mono_rel [where P = "node_before self"])
    show "sorted_wrt (node_before self) (inorder (sub_sessions (rx_subs self b')))"
      using inv that by (auto simp: rx_inv_def sub_ok_def)
    show "node_before ?n x y" if "x \<in> set (inorder (sub_sessions (rx_subs self b')))"
      "y \<in> set (inorder (sub_sessions (rx_subs self b')))" "node_before self x y" for x y
      using that fresh(2) [OF \<open>b' \<in> registered self k'\<close>] by (auto simp: node_before_def with_session_sel members_def)
  qed
  have cong: "index_find_or_insert (rx_session_compare ?n nid) ?f ?old = (t, r)"
    unfolding t [symmetric]
    by (rule index_find_or_insert_cong) (use fresh(2) [OF b] in \<open>auto simp: rx_session_compare_def with_session_sel members_def\<close>)
  have key: "ses_node_id (rx_sessions ?n ?f) = nid" by (simp add: with_session_sel)
  have "\<forall>x \<in> set (inorder ?old). rx_session_compare ?n nid x \<noteq> 0"
    using new fresh(2) [OF b] by (auto simp: rx_session_compare_0 with_session_sel members_def)
  with by_node.insert_sorted [of ?n ?old ?f t r, unfolded key, OF nb [OF b]] cong
  have r: "r = ?f" and sorted: "sorted_wrt (node_before ?n) (inorder t)" and set: "set (inorder t) = insert ?f (set (inorder ?old))"
    by auto
  have mem: "members ?n b = insert ?f (members self b)" "b' \<noteq> b \<Longrightarrow> members ?n b' = members self b'" for b'
    using set by (simp_all add: members_def with_session_sel)
  have anim: "set (rx_sessions_by_animation ?n) = insert ?f (set (rx_sessions_by_animation self))"
    "distinct (rx_sessions_by_animation ?n)"
    using fresh(1) inv by (auto simp: with_session_sel remove1_idem rx_inv_def)
  have slots: "slots_ok room (rx_subs ?n b') = slots_ok room (rx_subs self b')" for b'
    by (rule slots_ok_sub_cong) (simp_all add: with_session_sel)
  have old: "member_ok room ?n b' s" if "member_ok room self b' s" for b' s
  proof -
    from that have "s \<noteq> ?f" by (auto simp: member_ok_def)
    with that anim show ?thesis unfolding member_ok_def slots by (auto simp: with_session_sel)
  qed
  have new_ok: "member_ok room ?n b ?f"
    using anim unfolding member_ok_def slots by (simp add: with_session_sel slots_ok_replicate)
  have "sub_ok room ?n k' b'" if "b' \<in> registered self k'" for k' b'
  proof -
    have ok: "sub_ok room self k' b'" using inv that by (simp add: rx_inv_def)
    show ?thesis
    proof (cases "b' = b")
      case True
      with ok sorted mem old new_ok show ?thesis by (auto simp: sub_ok_def with_session_sel)
    next
      case False
      with ok nb [OF that] mem(2) old show ?thesis by (auto simp: sub_ok_def with_session_sel)
    qed
  qed
  moreover have "(\<Union>k. \<Union>b \<in> registered self k. members ?n b) = insert ?f (\<Union>k. \<Union>b \<in> registered self k. members self b)"
  proof -
    have m: "members ?n b' = (if b' = b then insert ?f (members self b) else members self b')" for b'
      using mem by simp
    show ?thesis
    proof (rule set_eqI)
      fix x
      have "x \<in> (\<Union>k. \<Union>b' \<in> registered self k. if b' = b then insert ?f (members self b) else members self b') \<longleftrightarrow>
          (\<exists>k. \<exists>b' \<in> registered self k. b' = b \<and> x = ?f \<or> x \<in> members self b')" by auto
      also have "\<dots> \<longleftrightarrow> x = ?f \<or> (\<exists>k. \<exists>b' \<in> registered self k. x \<in> members self b')" using b by blast
      finally show "x \<in> (\<Union>k. \<Union>b' \<in> registered self k. members ?n b') \<longleftrightarrow>
          x \<in> insert ?f (\<Union>k. \<Union>b \<in> registered self k. members self b)" unfolding m by auto
    qed
  qed
  ultimately have "rx_inv room ?n"
    using inv anim unfolding rx_inv_def reg port by (simp add: with_session_sel)
  with r mem(1) reg show ?thesis by simp
qed

lemma set_sub_same [simp]: "set_sub self b (rx_subs self b) = self"
  by (simp add: set_sub_def)

lemma lookup_inv:
  assumes inv: "rx_inv room self" and b: "b \<in> registered self k"
  shows "\<exists>self' os. rx_session_lookup self b fr iface = (self', os) \<and> rx_inv room self' \<and>
    registered self' = registered self \<and> (\<forall>s. os = Some s \<longrightarrow> s \<in> members self' b)"
proof (cases "fr_start fr")
  case False
  have "rx_session_lookup self b fr iface =
      (self, index_find (rx_session_compare self (fr_src fr)) (sub_sessions (rx_subs self b)))"
    using False by (simp add: rx_session_lookup_def Let_def)
  with inv show ?thesis by (auto simp: members_def dest: index_find_elem)
next
  case start: True
  let ?t = "sub_sessions (rx_subs self b)" and ?cmp = "rx_session_compare self (fr_src fr)"
  show ?thesis
  proof (cases "\<exists>s \<in> members self b. ses_node_id (rx_sessions self s) = fr_src fr")
    case True
    then obtain s where s: "s \<in> members self b" "ses_node_id (rx_sessions self s) = fr_src fr" by blast
    have "sorted_wrt (node_before self) (inorder ?t)" using inv b by (auto simp: rx_inv_def sub_ok_def)
    from by_node.insert_hit [OF this] s have "index_find_or_insert ?cmp (rx_session_fresh self) ?t = (?t, s)"
      by (simp add: members_def rx_session_compare_0)
    moreover have "s \<noteq> rx_session_fresh self" using rx_inv_fresh(2) [OF inv b] s by auto
    ultimately have "rx_session_lookup self b fr iface = (self, Some s)"
      using start by (simp add: rx_session_lookup_def Let_def set_sub_same)
    with inv s show ?thesis by auto
  next
    case False
    obtain t r where t: "index_find_or_insert ?cmp (rx_session_fresh self) ?t = (t, r)" by fastforce
    from rx_inv_with_session [OF inv b _ t] False
    have w: "r = rx_session_fresh self" "rx_inv room (with_session self b iface (fr_src fr) t)"
      "members (with_session self b iface (fr_src fr) t) b = insert (rx_session_fresh self) (members self b)"
      "registered (with_session self b iface (fr_src fr) t) = registered self" by auto
    have "rx_session_lookup self b fr iface = (with_session self b iface (fr_src fr) t, Some (rx_session_fresh self))"
      using start t w(1) by (simp add: rx_session_lookup_def Let_def with_session_def)
    with w show ?thesis by auto
  qed
qed

lemma update_inv:
  assumes inv: "rx_inv (room + n) self" and b: "b \<in> registered self k"
    and fr: "frame_valid fr" "length (fr_payload fr) \<le> n" and n: "n + room < 2 ^ 32"
  shows "\<exists>self'. rx_session_update self b ts fr iface = Inr self' \<and> rx_inv room self'"
proof (cases "fr_src fr = node_id_anonymous")
  case True
  have "rx_inv room self" by (rule rx_inv_mono [OF inv]) simp
  then have "rx_inv room (rx_session_complete_single_frame self b ts fr)"
    using rx_inv_cong [of "rx_session_complete_single_frame self b ts fr" self room]
    by (simp add: rx_session_complete_single_frame_def deliver_def)
  with True show ?thesis by (simp add: rx_session_update_def)
next
  case False
  from lookup_inv [OF inv b, of fr iface] obtain self1 os where l: "rx_session_lookup self b fr iface = (self1, os)"
    "rx_inv (room + n) self1" "registered self1 = registered self" "\<forall>s. os = Some s \<longrightarrow> s \<in> members self1 b" by blast
  show ?thesis
  proof (cases os)
    case None
    have "rx_inv room self1" by (rule rx_inv_mono [OF l(2)]) simp
    with None False l show ?thesis by (simp add: rx_session_update_def)
  next
    case (Some s)
    have "\<exists>self'. rx_session_step self1 b s ts fr iface = Inr self' \<and> rx_inv room self'"
      by (rule step_inv [OF l(2) _ _ fr n, of b k]) (use b l Some in auto)
    with Some False l show ?thesis by (simp add: rx_session_update_def)
  qed
qed

subsection \<open>A frame and the instance\<close>

lemma rx_inv_rx_part:
  assumes "rx_subscriptions self' = rx_subscriptions self \<and> rx_sessions_by_animation self' = rx_sessions_by_animation self
     \<and> rx_subs self' = rx_subs self \<and> rx_sessions self' = rx_sessions self \<and> rx_session_fresh self' = rx_session_fresh self"
  shows "rx_inv room self' = rx_inv room self"
  using assms by (intro rx_inv_cong) simp_all

definition rx_store where
  "rx_store self = (rx_subscriptions self, rx_sessions_by_animation self, rx_subs self, rx_sessions self,
     rx_session_fresh self, rx_deliveries self, err_rx_frame self, err_rx_transfer self)"

lemma rx_store_purge [simp]: "rx_store (tx_purge_continuations self) = rx_store self"
  using rx_part_purge [of self] unfolding rx_part_def rx_store_def by (simp only: prod.inject)

lemma rx_store_update:
  "node_id_occupancy_update self src = Inr self' \<Longrightarrow> rx_store self' = rx_store self"
proof -
  have r: "rx_store (node_id_occupancy_reset c) = rx_store c" for c
    by (simp add: rx_store_def node_id_occupancy_reset_def)
  have dirty: "rx_store (x\<lparr>rx_filters_dirty := True, err_collision := e\<rparr>) = rx_store x" for x e
    by (simp add: rx_store_def)
  have renamed: "rx_store (x\<lparr>prng_state := g, node_id := d\<rparr>) = rx_store x" for x g d by (simp add: rx_store_def)
  have m_store: "rx_store c' = rx_store c" if "node_id_move c z = Inr c'" for c c' z
  proof -
    from that obtain g d where "c' = (tx_purge_continuations (c\<lparr>prng_state := g, node_id := d\<rparr>))
        \<lparr>rx_filters_dirty := True, err_collision := err_collision (tx_purge_continuations (c\<lparr>prng_state := g, node_id := d\<rparr>)) + 1\<rparr>"
      by (auto simp: node_id_move_def canard_random_def and_then_Inr_iff Let_def split: prod.splits)
    then show ?thesis by (simp add: dirty renamed)
  qed
  have o: "rx_store (c\<lparr>occupancy := b\<rparr>) = rx_store c" "rx_store (c\<lparr>prng_state := g\<rparr>) = rx_store c" for c b g
    by (simp_all add: rx_store_def)
  have after: "rx_store self' = rx_store c"
    if "(if purge then and_then (bitmap_set (occupancy (node_id_occupancy_reset c)) (unat src))
          (\<lambda>b. Inr ((node_id_occupancy_reset c)\<lparr>occupancy := b\<rparr>)) else Inr c) = Inr self'" for c purge
    using that by (auto elim!: and_then_case simp: o r split: if_splits)
  assume "node_id_occupancy_update self src = Inr self'"
  then show ?thesis
    unfolding node_id_occupancy_update_def
  proof (split if_split_asm, goal_cases)
    case 2
    from 2(2) obtain seen where "(if seen \<and> node_id self \<noteq> src then Inr self
        else and_then (bitmap_set (occupancy self) (unat src)) (\<lambda>b.
          let self = self\<lparr>occupancy := b\<rparr>; cap = of_nat node_id_capacity;
              pc = popcount (b ! 0) + popcount (b ! 1); zc = cap - pc;
              (self, purge) = (if pc > cap div 2 then canard_chance self (ucast zc) else (self, False))
          in and_then (if node_id self = src then node_id_move self zc else Inr self) (\<lambda>self.
               if purge
               then let self = node_id_occupancy_reset self in
                    and_then (bitmap_set (occupancy self) (unat src)) (\<lambda>b. Inr (self\<lparr>occupancy := b\<rparr>))
               else Inr self))) = Inr self'"
      by (rule and_then_case)
    then show ?case
    proof (split if_split_asm, goal_cases)
      case 2
      from 2(2) obtain b where b: "(let self = self\<lparr>occupancy := b\<rparr>; cap = of_nat node_id_capacity;
              pc = popcount (b ! 0) + popcount (b ! 1); zc = cap - pc;
              (self, purge) = (if pc > cap div 2 then canard_chance self (ucast zc) else (self, False))
          in and_then (if node_id self = src then node_id_move self zc else Inr self) (\<lambda>self.
               if purge
               then let self = node_id_occupancy_reset self in
                    and_then (bitmap_set (occupancy self) (unat src)) (\<lambda>b. Inr (self\<lparr>occupancy := b\<rparr>))
               else Inr self)) = Inr self'"
        by (rule and_then_case)
      obtain c purge where m: "marked self src b = (c, purge)" by fastforce
      then have c: "rx_store c = rx_store self"
        by (auto simp: marked_def canard_chance_def Let_def o split: if_splits prod.splits)
      from b m [unfolded marked_def Let_def]
      have "and_then (if node_id c = src then node_id_move c (cleared_count b) else Inr c) (\<lambda>c.
          if purge then and_then (bitmap_set (occupancy (node_id_occupancy_reset c)) (unat src))
            (\<lambda>b. Inr ((node_id_occupancy_reset c)\<lparr>occupancy := b\<rparr>)) else Inr c) = Inr self'"
        by (simp only: Let_def cleared_count_def [symmetric] prod.case)
      then show ?case
      proof (rule and_then_case)
        fix d
        assume d: "(if node_id c = src then node_id_move c (cleared_count b) else Inr c) = Inr d"
        then have "rx_store d = rx_store c" by (auto dest: m_store split: if_splits)
        moreover assume "(if purge then and_then (bitmap_set (occupancy (node_id_occupancy_reset d)) (unat src))
            (\<lambda>b. Inr ((node_id_occupancy_reset d)\<lparr>occupancy := b\<rparr>)) else Inr d) = Inr self'"
        ultimately show ?thesis using after c by simp
      qed
    qed simp
  qed simp
qed

lemma rx_inv_store: "rx_store self' = rx_store self \<Longrightarrow> rx_inv room self' = rx_inv room self"
  by (rule rx_inv_cong) (simp_all add: rx_store_def)

lemma registered_store: "rx_store self' = rx_store self \<Longrightarrow> registered self' = registered self"
  by (simp add: rx_store_def registered_def fun_eq_iff)

lemma route_registered: "rx_route self fr = Some b \<Longrightarrow> b \<in> registered self (fr_kind fr)"
  by (auto simp: rx_route_def rx_find_subscription_def registered_def dest: index_find_elem split: if_splits)

lemma complete_occupancy: "rx_session_complete_slot self s fr = Inr self' \<Longrightarrow> occupancy self' = occupancy self"
  by (auto simp: rx_session_complete_slot_def deliver_def set_session_def Let_def
      elim!: and_then_case split: option.splits)

lemma accept_occupancy: "rx_session_accept self s ts fr = Inr self' \<Longrightarrow> occupancy self' = occupancy self"
  by (auto simp: rx_session_accept_def rx_session_complete_single_frame_def deliver_def set_session_def Let_def
      elim!: and_then_case dest!: complete_occupancy split: option.splits if_split_asm)

lemma step_occupancy: "rx_session_step self b s ts fr iface = Inr self' \<Longrightarrow> occupancy self' = occupancy self"
  by (auto simp: rx_session_step_def rx_session_cleanup_def set_session_def Let_def
      elim!: and_then_case dest!: accept_occupancy split: if_split_asm prod.splits)

lemma update_occupancy: "rx_session_update self b ts fr iface = Inr self' \<Longrightarrow> occupancy self' = occupancy self"
  by (auto simp: rx_session_update_def rx_session_lookup_def rx_session_complete_single_frame_def deliver_def
      rx_session_factory_def set_sub_def Let_def dest!: step_occupancy split: if_splits prod.splits option.splits)

lemma rx_parsed_valid:
  assumes "i \<le> can_ext_id_mask" and "rx_parse i raw = (m, v0, v1)"
  shows "(m AND 1 \<noteq> 0 \<longrightarrow> frame_valid v0 \<and> length (fr_payload v0) \<le> length raw) \<and>
    (m AND 2 \<noteq> 0 \<longrightarrow> frame_valid v1 \<and> length (fr_payload v1) \<le> length raw)"
proof -
  have "m AND 1 \<noteq> 0 \<Longrightarrow> parsed_v0 i raw = Some v0" "m AND 2 \<noteq> 0 \<Longrightarrow> parsed_v1 i raw = Some v1"
    using assms(2) by (simp_all add: parsed_v0_def parsed_v1_def)
  with parsed_frame_valid [OF assms(1), of raw] show ?thesis by auto
qed

lemma ingest_parsed_inv:
  assumes inv: "rx_inv (room + 64) self" and occ: "occupancy_inv self"
    and fr: "frame_valid fr" "length (fr_payload fr) \<le> 64" and n: "64 + room < 2 ^ 32"
  shows "\<exists>self'. ingest_parsed self ts iface fr = Inr self' \<and> rx_inv room self' \<and> occupancy_inv self'"
proof -
  have src: "fr_src fr = node_id_anonymous \<or> unat (fr_src fr) < 128"
    using fr(1) by (auto simp: frame_valid_def word_le_nat_alt)
  have "\<exists>mid. (if fr_start fr then node_id_occupancy_update self (fr_src fr) else Inr self) = Inr mid \<and>
      occupancy_inv mid \<and> rx_store mid = rx_store self"
  proof (cases "fr_start fr")
    case True
    from occupancy_update_spec [OF occ src] obtain mid
      where "node_id_occupancy_update self (fr_src fr) = Inr mid" "occupancy_inv mid" by blast
    with True rx_store_update [OF this(1)] show ?thesis by simp
  qed (use occ in simp)
  then obtain mid where mid: "(if fr_start fr then node_id_occupancy_update self (fr_src fr) else Inr self) = Inr mid"
    "occupancy_inv mid" "rx_store mid = rx_store self" by blast
  have inv': "rx_inv (room + 64) mid" using inv rx_inv_store [OF mid(3)] by simp
  show ?thesis
  proof (cases "rx_route mid fr")
    case None
    have "rx_inv room mid" by (rule rx_inv_mono [OF inv']) simp
    with None mid show ?thesis by (simp add: ingest_parsed_def)
  next
    case (Some b)
    from update_inv [OF inv' route_registered [OF Some] fr n, of ts iface] obtain self'
      where u: "rx_session_update mid b ts fr iface = Inr self'" "rx_inv room self'" by blast
    have "occupancy self' = occupancy mid" by (rule update_occupancy [OF u(1)])
    with mid Some u show ?thesis by (simp add: ingest_parsed_def occupancy_inv_def occupied_def)
  qed
qed

lemma ingest_frame_inv:
  assumes inv: "rx_inv (room + 128) self" and occ: "occupancy_inv self" and d: "length data \<le> 64"
    and n: "128 + room < 2 ^ 32"
  shows "\<exists>self'. ingest_frame self ts iface can_id data =
      Inr (self', ts \<ge> 0 \<and> unat iface < iface_count \<and> can_id \<le> can_ext_id_mask) \<and>
    rx_inv room self' \<and> occupancy_inv self'"
proof (cases "ts \<ge> 0 \<and> unat iface < iface_count \<and> can_id \<le> can_ext_id_mask")
  case False
  have "rx_inv room self" by (rule rx_inv_mono [OF inv]) simp
  with False occ show ?thesis by (auto simp: ingest_frame_def Let_def)
next
  case True
  obtain mask v0 v1 where m: "rx_parse can_id data = (mask, v0, v1)" by (metis prod_cases3)
  have valid: "mask AND 1 \<noteq> 0 \<Longrightarrow> frame_valid v0 \<and> length (fr_payload v0) \<le> 64"
    "mask AND 2 \<noteq> 0 \<Longrightarrow> frame_valid v1 \<and> length (fr_payload v1) \<le> 64"
    using rx_parsed_valid [OF _ m] True d by auto
  let ?self = "if mask = 0 then self\<lparr>err_rx_frame := err_rx_frame self + 1\<rparr> else self"
  have a: "rx_inv (room + 64 + 64) ?self" "occupancy_inv ?self"
  proof -
    have "rx_inv (room + 128) (self\<lparr>err_rx_frame := err_rx_frame self + 1\<rparr>)"
      using inv by (subst rx_inv_cong [where self = self]) simp_all
    moreover have "room + 64 + 64 = room + 128" by simp
    ultimately show "rx_inv (room + 64 + 64) ?self" using inv by (simp only: split: if_split) simp
    show "occupancy_inv ?self" using occ by (simp add: occupancy_inv_def occupied_def)
  qed
  have "\<exists>s. (if mask AND 1 \<noteq> 0 then ingest_parsed ?self ts iface v0 else Inr ?self) = Inr s \<and>
      rx_inv (room + 64) s \<and> occupancy_inv s"
  proof (cases "mask AND 1 \<noteq> 0")
    case True
    then show ?thesis using ingest_parsed_inv [OF a, of v0 ts iface] valid(1) n by simp
  next
    case False
    then show ?thesis using a rx_inv_mono [OF a(1), of "room + 64"] by simp
  qed
  then obtain s where s: "(if mask AND 1 \<noteq> 0 then ingest_parsed ?self ts iface v0 else Inr ?self) = Inr s"
    "rx_inv (room + 64) s" "occupancy_inv s" by blast
  have "\<exists>s'. (if mask AND 2 \<noteq> 0 then ingest_parsed s ts iface v1 else Inr s) = Inr s' \<and>
      rx_inv room s' \<and> occupancy_inv s'"
  proof (cases "mask AND 2 \<noteq> 0")
    case True
    then show ?thesis using ingest_parsed_inv [OF s(2,3), of v1 ts iface] valid(2) n by simp
  next
    case False
    then show ?thesis using s rx_inv_mono [OF s(2), of room] by simp
  qed
  then obtain s' where "(if mask AND 2 \<noteq> 0 then ingest_parsed s ts iface v1 else Inr s) = Inr s'"
    "rx_inv room s'" "occupancy_inv s'" by blast
  with s(1) True m show ?thesis by (simp only: ingest_frame_def Let_def prod.case if_True and_then.simps) simp
qed

subsection \<open>Many frames\<close>

text \<open>A run of received frames: time, interface, identifier and data of each.\<close>

fun ingest_frames :: "canard \<Rightarrow> (int \<times> u8 \<times> u32 \<times> bytes) list \<Rightarrow> go_panic + canard" where
  "ingest_frames self [] = Inr self"
| "ingest_frames self ((ts, iface, can_id, data) # fs) =
     and_then (ingest_frame self ts iface can_id data) (\<lambda>(self, ok). ingest_frames self fs)"

lemma ingest_frames_inv:
  "rx_inv (room + 128 * length fs) self \<Longrightarrow> occupancy_inv self \<Longrightarrow> room + 128 * length fs < 2 ^ 32 \<Longrightarrow>
   (\<forall>(ts, iface, can_id, data) \<in> set fs. length data \<le> 64) \<Longrightarrow>
   \<exists>self'. ingest_frames self fs = Inr self' \<and> rx_inv room self' \<and> occupancy_inv self'"
proof (induction fs arbitrary: self)
  case (Cons f fs)
  obtain ts iface can_id data where f: "f = (ts, iface, can_id, data)" by (metis prod_cases4)
  have inv: "rx_inv (room + 128 * length fs + 128) self" using Cons.prems(1) by (simp add: algebra_simps)
  have len: "length data \<le> 64" using Cons.prems(4) by (simp add: f)
  have n: "128 + (room + 128 * length fs) < 2 ^ 32" using Cons.prems(3) by simp
  from ingest_frame_inv [OF inv Cons.prems(2) len n, of ts iface can_id] obtain mid ok
    where mid: "ingest_frame self ts iface can_id data = Inr (mid, ok)"
      "rx_inv (room + 128 * length fs) mid" "occupancy_inv mid" by blast
  have "\<exists>self'. ingest_frames mid fs = Inr self' \<and> rx_inv room self' \<and> occupancy_inv self'"
    by (rule Cons.IH [OF mid(2,3)]) (use Cons.prems in auto)
  with mid(1) show ?case by (simp add: f)
qed simp

subsection \<open>Subscriptions\<close>

definition unregistered :: "canard \<Rightarrow> nat \<Rightarrow> bool" where
  "unregistered self b \<longleftrightarrow> (\<forall>k. b \<notin> registered self k)"

lemma rx_subscribe_inv:
  assumes inv: "rx_inv room self" and un: "unregistered self b" and e: "0 < extent"
    and r: "rx_subscribe self b k port seed extent timeout vtable_ok = (self', r)"
  shows "rx_inv room self' \<and>
    (\<forall>k'. k' \<noteq> k \<longrightarrow> registered self' k' = registered self k') \<and>
    (vtable_ok \<and> timeout \<ge> 0 \<longrightarrow>
      (case r of None \<Rightarrow> False
       | Some c \<Rightarrow> c \<in> registered self' k \<and> sub_port_id (rx_subs self' c) = port \<and>
           registered self' k = insert c (registered self k) \<and> (c \<noteq> b \<longrightarrow> c \<in> registered self k)))"
proof (cases "vtable_ok \<and> timeout \<ge> 0")
  case False
  with r inv show ?thesis by (auto simp: rx_subscribe_def)
next
  case True
  let ?sub = "\<lparr>sub_transfer_id_timeout = timeout, sub_extent = extent,
                        sub_port_id = port, sub_crc_seed = seed, sub_kind = k, sub_sessions = CLeaf\<rparr>"
  let ?m = "set_sub self b ?sub" and ?t = "rx_subscriptions self k"
  obtain t c where t: "index_find_or_insert (rx_subscription_compare ?m port) b ?t = (t, c)" by fastforce
  have nb: "b \<notin> registered self k'" for k' using un by (simp add: unregistered_def)
  have self': "self' = ?m\<lparr>rx_subscriptions := (rx_subscriptions self)(k := t),
      rx_filters_dirty := rx_filters_dirty self \<or> c = b\<rparr>" and rc: "r = Some c"
    using r True t by (auto simp: rx_subscribe_def Let_def set_sub_def)
  have subs: "rx_subs self' = (rx_subs self)(b := ?sub)" by (simp add: self' set_sub_def)
  have sorted: "sorted_wrt (port_before ?m) (inorder (rx_subscriptions self k'))" for k'
  proof (rule sorted_wrt_mono_rel [where P = "port_before self"])
    show "sorted_wrt (port_before self) (inorder (rx_subscriptions self k'))" using inv by (simp add: rx_inv_def)
    show "port_before ?m x y" if "x \<in> set (inorder (rx_subscriptions self k'))"
      "y \<in> set (inorder (rx_subscriptions self k'))" "port_before self x y" for x y
      using that nb [of k'] by (auto simp: port_before_def set_sub_def registered_def)
  qed
  have pb: "port_before self' = port_before ?m" by (simp add: port_before_def fun_eq_iff self')
  have key: "sub_port_id (rx_subs ?m b) = port" by (simp add: set_sub_def)
  have hit: "sorted_wrt (port_before ?m) (inorder t) \<and> set (inorder t) = insert c (registered self k) \<and>
      sub_port_id (rx_subs ?m c) = port \<and> (c \<noteq> b \<longrightarrow> c \<in> registered self k)"
  proof (cases "\<exists>x \<in> registered self k. sub_port_id (rx_subs self x) = port")
    case True
    then obtain x where x: "x \<in> registered self k" "sub_port_id (rx_subs self x) = port" by blast
    then have x0: "rx_subscription_compare ?m port x = 0"
      using nb by (auto simp: rx_subscription_compare_0 set_sub_def)
    have "index_find_or_insert (rx_subscription_compare ?m port) b ?t = (?t, x)"
      by (rule by_port.insert_hit [OF sorted _ x0]) (use x in \<open>simp add: registered_def\<close>)
    with t x x0 sorted show ?thesis by (auto simp: registered_def rx_subscription_compare_0)
  next
    case False
    then have "\<forall>x \<in> set (inorder ?t). rx_subscription_compare ?m port x \<noteq> 0"
      using nb [of k] by (auto simp: rx_subscription_compare_0 set_sub_def registered_def)
    with by_port.insert_sorted [of ?m ?t b t c, unfolded key, OF sorted] t key
    show ?thesis by (auto simp: registered_def)
  qed
  have reg: "registered self' k' = (if k' = k then insert c (registered self k) else registered self k')" for k'
    using hit by (simp add: registered_def self')
  have mem: "members self' b' = (if b' = b then {} else members self b')" for b'
    by (simp add: members_def subs)
  have nbf: "node_before self' = node_before self" by (simp add: node_before_def fun_eq_iff self' set_sub_def)
  have sub_old: "sub_ok room self' k' b'" if "b' \<in> registered self k'" for k' b'
  proof -
    have "b' \<noteq> b" using that nb by auto
    moreover have "sub_ok room self k' b'" using inv that by (simp add: rx_inv_def)
    ultimately show ?thesis unfolding sub_ok_def member_ok_def nbf mem by (simp add: subs) (simp add: self' set_sub_def)
  qed
  have sub_new: "sub_ok room self' k b" unfolding sub_ok_def mem using e by (simp add: subs)
  have ok: "sub_ok room self' k' b'" if "b' \<in> registered self' k'" for k' b'
    using that sub_old sub_new hit unfolding reg by (auto split: if_splits)
  have anim: "(\<Union>k. \<Union>b \<in> registered self' k. members self' b) = (\<Union>k. \<Union>b \<in> registered self k. members self b)"
  proof (rule set_eqI)
    fix x
    have "x \<in> (\<Union>k. \<Union>b \<in> registered self' k. members self' b) \<longleftrightarrow>
        (\<exists>k'. \<exists>b' \<in> registered self' k'. b' \<noteq> b \<and> x \<in> members self b')" by (auto simp: mem)
    also have "\<dots> \<longleftrightarrow> (\<exists>k'. \<exists>b' \<in> registered self k'. x \<in> members self b')"
      using hit nb unfolding reg by (auto split: if_splits) metis+
    finally show "x \<in> (\<Union>k. \<Union>b \<in> registered self' k. members self' b) \<longleftrightarrow>
        x \<in> (\<Union>k. \<Union>b \<in> registered self k. members self b)" by auto
  qed
  have "rx_inv room self'"
    using inv hit sorted ok anim unfolding rx_inv_def pb by (auto simp: self' set_sub_def)
  then show ?thesis using hit reg True rc by (auto simp: self')
qed

end
