(* ===== verification/CanNodeSpec.thy ===== *)
theory CanNodeSpec
  imports CanRxInv
begin

text \<open>
  What a node promises: ingestion never panics, subscriptions are found and removed, the poll
  keeps the invariants of both sides, and a collision of node-IDs is resolved.
\<close>

subsection \<open>Removing a subscription\<close>

lemma rx_session_destroy_sel:
  assumes "ses_owner (rx_sessions self s) = b"
  shows "rx_subs (rx_session_destroy self s) =
      (rx_subs self)(b := (rx_subs self b)\<lparr>sub_sessions := index_remove s (sub_sessions (rx_subs self b))\<rparr>)"
    "rx_sessions (rx_session_destroy self s) = rx_sessions self"
    "rx_subscriptions (rx_session_destroy self s) = rx_subscriptions self"
    "rx_session_fresh (rx_session_destroy self s) = rx_session_fresh self"
    "rx_sessions_by_animation (rx_session_destroy self s) = remove1 s (rx_sessions_by_animation self)"
  using assms by (simp_all add: rx_session_destroy_def Let_def set_sub_def)

lemma destroy_inv:
  assumes inv: "rx_inv room self" and b: "b \<in> registered self k" "s \<in> members self b"
  shows "rx_inv room (rx_session_destroy self s)"
    and "members (rx_session_destroy self s) = (members self)(b := members self b - {s})"
    and "registered (rx_session_destroy self s) = registered self"
    and "length (inorder (sub_sessions (rx_subs (rx_session_destroy self s) b)))
         < length (inorder (sub_sessions (rx_subs self b)))"
proof -
  let ?n = "rx_session_destroy self s" and ?t = "sub_sessions (rx_subs self b)"
  note m = rx_inv_member [OF inv b]
  have own: "ses_owner (rx_sessions self s) = b" using m by (simp add: member_ok_def)
  note sel = rx_session_destroy_sel [OF own]
  have sorted: "sorted_wrt (node_before self) (inorder ?t)" using m by (simp add: sub_ok_def)
  note rem = by_node.remove_sorted [OF sorted, of s]
  show mem: "members ?n = (members self)(b := members self b - {s})"
    using rem(3) by (auto simp: members_def sel fun_eq_iff)
  show reg: "registered ?n = registered self" by (simp add: registered_def fun_eq_iff sel)
  show "length (inorder (sub_sessions (rx_subs ?n b))) < length (inorder ?t)"
    using b(2) index_remove_length [of s ?t] by (simp add: sel members_def)
  have same: "port_before ?n = port_before self" "node_before ?n = node_before self"
    by (auto simp: port_before_def node_before_def fun_eq_iff sel)
  have only: "b' = b" if "s \<in> members self b'" "b' \<in> registered self k'" for b' k'
    using rx_inv_member(1) [OF inv that(2,1)] own by (simp add: member_ok_def)
  have slots: "slots_ok room (rx_subs ?n b') = slots_ok room (rx_subs self b')" for b'
    by (rule slots_ok_sub_cong) (simp_all add: sel)
  have d: "distinct (rx_sessions_by_animation self)" using inv by (simp add: rx_inv_def)
  have old: "member_ok room ?n b' u" if "member_ok room self b' u" "u \<noteq> s" for b' u
    using that d unfolding member_ok_def slots by (simp add: sel)
  have ok: "sub_ok room ?n k' b'" if "b' \<in> registered self k'" for k' b'
  proof -
    have o: "sub_ok room self k' b'" using inv that by (simp add: rx_inv_def)
    then have "member_ok room ?n b' u" if "u \<in> members ?n b'" for u
      using that only [OF _ \<open>b' \<in> registered self k'\<close>] old by (auto simp: mem sub_ok_def split: if_splits)
    with o rem(2) show ?thesis unfolding sub_ok_def same by (auto simp: sel)
  qed
  have "(\<Union>k. \<Union>b' \<in> registered self k. members ?n b') = (\<Union>k. \<Union>b' \<in> registered self k. members self b') - {s}"
    using only by (fastforce simp: mem split: if_splits)
  then show "rx_inv room ?n"
    using inv ok d unfolding rx_inv_def reg same by (simp add: sel)
qed

lemma unsubscribe_loop_spec:
  "rx_inv room self \<Longrightarrow> b \<in> registered self k \<Longrightarrow>
   \<exists>self'. unsubscribe_loop self b = Some self' \<and> rx_inv room self' \<and> registered self' = registered self \<and>
     members self' = (members self)(b := {}) \<and> rx_subscriptions self' = rx_subscriptions self \<and>
     sub_kind (rx_subs self' b) = sub_kind (rx_subs self b)"
proof (induction "length (inorder (sub_sessions (rx_subs self b)))" arbitrary: self rule: less_induct)
  case less
  show ?case
  proof (cases "index_min (sub_sessions (rx_subs self b))")
    case None
    then have "members self b = {}" by (auto simp: index_min_hd members_def split: list.splits)
    then have "members self = (members self)(b := {})" by (simp add: fun_upd_idem)
    with None less.prems show ?thesis by (subst unsubscribe_loop.simps) auto
  next
    case (Some s)
    then have s: "s \<in> members self b" by (auto simp: index_min_hd members_def split: list.splits)
    note d = destroy_inv [OF less.prems s]
    have own: "ses_owner (rx_sessions self s) = b" using rx_inv_member [OF less.prems s] by (simp add: member_ok_def)
    have "b \<in> registered (rx_session_destroy self s) k" using less.prems(2) d(3) by simp
    from less.hyps [OF d(4,1) this] obtain self' where
      "unsubscribe_loop (rx_session_destroy self s) b = Some self'" "rx_inv room self'" "registered self' = registered self"
      "members self' = (members self)(b := {})" "rx_subscriptions self' = rx_subscriptions self"
      "sub_kind (rx_subs self' b) = sub_kind (rx_subs self b)"
      using d rx_session_destroy_sel [OF own] by auto
    with Some show ?thesis by (subst unsubscribe_loop.simps) simp
  qed
qed

lemma unregister_inv:
  assumes inv: "rx_inv room self" and b: "b \<in> registered self k" "members self b = {}"
    and n: "self' = self\<lparr>rx_subscriptions := (rx_subscriptions self)(k := index_remove b (rx_subscriptions self k)),
                        rx_filters_dirty := True\<rparr>"
  shows "rx_inv room self' \<and> registered self' = (registered self)(k := registered self k - {b})"
proof -
  have sorted: "sorted_wrt (port_before self) (inorder (rx_subscriptions self k'))" for k'
    using inv by (simp add: rx_inv_def)
  note rem = by_port.remove_sorted [OF sorted, of b k]
  have reg: "registered self' = (registered self)(k := registered self k - {b})"
    using rem(3) by (auto simp: registered_def n fun_eq_iff)
  have same: "port_before self' = port_before self" "node_before self' = node_before self" "members self' = members self"
    by (auto simp: port_before_def node_before_def members_def fun_eq_iff n)
  have "sub_ok room self' k' b'" if "b' \<in> registered self k'" for k' b'
  proof -
    have "member_ok room self' = member_ok room self" by (simp add: fun_eq_iff member_ok_def n)
    moreover have "sub_ok room self k' b'" using inv that by (simp add: rx_inv_def)
    ultimately show ?thesis unfolding sub_ok_def same by (simp add: n)
  qed
  moreover have "(\<Union>k. \<Union>b' \<in> registered self' k. members self b') = (\<Union>k. \<Union>b' \<in> registered self k. members self b')"
  proof (rule set_eqI)
    fix x
    have "x \<in> (\<Union>k. \<Union>b' \<in> registered self' k. members self b') \<longleftrightarrow>
        (\<exists>k'. \<exists>b' \<in> registered self k'. (k' = k \<longrightarrow> b' \<noteq> b) \<and> x \<in> members self b')" by (fastforce simp: reg split: if_splits)
    also have "\<dots> \<longleftrightarrow> (\<exists>k'. \<exists>b' \<in> registered self k'. x \<in> members self b')" by (metis b(2) empty_iff)
    finally show "x \<in> (\<Union>k. \<Union>b' \<in> registered self' k. members self b') \<longleftrightarrow>
        x \<in> (\<Union>k. \<Union>b' \<in> registered self k. members self b')" by auto
  qed
  ultimately have "rx_inv room self'"
    using inv rem(2) sorted reg unfolding rx_inv_def same by (auto simp: n split: if_splits)
  with reg show ?thesis by simp
qed

lemma unsubscribe_spec:
  assumes inv: "rx_inv room self" and b: "b \<in> registered self k"
  shows "\<exists>self'. unsubscribe self b = Some self' \<and> rx_inv room self' \<and>
    registered self' = (registered self)(k := registered self k - {b}) \<and>
    members self' = (members self)(b := {}) \<and> rx_filters_dirty self'"
proof -
  from unsubscribe_loop_spec [OF inv b] obtain mid where m: "unsubscribe_loop self b = Some mid" "rx_inv room mid"
    "registered mid = registered self" "members mid = (members self)(b := {})"
    "sub_kind (rx_subs mid b) = sub_kind (rx_subs self b)" by blast
  have k: "sub_kind (rx_subs mid b) = k" using inv b m(5) by (auto simp: rx_inv_def sub_ok_def)
  let ?n = "mid\<lparr>rx_subscriptions := (rx_subscriptions mid)(k := index_remove b (rx_subscriptions mid k)),
                        rx_filters_dirty := True\<rparr>"
  have "unsubscribe self b = Some ?n" using m(1) k by (simp add: unsubscribe_def Let_def)
  moreover have "rx_inv room ?n \<and> registered ?n = (registered mid)(k := registered mid k - {b})"
    by (rule unregister_inv [OF m(2) _ _ refl]) (use b m in simp_all)
  moreover have "members ?n = members mid" by (simp add: members_def fun_eq_iff)
  ultimately show ?thesis using m by simp
qed

subsection \<open>Polling\<close>

lemma cleanup_inv:
  assumes inv: "rx_inv room self" and b: "b \<in> registered self k" "s \<in> members self b"
    and c: "rx_session_cleanup self s now = (self', n)"
  shows "rx_inv room self' \<and> registered self' = registered self \<and> members self' = members self"
proof -
  note m = rx_inv_member [OF inv b]
  have slots: "slots_ok room (rx_subs self b) (ses_slots (rx_sessions self s))" and own: "ses_owner (rx_sessions self s) = b"
    using m by (auto simp: member_ok_def)
  then have len: "length (ses_slots (rx_sessions self s)) = prio_count" by (simp add: slots_ok_def)
  from c rx_session_cleanup_eq [OF len]
  have n: "self' = set_session self s (cleaned (cleanup_deadline self (rx_sessions self s) now) (rx_sessions self s))"
    by simp
  have "rx_inv room self'" unfolding n
    by (rule rx_inv_set_session [OF inv b]) (use own live_slot_ok [OF slots] in \<open>simp_all add: cleaned_def\<close>)
  then show ?thesis by (simp add: n registered_def members_def fun_eq_iff set_session_def)
qed

lemma anim_member:
  assumes "rx_inv room self" "s \<in> set (rx_sessions_by_animation self)"
  shows "\<exists>k b. b \<in> registered self k \<and> s \<in> members self b"
  using assms by (auto simp: rx_inv_def)

lemma poll_sessions_inv:
  assumes inv: "rx_inv room self" and r: "poll_sessions pf self env = (self', env')"
  shows "rx_inv room self'"
proof (cases "rx_sessions_by_animation self")
  case Nil
  with inv r show ?thesis by (simp add: poll_sessions_def)
next
  case (Cons s ss)
  obtain k b where b: "b \<in> registered self k" "s \<in> members self b" using anim_member [OF inv, of s] Cons by auto
  obtain now env1 where now: "p_now pf env = (now, env1)" by fastforce
  obtain mid n where mid: "rx_session_cleanup self s now = (mid, n)" by fastforce
  note c = cleanup_inv [OF inv b mid]
  have "rx_inv room (rx_session_destroy mid s)" by (rule destroy_inv(1) [of _ _ b k]) (use c b in simp_all)
  with r c show ?thesis by (auto simp: poll_sessions_def Cons now mid Let_def split: if_splits)
qed

text \<open>The state of the transmission side.\<close>

definition tx_store where
  "tx_store self = (tx_agewise self, tx_deadline self, tx_pending self, tx_transfers self, tx_transfer_fresh self,
     tx_seqno self, tx_frames self, tx_frame_fresh self, tx_queue_size self)"

lemma tx_inv_store: "tx_store self' = tx_store self \<Longrightarrow> tx_inv self' = tx_inv self"
  by (rule tx_inv_cong) (simp_all add: tx_store_def)

lemma poll_sessions_tx: "poll_sessions pf self env = (self', env') \<Longrightarrow> tx_store self' = tx_store self"
  by (auto simp: poll_sessions_def rx_session_cleanup_def rx_session_destroy_def set_session_def set_sub_def
      tx_store_def Let_def split: list.splits prod.splits if_splits)

lemma rx_store_retire [simp]: "rx_store (tx_retire self t) = rx_store self"
  using rx_part_retire [of self t] unfolding rx_part_def rx_store_def by (simp only: prod.inject)

lemma rx_store_expire_from [simp]: "rx_store (tx_expire_from self now t) = rx_store self"
proof (induction self now t rule: tx_expire_from.induct)
  case (1 self now t)
  have e: "rx_store (c\<lparr>err_tx_expiration := n\<rparr>) = rx_store c" for c n by (simp add: rx_store_def)
  show ?case
    using 1 by (subst tx_expire_from.simps) (auto simp: Let_def e split: option.splits)
qed

lemma rx_store_expire [simp]: "rx_store (tx_expire self now) = rx_store self"
  by (simp add: tx_expire_def split: option.splits)

lemma rx_store_departed: "rx_store (tx_departed self i t frame next) = rx_store self"
proof -
  have r: "rx_store (ref_count_dec c f) = rx_store c" for c f
    by (simp add: ref_count_dec_def rx_store_def Let_def)
  have s: "rx_store (set_cursor c t i fs) = rx_store c" for c fs
    by (simp add: set_cursor_def set_transfer_def rx_store_def)
  have u: "rx_store (set_transfer c t tr) = rx_store c" "rx_store (c\<lparr>tx_pending := p\<rparr>) = rx_store c" for c tr p
    by (simp_all add: set_transfer_def rx_store_def)
  show ?thesis by (simp add: tx_departed_def Let_def r s u)
qed

lemma rx_store_eject: "tx_eject_pending pf self env i = Inr (self', env') \<Longrightarrow> rx_store self' = rx_store self"
proof (induction pf self env i rule: tx_eject_pending.induct)
  case (1 pf self env i)
  show ?case
  proof (cases "index_min (tx_pending self i)")
    case None
    with 1(2) show ?thesis by (subst (asm) tx_eject_pending.simps) simp
  next
    case (Some t)
    note t = this
    show ?thesis
    proof (cases "tr_cursor (tx_transfers self t) i")
      case Nil
      with 1(2) t show ?thesis by (subst (asm) tx_eject_pending.simps) simp
    next
      case (Cons frame fs)
      obtain ok env1 where o: "p_tx pf (tx_request_of self i t frame) env = (ok, env1)" by fastforce
      show ?thesis
      proof (cases ok)
        case True
        with 1(2) t Cons o have "tx_eject_pending pf (tx_departed self i t frame fs) env1 i = Inr (self', env')"
          by (subst (asm) tx_eject_pending.simps) simp
        from 1(1) [OF t Cons o [symmetric] refl _ this] True show ?thesis by (simp add: rx_store_departed)
      next
        case False
        with 1(2) t Cons o show ?thesis by (subst (asm) tx_eject_pending.simps) simp
      qed
    qed
  qed
qed

lemma filter_configure_total:
  assumes "0 \<le> rx_filter_count self"
  shows "\<exists>r. rx_filter_configure pf self env = Inr r"
  using rx_filters_cover [of self] assms by (force simp: rx_filter_configure_def)

lemma poll_spec:
  assumes tx: "tx_inv self" and rx: "rx_inv room self" and f: "0 \<le> rx_filter_count self"
  shows "\<exists>self' env'. canard_poll pf ready self env = Inr (self', env') \<and> tx_inv self' \<and> rx_inv room self' \<and>
    set (tx_agewise self') \<subseteq> set (tx_agewise self)"
proof -
  have "\<exists>d env1. (if rx_filters_dirty self
       then and_then (rx_filter_configure pf self env) (\<lambda>(ok, env). Inr (self\<lparr>rx_filters_dirty := \<not> ok\<rparr>, env))
       else Inr (self, env)) = Inr (self\<lparr>rx_filters_dirty := d\<rparr>, env1)"
  proof (cases "rx_filters_dirty self")
    case True
    then show ?thesis using filter_configure_total [OF f, of pf env] by fastforce
  next
    case False
    then show ?thesis by (intro exI [of _ False] exI [of _ env]) simp
  qed
  then obtain d env1 where c: "(if rx_filters_dirty self
       then and_then (rx_filter_configure pf self env) (\<lambda>(ok, env). Inr (self\<lparr>rx_filters_dirty := \<not> ok\<rparr>, env))
       else Inr (self, env)) = Inr (self\<lparr>rx_filters_dirty := d\<rparr>, env1)" by blast
  let ?a = "self\<lparr>rx_filters_dirty := d\<rparr>"
  obtain b env2 where b: "poll_sessions pf ?a env1 = (b, env2)" by fastforce
  have rx_a: "rx_inv room ?a" using rx by (subst rx_inv_cong [where self = self]) simp_all
  have rx_b: "rx_inv room b" by (rule poll_sessions_inv [OF rx_a b])
  have store_b: "tx_store b = tx_store self" using poll_sessions_tx [OF b] by (simp add: tx_store_def)
  then have tx_b: "tx_inv b" using tx tx_inv_store by blast
  have age_b: "tx_agewise b = tx_agewise self" using store_b by (simp add: tx_store_def)
  obtain now env3 where now: "p_now pf env2 = (now, env3)" by fastforce
  let ?c = "tx_expire b now"
  have tx_c: "tx_inv ?c" "set (tx_agewise ?c) \<subseteq> set (tx_agewise b)"
    using tx_expire_spec [OF tx_b, of now] by (auto simp: expire_result_def)
  have rx_c: "rx_inv room ?c" using rx_b rx_inv_store [OF rx_store_expire] by simp
  have step: "canard_poll pf ready self env = poll_ifaces pf ready [0..<iface_count] ?c env3"
    unfolding canard_poll_def c by (simp add: b now)
  show ?thesis
  proof (cases "ready AND 1 = 0")
    case True
    then show ?thesis using tx_c rx_c age_b step by (simp add: iface_count_def)
  next
    case False
    from tx_eject_spec [OF tx_c(1), of pf env3] obtain e where e: "tx_eject_pending pf ?c env3 0 = Inr (e, snd (offer pf (waiting ?c) env3))"
      "tx_inv e" "set (tx_agewise e) \<subseteq> set (tx_agewise ?c)" by blast
    have "rx_inv room e" using rx_c rx_inv_store [OF rx_store_eject [OF e(1)]] by simp
    with False e tx_c age_b step show ?thesis by (auto simp: iface_count_def)
  qed
qed

end
