(* ===== verification/CanLink.thy ===== *)
theory CanLink
  imports CanIds CanNodeSpec
begin

text \<open>
  From publication to delivery: a message published by one node, its frames taken from the queue
  in order and ingested by another node that has subscribed to the subject, comes out of that
  node as one delivery with the payload that went in.
\<close>

subsection \<open>The sender\<close>

lemma tx_transfer_new_sel:
  assumes "tx_transfer_new self deadline template fd ctx = (self', t)"
  shows "t = tx_transfer_fresh self" "tx_transfer_fresh self' = Suc t" "tx_seqno self' = tx_seqno self + 1"
    "tx_agewise self' = tx_agewise self" "tx_deadline self' = tx_deadline self" "tx_pending self' = tx_pending self"
    "tx_frames self' = tx_frames self" "tx_frame_fresh self' = tx_frame_fresh self"
    "tx_queue_size self' = tx_queue_size self" "tx_queue_capacity self' = tx_queue_capacity self"
    "iface_bitmap self' = iface_bitmap self" "node_id self' = node_id self" "tx_fd self' = tx_fd self"
    "tx_transfers self' = (tx_transfers self)(t := \<lparr>tr_user_context = ctx, tr_deadline = deadline,
       tr_seqno = tx_seqno self, tr_can_id_msb = drop_bit 7 template AND (push_bit 22 1 - 1), tr_fd = fd,
       tr_multi_frame = False, tr_first_frame_departed = False, tr_cursor = (\<lambda>i. [])\<rparr>)"
  using assms by (auto simp: tx_transfer_new_def Let_def)

lemma tx_transfer_new_inv:
  assumes inv: "tx_inv self" and seq: "tx_seqno self < - 1"
    and n: "tx_transfer_new self deadline template fd ctx = (self', t)"
  shows "tx_inv self' \<and> tx_queueable self' t"
proof -
  note s = tx_transfer_new_sel [OF n]
  have fresh: "u \<noteq> t" if "u \<in> set (tx_agewise self)" for u using inv that s(1) by (auto simp: tx_inv_def)
  have grow: "x < tx_seqno self + 1" if "x \<le> tx_seqno self" for x
  proof -
    have "1 + tx_seqno self \<noteq> 0" using seq by (metis minus_unique less_irrefl)
    then have "unat (tx_seqno self + 1) = Suc (unat (tx_seqno self))" using unatSuc [of "tx_seqno self"] by (simp add: add.commute)
    with that show ?thesis by (simp add: word_less_nat_alt word_le_nat_alt)
  qed
  have less: "tx_seqno self < tx_seqno self + 1" using grow by simp
  have sets: "set (inorder (tx_deadline self)) = set (tx_agewise self)"
    "set (inorder (tx_pending self 0)) \<subseteq> set (tx_agewise self)" using inv by (auto simp: tx_inv_def)
  have ch: "chain self' u = chain self u" if "u \<in> set (tx_agewise self)" for u
    using fresh [OF that] by (simp add: chain_def s)
  have qf: "queue_frames self' = queue_frames self"
    using ch by (auto simp: queue_frames_def s intro!: arg_cong [of _ _ concat])
  have so: "sorted_wrt (sooner self') (inorder (tx_deadline self))"
    by (rule sorted_wrt_mono_rel [where P = "sooner self"])
      (use inv sets fresh in \<open>auto simp: tx_inv_def sooner_def s\<close>)
  have mu: "sorted_wrt (more_urgent self') (inorder (tx_pending self 0))"
    by (rule sorted_wrt_mono_rel [where P = "more_urgent self"])
      (use inv sets fresh in \<open>auto simp: tx_inv_def more_urgent_def s\<close>)
  have fi: "frames_inv self' (queue_frames self)"
    using inv frames_inv_other [of self' self] by (simp add: tx_inv_def s)
  have seqs: "tr_seqno (tx_transfers self' u) = tr_seqno (tx_transfers self u)" if "u \<in> set (tx_agewise self)" for u
    using fresh [OF that] by (simp add: s)
  have old: "u < tx_transfer_fresh self \<and> tr_seqno (tx_transfers self u) < tx_seqno self" if "u \<in> set (tx_agewise self)" for u
    using inv that by (simp add: tx_inv_def)
  have "inj_on (\<lambda>u. tr_seqno (tx_transfers self' u)) (set (tx_agewise self))"
    using inv seqs unfolding tx_inv_def by (auto simp: inj_on_def)
  moreover have "set (inorder (tx_pending self 0)) = {u \<in> set (tx_agewise self). chain self' u \<noteq> []}"
    using inv ch by (auto simp: tx_inv_def)
  moreover have "\<forall>u \<in> set (tx_agewise self). u < tx_transfer_fresh self' \<and> tr_seqno (tx_transfers self' u) < tx_seqno self'"
    using old seqs grow s by (auto intro: less_SucI dest: less_imp_le)
  ultimately have "tx_inv self'"
    using inv so mu fi qf sets unfolding tx_inv_def by (simp add: s)
  moreover have "tr_seqno (tx_transfers self u) \<noteq> tx_seqno self" if "u \<in> set (tx_agewise self)" for u
    using old [OF that] by auto
  then have "tx_queueable self' t"
    using less fresh by (auto simp: tx_queueable_def s)
  ultimately show ?thesis by simp
qed

text \<open>What an enqueueing leaves of the transfer and the node.\<close>

lemma tx_push_header:
  assumes inv: "tx_inv self" and q: "tx_queueable self t" and v0: "v0 \<longrightarrow> \<not> tr_fd (tx_transfers self t)"
    and eff: "ifaces AND iface_bitmap self = 1" and now: "p_now pf env = (now, env1)"
    and r: "tx_push pf self env t v0 ifaces tid payload seed = (self', env', True)"
  shows "tr_user_context (tx_transfers self' t) = tr_user_context (tx_transfers self t) \<and>
    tr_deadline (tx_transfers self' t) = tr_deadline (tx_transfers self t) \<and>
    tr_fd (tx_transfers self' t) = tr_fd (tx_transfers self t) \<and>
    tr_can_id_msb (tx_transfers self' t) = tr_can_id_msb (tx_transfers self t) \<and> node_id self' = node_id self"
proof -
  let ?fd = "tr_fd (tx_transfers self t)" and ?s1 = "tx_expire self now"
  let ?ds = "wire_frames v0 seed ?fd tid payload"
  note e = tx_expire_facts [OF inv, of now]
  have k1: "tx_keeps self ?s1" and i1: "tx_inv ?s1" using e by auto
  have fd1: "tr_fd (tx_transfers ?s1 t) = ?fd" using k1 by (simp add: tx_keeps_def)
  let ?s2 = "set_multi ?s1 t (length ?ds > 1)" and ?n = "int (length ?ds)"
  have i2: "tx_inv ?s2" using i1 by simp
  obtain s3 b where s3: "tx_ensure_queue_space ?s2 ?n = (s3, b)" by fastforce
  have k3: "tx_keeps ?s2 s3"
    using s3 tx_sacrifice_spec [OF i2, of ?n] by (auto simp: tx_ensure_queue_space_def Let_def split: if_splits)
  have push: "tx_push pf self env t v0 ifaces tid payload seed =
      (if b then (tx_enqueue s3 t ?ds, env1, True) else (s3\<lparr>err_tx_capacity := err_tx_capacity s3 + 1\<rparr>, env1, False))"
    using tx_push_unfold [OF eff now fd1 v0 refl] s3 by (simp add: Let_def)
  then have "self' = tx_enqueue s3 t ?ds" using r by (auto split: if_splits)
  then have "tr_user_context (tx_transfers self' t) = tr_user_context (tx_transfers s3 t) \<and>
    tr_deadline (tx_transfers self' t) = tr_deadline (tx_transfers s3 t) \<and>
    tr_fd (tx_transfers self' t) = tr_fd (tx_transfers s3 t) \<and>
    tr_can_id_msb (tx_transfers self' t) = tr_can_id_msb (tx_transfers s3 t) \<and> node_id self' = node_id s3"
    by (simp add: tx_enqueue_def) (simp add: alloc_chain_def)
  with k1 k3 show ?thesis
    by (simp add: tx_keeps_def) (simp add: set_multi_def set_transfer_def)
qed

text \<open>The requests that an idle node has waiting after a publication.\<close>

definition requests :: "nat \<Rightarrow> int \<Rightarrow> bool \<Rightarrow> u32 \<Rightarrow> bytes list \<Rightarrow> tx_request list" where
  "requests ctx deadline fd can_id ds = map (\<lambda>d. \<lparr>rq_user_context = ctx, rq_deadline = deadline, rq_iface_index = 0,
     rq_fd = fd, rq_can_id = can_id, rq_data = d\<rparr>) ds"

lemma push_waiting:
  assumes inv: "tx_inv self" and idle: "tx_agewise self = []" and seq: "tx_seqno self < - 1"
    and n: "tx_transfer_new self deadline template fd ctx = (mid, t)" and v0: "v0 \<longrightarrow> \<not> fd"
    and eff: "ifaces AND iface_bitmap self = 1"
    and r: "tx_push pf mid env t v0 ifaces tid payload seed = (self', env', True)"
  shows "tx_inv self' \<and> waiting self' =
    requests ctx deadline fd (wire_id template (node_id self)) (wire_frames v0 seed fd tid payload)"
proof -
  note s = tx_transfer_new_sel [OF n]
  have q: "tx_inv mid" "tx_queueable mid t" using tx_transfer_new_inv [OF inv seq n] by simp_all
  have v0': "v0 \<longrightarrow> \<not> tr_fd (tx_transfers mid t)" and eff': "ifaces AND iface_bitmap mid = 1"
    and fd: "tr_fd (tx_transfers mid t) = fd" using v0 eff by (simp_all add: s)
  obtain now env1 where now: "p_now pf env = (now, env1)" by fastforce
  note p = tx_push_spec [OF q v0' eff' now r] and h = tx_push_header [OF q v0' eff' now r]
  have age: "tx_agewise self' = [t]" and inv': "tx_inv self'"
    and views: "map (tx_frame_view self') (chain self' t) = wire_frames v0 seed fd tid payload"
    using p idle by (auto simp: push_result_def s)
  have ne: "chain self' t \<noteq> []" using views wire_frames_ne(1) [of v0 seed fd tid payload] by auto
  have "set (inorder (tx_pending self' 0)) = {t}" using inv' age ne by (auto simp: tx_inv_def)
  with tx_inv_distinct(2) [OF inv'] have pend: "inorder (tx_pending self' 0) = [t]"
    by (intro distinct_set_singleton)
  have "tx_request_of self' 0 t f = \<lparr>rq_user_context = ctx, rq_deadline = deadline, rq_iface_index = 0,
     rq_fd = fd, rq_can_id = wire_id template (node_id self), rq_data = tx_frame_view self' f\<rparr>" for f
    using h by (simp add: tx_request_of_def Let_def wire_id_def s)
  then have "waiting self' = map (\<lambda>f. \<lparr>rq_user_context = ctx, rq_deadline = deadline, rq_iface_index = 0,
     rq_fd = fd, rq_can_id = wire_id template (node_id self), rq_data = tx_frame_view self' f\<rparr>) (chain self' t)"
    by (simp add: waiting_def pend)
  also have "\<dots> = requests ctx deadline fd (wire_id template (node_id self)) (map (tx_frame_view self') (chain self' t))"
    by (simp add: requests_def)
  finally show ?thesis using views inv' by simp
qed

subsection \<open>The frames of a transfer as the parser sees them\<close>

lemma tail_frames_parsable:
  "7 \<le> k \<Longrightarrow> xs \<noteq> [] \<Longrightarrow> \<exists>d ds. tail_frames k sot tog tid xs = d # ds \<and> bit (last d) 7 = sot \<and> bit (last d) 5 = tog \<and>
     frame_ok d \<and> (\<forall>e \<in> set ds. \<not> bit (last e) 7 \<and> frame_ok e)"
proof (induction k sot tog tid xs rule: tail_frames.induct)
  case (1 k sot tog tid xs)
  show ?case
  proof (cases "k = 0 \<or> length xs \<le> k")
    case True
    with 1 show ?thesis
      by (subst tail_frames.simps) (cases xs, auto simp: tail_byte_bits frame_ok_def)
  next
    case False
    then have "drop k xs \<noteq> []" by simp
    from 1(1) [OF False 1(2) this] obtain d ds where "tail_frames k False (\<not> tog) tid (drop k xs) = d # ds"
      "\<not> bit (last d) 7" "frame_ok d" "\<forall>e \<in> set ds. \<not> bit (last e) 7 \<and> frame_ok e" by blast
    with False 1(2) show ?thesis
      by (subst tail_frames.simps) (auto simp: tail_byte_bits frame_ok_def)
  qed
qed

lemma transfer_frames_parsable:
  "\<exists>d ds. transfer_frames seed fd tid payload = d # ds \<and> bit (last d) 7 \<and> tail_v1 d \<and>
     (\<forall>e \<in> set ds. \<not> bit (last e) 7 \<and> tail_v1 e)"
proof (cases "length payload < mtu_of fd")
  case True
  then show ?thesis by (simp add: transfer_frames_def tail_v1_def frame_ok_def tail_byte_bits)
next
  case False
  have "7 \<le> mtu_of fd - 1" using mtu_cases [of fd] by auto
  from tail_frames_parsable [OF this, of "payload @ [crc_hi (crc_add_chain seed payload), crc_lo (crc_add_chain seed payload)]"
      True True tid] False
  show ?thesis by (auto simp: transfer_frames_def tail_v1_def Let_def)
qed

lemma transfer_frames_v0_parsable:
  "\<exists>d ds. transfer_frames_v0 seed tid payload = d # ds \<and> bit (last d) 7 \<and> tail_v0 d \<and>
     (\<forall>e \<in> set ds. \<not> bit (last e) 7 \<and> tail_v0 e)"
proof (cases "length payload < 8")
  case True
  then show ?thesis by (simp add: transfer_frames_v0_def tail_v0_def frame_ok_def tail_byte_bits)
next
  case False
  from tail_frames_parsable [of 7 "[crc_lo (crc_add_chain seed payload), crc_hi (crc_add_chain seed payload)] @ payload"
      True False tid] False
  show ?thesis by (auto simp: transfer_frames_v0_def tail_v0_def Let_def)
qed

subsection \<open>The receiver, after the first frame\<close>

text \<open>What steps of a session leave alone.\<close>

definition same_index :: "canard \<Rightarrow> canard \<Rightarrow> bool" where
  "same_index self self' \<longleftrightarrow> rx_subscriptions self' = rx_subscriptions self \<and> rx_subs self' = rx_subs self \<and>
     node_id self' = node_id self \<and>
     (\<forall>s. ses_node_id (rx_sessions self' s) = ses_node_id (rx_sessions self s))"

lemma same_index_refl [simp]: "same_index self self" by (simp add: same_index_def)

lemma same_index_trans: "same_index a b \<Longrightarrow> same_index b c \<Longrightarrow> same_index a c"
  by (simp add: same_index_def)

lemma same_index_set_session:
  "ses_node_id ses = ses_node_id (rx_sessions self s) \<Longrightarrow> same_index self (set_session self s ses)"
  by (simp add: same_index_def set_session_def)

lemma complete_same_index: "rx_session_complete_slot self s fr = Inr self' \<Longrightarrow> same_index self self'"
  by (auto simp: rx_session_complete_slot_def deliver_def set_session_def same_index_def put_slot_def Let_def
      elim!: and_then_case split: option.splits)

lemma accept_same_index: "rx_session_accept self s ts fr = Inr self' \<Longrightarrow> same_index self self'"
proof -
  assume a: "rx_session_accept self s ts fr = Inr self'"
  let ?ses = "rx_sessions self s"
  obtain sl where sl: "slot_at ?ses (fr_priority fr) = Inr sl"
    using a by (auto simp: rx_session_accept_def Let_def elim!: and_then_case)
  show ?thesis
  proof (cases sl)
    case None
    with a sl show ?thesis
      by (auto simp: rx_session_accept_def rx_session_complete_single_frame_def deliver_def same_index_def Let_def)
  next
    case (Some slot)
    with a sl obtain v where v: "self' = set_session self s (put_slot ?ses (fr_priority fr) v) \<or>
        rx_session_complete_slot (set_session self s (put_slot ?ses (fr_priority fr) v)) s fr = Inr self'"
      by (auto simp: rx_session_accept_def Let_def split: if_split_asm)
    have "same_index self (set_session self s (put_slot ?ses (fr_priority fr) v))"
      by (rule same_index_set_session) simp
    with v show ?thesis using complete_same_index same_index_trans by blast
  qed
qed

lemma step_same_index:
  "rx_session_step self b s ts fr iface = Inr self' \<Longrightarrow> same_index self self'"
proof -
  assume a: "rx_session_step self b s ts fr iface = Inr self'"
  have m: "same_index self c'" if "rx_session_accept c s ts fr = Inr c'" "same_index self c" for c c'
    using that accept_same_index same_index_trans by blast
  from a show ?thesis
    by (auto simp: rx_session_step_def rx_session_cleanup_def Let_def rx_session_record_admission_def
        elim!: and_then_case m split: if_split_asm prod.splits)
      (auto simp: same_index_def set_session_def put_slot_def)
qed

lemma route_frame_of: "rx_route self (frame_of hdr raw) = rx_route self hdr"
  by (simp add: rx_route_def)

definition no_legacy :: "canard \<Rightarrow> bool" where
  "no_legacy self \<longleftrightarrow> (\<forall>k. kind_version k = 0 \<longrightarrow> rx_subscriptions self k = CLeaf)"

lemma no_legacy_route: "no_legacy self \<Longrightarrow> kind_version (fr_kind fr) = 0 \<Longrightarrow> rx_route self fr = None"
  by (simp add: no_legacy_def rx_route_def rx_find_subscription_def index_find_None)

text \<open>A frame that parses as a v1 frame, at a node without legacy subscriptions.\<close>

lemma ingest_v1:
  assumes ok: "0 \<le> ts" "can_id \<le> can_ext_id_mask" and v1: "parsed_v1 can_id raw = Some fr" and leg: "no_legacy self"
  shows "ingest_frame self ts 0 can_id raw = and_then (ingest_parsed self ts 0 fr) (\<lambda>self. Inr (self, True))"
proof -
  obtain m v0 w where p: "rx_parse can_id raw = (m, v0, w)" by (metis prod_cases3)
  have w: "m AND 2 \<noteq> 0" "w = fr" using v1 p by (auto simp: parsed_v1_def split: if_splits)
  then have m0: "m \<noteq> 0" by auto
  have "ingest_parsed self ts 0 v0 = Inr self" if True: "m AND 1 \<noteq> 0"
  proof -
    have v: "parsed_v0 can_id raw = Some v0" using p True by (simp add: parsed_v0_def)
    have k: "kind_version (fr_kind v0) = 0"
      using v rx_parse_v0_header(1) [of can_id "frame_common can_id raw"] src_le [of can_id]
      by (auto simp: parsed_v0_alt split: if_splits)
    have "fr_start v0 = bit (last raw) 7" "fr_toggle v0 = bit (last raw) 5"
      using v by (auto simp: parsed_v0_alt split: if_splits)
    moreover have "\<not> (bit (last raw) 7 \<and> bit (last raw) 5)" "\<not> (bit (last raw) 7 \<and> \<not> bit (last raw) 5)"
      using v v1 by (auto simp: parsed_v0_alt parsed_v1_alt split: if_splits)
    ultimately have "\<not> fr_start v0" by simp
    with no_legacy_route [OF leg k] show ?thesis by (simp add: ingest_parsed_def)
  qed
  then show ?thesis using ok p w m0 by (simp add: ingest_frame_def Let_def iface_count_def)
qed

lemma ingest_continue:
  assumes ok: "0 \<le> ts" "can_id \<le> can_ext_id_mask" and v1: "parsed_v1 can_id raw = Some (frame_of hdr raw)"
    and leg: "no_legacy self" and st: "\<not> bit (last raw) 7" and src: "fr_src hdr \<noteq> node_id_anonymous"
    and b: "rx_route self hdr = Some b"
    and s: "index_find (rx_session_compare self (fr_src hdr)) (sub_sessions (rx_subs self b)) = Some s"
  shows "ingest_frame self ts 0 can_id raw =
    and_then (rx_session_step self b s ts (frame_of hdr raw) 0) (\<lambda>self. Inr (self, True))"
proof -
  have "ingest_parsed self ts 0 (frame_of hdr raw) = rx_session_step self b s ts (frame_of hdr raw) 0"
    using st src b s by (simp add: ingest_parsed_def route_frame_of rx_session_update_def rx_session_lookup_def Let_def)
  then show ?thesis using ingest_v1 [OF ok v1 leg] by simp
qed

lemma same_index_route:
  assumes "same_index self self'"
  shows "rx_route self' hdr = rx_route self hdr" "no_legacy self' = no_legacy self"
    "index_find (rx_session_compare self' n) (sub_sessions (rx_subs self' b)) =
     index_find (rx_session_compare self n) (sub_sessions (rx_subs self b))"
proof -
  have "rx_subscription_compare self' = rx_subscription_compare self"
    using assms by (simp add: same_index_def rx_subscription_compare_def fun_eq_iff)
  with assms show "rx_route self' hdr = rx_route self hdr" "no_legacy self' = no_legacy self"
    by (simp_all add: same_index_def rx_route_def rx_find_subscription_def no_legacy_def)
  have "rx_session_compare self' = rx_session_compare self"
    using assms by (simp add: same_index_def rx_session_compare_def fun_eq_iff)
  with assms show "index_find (rx_session_compare self' n) (sub_sessions (rx_subs self' b)) =
     index_find (rx_session_compare self n) (sub_sessions (rx_subs self b))" by (simp add: same_index_def)
qed

definition on_wire :: "u32 \<Rightarrow> int list \<Rightarrow> bytes list \<Rightarrow> (int \<times> u8 \<times> u32 \<times> bytes) list" where
  "on_wire can_id tss ds = map (\<lambda>(ts, d). (ts, 0, can_id, d)) (zip tss ds)"

lemma ingest_run:
  assumes "can_id \<le> can_ext_id_mask" "fr_src hdr \<noteq> node_id_anonymous"
    and "\<forall>d \<in> set ds. parsed_v1 can_id d = Some (frame_of hdr d) \<and> \<not> bit (last d) 7"
    and "no_legacy self" "rx_route self hdr = Some b" "\<forall>ts \<in> set tss. 0 \<le> ts" "length tss = length ds"
    and "index_find (rx_session_compare self (fr_src hdr)) (sub_sessions (rx_subs self b)) = Some s"
  shows "ingest_frames self (on_wire can_id tss ds) = rx_run self b s 0 (zip tss (map (frame_of hdr) ds))"
  using assms
proof (induction ds arbitrary: tss self)
  case Nil
  then show ?case by (simp add: on_wire_def)
next
  case (Cons d ds)
  then obtain ts tss' where t: "tss = ts # tss'" by (cases tss) auto
  have d: "parsed_v1 can_id d = Some (frame_of hdr d)" "\<not> bit (last d) 7" and ts: "0 \<le> ts"
    using Cons.prems t by auto
  note c = ingest_continue [OF ts Cons.prems(1) d(1) Cons.prems(4) d(2) Cons.prems(2,5,8)]
  show ?case
  proof (cases "rx_session_step self b s ts (frame_of hdr d) 0")
    case (Inl e)
    with c show ?thesis by (simp add: t on_wire_def)
  next
    case (Inr mid)
    note r = same_index_route [OF step_same_index [OF this]]
    have "ingest_frames mid (on_wire can_id tss' ds) = rx_run mid b s 0 (zip tss' (map (frame_of hdr) ds))"
      by (rule Cons.IH) (use Cons.prems t r in simp_all)
    with Inr c show ?thesis by (simp add: t on_wire_def)
  qed
qed

subsection \<open>The receiver, from the first frame\<close>

text \<open>A subscription that can take a transfer from a sender it has not heard of.\<close>

definition awaits :: "canard \<Rightarrow> nat \<Rightarrow> rx_frame \<Rightarrow> bool" where
  "awaits self b hdr \<longleftrightarrow> b \<in> registered self (fr_kind hdr) \<and> sub_port_id (rx_subs self b) = fr_port_id hdr \<and>
     (fr_dst hdr = node_id_anonymous \<or> fr_dst hdr = node_id self) \<and>
     (\<forall>s \<in> members self b. ses_node_id (rx_sessions self s) \<noteq> fr_src hdr) \<and>
     fr_src hdr \<le> 127 \<and> fr_src hdr \<noteq> node_id self \<and> fr_priority hdr < 8 \<and>
     sub_crc_seed (rx_subs self b) = crc_initial \<and> sub_transfer_id_timeout (rx_subs self b) < 2 ^ 63 \<and>
     sub_extent (rx_subs self b) + 2 < 2 ^ 32"

lemma awaits_route: "rx_inv room self \<Longrightarrow> awaits self b hdr \<Longrightarrow> rx_route self hdr = Some b"
proof -
  assume inv: "rx_inv room self" and a: "awaits self b hdr"
  have "sorted_wrt (port_before self) (inorder (rx_subscriptions self (fr_kind hdr)))" using inv by (simp add: rx_inv_def)
  from by_port.find_hit [OF this, of b "fr_port_id hdr"] a
  show ?thesis by (simp add: awaits_def registered_def rx_subscription_compare_0 rx_route_def rx_find_subscription_def)
qed

text \<open>The state after the first frame has marked the sender and got it a session.\<close>

lemma ingest_first:
  assumes inv: "rx_inv room self" and occ: "occupancy_inv self" and a: "awaits self b hdr" and leg: "no_legacy self"
    and ok: "0 \<le> ts" "can_id \<le> can_ext_id_mask" and v1: "parsed_v1 can_id raw = Some (frame_of hdr raw)"
    and st: "bit (last raw) 7"
  shows "\<exists>w s. ingest_frame self ts 0 can_id raw =
      and_then (rx_session_step w b s ts (frame_of hdr raw) 0) (\<lambda>self. Inr (self, True)) \<and>
    rx_inv room w \<and> s \<in> members w b \<and> b \<in> registered w (fr_kind hdr) \<and> no_legacy w \<and> rx_route w hdr = Some b \<and>
    ses_node_id (rx_sessions w s) = fr_src hdr \<and> ses_last_admission_ts (rx_sessions w s) = big_bang \<and>
    ses_iface_index (rx_sessions w s) = 0 \<and> rx_deliveries w = rx_deliveries self \<and>
    sub_extent (rx_subs w b) = sub_extent (rx_subs self b) \<and> sub_kind (rx_subs w b) = sub_kind (rx_subs self b) \<and>
    sub_crc_seed (rx_subs w b) = sub_crc_seed (rx_subs self b) \<and>
    sub_transfer_id_timeout (rx_subs w b) = sub_transfer_id_timeout (rx_subs self b)"
proof -
  have src: "fr_src hdr = node_id_anonymous \<or> unat (fr_src hdr) < 128"
    using a by (simp add: awaits_def word_le_nat_alt)
  have na: "fr_src hdr \<noteq> node_id_anonymous" using a by (auto simp: awaits_def node_id_anonymous_def)
  have other: "node_id self \<noteq> fr_src hdr" using a by (auto simp: awaits_def)
  from occupancy_update_spec [OF occ src] other obtain mid where mid: "node_id_occupancy_update self (fr_src hdr) = Inr mid"
    "node_id mid = node_id self" by (auto split: if_splits)
  have store: "rx_store mid = rx_store self" by (rule rx_store_update [OF mid(1)])
  then have same: "rx_subs mid = rx_subs self" "rx_sessions mid = rx_sessions self" "rx_subscriptions mid = rx_subscriptions self"
    "rx_deliveries mid = rx_deliveries self" by (simp_all add: rx_store_def)
  have inv': "rx_inv room mid" using inv rx_inv_store [OF store] by simp
  have reg: "registered mid = registered self" and mem: "members mid = members self"
    using same by (simp_all add: registered_def members_def fun_eq_iff)
  have a': "awaits mid b hdr" using a by (simp add: awaits_def reg mem same mid)
  have route: "rx_route mid hdr = Some b" by (rule awaits_route [OF inv' a'])
  obtain t r where t: "index_find_or_insert (rx_session_compare mid (fr_src hdr)) (rx_session_fresh mid)
      (sub_sessions (rx_subs mid b)) = (t, r)" by fastforce
  have breg: "b \<in> registered mid (fr_kind hdr)" using a' by (simp add: awaits_def)
  let ?w = "with_session mid b 0 (fr_src hdr) t" and ?s = "rx_session_fresh mid"
  have w: "r = ?s" "rx_inv room ?w" "members ?w b = insert ?s (members mid b)" "registered ?w = registered mid"
    using rx_inv_with_session [OF inv' breg _ t] a' by (auto simp: awaits_def)
  have "rx_session_lookup mid b (frame_of hdr raw) 0 = (?w, Some ?s)"
    using st t w(1) by (simp add: rx_session_lookup_def Let_def with_session_def)
  then have "ingest_parsed self ts 0 (frame_of hdr raw) = rx_session_step ?w b ?s ts (frame_of hdr raw) 0"
    using st mid(1) route na by (simp add: ingest_parsed_def route_frame_of rx_session_update_def)
  then have step: "ingest_frame self ts 0 can_id raw =
      and_then (rx_session_step ?w b ?s ts (frame_of hdr raw) 0) (\<lambda>self. Inr (self, True))"
    using ingest_v1 [OF ok v1 leg] by simp
  have sub_w: "rx_subs ?w b = (rx_subs self b)\<lparr>sub_sessions := t\<rparr>" by (simp add: with_session_sel same)
  have aw: "rx_route ?w hdr = Some b"
  proof -
    have "rx_subscription_compare ?w = rx_subscription_compare mid"
      by (simp add: rx_subscription_compare_def fun_eq_iff with_session_sel)
    moreover have "node_id ?w = node_id mid" by (simp add: with_session_def set_sub_def rx_session_factory_def Let_def)
    ultimately have "rx_route ?w hdr = rx_route mid hdr"
      by (simp add: rx_route_def rx_find_subscription_def with_session_sel)
    with route show ?thesis by simp
  qed
  have "no_legacy ?w" using leg by (simp add: no_legacy_def with_session_sel same)
  moreover have "rx_deliveries ?w = rx_deliveries self"
    by (simp add: with_session_def set_sub_def rx_session_factory_def Let_def same)
  ultimately show ?thesis
    using step w aw breg sub_w by (intro exI [of _ ?w] exI [of _ ?s]) (simp add: with_session_sel)
qed

lemma delivered_by_run:
  assumes inv: "rx_inv room self" and occ: "occupancy_inv self" and a: "awaits self b hdr" and leg: "no_legacy self"
    and v1: "kind_version (fr_kind hdr) = 1" and id: "can_id \<le> can_ext_id_mask"
    and parse: "\<And>d. tail_v1 d \<Longrightarrow> parsed_v1 can_id d = Some (frame_of hdr d)"
    and ds: "ds = transfer_frames crc_initial fd tid payload" and l32: "length payload + 2 < 2 ^ 32"
    and tss: "length (ts # tss) = length ds" "\<forall>t \<in> set (ts # tss). 0 \<le> t"
  shows "\<exists>self'. ingest_frames self (on_wire can_id (ts # tss) ds) = Inr self' \<and>
    rx_deliveries self' = rx_deliveries self @
      [\<lparr>dv_subscription = b, dv_timestamp = ts, dv_priority = fr_priority hdr, dv_source = fr_src hdr,
        dv_transfer_id = tid AND 31,
        dv_payload = delivered_view (sub_extent (rx_subs self b)) (mtu_of fd) payload\<rparr>]"
proof -
  obtain d es where des: "ds = d # es" "bit (last d) 7" "tail_v1 d" "\<forall>e \<in> set es. \<not> bit (last e) 7 \<and> tail_v1 e"
    using transfer_frames_parsable [of crc_initial fd tid payload] ds by blast
  have ts0: "0 \<le> ts" using tss by simp
  from ingest_first [OF inv occ a leg ts0 id parse [OF des(3)] des(2)] obtain w s where
    step: "ingest_frame self ts 0 can_id d = and_then (rx_session_step w b s ts (frame_of hdr d) 0) (\<lambda>self. Inr (self, True))"
    and w: "rx_inv room w" "s \<in> members w b" "b \<in> registered w (fr_kind hdr)" "no_legacy w" "rx_route w hdr = Some b"
      "ses_node_id (rx_sessions w s) = fr_src hdr" "ses_last_admission_ts (rx_sessions w s) = big_bang"
      "ses_iface_index (rx_sessions w s) = 0" "rx_deliveries w = rx_deliveries self"
      "sub_extent (rx_subs w b) = sub_extent (rx_subs self b)" "sub_kind (rx_subs w b) = sub_kind (rx_subs self b)"
      "sub_crc_seed (rx_subs w b) = sub_crc_seed (rx_subs self b)"
      "sub_transfer_id_timeout (rx_subs w b) = sub_transfer_id_timeout (rx_subs self b)" by blast
  note m = rx_inv_member [OF w(1,3,2)]
  have own: "ses_owner (rx_sessions w s) = b" and len8: "length (ses_slots (rx_sessions w s)) = prio_count"
    using m by (auto simp: member_ok_def slots_ok_def)
  have kv: "kind_version (sub_kind (rx_subs w b)) = 1" and ext: "0 < sub_extent (rx_subs w b)"
    using m v1 by (simp_all add: sub_ok_def)
  have p: "fr_priority hdr < 8" and seed: "sub_crc_seed (rx_subs w b) = crc_initial"
    and ext2: "sub_extent (rx_subs w b) + 2 < 2 ^ 32" and tmo: "sub_transfer_id_timeout (rx_subs w b) < 2 ^ 63"
    and na: "fr_src hdr \<noteq> node_id_anonymous"
    using a w by (auto simp: awaits_def node_id_anonymous_def)
  have adm: "rx_session_solve_admission (rx_subs w b) (rx_sessions w s) ts (fr_priority hdr) True True (tid AND 31) 0 = Inr True"
    using ts0 tmo w(7,8) by (simp add: rx_session_solve_admission_def Let_def big_bang_def)
  have found: "index_find (rx_session_compare w (fr_src hdr)) (sub_sessions (rx_subs w b)) = Some s"
    by (rule by_node.find_hit) (use m w in \<open>auto simp: sub_ok_def members_def rx_session_compare_0\<close>)
  have "ingest_frames self (on_wire can_id (ts # tss) ds) = rx_run w b s 0 (zip (ts # tss) (map (frame_of hdr) ds))"
  proof (cases "rx_session_step w b s ts (frame_of hdr d) 0")
    case (Inl e)
    with step show ?thesis by (simp add: des on_wire_def)
  next
    case (Inr mid)
    note r = same_index_route [OF step_same_index [OF this]]
    have "ingest_frames mid (on_wire can_id tss es) = rx_run mid b s 0 (zip tss (map (frame_of hdr) es))"
      by (rule ingest_run [OF id na]) (use w r found des parse tss in simp_all)
    with Inr step show ?thesis by (simp add: des on_wire_def)
  qed
  also have "\<dots> = Inr (reassembled w b s ts (frame_of hdr (hd ds)) hdr tid 0
      (delivered_view (sub_extent (rx_subs w b)) (mtu_of fd) payload))"
    by (rule rx_run_v1 [OF own refl kv len8 p _ adm _ ext ext2 l32 tss(1)]) (simp_all add: ds seed iface_mask_def)
  finally show ?thesis
    using w by (simp add: reassembled_def deliver_def set_session_def moved_to_tail_def)
qed

text \<open>C1: end to end.  An idle node publishes a message; the frames that wait in its queue,
  ingested one after the other at any times by a node that has a subscription to the subject (and
  none to legacy transfers, and has not heard of the sender before), are all accepted and produce
  exactly one delivery to that subscription: with the time of the first frame, the priority, the
  sender and the transfer-ID of the publication, and its payload, cut to the extent of the
  subscription if it took several frames.\<close>

theorem publish_delivers:
  assumes "tx_inv a" and "tx_agewise a = []" and "tx_seqno a < - 1" and "iface_bitmap a = 1" and "node_id a \<le> 127"
    and "publish_16b pf a env deadline ifaces prio subject tid payload ctx = (a', env', True)"
    and "length payload + 2 < 2 ^ 32"
    and "rx_inv room n" and "occupancy_inv n" and "no_legacy n"
    and "awaits n b (header prio KindMessage16b subject node_id_anonymous (node_id a))"
    and "length (ts # tss) = length (waiting a')" and "\<forall>t \<in> set (ts # tss). 0 \<le> t"
  shows "\<exists>n'. ingest_frames n (map (\<lambda>(t, r). (t, 0, rq_can_id r, rq_data r)) (zip (ts # tss) (waiting a'))) = Inr n' \<and>
    rx_deliveries n' = rx_deliveries n @
      [\<lparr>dv_subscription = b, dv_timestamp = ts, dv_priority = prio, dv_source = node_id a,
        dv_transfer_id = tid AND 31,
        dv_payload = delivered_view (sub_extent (rx_subs n b)) (mtu_of (tx_fd a)) payload\<rparr>]"
proof -
  let ?hdr = "header prio KindMessage16b subject node_id_anonymous (node_id a)"
  let ?id = "wire_id (id_publish_16b prio subject) (node_id a)"
  let ?ds = "transfer_frames crc_initial (tx_fd a) tid payload"
  obtain mid t where new: "tx_transfer_new a deadline (id_publish_16b prio subject) (tx_fd a) ctx = (mid, t)" by fastforce
  have v: "prio_valid prio" "ifaces_valid ifaces"
    and push: "tx_push pf mid env t False ifaces tid payload crc_initial = (a', env', True)"
    using assms(6) new by (auto simp: publish_16b_def Let_def split: if_splits)
  have "ifaces AND iface_bitmap a = 1"
    using v(2) assms(4) by (intro single_iface) (auto simp: ifaces_valid_def iface_bitmap_all_def iface_count_def)
  from push_waiting [OF assms(1-3) new _ this push]
  have wait: "waiting a' = requests ctx deadline (tx_fd a) ?id ?ds" by (simp add: wire_frames_def)
  have tss: "length (ts # tss) = length ?ds" using assms(12) by (simp add: wait requests_def)
  have hdr: "fr_kind ?hdr = KindMessage16b" "fr_priority ?hdr = prio" "fr_src ?hdr = node_id a"
    by (simp_all add: header_def)
  have kv: "kind_version (fr_kind ?hdr) = 1" by (simp add: hdr kind_version_def)
  have "map (\<lambda>(t, r). (t, 0, rq_can_id r, rq_data r)) (zip (ts # tss) (waiting a')) = on_wire ?id (ts # tss) ?ds"
    by (simp add: wait requests_def on_wire_def zip_map2 split_beta del: zip_Cons_Cons zip_Cons)
  moreover note delivered_by_run [OF assms(8,9,11,10) kv wire_id_le [OF assms(5)] parse_16b [OF assms(5) v(1)] refl
      assms(7) tss assms(13)]
  ultimately show ?thesis by (simp only: hdr)
qed

subsection \<open>An example\<close>

abbreviation demo_payload :: bytes where "demo_payload \<equiv> [1, 2, 3, 4, 5, 6, 7, 8, 9]"

definition demo_published :: "canard \<times> nat \<times> bool" where
  "demo_published = publish_16b demo_platform demo_node 2 100 1 4 1234 5 demo_payload 0"

definition demo_listener :: canard where
  "demo_listener = fst (subscribe_16b (canard_zero\<lparr>occupancy := [1, 0], node_id := 7\<rparr>) 0 1234 16 1000000 True)"

lemma demo_published_ok: "snd (snd demo_published)"
proof -
  obtain mid t where new: "tx_transfer_new demo_node 100 (id_publish_16b 4 1234) False 0 = (mid, t)" by fastforce
  note s = tx_transfer_new_sel [OF new]
  have v: "tx_agewise mid = []" "tx_deadline mid = CLeaf" "tx_queue_size mid = 0" "tx_queue_capacity mid = 8"
    "iface_bitmap mid = 1" "tr_fd (tx_transfers mid t) = False" by (simp_all add: s demo_node_def canard_zero_def)
  have e: "tx_expire mid 2 = mid" by (simp add: tx_expire_def v)
  have "tx_ensure_queue_space (set_multi mid t True) 2 = (set_multi mid t True, True)"
    by (simp add: tx_ensure_queue_space_def tx_sacrifice.simps v)
  then have "snd (snd (tx_push demo_platform mid 2 t False 1 5 demo_payload crc_initial))"
    using tx_push_unfold [of 1 mid demo_platform 2 2 2 t False False demo_frames crc_initial 5 demo_payload] demo_frame_count
    by (simp add: v e demo_platform_def wire_frames_def Let_def)
  moreover have "tx_fd demo_node = False" by (simp add: demo_node_def canard_zero_def)
  ultimately show ?thesis
    by (simp add: demo_published_def publish_16b_def new prio_valid_def prio_count_def ifaces_valid_def
        iface_bitmap_all_def iface_count_def)
qed

lemma demo_listener_eq:
  "rx_subscriptions demo_listener = (\<lambda>k. CLeaf)(KindMessage16b := mk CLeaf 0 CLeaf)"
  "rx_subs demo_listener 0 = \<lparr>sub_transfer_id_timeout = 1000000, sub_extent = 16, sub_port_id = 1234,
     sub_crc_seed = crc_initial, sub_kind = KindMessage16b, sub_sessions = CLeaf\<rparr>"
  "node_id demo_listener = 7" "occupancy demo_listener = [1, 0]" "rx_deliveries demo_listener = []"
  by (simp_all add: demo_listener_def subscribe_16b_def rx_subscribe_def canard_zero_def set_sub_def
      index_find_or_insert_def Let_def mk_def)

lemma empty_rx_inv:
  "rx_subscriptions self = (\<lambda>k. CLeaf) \<Longrightarrow> rx_sessions_by_animation self = [] \<Longrightarrow> rx_inv room self"
  by (simp add: rx_inv_def registered_def)

lemma demo_listener_inv: "rx_inv room demo_listener" "occupancy_inv demo_listener" "no_legacy demo_listener"
proof -
  let ?z = "canard_zero\<lparr>occupancy := [1, 0], node_id := 7\<rparr>"
  have z: "rx_inv room ?z" by (rule empty_rx_inv) (simp_all add: canard_zero_def)
  have u: "unregistered ?z 0" by (simp add: unregistered_def registered_def canard_zero_def)
  obtain r where r: "rx_subscribe ?z 0 KindMessage16b 1234 crc_initial 16 1000000 True = (demo_listener, r)"
    unfolding demo_listener_def subscribe_16b_def by (metis prod.collapse)
  from rx_subscribe_inv [OF z u _ r] show "rx_inv room demo_listener" by simp
  show "occupancy_inv demo_listener"
    by (simp add: occupancy_inv_def occupied_def demo_listener_eq bitmap_bits_reset)
  show "no_legacy demo_listener" by (simp add: no_legacy_def demo_listener_eq kind_version_def)
qed

theorem publish_delivers_witness:
  "\<exists>n'. ingest_frames demo_listener (map (\<lambda>(t, r). (t, 0, rq_can_id r, rq_data r))
      (zip [10, 20] (waiting (fst demo_published)))) = Inr n' \<and>
    rx_deliveries n' = [\<lparr>dv_subscription = 0, dv_timestamp = 10, dv_priority = 4, dv_source = 42,
      dv_transfer_id = 5, dv_payload = demo_payload\<rparr>]"
proof -
  have n: "tx_agewise demo_node = []" "tx_seqno demo_node < - 1" "iface_bitmap demo_node = 1" "node_id demo_node = 42"
    "tx_fd demo_node = False" by (simp_all add: demo_node_def canard_zero_def word_gt_0)
  obtain a' env' where pub: "publish_16b demo_platform demo_node 2 100 1 4 1234 5 demo_payload 0 = (a', env', True)"
    using demo_published_ok by (metis demo_published_def prod.collapse)
  have a': "fst demo_published = a'" by (simp add: demo_published_def pub)
  obtain mid t where new: "tx_transfer_new demo_node 100 (id_publish_16b 4 1234) False 0 = (mid, t)" by fastforce
  have "tx_push demo_platform mid 2 t False 1 5 demo_payload crc_initial = (a', env', True)"
    using pub new by (auto simp: publish_16b_def n split: if_splits)
  from push_waiting [OF demo_node_inv n(1,2) new _ _ this] have "length (waiting a') = 2"
    using demo_frame_count by (simp add: n requests_def wire_frames_def)
  then have tss: "length [10, 20 :: int] = length (waiting a')" by simp
  have aw: "awaits demo_listener 0 (header 4 KindMessage16b 1234 node_id_anonymous (node_id demo_node))"
    by (simp add: awaits_def registered_def members_def demo_listener_eq header_def mk_def n)
  from publish_delivers [OF demo_node_inv n(1-3) _ pub _ demo_listener_inv(1) demo_listener_inv(2,3) aw tss]
  show ?thesis unfolding a' by (simp add: n demo_listener_eq delivered_view_def mtu_of_def mtu_classic_def)
qed

end
