(* ===== verification/CanGuarantees.thy ===== *)
theory CanGuarantees
  imports CanLink
begin

text \<open>
  The guarantees of a node on the bus: reception never panics and keeps the invariants, a
  collision of node-IDs is resolved, subscriptions are registered and removed, the poll keeps the
  invariants of both sides, and a session reassembles what the legacy transmitter cuts up.
\<close>



text \<open>C17: the occupancy of node-IDs.  A frame from any sender never panics, never fills the
  bitmap, and is ignored when its sender is anonymous or already known; otherwise the sender is
  marked (in the old bitmap or in a fresh one).  When the sender uses the local node-ID, the local
  node takes a valid one that nobody, the sender included, was seen to use, and has its filters
  reconfigured; otherwise it keeps its own.\<close>

theorem node_id_collision_resolved:
  assumes "occupancy_inv self" and "src = node_id_anonymous \<or> unat src < 128"
  shows "\<exists>self'. node_id_occupancy_update self src = Inr self' \<and> occupancy_inv self' \<and>
    (update_ignored self src \<longrightarrow> self' = self) \<and>
    (\<not> update_ignored self src \<longrightarrow>
       (occupied self' = insert (unat src) (occupied self) \<or> occupied self' = {0, unat src}) \<and>
       (if node_id self = src
        then unat (node_id self') < 128 \<and> unat (node_id self') \<notin> insert (unat src) (occupied self) \<and>
             rx_filters_dirty self' \<and> err_collision self' = err_collision self + 1
        else node_id self' = node_id self))"
  by (rule occupancy_update_spec [OF assms])

theorem node_id_collision_resolved_witness:
  "\<exists>self'. node_id_occupancy_update demo_listener 7 = Inr self' \<and> unat (node_id self') < 128 \<and>
     unat (node_id self') \<notin> {0, 7}"
proof -
  have o: "occupied demo_listener = {0}" by (simp add: occupied_def demo_listener_eq bitmap_bits_reset)
  have "\<not> update_ignored demo_listener 7" by (simp add: update_ignored_def node_id_anonymous_def demo_listener_eq)
  with node_id_collision_resolved [of demo_listener 7] demo_listener_inv(2) show ?thesis
    by (fastforce simp: demo_listener_eq o insert_commute)
qed

text \<open>Subscribing an object that is not in use keeps the invariants and leaves the other kinds
  alone; the result is the subscription registered for the port: the new one, or the one that was
  there before.\<close>

theorem subscribe_registers:
  assumes "rx_inv room self" and "unregistered self b" and "0 < extent"
    and "rx_subscribe self b k port seed extent timeout vtable_ok = (self', r)"
  shows "rx_inv room self' \<and>
    (\<forall>k'. k' \<noteq> k \<longrightarrow> registered self' k' = registered self k') \<and>
    (vtable_ok \<and> timeout \<ge> 0 \<longrightarrow>
      (case r of None \<Rightarrow> False
       | Some c \<Rightarrow> c \<in> registered self' k \<and> sub_port_id (rx_subs self' c) = port \<and>
           registered self' k = insert c (registered self k) \<and> (c \<noteq> b \<longrightarrow> c \<in> registered self k)))"
  by (rule rx_subscribe_inv [OF assms])

theorem subscribe_registers_witness:
  "rx_inv 0 (fst (rx_subscribe demo_listener 1 KindMessage16b 99 crc_initial 8 0 True))"
proof -
  have "unregistered demo_listener 1" by (simp add: unregistered_def registered_def demo_listener_eq mk_def)
  with subscribe_registers [OF demo_listener_inv(1) this, of 8 KindMessage16b 99 crc_initial 0 True]
  show ?thesis by (metis prod.collapse zero_less_numeral)
qed





text \<open>C20: legacy reassembly.  A session that admits the first frame of a legacy transfer is fed the
  frames that the transmitter cuts from a payload and delivers exactly once: with the time of the
  first frame and the payload, cut to the extent of the subscription if it took several frames.\<close>

theorem legacy_session_reassembles:
  assumes "ses_owner (rx_sessions self s) = b" and "kind_version (sub_kind (rx_subs self b)) = 0"
    and "length (ses_slots (rx_sessions self s)) = prio_count" and "fr_priority hdr < 8"
    and "rx_session_solve_admission (rx_subs self b) (rx_sessions self s) ts (fr_priority hdr) True
       False (tid AND 31) iface = Inr True"
    and "iface_mask iface = iface"
    and "0 \<le> sub_extent (rx_subs self b)" and "sub_extent (rx_subs self b) + 2 < 2 ^ 32"
    and "length payload + 2 < 2 ^ 32"
    and "length (ts # tss) = length (transfer_frames_v0 (sub_crc_seed (rx_subs self b)) tid payload)"
  shows "\<exists>self'. rx_run self b s iface (zip (ts # tss) (map (frame_of hdr)
      (transfer_frames_v0 (sub_crc_seed (rx_subs self b)) tid payload))) = Inr self' \<and>
    rx_deliveries self' = rx_deliveries self @
      [\<lparr>dv_subscription = b, dv_timestamp = ts, dv_priority = fr_priority hdr, dv_source = fr_src hdr,
        dv_transfer_id = tid AND 31, dv_payload = delivered_view (sub_extent (rx_subs self b)) 8 payload\<rparr>]"
  using rx_run_v0 [OF assms(1) refl assms(2-4) refl assms(5-10)]
  by (simp add: reassembled_def deliver_def set_session_def moved_to_tail_def)

definition demo_legacy :: canard where
  "demo_legacy = canard_zero\<lparr>rx_subs := (\<lambda>b. subscription_zero\<lparr>sub_kind := KindV0Message, sub_extent := 16, sub_crc_seed := 0xF258\<rparr>),
     rx_sessions := (\<lambda>s. rx_session_zero\<lparr>ses_last_admission_ts := big_bang\<rparr>)\<rparr>"

theorem legacy_session_reassembles_witness:
  "\<exists>self'. rx_run demo_legacy 0 0 0 (zip [10, 20] (map (frame_of (header 4 KindV0Message 341 255 42))
      (transfer_frames_v0 0xF258 5 demo_payload))) = Inr self' \<and> length (rx_deliveries self') = 1"
proof -
  have l: "length (transfer_frames_v0 0xF258 5 demo_payload) = 2"
    by (simp add: length_transfer_frames_v0 tx_predict_frame_count_def mtu_classic_def crc_bytes_def)
  have v: "ses_owner (rx_sessions demo_legacy 0) = 0" "kind_version (sub_kind (rx_subs demo_legacy 0)) = 0"
    "length (ses_slots (rx_sessions demo_legacy 0)) = prio_count" "sub_extent (rx_subs demo_legacy 0) = 16"
    "sub_crc_seed (rx_subs demo_legacy 0) = 0xF258" "rx_deliveries demo_legacy = []"
    by (simp_all add: demo_legacy_def canard_zero_def subscription_zero_def rx_session_zero_def kind_version_def)
  have adm: "rx_session_solve_admission (rx_subs demo_legacy 0) (rx_sessions demo_legacy 0) 10 4 True False (5 AND 31) 0 = Inr True"
    by (simp add: rx_session_solve_admission_def Let_def demo_legacy_def subscription_zero_def rx_session_zero_def big_bang_def)
  from legacy_session_reassembles [of demo_legacy 0 0 "header 4 KindV0Message 341 255 42" 10 5 0 demo_payload "[20]"] adm l v
  show ?thesis by (auto simp: header_def iface_mask_def)
qed

end
