(* ===== verification/CyTypes.thy ===== *)
theory CyTypes
  imports CanPrelude
begin

unbundle bit_operations_syntax

text \<open>
  \<open>cy/types.go\<close>: the error codes, the clock, the log-age, the primality test, and the layout
  of the subject identifiers (pinned, allocated, gossip shards, broadcast) that the session layer
  of Cyphal v1.1 computes from the subject-ID modulus of the network.

  \<open>Microsecond\<close> is a signed 64-bit integer: here a 64-bit word compared with the signed
  comparisons of the library. A log-age is an \<open>int8\<close> or \<open>int32\<close> of the code on which nothing
  that could wrap is ever computed, so it is an integer.
\<close>

subsection \<open>Error codes\<close>

datatype cy_error = OK | ErrArgument | ErrMemory | ErrCapacity | ErrName | ErrMedia | ErrLag
  | ErrDelivery | ErrLiveness | ErrNACK

text \<open>The code 1 is reserved, as in the enumeration of the code.\<close>

fun error_code :: "cy_error \<Rightarrow> int" where
  "error_code OK = 0"
| "error_code ErrArgument = 2"
| "error_code ErrMemory = 3"
| "error_code ErrCapacity = 4"
| "error_code ErrName = 5"
| "error_code ErrMedia = 6"
| "error_code ErrLag = 7"
| "error_code ErrDelivery = 8"
| "error_code ErrLiveness = 9"
| "error_code ErrNACK = 10"

definition error_string :: "int \<Rightarrow> string" where
  "error_string e =
    (if e = error_code OK then ''OK''
     else if e = error_code ErrArgument then ''invalid argument''
     else if e = error_code ErrMemory then ''memory allocation failed''
     else if e = error_code ErrCapacity then ''capacity exceeded''
     else if e = error_code ErrName then ''invalid name''
     else if e = error_code ErrMedia then ''media error''
     else if e = error_code ErrLag then ''scheduler lag''
     else if e = error_code ErrDelivery then ''delivery failed''
     else if e = error_code ErrLiveness then ''liveness timeout''
     else if e = error_code ErrNACK then ''explicitly rejected''
     else ''unknown error'')"

text \<open>A function of the code that returns a value and an error.\<close>

type_synonym 'a cy_result = "cy_error + 'a"

subsection \<open>The clock and the log-age\<close>

type_synonym microsecond = "64 word"
type_synonym lage = int

definition MEGA :: microsecond where "MEGA = 1000000"
definition KILO :: microsecond where "KILO = 1000"
definition LAGEMin :: lage where "LAGEMin = -1"
definition LAGEMax :: lage where "LAGEMax = 35"
definition gossip_period :: microsecond where "gossip_period = 5 * MEGA"
definition session_lifetime :: microsecond where "session_lifetime = 60 * 1000000"
definition session_counter_max_backward_lag :: u64 where "session_counter_max_backward_lag = 100000"

lemmas cy_time_consts = MEGA_def KILO_def LAGEMin_def LAGEMax_def gossip_period_def session_lifetime_def

text \<open>\<open>bits.LeadingZeros64\<close> of the standard library: 64 minus the length in bits.\<close>

fun bit_len :: "nat \<Rightarrow> nat" where
  "bit_len n = (if n = 0 then 0 else Suc (bit_len (n div 2)))"

declare bit_len.simps [simp del]

definition leading_zeros64 :: "u64 \<Rightarrow> int" where
  "leading_zeros64 x = 64 - int (bit_len (unat x))"

definition log2_floor :: "u64 \<Rightarrow> int" where
  "log2_floor x = 63 - leading_zeros64 x"

definition lage_to_us :: "lage \<Rightarrow> microsecond" where
  "lage_to_us l =
    (if l < 0 then 0
     else let clamped = (if l > LAGEMax then LAGEMax else l)
          in push_bit (nat clamped) 1 * MEGA)"

lemma bit_len_bounds: "n \<noteq> 0 \<Longrightarrow> 2 ^ (bit_len n - 1) \<le> n \<and> n < 2 ^ bit_len n \<and> 0 < bit_len n"
proof (induction n rule: bit_len.induct)
  case (1 n)
  show ?case
  proof (cases "n div 2 = 0")
    case True
    with "1.prems" have "n = 1" by simp
    then show ?thesis by (simp add: bit_len.simps)
  next
    case False
    with "1.IH" "1.prems" have ih: "2 ^ (bit_len (n div 2) - 1) \<le> n div 2" "n div 2 < 2 ^ bit_len (n div 2)"
        "0 < bit_len (n div 2)"
      by auto
    have len: "bit_len n = Suc (bit_len (n div 2))"
      using "1.prems" by (simp add: bit_len.simps [of n])
    obtain k where k: "bit_len (n div 2) = Suc k" using ih(3) gr0_implies_Suc by blast
    have lo: "2 ^ Suc k \<le> n" using ih(1) k by simp
    have hi: "n < 2 ^ Suc (Suc k)" using ih(2) k by simp
    from lo hi len k show ?thesis by simp
  qed
qed

lemma bit_len_le: "n < 2 ^ k \<Longrightarrow> bit_len n \<le> k"
proof (rule ccontr)
  assume a: "n < 2 ^ k" "\<not> bit_len n \<le> k"
  then have "n \<noteq> 0" by (metis bit_len.simps zero_le)
  then have "2 ^ (bit_len n - 1) \<le> n" using bit_len_bounds by blast
  moreover have "(2::nat) ^ k \<le> 2 ^ (bit_len n - 1)"
    using a by (intro power_increasing) auto
  ultimately show False using a by linarith
qed

lemma bit_len_mono: "m \<le> n \<Longrightarrow> bit_len m \<le> bit_len n"
  using bit_len_le [of m "bit_len n"] bit_len_bounds [of n] by (cases "n = 0") (auto simp: bit_len.simps)

lemma log2_floor_range: "-1 \<le> log2_floor x" "log2_floor x \<le> 63"
  using bit_len_le [of "unat x" 64] unsigned_less [where 'a = nat and w = x] by (auto simp: log2_floor_def leading_zeros64_def)

lemma log2_floor_zero: "log2_floor 0 = -1"
  by (simp add: log2_floor_def leading_zeros64_def bit_len.simps)

lemma log2_floor_mono: "x \<le> y \<Longrightarrow> log2_floor x \<le> log2_floor y"
  using bit_len_mono [of "unat x" "unat y"] by (simp add: log2_floor_def leading_zeros64_def word_le_nat_alt)

lemma log2_floor_bounds:
  assumes "x \<noteq> 0"
  shows "2 ^ nat (log2_floor x) \<le> unat x" "unat x < 2 ^ nat (log2_floor x + 1)" "0 \<le> log2_floor x"
proof -
  from assms have "unat x \<noteq> 0" by (simp add: unat_eq_zero)
  from bit_len_bounds [OF this] have b: "2 ^ (bit_len (unat x) - 1) \<le> unat x" "unat x < 2 ^ bit_len (unat x)"
    "0 < bit_len (unat x)" by auto
  have l: "log2_floor x = int (bit_len (unat x)) - 1"
    by (simp add: log2_floor_def leading_zeros64_def)
  with b(3) have "nat (log2_floor x) = bit_len (unat x) - 1" "nat (log2_floor x + 1) = bit_len (unat x)"
    by auto
  with b l show "2 ^ nat (log2_floor x) \<le> unat x" "unat x < 2 ^ nat (log2_floor x + 1)" "0 \<le> log2_floor x"
    by auto
qed

lemma log2_floor_eqI: "2 ^ k \<le> unat x \<Longrightarrow> unat x < 2 ^ Suc k \<Longrightarrow> log2_floor x = int k"
proof -
  assume a: "2 ^ k \<le> unat x" "unat x < 2 ^ Suc k"
  have "x \<noteq> 0" using a(1) by (metis not_one_le_zero one_le_power one_le_numeral order_trans unat_0)
  have u: "bit_len (unat x) \<le> Suc k" using a(2) by (rule bit_len_le)
  have "\<not> bit_len (unat x) \<le> k"
  proof
    assume "bit_len (unat x) \<le> k"
    then have "(2::nat) ^ bit_len (unat x) \<le> 2 ^ k" by (intro power_increasing) auto
    moreover have "unat x < 2 ^ bit_len (unat x)"
      using bit_len_bounds [of "unat x"] \<open>x \<noteq> 0\<close> by (simp add: unat_eq_zero)
    ultimately show False using a(1) by linarith
  qed
  with u show "log2_floor x = int k" by (simp add: log2_floor_def leading_zeros64_def)
qed

lemma lage_to_us_sint:
  "sint (lage_to_us l) = (if l < 0 then 0 else 2 ^ nat (min l LAGEMax) * 1000000)"
proof (cases "l < 0")
  case False
  define k where "k = nat (min l LAGEMax)"
  have k: "k \<le> 35" by (simp add: k_def LAGEMax_def)
  have le: "(2::nat) ^ k \<le> 2 ^ 35" using k by (intro power_increasing) auto
  then have small: "(2::nat) ^ k * 1000000 < 2 ^ 63" by auto
  have def': "lage_to_us l = word_of_nat (2 ^ k * 1000000)"
    using False by (auto simp: lage_to_us_def k_def min_def Let_def MEGA_def push_bit_eq_mult)
  have "unat (lage_to_us l) = 2 ^ k * 1000000"
    unfolding def' using small by (intro unat_of_nat_small) (simp add: power_numeral)
  then have u: "uint (lage_to_us l) = 2 ^ k * 1000000"
    by (metis int_ops(3) int_ops(7) of_nat_numeral of_nat_power uint_nat)
  have "int (2 ^ k * 1000000) < int (2 ^ 63)" using small by linarith
  then have "(2::int) ^ k * 1000000 < 2 ^ 63" by simp
  then have "sint (lage_to_us l) = uint (lage_to_us l)"
    unfolding sint_uint u by (intro signed_take_bit_int_eq_self) (auto intro: order_trans [of _ 0])
  with u False show ?thesis by (simp add: k_def)
qed (simp add: lage_to_us_def)

subsection \<open>Primality\<close>

text \<open>The trial divisions of \<open>IsPrimeU32\<close>: \<open>d\<close> stays below \<open>2\<^sup>1\<^sup>6 + 1\<close> because \<open>d \<le> n / d\<close>.\<close>

lemma trial_divisor_small:
  fixes d n :: u32
  assumes "d \<le> n div d"
  shows "unat d < 65536"
proof (rule ccontr)
  assume "\<not> ?thesis"
  then have d: "65536 \<le> unat d" by simp
  have "unat d \<le> unat n div unat d"
    using assms by (simp add: word_le_nat_alt unat_div_distrib)
  also have "\<dots> \<le> unat n div 65536" using d by (intro div_le_mono2) auto
  also have "\<dots> < 65536" using unsigned_less [where 'a = nat and w = n] by (simp add: less_mult_imp_div_less)
  finally show False using d by simp
qed

function is_prime_loop :: "u32 \<Rightarrow> u32 \<Rightarrow> bool" where
  "is_prime_loop n d =
    (if d \<le> n div d then (if n mod d = 0 then False else is_prime_loop n (d + 2)) else True)"
  by auto
termination
proof (relation "measure (\<lambda>(n, d). 70000 - unat d)")
  fix n d :: u32
  assume "d \<le> n div d"
  then have "unat d < 65536" by (rule trial_divisor_small)
  then have "unat (d + 2) = unat d + 2" by (simp add: unat_word_ariths)
  with \<open>unat d < 65536\<close> show "((n, d + 2), n, d) \<in> measure (\<lambda>(n, d). 70000 - unat d)" by simp
qed simp

declare is_prime_loop.simps [simp del]

definition is_prime_u32 :: "u32 \<Rightarrow> bool" where
  "is_prime_u32 n =
    (if n \<le> 2 then n = 2
     else if n AND 1 = 0 then False
     else is_prime_loop n 3)"

text \<open>The mathematical notion.\<close>

definition prime_number :: "nat \<Rightarrow> bool" where
  "prime_number p \<longleftrightarrow> 1 < p \<and> (\<forall>d. d dvd p \<longrightarrow> d = 1 \<or> d = p)"

lemma prime_number_dvd_mult:
  assumes "prime_number p" "p dvd a * b"
  shows "p dvd a \<or> p dvd b"
proof (cases "p dvd a")
  case False
  have "gcd p a dvd p" by simp
  with assms(1) have "gcd p a = 1 \<or> gcd p a = p" by (simp add: prime_number_def)
  moreover have "gcd p a \<noteq> p" using False by (metis gcd_dvd2)
  ultimately have "coprime p a" by (simp add: coprime_iff_gcd_eq_1)
  with assms(2) show ?thesis by (simp add: coprime_dvd_mult_right_iff)
qed simp

lemma is_prime_loop_iff:
  assumes "0 < unat d"
  shows "is_prime_loop n d \<longleftrightarrow> (\<forall>k. \<not> ((unat d + 2 * k) ^ 2 \<le> unat n \<and> (unat d + 2 * k) dvd unat n))"
  using assms
proof (induction n d rule: is_prime_loop.induct)
  case (1 n d)
  have le: "d \<le> n div d \<longleftrightarrow> (unat d) ^ 2 \<le> unat n"
    using "1.prems" by (simp add: word_le_nat_alt unat_div_distrib less_eq_div_iff_mult_less_eq power2_eq_square)
  have dv: "n mod d = 0 \<longleftrightarrow> unat d dvd unat n"
    by (metis dvd_eq_mod_eq_0 unat_eq_zero unat_mod_distrib)
  show ?case
  proof (cases "d \<le> n div d")
    case False
    then have "\<not> (unat d + 2 * k) ^ 2 \<le> unat n" for k
      using le by (meson le_add1 order_trans power_mono zero_le)
    with False show ?thesis by (simp add: is_prime_loop.simps [of n d])
  next
    case True
    show ?thesis
    proof (cases "n mod d = 0")
      case c: True
      have "\<exists>k. (unat d + 2 * k) ^ 2 \<le> unat n \<and> (unat d + 2 * k) dvd unat n"
        using True c le dv by (intro exI [of _ 0]) simp
      with True c show ?thesis by (auto simp: is_prime_loop.simps [of n d])
    next
      case c: False
      have s: "unat (d + 2) = unat d + 2"
        using trial_divisor_small [OF True] by (simp add: unat_word_ariths)
      have r: "is_prime_loop n d = is_prime_loop n (d + 2)"
        using True c by (simp add: is_prime_loop.simps [of n d])
      show ?thesis
      proof -
        have "(\<forall>k. \<not> ((unat d + 2 * k) ^ 2 \<le> unat n \<and> (unat d + 2 * k) dvd unat n))
          \<longleftrightarrow> (\<forall>k. \<not> ((unat (d + 2) + 2 * k) ^ 2 \<le> unat n \<and> (unat (d + 2) + 2 * k) dvd unat n))"
          (is "?L \<longleftrightarrow> ?R")
        proof
          assume ?L
          show ?R
          proof
            fix k
            show "\<not> ((unat (d + 2) + 2 * k) ^ 2 \<le> unat n \<and> (unat (d + 2) + 2 * k) dvd unat n)"
              using \<open>?L\<close> [rule_format, of "Suc k"] by (simp add: s algebra_simps)
          qed
        next
          assume R: ?R
          show ?L
          proof
            fix k
            show "\<not> ((unat d + 2 * k) ^ 2 \<le> unat n \<and> (unat d + 2 * k) dvd unat n)"
            proof (cases k)
              case 0
              then show ?thesis using c dv by simp
            next
              case (Suc j)
              then show ?thesis using R [rule_format, of j] by (simp add: s algebra_simps)
            qed
          qed
        qed
        with r "1.IH" [OF True c] s show ?thesis by simp
      qed
    qed
  qed
qed

lemma composite_small_divisor:
  fixes n :: nat
  assumes "1 < n" "\<not> prime_number n"
  obtains d where "d dvd n" "1 < d" "d ^ 2 \<le> n"
proof -
  from assms obtain d where d: "d dvd n" "d \<noteq> 1" "d \<noteq> n" by (auto simp: prime_number_def)
  then obtain e where e: "n = d * e" by (auto elim: dvdE)
  with assms d have "1 < d" "1 < e" by (auto intro!: Suc_lessI intro: gr0I)
  show ?thesis
  proof (cases "d \<le> e")
    case True
    with e d \<open>1 < d\<close> that [of d] show ?thesis by (simp add: power2_eq_square)
  next
    case False
    with e \<open>1 < e\<close> that [of e] show ?thesis by (simp add: power2_eq_square)
  qed
qed

lemma is_prime_u32_iff: "is_prime_u32 n \<longleftrightarrow> prime_number (unat n)"
proof (cases "n \<le> 2")
  case True
  then have "unat n \<le> 2" by (simp add: word_le_nat_alt)
  then consider "unat n = 0" | "unat n = 1" | "unat n = 2" by linarith
  then show ?thesis
  proof cases
    case 3
    have "d = 1 \<or> d = 2" if "d dvd 2" for d :: nat
    proof -
      have "d \<noteq> 0" using that by (metis dvd_0_left_iff zero_neq_numeral)
      moreover have "d \<le> 2" using that by (rule dvd_imp_le) simp
      ultimately show ?thesis by linarith
    qed
    then have two: "prime_number 2" by (simp add: prime_number_def)
    have "n = 2" using 3 by (simp add: word_unat_eq_iff)
    with two show ?thesis by (simp add: is_prime_u32_def)
  next
    case 1
    then have "n = 0" by (simp add: word_unat_eq_iff)
    then show ?thesis by (simp add: is_prime_u32_def prime_number_def)
  next
    case 2
    then have "n = 1" by (simp add: word_unat_eq_iff)
    then show ?thesis by (simp add: is_prime_u32_def prime_number_def)
  qed
next
  case False
  then have big: "2 < unat n" by (simp add: word_le_nat_alt)
  have ev: "n AND 1 = 0 \<longleftrightarrow> even (unat n)"
  proof -
    have "unat (n mod 2) = unat n mod 2" by (simp add: unat_mod_distrib)
    then show ?thesis
      unfolding and_one_eq by (metis dvd_eq_mod_eq_0 unat_eq_zero)
  qed
  show ?thesis
  proof (cases "even (unat n)")
    case True
    then have "\<not> prime_number (unat n)" using big by (auto simp: prime_number_def)
    with True False ev show ?thesis by (simp add: is_prime_u32_def)
  next
    case odd: False
    have "is_prime_loop n 3 \<longleftrightarrow> prime_number (unat n)"
    proof
      assume l: "is_prime_loop n 3"
      show "prime_number (unat n)"
      proof (rule ccontr)
        assume "\<not> ?thesis"
        then obtain d where d: "d dvd unat n" "1 < d" "d ^ 2 \<le> unat n"
          using big composite_small_divisor [of "unat n"] by auto
        have "odd d" using d(1) odd by (meson dvd_trans)
        then obtain k where k: "d = 3 + 2 * k"
          using d(2) by (metis add.commute add_2_eq_Suc' add_Suc_right diff_add even_Suc le_add_diff_inverse numeral_3_eq_3 odd_two_times_div_two_succ oddE One_nat_def Suc_eq_plus1 Suc_lessE mult_Suc_right nat_less_le less_one linorder_not_less mult_is_0 plus_1_eq_Suc)
        with l d show False by (simp add: is_prime_loop_iff)
      qed
    next
      assume p: "prime_number (unat n)"
      show "is_prime_loop n 3"
      proof (subst is_prime_loop_iff)
        show "\<forall>k. \<not> ((unat (3 :: u32) + 2 * k) ^ 2 \<le> unat n \<and> (unat (3 :: u32) + 2 * k) dvd unat n)"
        proof (intro allI notI)
          fix k
          assume a: "(unat (3 :: u32) + 2 * k) ^ 2 \<le> unat n \<and> (unat (3 :: u32) + 2 * k) dvd unat n"
          with p have "unat (3 :: u32) + 2 * k = unat n" by (auto simp: prime_number_def)
          with a big show False by (auto simp: power2_eq_square)
        qed
      qed simp
    qed
    with odd False ev show ?thesis by (simp add: is_prime_u32_def)
  qed
qed

subsection \<open>The layout of the subject identifiers\<close>

definition subject_id_pinned_max :: u32 where "subject_id_pinned_max = 0x1FFF"
definition subject_id_modulus_16bit :: u32 where "subject_id_modulus_16bit = 57203"
definition subject_id_modulus_23bit :: u32 where "subject_id_modulus_23bit = 8378431"
definition subject_id_modulus_32bit :: u32 where "subject_id_modulus_32bit = 4294954663"
definition evictions_pinned_min :: u32 where "evictions_pinned_min = NOT subject_id_pinned_max"

lemmas cy_id_consts = subject_id_pinned_max_def subject_id_modulus_16bit_def evictions_pinned_min_def

definition cy_subject_id_max :: "u32 \<Rightarrow> u32" where
  "cy_subject_id_max modulus = subject_id_pinned_max + modulus"

text \<open>
  \<open>uint32(1) << k\<close> with \<open>k = uint8(Log2Floor(...) + 1)\<close>: a Go shift by the whole width gives 0,
  as \<open>push_bit\<close> does.
\<close>

definition broadcast_subject_id :: "u32 \<Rightarrow> u32" where
  "broadcast_subject_id modulus =
    (let max_subject_id = cy_subject_id_max modulus
     in push_bit (nat (log2_floor (ucast max_subject_id) + 1)) 1 - 1)"

definition gossip_shard_count :: "u32 \<Rightarrow> u32" where
  "gossip_shard_count modulus = broadcast_subject_id modulus - (cy_subject_id_max modulus + 1)"

definition is_valid_subject_id_modulus :: "u32 \<Rightarrow> bool" where
  "is_valid_subject_id_modulus modulus =
    (if modulus < subject_id_modulus_16bit
        \<or> modulus > NOT 0 - subject_id_pinned_max
        \<or> \<not> is_prime_u32 modulus
        \<or> modulus mod 4 \<noteq> 3 then False
     else
       let broadcast = broadcast_subject_id modulus;
           shard_min = cy_subject_id_max modulus + 1
       in if broadcast \<le> shard_min then False
          else broadcast - shard_min < modulus)"

lemma pinned_max_unat: "unat subject_id_pinned_max = 8191"
  by (simp add: subject_id_pinned_max_def)

lemma evictions_pinned_min_unat: "unat evictions_pinned_min = 4294959104"
  by (simp add: evictions_pinned_min_def subject_id_pinned_max_def)

lemma valid_modulus_prime: "is_valid_subject_id_modulus m \<Longrightarrow> prime_number (unat m)"
  by (auto simp: is_valid_subject_id_modulus_def is_prime_u32_iff split: if_splits)

lemma valid_modulus_bounds:
  assumes "is_valid_subject_id_modulus m"
  shows "57203 \<le> unat m" "unat m \<le> 4294959104" "unat m mod 4 = 3"
proof -
  from assms have "subject_id_modulus_16bit \<le> m" "m \<le> NOT 0 - subject_id_pinned_max" "m mod 4 = 3"
    by (auto simp: is_valid_subject_id_modulus_def split: if_splits)
  then show "57203 \<le> unat m" "unat m \<le> 4294959104"
    by (simp_all add: word_le_nat_alt subject_id_modulus_16bit_def subject_id_pinned_max_def)
  have "unat (m mod 4) = unat m mod 4" by (simp add: unat_mod_distrib)
  with \<open>m mod 4 = 3\<close> show "unat m mod 4 = 3" by simp
qed

lemma valid_modulus_pos: "is_valid_subject_id_modulus m \<Longrightarrow> 0 < unat m"
  using valid_modulus_bounds by fastforce

lemma cy_subject_id_max_unat: "is_valid_subject_id_modulus m \<Longrightarrow> unat (cy_subject_id_max m) = 8191 + unat m"
  using valid_modulus_bounds [of m] by (simp add: cy_subject_id_max_def subject_id_pinned_max_def unat_word_ariths)

text \<open>The identifiers of the gossip shards lie between the allocated ones and the broadcast one.\<close>

lemma shards_fit:
  assumes "is_valid_subject_id_modulus m"
  shows "unat (cy_subject_id_max m) + 1 < unat (broadcast_subject_id m)"
    and "0 < unat (gossip_shard_count m)"
    and "unat (cy_subject_id_max m) + 1 + unat (gossip_shard_count m) = unat (broadcast_subject_id m)"
proof -
  have c: "unat (cy_subject_id_max m + 1) = unat (cy_subject_id_max m) + 1"
  proof -
    have "unat m \<noteq> 4294959104" using valid_modulus_bounds(3) [OF assms] by auto
    then show ?thesis
      using cy_subject_id_max_unat [OF assms] valid_modulus_bounds [OF assms] by (simp add: unat_word_ariths)
  qed
  have l: "cy_subject_id_max m + 1 < broadcast_subject_id m"
    using assms by (auto simp: is_valid_subject_id_modulus_def Let_def split: if_splits)
  then show 1: "unat (cy_subject_id_max m) + 1 < unat (broadcast_subject_id m)"
    using c by (simp add: word_less_nat_alt)
  have s: "unat (gossip_shard_count m) = unat (broadcast_subject_id m) - (unat (cy_subject_id_max m) + 1)"
    using l c by (simp add: gossip_shard_count_def unat_sub)
  show "0 < unat (gossip_shard_count m)" using s 1 by simp
  show "unat (cy_subject_id_max m) + 1 + unat (gossip_shard_count m) = unat (broadcast_subject_id m)"
    using s 1 by simp
qed

lemma default_modulus_valid: "is_valid_subject_id_modulus subject_id_modulus_16bit"
proof -
  have p: "is_prime_u32 57203" by (simp add: is_prime_u32_def is_prime_loop.simps)
  have l: "log2_floor 65394 = 15" by (rule log2_floor_eqI [of 15, simplified]) simp_all
  show ?thesis
    using p l
    by (simp add: is_valid_subject_id_modulus_def subject_id_modulus_16bit_def cy_subject_id_max_def
        subject_id_pinned_max_def broadcast_subject_id_def Let_def)
qed

end
