(* ===== verification/CySubject.thy ===== *)
theory CySubject
  imports CyTypes
begin

text \<open>
  The subject identifier of a topic (\<open>ComputeSubjectID\<close> and \<open>isPinned\<close> of \<open>cy/topic.go\<close>,
  \<open>shardSubjectFor\<close> of \<open>cy/gossip.go\<close>): quadratic probing of the hash of the name by the eviction
  counter, modulo a prime.
\<close>

subsection \<open>The computations of the code\<close>

definition is_pinned :: "u32 \<Rightarrow> bool" where
  "is_pinned evictions \<longleftrightarrow> evictions \<ge> evictions_pinned_min"

text \<open>A modulus of 0 is an integer division by zero, a panic.\<close>

definition compute_subject_id :: "u64 \<Rightarrow> u32 \<Rightarrow> u32 \<Rightarrow> go_panic + u32" where
  "compute_subject_id hash evictions modulus =
    (if modulus = 0 then Inl DivideByZero
     else
       let hash_mod = hash mod ucast modulus;
           evict_mod = (ucast evictions :: u64) mod ucast modulus;
           probe = (hash_mod + (evict_mod * evict_mod) mod ucast modulus) mod ucast modulus
       in Inr (subject_id_pinned_max + 1 + ucast probe))"

definition shard_subject_for :: "u32 \<Rightarrow> u32 \<Rightarrow> u32 \<Rightarrow> u64 \<Rightarrow> u32" where
  "shard_subject_for shard_count broadcast modulus hash =
    (if shard_count = 0 then broadcast
     else cy_subject_id_max modulus + 1 + ucast (hash mod ucast shard_count))"

subsection \<open>As arithmetic\<close>

lemma unat_ucast_32_64: "unat (ucast (x :: u32) :: u64) = unat x"
  by (simp add: unat_ucast_up)

lemma unat_ucast_64_32: "unat (x :: u64) < 2 ^ 32 \<Longrightarrow> unat (ucast x :: u32) = unat x"
  by (simp add: unsigned_ucast_eq take_bit_nat_eq_self)

lemma probe_unat:
  assumes "modulus \<noteq> (0 :: u32)"
  shows "unat ((hash mod ucast modulus + (ucast (e :: u32) mod ucast modulus * (ucast e mod ucast modulus)) mod ucast modulus)
      mod ucast modulus :: u64) = (unat hash + unat e ^ 2) mod unat modulus"
    (is "unat ?p = _")
proof -
  define m where "m = unat modulus"
  have m: "0 < m" "m < 2 ^ 32"
    using assms unsigned_less [where 'a = nat and w = modulus] by (auto simp: m_def unat_gt_0)
  have h: "unat (hash mod ucast modulus :: u64) = unat hash mod m"
    by (simp add: unat_mod_distrib unat_ucast_32_64 m_def)
  have e: "unat (ucast e mod ucast modulus :: u64) = unat e mod m"
    by (simp add: unat_mod_distrib unat_ucast_32_64 m_def)
  have small: "unat e mod m < 2 ^ 32" "unat hash mod m < 2 ^ 32"
    using m by (meson mod_less_divisor order_less_trans)+
  have "(unat e mod m) * (unat e mod m) < 2 ^ 32 * 2 ^ 32"
    using small(1) by (intro mult_strict_mono) auto
  then have q: "unat ((ucast e mod ucast modulus) * (ucast e mod ucast modulus) :: u64) = (unat e mod m) * (unat e mod m)"
    using e by (simp add: unat_mult_lem [THEN iffD1])
  have qm: "unat (((ucast e mod ucast modulus) * (ucast e mod ucast modulus)) mod ucast modulus :: u64)
      = ((unat e mod m) * (unat e mod m)) mod m"
    using q by (simp add: unat_mod_distrib unat_ucast_32_64 m_def)
  have "((unat e mod m) * (unat e mod m)) mod m < 2 ^ 32" using m by (meson mod_less_divisor order_less_trans)
  then have "unat hash mod m + ((unat e mod m) * (unat e mod m)) mod m < 2 ^ 64" using small by simp
  then have s: "unat (hash mod ucast modulus + ((ucast e mod ucast modulus) * (ucast e mod ucast modulus)) mod ucast modulus :: u64)
      = unat hash mod m + ((unat e mod m) * (unat e mod m)) mod m"
    using h qm by (simp add: unat_add_lem [THEN iffD1])
  have "unat ?p = (unat hash mod m + ((unat e mod m) * (unat e mod m)) mod m) mod m"
    using s by (simp add: unat_mod_distrib unat_ucast_32_64 m_def)
  also have "\<dots> = (unat hash + unat e ^ 2) mod m"
    by (simp add: mod_simps power2_eq_square)
  finally show ?thesis by (simp add: m_def)
qed

definition probe :: "nat \<Rightarrow> nat \<Rightarrow> nat \<Rightarrow> nat" where
  "probe m h e = 8192 + (h + e ^ 2) mod m"

lemma compute_subject_id_probe:
  assumes "is_valid_subject_id_modulus m"
  shows "\<exists>s. compute_subject_id h e m = Inr s \<and> unat s = probe (unat m) (unat h) (unat e)"
proof -
  have m: "m \<noteq> 0" "unat m \<le> 4294959104"
    using valid_modulus_pos [OF assms] valid_modulus_bounds [OF assms] by auto
  let ?p = "(h mod ucast m + (ucast e mod ucast m * (ucast e mod ucast m)) mod ucast m) mod ucast m :: u64"
  have p: "unat ?p = (unat h + unat e ^ 2) mod unat m" by (rule probe_unat [OF m(1)])
  have less: "(unat h + unat e ^ 2) mod unat m < unat m" using m by (simp add: unat_gt_0)
  then have c: "unat (ucast ?p :: u32) = (unat h + unat e ^ 2) mod unat m"
    using p unsigned_less [where 'a = nat and w = m] by (subst unat_ucast_64_32) auto
  have "unat (subject_id_pinned_max + 1 + ucast ?p :: u32) = 8192 + unat (ucast ?p :: u32)"
    using c less m(2) by (simp add: subject_id_pinned_max_def unat_word_ariths)
  with c m(1) show ?thesis by (simp add: compute_subject_id_def probe_def Let_def)
qed

lemma compute_subject_id_eq_probe:
  assumes "is_valid_subject_id_modulus m" "compute_subject_id h e m = Inr s"
  shows "unat s = probe (unat m) (unat h) (unat e)"
  using compute_subject_id_probe [OF assms(1), of h e] assms(2) by auto

lemma probe_bounds: "0 < m \<Longrightarrow> 8192 \<le> probe m h e \<and> probe m h e < 8192 + m"
  by (simp add: probe_def)

subsection \<open>Quadratic probing modulo a prime\<close>

lemma square_diff: "(i :: nat) \<le> j \<Longrightarrow> j ^ 2 - i ^ 2 = (j - i) * (j + i)"
  by (simp add: power2_eq_square algebra_simps diff_mult_distrib2 diff_mult_distrib)

lemma probe_inj_step:
  assumes "prime_number m" "i \<le> j" "i + j < m" "probe m h i = probe m h j"
  shows "i = j"
proof (rule ccontr)
  assume ne: "i \<noteq> j"
  have "(h + i ^ 2) mod m = (h + j ^ 2) mod m" using assms(4) by (simp add: probe_def)
  then have "m dvd (h + j ^ 2) - (h + i ^ 2)"
    using assms(2) by (intro mod_eq_dvd_iff_nat [THEN iffD1]) (auto simp: power_mono)
  then have "m dvd (j - i) * (j + i)" using square_diff [OF assms(2)] by simp
  then have "m dvd j - i \<or> m dvd j + i" by (rule prime_number_dvd_mult [OF assms(1)])
  moreover have "\<not> m dvd j - i" using ne assms(2, 3) by (auto dest: dvd_imp_le)
  moreover have "\<not> m dvd j + i" using ne assms(2, 3) by (auto dest: dvd_imp_le)
  ultimately show False by blast
qed

lemma probe_inj:
  assumes "prime_number m" "2 * i < m" "2 * j < m" "probe m h i = probe m h j"
  shows "i = j"
proof (cases "i \<le> j")
  case True
  with assms show ?thesis by (intro probe_inj_step [of m i j h]) auto
next
  case False
  with assms have "j = i" by (intro probe_inj_step [of m j i h]) auto
  then show ?thesis by simp
qed

lemma probe_mod: "probe m h (e mod m) = probe m h e"
  unfolding probe_def by (metis mod_add_right_eq power_mod)

lemma probe_mirror: "e \<le> m \<Longrightarrow> probe m h (m - e) = probe m h e"
proof -
  assume "e \<le> m"
  then obtain k where k: "m = e + k" using le_Suc_ex by blast
  have "(h + k ^ 2) mod m = (h + e ^ 2) mod m"
  proof -
    have "h + k ^ 2 + m * (2 * e) = h + e ^ 2 + m * m" using k by (simp add: power2_eq_square algebra_simps)
    then show ?thesis by (metis mod_mult_self2)
  qed
  with k show ?thesis by (simp add: probe_def)
qed

text \<open>The first half of the counters reaches everything that any counter reaches.\<close>

lemma probe_half:
  assumes "odd m"
  obtains i where "2 * i < m" "probe m h i = probe m h e"
proof (cases "2 * (e mod m) < m")
  case True
  then show ?thesis using that [of "e mod m"] probe_mod by simp
next
  case False
  have "e mod m < m" using assms by (intro mod_less_divisor) (auto simp: odd_pos)
  obtain r where r: "r = e mod m" by blast
  obtain k where "m = 2 * k + 1" using assms by (rule oddE)
  moreover from this have "k + 1 \<le> r" using False unfolding r [symmetric] by presburger
  ultimately have "2 * (m - r) < m" by simp
  then have "2 * (m - e mod m) < m" unfolding r .
  with that [of "m - e mod m"] \<open>e mod m < m\<close> show ?thesis
    using probe_mirror [of "e mod m" m h] probe_mod [of m h e] by simp
qed

text \<open>What the counters of the allocated topics reach: \<open>(m + 1) / 2\<close> identifiers, not all \<open>m\<close>.\<close>

lemma probe_range_card:
  assumes "prime_number m" "odd m" "m \<le> 2 * n"
  shows "card {probe m h e | e. e < n} = (m + 1) div 2"
proof -
  let ?H = "{i. 2 * i < m}"
  have H: "?H = {..<(m + 1) div 2}" using assms(2) by (auto elim!: oddE)
  have "{probe m h e | e. e < n} = probe m h ` ?H"
  proof (intro equalityI subsetI)
    fix s assume "s \<in> {probe m h e | e. e < n}"
    then obtain e where "s = probe m h e" by blast
    moreover obtain i where "2 * i < m" "probe m h i = probe m h e" by (rule probe_half [OF assms(2)])
    ultimately show "s \<in> probe m h ` ?H" by (auto intro!: image_eqI [of _ _ i])
  next
    fix s assume "s \<in> probe m h ` ?H"
    then obtain i where "2 * i < m" "s = probe m h i" by auto
    with assms(3) show "s \<in> {probe m h e | e. e < n}" by (auto intro!: exI [of _ i])
  qed
  moreover have "inj_on (probe m h) ?H" using probe_inj [OF assms(1)] by (auto intro!: inj_onI)
  ultimately show ?thesis using H by (simp add: card_image)
qed

lemma valid_modulus_odd: "is_valid_subject_id_modulus m \<Longrightarrow> odd (unat m)"
  using valid_modulus_bounds(3) [of m] by presburger

text \<open>C24: For a subject-ID modulus that passes the validation, every allocated subject identifier
  lies above the pinned range and within the maximum, is never that of a gossip shard or of the
  broadcast subject, and the computation does not panic. The eviction counters of an unpinned topic
  reach exactly \<open>(modulus + 1) / 2\<close> identifiers, and the first \<open>(modulus + 1) / 2\<close> counters reach
  pairwise different ones, so that a topic evicted that often has tried everything it ever will
  (the comment of the code says that the probing covers all residues; it covers half of them).\<close>
theorem quadratic_probing:
  assumes "is_valid_subject_id_modulus m"
  shows "\<exists>sid. (\<forall>e. compute_subject_id h e m = Inr (sid e))
    \<and> (\<forall>e. subject_id_pinned_max < sid e \<and> sid e \<le> cy_subject_id_max m)
    \<and> (\<forall>e k. sid e < shard_subject_for (gossip_shard_count m) (broadcast_subject_id m) m k
         \<and> shard_subject_for (gossip_shard_count m) (broadcast_subject_id m) m k < broadcast_subject_id m)
    \<and> card {sid e | e. \<not> is_pinned e} = (unat m + 1) div 2
    \<and> inj_on sid {e. unat e < (unat m + 1) div 2}"
proof -
  define sid where "sid e = (case compute_subject_id h e m of Inr s \<Rightarrow> s | Inl _ \<Rightarrow> 0)" for e
  have sid: "compute_subject_id h e m = Inr (sid e)" "unat (sid e) = probe (unat m) (unat h) (unat e)" for e
    using compute_subject_id_probe [OF assms, of h e] by (auto simp: sid_def)
  note pos = valid_modulus_pos [OF assms] and odd = valid_modulus_odd [OF assms]
    and prime = valid_modulus_prime [OF assms]
  have range: "subject_id_pinned_max < sid e \<and> sid e \<le> cy_subject_id_max m" for e
    using probe_bounds [OF pos, of "unat h" "unat e"]
    by (simp add: word_less_nat_alt word_le_nat_alt sid(2) pinned_max_unat cy_subject_id_max_unat [OF assms])
  have shard: "sid e < shard_subject_for (gossip_shard_count m) (broadcast_subject_id m) m k
      \<and> shard_subject_for (gossip_shard_count m) (broadcast_subject_id m) m k < broadcast_subject_id m" for e k
  proof -
    let ?c = "gossip_shard_count m"
    have c: "?c \<noteq> 0" "0 < unat ?c" using shards_fit(2) [OF assms] by auto
    have "unat (k mod ucast ?c :: u64) = unat k mod unat ?c" by (simp add: unat_mod_distrib unat_ucast_32_64)
    moreover have l: "unat k mod unat ?c < unat ?c" using c by simp
    ultimately have u: "unat (ucast (k mod ucast ?c :: u64) :: u32) = unat k mod unat ?c"
      using unsigned_less [where 'a = nat and w = ?c] by (subst unat_ucast_64_32) auto
    have "unat (cy_subject_id_max m) + 1 + unat k mod unat ?c < 2 ^ 32"
      using l shards_fit(3) [OF assms] unsigned_less [where 'a = nat and w = "broadcast_subject_id m"] by simp
    then have "unat (cy_subject_id_max m + 1 + ucast (k mod ucast ?c)) = unat (cy_subject_id_max m) + 1 + unat k mod unat ?c"
      using u by (simp add: unat_word_ariths)
    with c l range [of e] shards_fit(3) [OF assms] show ?thesis
      by (simp add: shard_subject_for_def word_less_nat_alt word_le_nat_alt)
  qed
  have card: "card {sid e | e. \<not> is_pinned e} = (unat m + 1) div 2"
  proof -
    have "unat ` {sid e | e. \<not> is_pinned e} = {probe (unat m) (unat h) e | e. e < 4294959104}"
    proof (intro equalityI subsetI)
      fix s assume "s \<in> {probe (unat m) (unat h) e | e. e < 4294959104}"
      then obtain e where e: "e < 4294959104" "s = probe (unat m) (unat h) e" by blast
      then have u: "unat (word_of_nat e :: u32) = e" by (intro unat_of_nat_small) simp
      then have "\<not> is_pinned (word_of_nat e)"
        using e(1) by (simp add: is_pinned_def word_le_nat_alt evictions_pinned_min_unat)
      with e u show "s \<in> unat ` {sid e | e. \<not> is_pinned e}"
        by (auto intro!: image_eqI [of _ _ "sid (word_of_nat e)"] simp: sid(2))
    qed (auto simp: sid(2) is_pinned_def word_le_nat_alt evictions_pinned_min_unat not_le)
    moreover have "card {probe (unat m) (unat h) e | e. e < 4294959104} = (unat m + 1) div 2"
    proof -
      have "unat m \<le> 2 * 4294959104" using valid_modulus_bounds(2) [OF assms] by linarith
      then show ?thesis by (rule probe_range_card [OF prime odd])
    qed
    moreover have "inj_on unat {sid e | e. \<not> is_pinned e}" by (intro inj_onI) (simp add: word_unat_eq_iff)
    ultimately show ?thesis using card_image by fastforce
  qed
  have inj: "inj_on sid {e. unat e < (unat m + 1) div 2}"
  proof (rule inj_onI)
    fix i j assume a: "i \<in> {e. unat e < (unat m + 1) div 2}" "j \<in> {e. unat e < (unat m + 1) div 2}" "sid i = sid j"
    then have "2 * unat i < unat m" "2 * unat j < unat m" using odd by (auto elim!: oddE)
    then have "unat i = unat j" using a(3) sid(2) by (metis probe_inj [OF prime])
    then show "i = j" by (simp add: word_unat_eq_iff)
  qed
  from sid(1) range shard card inj show ?thesis by blast
qed

theorem quadratic_probing_witness:
  "\<exists>sid. (\<forall>e. compute_subject_id 123456789 e 57203 = Inr (sid e))
    \<and> card {sid e | e. \<not> is_pinned e} = 28602"
proof -
  have "is_valid_subject_id_modulus 57203"
    using default_modulus_valid unfolding subject_id_modulus_16bit_def .
  note fact = quadratic_probing [OF this, of 123456789]
  have n: "(unat (57203 :: u32) + 1) div 2 = 28602" by simp
  show ?thesis
    using fact unfolding n by (elim exE conjE) (intro exI conjI, assumption+)
qed

end
