(* ===== verification/CyHeader.thy ===== *)
theory CyHeader
  imports CyTypes
begin

unbundle bit_operations_syntax

text \<open>
  \<open>cy/header.go\<close>: the 24-byte header of the session layer and its variants (data, acknowledgement,
  response, gossip, scout) with their parsers. Go strings are byte sequences; the model has them as
  HOL strings, whose characters are bytes.
\<close>

subsection \<open>Little-endian integers of the standard library\<close>

definition le_bytes :: "nat \<Rightarrow> 'a::len word \<Rightarrow> bytes" where
  "le_bytes n v = map (\<lambda>i. ucast (drop_bit (8 * i) v)) [0..<n]"

fun le_word :: "bytes \<Rightarrow> 'a::len word" where
  "le_word [] = 0"
| "le_word (b # bs) = ucast b OR push_bit 8 (le_word bs)"

abbreviation put_u32 :: "u32 \<Rightarrow> bytes" where "put_u32 v \<equiv> le_bytes 4 v"
abbreviation put_u64 :: "u64 \<Rightarrow> bytes" where "put_u64 v \<equiv> le_bytes 8 v"

text \<open>The slice \<open>data[a:b]\<close> and the assignment of \<open>bs\<close> to a part of a buffer from \<open>a\<close> on.\<close>

definition slice :: "nat \<Rightarrow> nat \<Rightarrow> 'a list \<Rightarrow> 'a list" where
  "slice a b xs = take (b - a) (drop a xs)"

definition put_at :: "nat \<Rightarrow> 'a list \<Rightarrow> 'a list \<Rightarrow> 'a list" where
  "put_at a bs buf = take a buf @ bs @ drop (a + length bs) buf"

definition bytes_of_string :: "string \<Rightarrow> bytes" where
  "bytes_of_string s = map (\<lambda>c. word_of_nat (of_char c)) s"

definition string_of_bytes :: "bytes \<Rightarrow> string" where
  "string_of_bytes bs = map (\<lambda>b. char_of (unat b)) bs"

lemma length_le_bytes [simp]: "length (le_bytes n v) = n"
  by (simp add: le_bytes_def)

lemma length_bytes_of_string [simp]: "length (bytes_of_string s) = length s"
  by (simp add: bytes_of_string_def)

lemma length_string_of_bytes [simp]: "length (string_of_bytes s) = length s"
  by (simp add: string_of_bytes_def)

lemma string_of_bytes_of_string [simp]: "string_of_bytes (bytes_of_string s) = s"
proof -
  have "char_of (unat (word_of_nat (of_char c) :: 8 word)) = c" for c :: char
    by (simp add: unat_of_nat_small)
  then show ?thesis by (simp add: bytes_of_string_def string_of_bytes_def o_def)
qed

lemma take_bytes_of_string: "take n (bytes_of_string s) = bytes_of_string (take n s)"
  by (simp add: bytes_of_string_def take_map)

lemma le_bytes_Suc: "le_bytes (Suc n) v = ucast v # le_bytes n (drop_bit 8 v)"
proof -
  have "map (\<lambda>i. ucast (drop_bit (8 * i) v) :: byte) [1..<Suc n] = map (\<lambda>i. ucast (drop_bit (8 * Suc i) v)) [0..<n]"
    by (simp add: map_Suc_upt [symmetric] del: upt_Suc)
  moreover have "[0..<Suc n] = 0 # [1..<Suc n]" by (simp add: upt_rec)
  ultimately show ?thesis by (simp add: le_bytes_def drop_bit_drop_bit add.commute del: upt_Suc)
qed

lemma le_word_le_bytes: "le_word (le_bytes n v) = (take_bit (8 * n) v :: 'a::len word)"
proof (induction n arbitrary: v)
  case 0
  then show ?case by (simp add: le_bytes_def)
next
  case (Suc n)
  have "ucast (ucast v :: byte) OR push_bit 8 (take_bit (8 * n) (drop_bit 8 v)) = take_bit (8 * Suc n) v"
    by (rule bit_eqI) (auto simp: bit_simps)
  with Suc show ?case by (simp add: le_bytes_Suc)
qed

lemma le_word_put_u32 [simp]: "le_word (put_u32 v) = v"
  using le_word_le_bytes [of 4 v] by (simp add: take_bit_word_eq_self)

lemma le_word_put_u64 [simp]: "le_word (put_u64 v) = v"
  using le_word_le_bytes [of 8 v] by (simp add: take_bit_word_eq_self)

lemma le_bytes_le_word: "length bs = n \<Longrightarrow> 8 * n \<le> LENGTH('a) \<Longrightarrow> le_bytes n (le_word bs :: 'a::len word) = bs"
proof (induction bs arbitrary: n)
  case (Cons b bs)
  then obtain k where n: "n = Suc k" "length bs = k" by auto
  with Cons.prems have l: "8 + 8 * k \<le> LENGTH('a)" by simp
  have "ucast (ucast b OR push_bit 8 (le_word bs) :: 'a word) = b"
    using l by (intro bit_eqI) (auto simp: bit_simps)
  moreover have "le_bytes k (drop_bit 8 (ucast b OR push_bit 8 (le_word bs)) :: 'a word) = le_bytes k (le_word bs :: 'a word)"
  proof -
    have "(ucast (drop_bit (8 * i) (drop_bit 8 (ucast b OR push_bit 8 (le_word bs)) :: 'a word)) :: byte)
        = ucast (drop_bit (8 * i) (le_word bs :: 'a word))" if "i < k" for i
      using l that by (intro bit_eqI) (auto simp: bit_simps dest: bit_imp_le_length)
    then show ?thesis by (auto simp: le_bytes_def)
  qed
  ultimately show ?case using Cons.IH [of k] n l by (simp add: le_bytes_Suc)
qed (simp add: le_bytes_def)

lemma slice_eq: "slice a b xs = take (b - a) (drop a xs)" by (simp add: slice_def)

lemma length_slice [simp]: "b \<le> length xs \<Longrightarrow> length (slice a b xs) = b - a"
  by (simp add: slice_def)

subsection \<open>The header\<close>

definition header_size :: nat where "header_size = 24"

datatype header_type = HeaderTypeMsgBE | HeaderTypeMsgRel | HeaderTypeMsgAck | HeaderTypeMsgNack
  | HeaderTypeRspBE | HeaderTypeRspRel | HeaderTypeRspAck | HeaderTypeRspNack
  | HeaderTypeGossip | HeaderTypeScout

fun type_byte :: "header_type \<Rightarrow> byte" where
  "type_byte HeaderTypeMsgBE = 0"
| "type_byte HeaderTypeMsgRel = 1"
| "type_byte HeaderTypeMsgAck = 2"
| "type_byte HeaderTypeMsgNack = 3"
| "type_byte HeaderTypeRspBE = 4"
| "type_byte HeaderTypeRspRel = 5"
| "type_byte HeaderTypeRspAck = 6"
| "type_byte HeaderTypeRspNack = 7"
| "type_byte HeaderTypeGossip = 8"
| "type_byte HeaderTypeScout = 9"

text \<open>The type byte of a \<open>Header\<close> is any byte; the log-age, an \<open>int8\<close>, is read with \<open>sint\<close>.\<close>

record cy_header =
  h_type :: byte
  h_incompat :: byte
  h_reserved :: byte
  h_lage :: byte
  h_evictions :: u32
  h_hash :: u64
  h_tag :: u64

definition new_header :: "byte \<Rightarrow> byte \<Rightarrow> u32 \<Rightarrow> u64 \<Rightarrow> u64 \<Rightarrow> cy_header" where
  "new_header t lage evictions hash tag =
    \<lparr>h_type = t, h_incompat = 0, h_reserved = 0, h_lage = lage, h_evictions = evictions, h_hash = hash, h_tag = tag\<rparr>"

definition marshal_binary :: "cy_header \<Rightarrow> bytes" where
  "marshal_binary h =
    (let buf = replicate header_size 0;
         buf = buf[0 := h_type h];
         buf = buf[1 := h_reserved h];
         buf = buf[2 := h_incompat h];
         buf = buf[3 := h_lage h];
         buf = put_at 4 (put_u32 (h_evictions h)) buf;
         buf = put_at 8 (put_u64 (h_hash h)) buf;
         buf = put_at 16 (put_u64 (h_tag h)) buf
     in buf)"

definition unmarshal_binary :: "bytes \<Rightarrow> cy_header cy_result" where
  "unmarshal_binary data =
    (if length data < header_size then Inl ErrArgument
     else Inr \<lparr>h_type = data ! 0, h_incompat = data ! 2, h_reserved = data ! 1, h_lage = data ! 3,
       h_evictions = le_word (slice 4 8 data), h_hash = le_word (slice 8 16 data),
       h_tag = le_word (slice 16 24 data)\<rparr>)"

definition parse_header :: "bytes \<Rightarrow> (cy_header \<times> bytes) cy_result" where
  "parse_header data =
    (if length data < header_size then Inl ErrArgument
     else case unmarshal_binary (take header_size data) of
       Inl e \<Rightarrow> Inl e
     | Inr header \<Rightarrow> Inr (header, drop header_size data))"

definition prepend_header :: "cy_header \<Rightarrow> bytes \<Rightarrow> bytes" where
  "prepend_header header payload =
    (let result = replicate (header_size + length payload) 0;
         result = put_at 0 (marshal_binary header) result
     in put_at header_size payload result)"

definition new_ack_header :: "bool \<Rightarrow> u64 \<Rightarrow> u64 \<Rightarrow> cy_header" where
  "new_ack_header positive topic_hash tag =
    new_header (type_byte (if positive then HeaderTypeMsgAck else HeaderTypeMsgNack)) 0 0 topic_hash tag"

subsection \<open>Gossip and scout\<close>

definition marshal_gossip :: "byte \<Rightarrow> u64 \<Rightarrow> u64 \<Rightarrow> nat \<Rightarrow> bytes" where
  "marshal_gossip lage hash evictions name_len =
    (let buf = replicate header_size 0;
         buf = buf[0 := type_byte HeaderTypeGossip];
         buf = buf[1 := 0];
         buf = buf[2 := 0];
         buf = buf[3 := lage];
         buf = put_at 8 (put_u64 hash) buf;
         buf = put_at 16 (put_u32 (ucast evictions)) buf
     in if 0 < name_len then buf[23 := word_of_nat (if 255 < name_len then 255 else name_len)] else buf)"

definition marshal_gossip_message :: "byte \<Rightarrow> u64 \<Rightarrow> u64 \<Rightarrow> string \<Rightarrow> bytes" where
  "marshal_gossip_message lage hash evictions name =
    (let h = marshal_gossip lage hash evictions (length name)
     in if name \<noteq> [] then h @ bytes_of_string name else h)"

definition marshal_scout :: "string \<Rightarrow> bytes" where
  "marshal_scout pattern =
    (let buf = replicate header_size 0;
         buf = buf[0 := type_byte HeaderTypeScout]
     in if 0 < length pattern then
          let pattern = (if 255 < length pattern then take 255 pattern else pattern);
              buf = buf[23 := word_of_nat (length pattern)]
          in buf @ bytes_of_string pattern
        else buf)"

definition parse_scout :: "bytes \<Rightarrow> string option" where
  "parse_scout data =
    (if length data < header_size then None
     else
       let name_len = unat (data ! 23)
       in if name_len = 0 \<or> name_len > length data - header_size then None
          else Some (string_of_bytes (slice header_size (header_size + name_len) data)))"

record parsed_gossip =
  pg_lage :: byte
  pg_hash :: u64
  pg_evictions :: u32
  pg_name :: string

definition parse_gossip_message :: "bytes \<Rightarrow> parsed_gossip cy_result" where
  "parse_gossip_message data =
    (if length data < header_size then Inl ErrArgument
     else
       let p = \<lparr>pg_lage = data ! 3, pg_hash = le_word (slice 8 16 data),
                pg_evictions = le_word (slice 16 20 data), pg_name = []\<rparr>;
           name_len = unat (data ! 23)
       in if 0 < name_len then
            if length data < header_size + name_len then Inl ErrArgument
            else Inr (p\<lparr>pg_name := string_of_bytes (slice header_size (header_size + name_len) data)\<rparr>)
          else Inr p)"

subsection \<open>Responses\<close>

definition marshal_response_header :: "byte \<Rightarrow> byte \<Rightarrow> u64 \<Rightarrow> u64 \<Rightarrow> u64 \<Rightarrow> bytes" where
  "marshal_response_header typ tag seqno hash message_tag =
    (let buf = replicate header_size 0;
         buf = buf[0 := typ];
         buf = buf[1 := tag];
         buf = put_at 2 (put_u64 seqno) buf;
         buf = buf[8 := 0];
         buf = buf[9 := 0];
         buf = put_at 8 (put_u64 hash) buf;
         buf = put_at 16 (put_u64 message_tag) buf
     in buf)"

definition marshal_rsp_header :: "bool \<Rightarrow> byte \<Rightarrow> u64 \<Rightarrow> u64 \<Rightarrow> u64 \<Rightarrow> bytes" where
  "marshal_rsp_header reliable tag seqno service_hash message_tag =
    marshal_response_header (type_byte (if reliable then HeaderTypeRspRel else HeaderTypeRspBE))
      tag seqno service_hash message_tag"

definition marshal_rsp_ack_header :: "bool \<Rightarrow> byte \<Rightarrow> u64 \<Rightarrow> u64 \<Rightarrow> u64 \<Rightarrow> bytes" where
  "marshal_rsp_ack_header positive tag seqno hash message_tag =
    marshal_response_header (type_byte (if positive then HeaderTypeRspAck else HeaderTypeRspNack))
      tag seqno hash message_tag"

record parsed_response =
  pr_type :: byte
  pr_reliable :: bool
  pr_tag :: byte
  pr_seqno :: u64
  pr_hash :: u64
  pr_message_tag :: u64

definition parse_response_header :: "bytes \<Rightarrow> parsed_response cy_result" where
  "parse_response_header data =
    (if length data < header_size then Inl ErrArgument
     else
       let t = data ! 0
       in if t \<noteq> type_byte HeaderTypeRspRel \<and> t \<noteq> type_byte HeaderTypeRspAck
            \<and> t \<noteq> type_byte HeaderTypeRspNack \<and> t \<noteq> type_byte HeaderTypeRspBE then Inl ErrArgument
          else Inr \<lparr>pr_type = t, pr_reliable = (t = type_byte HeaderTypeRspRel), pr_tag = data ! 1,
            pr_seqno = ucast (data ! 2) OR push_bit 8 (ucast (data ! 3)) OR push_bit 16 (ucast (data ! 4))
              OR push_bit 24 (ucast (data ! 5)) OR push_bit 32 (ucast (data ! 6)) OR push_bit 40 (ucast (data ! 7)),
            pr_hash = le_word (slice 8 16 data),
            pr_message_tag = le_word (slice 16 24 data)\<rparr>)"

subsection \<open>The layout\<close>

text \<open>Every header is the concatenation of its fields.\<close>

lemma marshal_binary_layout:
  "marshal_binary h = [h_type h, h_reserved h, h_incompat h, h_lage h]
    @ put_u32 (h_evictions h) @ put_u64 (h_hash h) @ put_u64 (h_tag h)"
  by (simp add: marshal_binary_def header_size_def put_at_def numeral_eq_Suc Let_def)

lemma marshal_gossip_layout:
  "marshal_gossip lage hash ev n = [8, 0, 0, lage, 0, 0, 0, 0] @ put_u64 hash @ put_u32 (ucast ev)
    @ [0, 0, 0, if 255 < n then 255 else word_of_nat n]"
  by (simp add: marshal_gossip_def header_size_def put_at_def numeral_eq_Suc Let_def nth_append list_update_append)

lemma marshal_scout_layout:
  "marshal_scout p = [9] @ replicate 22 0 @ [word_of_nat (min 255 (length p))] @ bytes_of_string (take 255 p)"
  by (auto simp: marshal_scout_def header_size_def numeral_eq_Suc Let_def min_def bytes_of_string_def)

lemma marshal_response_layout:
  "marshal_response_header typ tag seqno hash mt =
    [typ, tag] @ le_bytes 6 seqno @ put_u64 hash @ put_u64 mt"
proof -
  have "put_u64 seqno = le_bytes 6 seqno @ [ucast (drop_bit 48 seqno), ucast (drop_bit 56 seqno)]"
    by (simp add: le_bytes_def upt_rec)
  then show ?thesis
    by (simp add: marshal_response_header_def header_size_def put_at_def Let_def le_bytes_def upt_rec numeral_eq_Suc)
qed

lemma length_marshal_binary [simp]: "length (marshal_binary h) = header_size"
  by (simp add: marshal_binary_layout header_size_def)

subsection \<open>Round trips\<close>

lemma slice_append: "length a = i \<Longrightarrow> i + length b = j \<Longrightarrow> slice i j (a @ b @ c) = b"
  by (auto simp: slice_def)

lemma slice_drop: "i \<le> j \<Longrightarrow> slice i j xs @ drop j xs = drop i xs"
  using append_take_drop_id [of "j - i" "drop i xs"] by (simp add: slice_def add.commute)

lemma unmarshal_marshal: "unmarshal_binary (marshal_binary h @ rest) = Inr h"
proof -
  let ?a = "[h_type h, h_reserved h, h_incompat h, h_lage h]"
  let ?e = "put_u32 (h_evictions h)" and ?h = "put_u64 (h_hash h)" and ?t = "put_u64 (h_tag h)"
  have d: "marshal_binary h @ rest = ?a @ ?e @ ?h @ ?t @ rest" by (simp add: marshal_binary_layout)
  have "slice 4 8 (?a @ ?e @ ?h @ ?t @ rest) = ?e" by (rule slice_append) simp_all
  moreover have "slice 8 16 ((?a @ ?e) @ ?h @ ?t @ rest) = ?h" by (rule slice_append) simp_all
  moreover have "slice 16 24 ((?a @ ?e @ ?h) @ ?t @ rest) = ?t" by (rule slice_append) simp_all
  ultimately show ?thesis
    unfolding d by (simp add: unmarshal_binary_def header_size_def)
qed

lemma prepend_header_eq: "prepend_header h p = marshal_binary h @ p"
  by (simp add: prepend_header_def put_at_def Let_def header_size_def)

lemma marshal_unmarshal:
  assumes "length data = header_size" "unmarshal_binary data = Inr h"
  shows "marshal_binary h = data"
proof -
  have len: "length data = 24" using assms(1) by (simp add: header_size_def)
  have split: "data = [data ! 0, data ! 1, data ! 2, data ! 3] @ slice 4 8 data @ slice 8 16 data @ slice 16 24 data"
  proof -
    have "data = take 4 data @ slice 4 8 data @ slice 8 16 data @ slice 16 24 data @ drop 24 data"
      by (simp add: slice_drop)
    then have "data = take 4 data @ slice 4 8 data @ slice 8 16 data @ slice 16 24 data"
      using len by simp
    moreover have "take 4 data = [data ! 0, data ! 1, data ! 2, data ! 3]"
      using len by (simp add: take_Suc_conv_app_nth numeral_eq_Suc)
    ultimately show ?thesis by simp
  qed
  have h: "h = \<lparr>h_type = data ! 0, h_incompat = data ! 2, h_reserved = data ! 1, h_lage = data ! 3,
       h_evictions = le_word (slice 4 8 data), h_hash = le_word (slice 8 16 data),
       h_tag = le_word (slice 16 24 data)\<rparr>"
    using assms len by (simp add: unmarshal_binary_def header_size_def)
  have "marshal_binary h = [data ! 0, data ! 1, data ! 2, data ! 3] @ slice 4 8 data @ slice 8 16 data @ slice 16 24 data"
    by (simp add: h marshal_binary_layout le_bytes_le_word len)
  then show ?thesis using split by simp
qed

lemma parse_response_marshal:
  assumes "typ \<in> {4, 5, 6, 7}"
  shows "parse_response_header (marshal_response_header typ tag seqno hash mt @ rest)
    = Inr \<lparr>pr_type = typ, pr_reliable = (typ = 5), pr_tag = tag, pr_seqno = take_bit 48 seqno,
        pr_hash = hash, pr_message_tag = mt\<rparr>"
proof -
  have seq: "ucast (ucast seqno :: byte) OR push_bit 8 (ucast (ucast (drop_bit 8 seqno) :: byte))
      OR push_bit 16 (ucast (ucast (drop_bit 16 seqno) :: byte)) OR push_bit 24 (ucast (ucast (drop_bit 24 seqno) :: byte))
      OR push_bit 32 (ucast (ucast (drop_bit 32 seqno) :: byte)) OR push_bit 40 (ucast (ucast (drop_bit 40 seqno) :: byte))
    = (take_bit 48 seqno :: u64)"
    using le_word_le_bytes [of 6 seqno]
    by (simp add: le_bytes_def upt_rec push_bit_or push_bit_push_bit)
  have layout: "marshal_response_header typ tag seqno hash mt @ rest =
      [typ, tag, ucast seqno, ucast (drop_bit 8 seqno), ucast (drop_bit 16 seqno), ucast (drop_bit 24 seqno),
       ucast (drop_bit 32 seqno), ucast (drop_bit 40 seqno)] @ put_u64 hash @ put_u64 mt @ rest"
    by (simp add: marshal_response_layout le_bytes_def upt_rec)
  show ?thesis
    unfolding layout using assms seq by (auto simp: parse_response_header_def header_size_def slice_def Let_def)
qed

lemma scout_nth_23: "(marshal_scout p @ rest) ! 23 = word_of_nat (min 255 (length p))"
proof -
  have "marshal_scout p @ rest = (9 # replicate 22 0) @ [word_of_nat (min 255 (length p))]
      @ bytes_of_string (take 255 p) @ rest"
    by (simp add: marshal_scout_layout)
  then show ?thesis by (simp only: nth_append length_append) simp
qed

lemma length_marshal_scout: "length (marshal_scout p) = header_size + min 255 (length p)"
  by (simp add: marshal_scout_layout header_size_def)

lemma parse_scout_marshal:
  "parse_scout (marshal_scout p) = (if p = [] then None else Some (take 255 p))"
proof -
  let ?n = "min 255 (length p)"
  have l: "unat (word_of_nat ?n :: byte) = ?n" by (intro unat_of_nat_small) simp
  have b: "marshal_scout p ! 23 = word_of_nat ?n" using scout_nth_23 [of p "[]"] by simp
  have z: "?n = 0 \<longleftrightarrow> p = []" by (auto simp: min_def)
  have s: "slice header_size (header_size + ?n) (marshal_scout p) = bytes_of_string (take 255 p)"
  proof -
    have "slice header_size (header_size + ?n)
        (([9] @ replicate 22 0 @ [word_of_nat ?n]) @ bytes_of_string (take 255 p) @ []) = bytes_of_string (take 255 p)"
      by (rule slice_append) (simp_all add: header_size_def)
    then show ?thesis by (simp add: marshal_scout_layout)
  qed
  show ?thesis
    unfolding parse_scout_def Let_def b l length_marshal_scout s z by simp
qed

lemma parse_gossip_marshal:
  assumes "length name \<le> 255"
  shows "parse_gossip_message (marshal_gossip_message lage hash ev name)
    = Inr \<lparr>pg_lage = lage, pg_hash = hash, pg_evictions = ucast ev, pg_name = name\<rparr>"
proof -
  let ?a = "[8, 0, 0, lage, 0, 0, 0, 0] :: bytes" and ?h = "put_u64 hash" and ?e = "put_u32 (ucast ev)"
  let ?z = "[0, 0, 0, word_of_nat (length name)] :: bytes" and ?s = "bytes_of_string name"
  have d: "marshal_gossip_message lage hash ev name = ?a @ ?h @ ?e @ ?z @ ?s"
    using assms by (simp add: marshal_gossip_message_def marshal_gossip_layout Let_def bytes_of_string_def)
  have "slice 8 16 (?a @ ?h @ ?e @ ?z @ ?s) = ?h" by (rule slice_append) simp_all
  moreover have "slice 16 20 ((?a @ ?h) @ ?e @ ?z @ ?s) = ?e" by (rule slice_append) simp_all
  moreover have "slice 24 (24 + length name) ((?a @ ?h @ ?e @ ?z) @ ?s @ []) = ?s" by (rule slice_append) simp_all
  moreover have "(?a @ ?h @ ?e @ ?z @ ?s) ! 23 = word_of_nat (length name)"
    by (simp add: nth_append)
  moreover have "unat (word_of_nat (length name) :: byte) = length name"
    using assms by (intro unat_of_nat_small) simp
  ultimately show ?thesis
    unfolding d by (auto simp: parse_gossip_message_def header_size_def Let_def)
qed



lemma narrow_widen: "(ucast (ucast (v :: u32) :: u64) :: u32) = v"
  by (intro bit_eqI) (auto simp: bit_simps)

text \<open>C26: A gossip message with a name of at most 255 bytes is parsed to the log-age, the hash, the eviction
  counter and the name it was made from, and a scout to its pattern (cut to 255 bytes), except that
  the empty pattern is refused. The name of a longer gossip is not cut like the pattern of a scout:
  the message then holds bytes that its length field does not count.\<close>
theorem gossip_scout_round_trip:
  "(length name \<le> 255 \<longrightarrow> parse_gossip_message (marshal_gossip_message lage hash (ucast (ev :: u32)) name)
      = Inr \<lparr>pg_lage = lage, pg_hash = hash, pg_evictions = ev, pg_name = name\<rparr>)
   \<and> length (marshal_gossip_message lage hash (ucast ev) name) = header_size + length name
   \<and> parse_scout (marshal_scout pattern) = (if pattern = [] then None else Some (take 255 pattern))
   \<and> length (marshal_scout pattern) = header_size + min 255 (length pattern)"
proof (intro conjI impI)
  assume "length name \<le> 255"
  then show "parse_gossip_message (marshal_gossip_message lage hash (ucast ev) name)
      = Inr \<lparr>pg_lage = lage, pg_hash = hash, pg_evictions = ev, pg_name = name\<rparr>"
    using narrow_widen [of ev] by (simp add: parse_gossip_marshal)
next
  show "length (marshal_gossip_message lage hash (ucast ev) name) = header_size + length name"
    by (simp add: marshal_gossip_message_def marshal_gossip_layout header_size_def Let_def)
qed (simp_all add: parse_scout_marshal length_marshal_scout)

theorem gossip_scout_round_trip_witness:
  "parse_gossip_message (marshal_gossip_message 255 77 (ucast (3 :: u32)) ''time'')
      = Inr \<lparr>pg_lage = 255, pg_hash = 77, pg_evictions = 3, pg_name = ''time''\<rparr>"
  using gossip_scout_round_trip [of "''time''" 255 77 3 "[]"] by simp

end
