(* ===== verification/CyMessage.thy ===== *)
theory CyMessage
  imports CyHeader
begin

text \<open>
  \<open>cy/message.go\<close> with its default virtual table, and \<open>ExtractHeader\<close> of \<open>cy/header.go\<close>: the buffer
  handle that the transport gives to the session layer, with its skip offset and reference count,
  and the fragmented buffers. The memory behind the pointers of a fragment is its byte list.
\<close>

subsection \<open>Messages\<close>

record message =
  msg_refcount :: int
  msg_data :: bytes
  msg_skip_offset :: int

definition new_message :: "bytes \<Rightarrow> message" where
  "new_message data = \<lparr>msg_refcount = 1, msg_data = data, msg_skip_offset = 0\<rparr>"

definition message_set_data :: "message \<Rightarrow> bytes \<Rightarrow> message" where
  "message_set_data m data = m\<lparr>msg_data := data\<rparr>"

definition message_size :: "message \<Rightarrow> int" where
  "message_size m = int (length (msg_data m)) - msg_skip_offset m"

text \<open>The half-open slice of Go, which panics outside the buffer.\<close>

definition go_slice :: "'a list \<Rightarrow> int \<Rightarrow> int \<Rightarrow> go_panic + 'a list" where
  "go_slice xs a b =
    (if 0 \<le> a \<and> a \<le> b \<and> b \<le> int (length xs) then Inr (take (nat b - nat a) (drop (nat a) xs))
     else Inl SliceBounds)"

text \<open>\<open>copy(dst, src)\<close> overwrites a prefix and never goes past the end of the destination.\<close>

definition go_copy :: "'a list \<Rightarrow> 'a list \<Rightarrow> 'a list" where
  "go_copy dst src = take (length dst) src @ drop (length src) dst"

text \<open>The number of bytes and the destination after the call.\<close>

definition message_read :: "message \<Rightarrow> int \<Rightarrow> int \<Rightarrow> bytes \<Rightarrow> go_panic + (int \<times> bytes)" where
  "message_read m offset siz destination =
    (let offset = offset + msg_skip_offset m;
         offset = (if offset < 0 then 0 else offset);
         available = int (length (msg_data m)) - offset;
         siz = (if siz > available then available else siz)
     in if siz \<le> 0 then Inr (0, destination)
        else and_then (go_slice (msg_data m) offset (offset + siz))
          (\<lambda>src. Inr (siz, go_copy destination src)))"

definition message_skip :: "message \<Rightarrow> int \<Rightarrow> message" where
  "message_skip m offset = m\<lparr>msg_skip_offset := msg_skip_offset m + offset\<rparr>"

definition message_payload :: "message \<Rightarrow> go_panic + bytes" where
  "message_payload m =
    (if msg_skip_offset m > 0 then go_slice (msg_data m) (msg_skip_offset m) (int (length (msg_data m)))
     else Inr (msg_data m))"

definition message_destroy :: "message \<Rightarrow> message" where
  "message_destroy m = m\<lparr>msg_data := []\<rparr>"

definition refcount_inc :: "message option \<Rightarrow> message option" where
  "refcount_inc m = map_option (\<lambda>m. m\<lparr>msg_refcount := msg_refcount m + 1\<rparr>) m"

definition refcount_dec :: "message option \<Rightarrow> message option" where
  "refcount_dec mo =
    (case mo of
       None \<Rightarrow> None
     | Some m \<Rightarrow>
         let m = m\<lparr>msg_refcount := msg_refcount m - 1\<rparr>
         in if msg_refcount m \<le> 0 then Some (message_destroy m) else Some m)"

record message_ts =
  mts_timestamp :: microsecond
  mts_content :: "message option"

definition mts_size :: "message_ts \<Rightarrow> int" where
  "mts_size m = (case mts_content m of None \<Rightarrow> 0 | Some c \<Rightarrow> message_size c)"

definition mts_read :: "message_ts \<Rightarrow> int \<Rightarrow> int \<Rightarrow> bytes \<Rightarrow> go_panic + (int \<times> bytes)" where
  "mts_read m offset siz destination =
    (case mts_content m of None \<Rightarrow> Inr (0, destination) | Some c \<Rightarrow> message_read c offset siz destination)"

subsection \<open>Extracting the header\<close>

definition extract_header :: "message \<Rightarrow> go_panic + (cy_header \<times> bytes) cy_result" where
  "extract_header m =
    (if message_size m < int header_size then Inr (Inl ErrArgument)
     else
       and_then (message_read m 0 (int header_size) (replicate header_size 0))
         (\<lambda>(n, header_data).
           if n \<noteq> int header_size then Inr (Inl ErrArgument)
           else case unmarshal_binary header_data of
               Inl e \<Rightarrow> Inr (Inl e)
             | Inr header \<Rightarrow>
                 and_then (message_payload m)
                   (\<lambda>payload. and_then (go_slice payload (int header_size) (int (length payload)))
                     (\<lambda>rest. Inr (Inr (header, rest))))))"

subsection \<open>Fragmented buffers\<close>

text \<open>A chain of \<open>Bytes\<close> is the list of its fragments, \<open>nil\<close> the empty list; a fragment of size 0 has no data.\<close>

type_synonym bytes_chain = "bytes list"

definition new_bytes :: "bytes \<Rightarrow> bytes_chain" where
  "new_bytes data = [data]"

definition new_bytes_chain :: "bytes list \<Rightarrow> bytes_chain" where
  "new_bytes_chain slices = concat (map new_bytes slices)"

fun total_size :: "bytes_chain \<Rightarrow> nat" where
  "total_size [] = 0"
| "total_size (b # bs) = length b + total_size bs"

fun to_slice_loop :: "bytes_chain \<Rightarrow> nat \<Rightarrow> bytes \<Rightarrow> bytes" where
  "to_slice_loop [] offset result = result"
| "to_slice_loop (b # bs) offset result =
    (if 0 < length b then to_slice_loop bs (offset + length b) (take offset result @ go_copy (drop offset result) b)
     else to_slice_loop bs offset result)"

definition to_slice :: "bytes_chain \<Rightarrow> bytes" where
  "to_slice c = to_slice_loop c 0 (replicate (total_size c) 0)"

subsection \<open>Correctness\<close>

definition msg_ok :: "message \<Rightarrow> bool" where
  "msg_ok m \<longleftrightarrow> 0 \<le> msg_skip_offset m \<and> msg_skip_offset m \<le> int (length (msg_data m))"

definition msg_view :: "message \<Rightarrow> bytes" where
  "msg_view m = drop (nat (msg_skip_offset m)) (msg_data m)"

lemma go_slice_ok: "a \<le> b \<Longrightarrow> b \<le> length xs \<Longrightarrow> go_slice xs (int a) (int b) = Inr (take (b - a) (drop a xs))"
  by (simp add: go_slice_def)

lemma msg_skip_nat: "msg_ok m \<Longrightarrow> msg_skip_offset m = int (nat (msg_skip_offset m)) \<and> nat (msg_skip_offset m) \<le> length (msg_data m)"
  by (auto simp: msg_ok_def)

lemma message_payload_view: "msg_ok m \<Longrightarrow> message_payload m = Inr (msg_view m)"
  by (auto simp: message_payload_def msg_view_def msg_ok_def go_slice_def)

lemma message_size_view: "msg_ok m \<Longrightarrow> message_size m = int (length (msg_view m))"
  by (auto simp: message_size_def msg_view_def msg_ok_def)

lemma message_read_view:
  assumes "msg_ok m"
  shows "message_read m (int off) (int n) dst
    = Inr (int (length (take n (drop off (msg_view m)))), go_copy dst (take n (drop off (msg_view m))))"
proof -
  obtain s where s: "msg_skip_offset m = int s" "s \<le> length (msg_data m)" using msg_skip_nat [OF assms] by metis
  have v: "msg_view m = drop s (msg_data m)" by (simp add: msg_view_def s)
  define a where "a = off + s"
  define k where "k = min n (length (msg_data m) - a)"
  have t: "take n (drop off (msg_view m)) = take k (drop a (msg_data m))"
    by (simp add: v a_def k_def min_def)
  have l: "length (take k (drop a (msg_data m))) = k" by (simp add: k_def)
  show ?thesis
  proof (cases "k = 0")
    case True
    then have z: "(if int n > int (length (msg_data m)) - int a then int (length (msg_data m)) - int a else int n) \<le> 0"
      by (auto simp: k_def min_def split: if_splits)
    have "take n (drop off (msg_view m)) = []" using t True by simp
    moreover have "int off + int s = int a" by (simp add: a_def)
    ultimately show ?thesis
      using z unfolding message_read_def Let_def s(1) by (auto simp: go_copy_def split: if_splits)
  next
    case False
    then have p: "a < length (msg_data m)" "0 < n" by (auto simp: k_def min_def split: if_splits)
    then have k: "(if int n > int (length (msg_data m)) - int a then int (length (msg_data m)) - int a else int n) = int k"
        "a + k \<le> length (msg_data m)"
      by (auto simp: k_def min_def of_nat_diff)
    have "go_slice (msg_data m) (int a) (int a + int k) = Inr (take k (drop a (msg_data m)))"
      using go_slice_ok [of a "a + k" "msg_data m"] k(2) by simp
    moreover have e: "int off + int s = int a" by (simp add: a_def)
    ultimately show ?thesis
      using False unfolding t l message_read_def Let_def s(1) e
      by (simp only: of_nat_less_0_iff if_False k(1)) simp
  qed
qed

lemma msg_skip_view: "msg_ok m \<Longrightarrow> n \<le> length (msg_view m) \<Longrightarrow>
    msg_ok (message_skip m (int n)) \<and> msg_view (message_skip m (int n)) = drop n (msg_view m)"
  by (auto simp: msg_ok_def message_skip_def msg_view_def nat_add_distrib add.commute)

lemma to_slice_loop_eq:
  "length pre = offset \<Longrightarrow> to_slice_loop c offset (pre @ replicate (total_size c) 0) = pre @ concat c"
proof (induction c arbitrary: pre offset)
  case (Cons b bs)
  have "take offset (pre @ replicate (total_size (b # bs)) 0)
      @ go_copy (drop offset (pre @ replicate (total_size (b # bs)) 0)) b = (pre @ b) @ replicate (total_size bs) 0"
    using Cons.prems by (simp add: go_copy_def)
  with Cons.IH [of "pre @ b" "offset + length b"] Cons.prems show ?case by (cases "b = []") auto
qed simp

lemma to_slice_eq: "to_slice c = concat c"
  using to_slice_loop_eq [of "[]" 0 c] by (simp add: to_slice_def)

lemma new_message_ok: "msg_ok (new_message d) \<and> msg_view (new_message d) = d"
  by (simp add: msg_ok_def new_message_def msg_view_def)

lemma unmarshal_take: "header_size \<le> length d \<Longrightarrow> unmarshal_binary (take header_size d) = unmarshal_binary d"
  by (simp add: unmarshal_binary_def header_size_def slice_def drop_take)

lemma extract_header_view:
  assumes "msg_ok m"
  shows "extract_header m = Inr (parse_header (msg_view m))"
proof (cases "length (msg_view m) < header_size")
  case True
  then show ?thesis using message_size_view [OF assms] by (simp add: extract_header_def parse_header_def)
next
  case False
  have r: "message_read m 0 (int header_size) (replicate header_size 0) = Inr (int header_size, take header_size (msg_view m))"
    using message_read_view [OF assms, of 0 header_size "replicate header_size 0"] False by (simp add: go_copy_def)
  obtain h where h: "unmarshal_binary (take header_size (msg_view m)) = Inr h"
    using False by (simp add: unmarshal_binary_def)
  have "go_slice (msg_view m) (int header_size) (int (length (msg_view m))) = Inr (drop header_size (msg_view m))"
    using go_slice_ok [of header_size "length (msg_view m)" "msg_view m"] False by simp
  then show ?thesis
    using False r h message_size_view [OF assms] message_payload_view [OF assms]
    by (simp add: extract_header_def parse_header_def)
qed

lemma concat_new_bytes: "concat (new_bytes_chain slices) = concat slices"
  by (induction slices) (auto simp: new_bytes_chain_def new_bytes_def)

text \<open>On a message whose skip offset is within its data, reads, sizes and payloads are those of the
  rest of the data after the offset: no read panics, a read returns exactly the bytes that exist in the
  requested range, skipping moves the origin, and extracting the header parses what is left (after
  the header has been skipped it parses the payload again as a header, although its comment promises the
  opposite). A fragmented buffer copied into one slice is the concatenation of its fragments.\<close>
theorem message_view:
  assumes "msg_ok m"
  shows "message_read m (int off) (int n) dst
      = Inr (int (length (take n (drop off (msg_view m)))), go_copy dst (take n (drop off (msg_view m))))
    \<and> message_size m = int (length (msg_view m))
    \<and> message_payload m = Inr (msg_view m)
    \<and> (k \<le> length (msg_view m) \<longrightarrow>
         msg_ok (message_skip m (int k)) \<and> msg_view (message_skip m (int k)) = drop k (msg_view m)
         \<and> extract_header (message_skip m (int k)) = Inr (parse_header (drop k (msg_view m))))
    \<and> to_slice (new_bytes_chain slices) = concat slices"
  using message_read_view [OF assms] message_size_view [OF assms] message_payload_view [OF assms]
    msg_skip_view [OF assms, of k] extract_header_view [of "message_skip m (int k)"]
  by (auto simp: to_slice_eq concat_new_bytes)

theorem message_view_witness:
  "extract_header (message_skip (new_message (replicate 50 1)) 24) = Inr (parse_header (replicate 26 1))"
  using message_view [of "new_message (replicate 50 1)" 0 0 "[]" 24 "[]"] new_message_ok [of "replicate 50 1"]
  by simp

end
