(* ===== verification/CyName.thy ===== *)
theory CyName
  imports CyTypes
begin

text \<open>
  \<open>cy/name.go\<close>, and \<open>NormalizeTopicName\<close> of \<open>cy/pattern.go\<close>: the normal form of topic names,
  the pin suffix, namespaces, the home prefix, and the resolution of a user's name.
  The loops over the bytes of a name are recursions on the string.
\<close>

subsection \<open>The string functions of the standard library\<close>

fun go_split :: "char \<Rightarrow> string \<Rightarrow> string list" where
  "go_split c [] = [[]]"
| "go_split c (x # xs) =
    (if x = c then [] # go_split c xs
     else case go_split c xs of [] \<Rightarrow> [[x]] | y # ys \<Rightarrow> (x # y) # ys)"

fun go_join :: "char \<Rightarrow> string list \<Rightarrow> string" where
  "go_join c [] = []"
| "go_join c [x] = x"
| "go_join c (x # y # ys) = x @ c # go_join c (y # ys)"

definition go_trim :: "char \<Rightarrow> string \<Rightarrow> string" where
  "go_trim c s = rev (dropWhile (\<lambda>x. x = c) (rev (dropWhile (\<lambda>x. x = c) s)))"

definition contains_any :: "string \<Rightarrow> string \<Rightarrow> bool" where
  "contains_any s chars \<longleftrightarrow> (\<exists>c \<in> set s. c \<in> set chars)"

subsection \<open>Characters and constants\<close>

abbreviation NameSep :: char where "NameSep \<equiv> CHR ''/''"
abbreviation NameHome :: char where "NameHome \<equiv> CHR ''~''"
abbreviation NamePinPrefix :: char where "NamePinPrefix \<equiv> CHR ''#''"

definition topic_name_max :: nat where "topic_name_max = 200"
definition PinNone :: u16 where "PinNone = 0xFFFF"

definition is_name_char :: "char \<Rightarrow> bool" where
  "is_name_char c \<longleftrightarrow> 33 \<le> (of_char c :: nat) \<and> of_char c \<le> (126 :: nat)"

subsection \<open>The normal form\<close>

fun norm_len_loop :: "string \<Rightarrow> nat \<Rightarrow> bool \<Rightarrow> int" where
  "norm_len_loop [] out pending_sep = int out"
| "norm_len_loop (c # cs) out pending_sep =
    (if \<not> is_name_char c then -1
     else if c = NameSep then norm_len_loop cs out (0 < out)
     else if pending_sep then norm_len_loop cs (out + 1 + 1) False
     else norm_len_loop cs (out + 1) False)"

definition name_normalized_len :: "string \<Rightarrow> int" where
  "name_normalized_len name = norm_len_loop name 0 False"

fun normalize_loop :: "string \<Rightarrow> string \<Rightarrow> bool \<Rightarrow> string" where
  "normalize_loop [] out pending_sep = out"
| "normalize_loop (c # cs) out pending_sep =
    (if c = NameSep then normalize_loop cs out (0 < length out)
     else if pending_sep then normalize_loop cs (out @ [NameSep] @ [c]) False
     else normalize_loop cs (out @ [c]) False)"

text \<open>The pair of a string and a flag of the code: \<open>None\<close> for \<open>("", false)\<close>.\<close>

definition normalize_name :: "string \<Rightarrow> string option" where
  "normalize_name name =
    (if name_normalized_len name < 0 then None else Some (normalize_loop name [] False))"

definition normalize_topic_name :: "string \<Rightarrow> string" where
  "normalize_topic_name name =
    (let name = go_trim NameSep name;
         parts = filter (\<lambda>part. part \<noteq> []) (go_split NameSep name)
     in go_join NameSep parts)"

subsection \<open>The pin suffix\<close>

definition is_digit :: "char \<Rightarrow> bool" where
  "is_digit c \<longleftrightarrow> 48 \<le> (of_char c :: nat) \<and> of_char c \<le> (57 :: nat)"

text \<open>
  The backward scan: \<open>None\<close> when it meets something that is neither a digit nor the pin prefix,
  the length of the name when it meets no prefix.
\<close>

fun pin_hash_pos :: "string \<Rightarrow> nat \<Rightarrow> nat option" where
  "pin_hash_pos name 0 = Some (length name)"
| "pin_hash_pos name (Suc i) =
    (if name ! i = NamePinPrefix then Some i
     else if \<not> is_digit (name ! i) then None
     else pin_hash_pos name i)"

fun pin_value :: "string \<Rightarrow> u32 \<Rightarrow> u32 option" where
  "pin_value [] val = Some val"
| "pin_value (c # cs) val =
    (let val = val * 10 + (word_of_nat (of_char c) - 48)
     in if val > subject_id_pinned_max then None else pin_value cs val)"

definition name_consume_pin_suffix :: "string \<Rightarrow> string \<times> u16" where
  "name_consume_pin_suffix name =
    (case pin_hash_pos name (length name) of
       None \<Rightarrow> (name, PinNone)
     | Some hash_pos \<Rightarrow>
         if hash_pos \<ge> length name then (name, PinNone)
         else
           let n_digits = length name - hash_pos - 1
           in if n_digits = 0 then (name, PinNone)
              else if n_digits > 1 \<and> name ! (hash_pos + 1) = CHR ''0'' then (name, PinNone)
              else case pin_value (drop (hash_pos + 1) name) 0 of
                  None \<Rightarrow> (name, PinNone)
                | Some val \<Rightarrow> (take hash_pos name, ucast val))"

subsection \<open>Kinds of names, joining, resolution\<close>

definition name_is_verbatim :: "string \<Rightarrow> bool" where
  "name_is_verbatim name \<longleftrightarrow> \<not> contains_any name ''*>''"

definition name_is_absolute :: "string \<Rightarrow> bool" where
  "name_is_absolute name \<longleftrightarrow> 1 \<le> length name \<and> name ! 0 = NameSep"

definition name_is_homeful :: "string \<Rightarrow> bool" where
  "name_is_homeful name \<longleftrightarrow> 1 \<le> length name \<and> name ! 0 = NameHome \<and> (length name = 1 \<or> name ! 1 = NameSep)"

definition name_join :: "string \<Rightarrow> string \<Rightarrow> string option" where
  "name_join left right =
    (case normalize_name left of
       None \<Rightarrow> None
     | Some ln \<Rightarrow>
         (case normalize_name right of
            None \<Rightarrow> None
          | Some rn \<Rightarrow>
              if ln = [] then Some rn
              else if rn = [] then Some ln
              else Some (ln @ [NameSep] @ rn)))"

definition name_resolve_construct :: "string \<Rightarrow> string \<Rightarrow> string \<Rightarrow> string option" where
  "name_resolve_construct name name_space home =
    (if name_is_absolute name then normalize_name name
     else if name_is_homeful name then name_join home (drop 1 name)
     else
       let name_space =
         (if name_is_homeful name_space
          then (case name_join home (drop 1 name_space) of None \<Rightarrow> [] | Some s \<Rightarrow> s)
          else name_space)
       in name_join name_space name)"

record resolved =
  res_name :: string
  res_pin :: u16
  res_verbatim :: bool
  res_ok :: bool

definition bad_resolved :: resolved where
  "bad_resolved = \<lparr>res_name = [], res_pin = PinNone, res_verbatim = False, res_ok = False\<rparr>"

text \<open>The remapping step: what the name and its pin become before the expansion.\<close>

definition remap_name :: "(string \<rightharpoonup> string) \<Rightarrow> string \<Rightarrow> u16 \<Rightarrow> string \<times> u16" where
  "remap_name remap name_unpinned user_pin =
    (case normalize_name name_unpinned of
       None \<Rightarrow> (name_unpinned, user_pin)
     | Some key \<Rightarrow>
         (case remap key of
            None \<Rightarrow> (name_unpinned, user_pin)
          | Some to \<Rightarrow> name_consume_pin_suffix to))"

definition name_resolve :: "(string \<rightharpoonup> string) \<Rightarrow> string \<Rightarrow> string \<Rightarrow> string \<Rightarrow> resolved" where
  "name_resolve remap name name_space home =
    (if name = [] then bad_resolved
     else
       let (name_unpinned, user_pin) = name_consume_pin_suffix name
       in if name_normalized_len name_unpinned < 0 then bad_resolved
          else
            let (effective_name, effective_pin) = remap_name remap name_unpinned user_pin
            in if name_normalized_len effective_name \<le> 0 then bad_resolved
               else case name_resolve_construct effective_name name_space home of
                   None \<Rightarrow> bad_resolved
                 | Some res \<Rightarrow>
                     if length res = 0 \<or> length res > topic_name_max then bad_resolved
                     else
                       let pinned = ucast effective_pin \<le> subject_id_pinned_max;
                           verbatim = name_is_verbatim res
                       in if pinned \<and> \<not> verbatim then bad_resolved
                          else \<lparr>res_name = res, res_pin = effective_pin, res_verbatim = verbatim, res_ok = True\<rparr>)"

text \<open>A remap rule: \<open>Remap\<close> and \<open>Unremap\<close> of \<open>cy/cy.go\<close>, on the table of rules.\<close>

definition remap_rule :: "(string \<rightharpoonup> string) \<Rightarrow> string \<Rightarrow> string \<Rightarrow> (string \<rightharpoonup> string) cy_result" where
  "remap_rule table from_name to_name =
    (case normalize_name from_name of
       None \<Rightarrow> Inl ErrArgument
     | Some from_norm \<Rightarrow>
         if from_norm = [] then Inl ErrArgument
         else
           let (to_unpinned, to_pin) = name_consume_pin_suffix to_name
           in (case normalize_name to_unpinned of
                 None \<Rightarrow> Inl ErrName
               | Some to_norm \<Rightarrow>
                   if to_norm = [] then Inl ErrName
                   else if ucast to_pin \<le> subject_id_pinned_max \<and> \<not> name_is_verbatim to_unpinned then Inl ErrName
                   else Inr (table(from_norm \<mapsto> to_name))))"

definition unremap_rule :: "(string \<rightharpoonup> string) \<Rightarrow> string \<Rightarrow> (string \<rightharpoonup> string) cy_result" where
  "unremap_rule table from_name =
    (case normalize_name from_name of
       None \<Rightarrow> Inl ErrArgument
     | Some from_norm \<Rightarrow> if from_norm = [] then Inl ErrArgument else Inr (table(from_norm := None)))"

subsection \<open>Segments: what normalising means\<close>

text \<open>The segments of a name are its maximal runs without a separator.\<close>

definition segments :: "string \<Rightarrow> string list" where
  "segments s = filter (\<lambda>p. p \<noteq> []) (go_split NameSep s)"

definition sep_all :: "string list \<Rightarrow> string" where
  "sep_all ps = concat (map (\<lambda>p. NameSep # p) ps)"

lemma go_split_nonempty [simp]: "go_split c s \<noteq> []"
  by (induction s) (auto split: list.splits)

lemma go_join_Cons: "go_join c (x # xs) = x @ concat (map (\<lambda>p. c # p) xs)"
proof (induction xs arbitrary: x)
  case (Cons y ys)
  have "go_join c (x # y # ys) = x @ c # go_join c (y # ys)" by simp
  also have "\<dots> = x @ concat (map (\<lambda>p. c # p) (y # ys))" unfolding Cons by simp
  finally show ?case .
qed simp

lemma go_split_pieces: "\<forall>p \<in> set (go_split c s). c \<notin> set p"
  by (induction s) (auto split: list.splits)

lemma segments_pieces: "p \<in> set (segments s) \<Longrightarrow> p \<noteq> [] \<and> NameSep \<notin> set p"
  using go_split_pieces [of NameSep s] by (auto simp: segments_def)

lemma go_split_no_sep: "c \<notin> set p \<Longrightarrow> go_split c p = [p]"
  by (induction p) auto

lemma go_split_append: "c \<notin> set p \<Longrightarrow> go_split c (p @ c # s) = p # go_split c s"
  by (induction p) auto

lemma segments_Cons_sep: "segments (NameSep # s) = segments s"
  by (simp add: segments_def)

lemma segments_join:
  assumes "\<forall>p \<in> set ps. p \<noteq> [] \<and> NameSep \<notin> set p"
  shows "segments (go_join NameSep ps) = ps"
  using assms
proof (induction NameSep ps rule: go_join.induct)
  case (2 x)
  then show ?case by (simp add: segments_def go_split_no_sep)
next
  case (3 x y ys)
  then have "go_split NameSep (x @ NameSep # go_join NameSep (y # ys)) = x # go_split NameSep (go_join NameSep (y # ys))"
    by (intro go_split_append) auto
  with 3 show ?case by (simp add: segments_def)
qed (simp add: segments_def)

text \<open>The loop of \<open>normalizeName\<close>, in its three situations.\<close>

lemma normalize_loop_segments:
  "normalize_loop cs [] False = go_join NameSep (segments cs)"
  "out \<noteq> [] \<Longrightarrow> normalize_loop cs out True = out @ sep_all (segments cs)"
  "out \<noteq> [] \<Longrightarrow> normalize_loop cs out False
     = out @ hd (go_split NameSep cs) @ sep_all (filter (\<lambda>p. p \<noteq> []) (tl (go_split NameSep cs)))"
proof (induction cs arbitrary: out)
  case Nil
  { case 1 show ?case by (simp add: segments_def) }
  { case 2 show ?case by (simp add: segments_def sep_all_def) }
  { case 3 show ?case by (simp add: sep_all_def) }
next
  case (Cons c cs)
  obtain y ys where sp: "go_split NameSep cs = y # ys" using go_split_nonempty [of NameSep cs] by (cases "go_split NameSep cs") auto
  { case 1
    show ?case
    proof (cases "c = NameSep")
      case True
      then show ?thesis using Cons.IH(1) by (simp add: segments_Cons_sep)
    next
      case False
      then have "normalize_loop (c # cs) [] False = [c] @ y @ sep_all (filter (\<lambda>p. p \<noteq> []) ys)"
        using Cons.IH(3) [of "[c]"] sp by simp
      also have "\<dots> = go_join NameSep (segments (c # cs))"
        using False sp by (simp add: segments_def go_join_Cons sep_all_def)
      finally show ?thesis .
    qed }
  { case 2
    show ?case
    proof (cases "c = NameSep")
      case True
      with 2 show ?thesis using Cons.IH(2) [of out] by (simp add: segments_Cons_sep)
    next
      case False
      then have "normalize_loop (c # cs) out True = (out @ [NameSep] @ [c]) @ y @ sep_all (filter (\<lambda>p. p \<noteq> []) ys)"
        using Cons.IH(3) [of "out @ [NameSep] @ [c]"] sp by simp
      with False sp show ?thesis by (simp add: segments_def sep_all_def)
    qed }
  { case 3
    show ?case
    proof (cases "c = NameSep")
      case True
      with 3 show ?thesis using Cons.IH(2) [of out] by (simp add: segments_def)
    next
      case False
      then have "normalize_loop (c # cs) out False = (out @ [c]) @ y @ sep_all (filter (\<lambda>p. p \<noteq> []) ys)"
        using Cons.IH(3) [of "out @ [c]"] sp by simp
      with False sp show ?thesis by simp
    qed }
qed

lemma norm_len_loop_length:
  "\<forall>c \<in> set cs. is_name_char c \<Longrightarrow> norm_len_loop cs (length out) pend = int (length (normalize_loop cs out pend))"
proof (induction cs arbitrary: out pend)
  case (Cons c cs)
  have "norm_len_loop cs (length out + 1 + 1) False = int (length (normalize_loop cs (out @ [NameSep] @ [c]) False))"
    using Cons.IH [of "out @ [NameSep] @ [c]" False] Cons.prems by simp
  moreover have "norm_len_loop cs (length out + 1) False = int (length (normalize_loop cs (out @ [c]) False))"
    using Cons.IH [of "out @ [c]" False] Cons.prems by simp
  ultimately show ?case using Cons by auto
qed simp

lemma norm_len_loop_invalid: "\<exists>c \<in> set cs. \<not> is_name_char c \<Longrightarrow> norm_len_loop cs n pend = -1"
  by (induction cs arbitrary: n pend) auto

lemma name_normalized_len_iff: "0 \<le> name_normalized_len s \<longleftrightarrow> (\<forall>c \<in> set s. is_name_char c)"
proof (cases "\<forall>c \<in> set s. is_name_char c")
  case True
  then show ?thesis using norm_len_loop_length [of s "[]" False] by (simp add: name_normalized_len_def)
next
  case False
  then show ?thesis using norm_len_loop_invalid [of s 0 False] by (auto simp: name_normalized_len_def)
qed

lemma normalize_name_eq:
  "normalize_name s = (if \<forall>c \<in> set s. is_name_char c then Some (go_join NameSep (segments s)) else None)"
  using name_normalized_len_iff [of s] by (auto simp: normalize_name_def normalize_loop_segments(1))

lemma name_normalized_len_eq:
  "\<forall>c \<in> set s. is_name_char c \<Longrightarrow> name_normalized_len s = int (length (go_join NameSep (segments s)))"
  using norm_len_loop_length [of s "[]" False] by (simp add: name_normalized_len_def normalize_loop_segments(1))

lemma segments_append_sep: "segments (s @ [NameSep]) = segments s"
proof (induction s)
  case (Cons c s)
  obtain y ys where "go_split NameSep s = y # ys" using go_split_nonempty [of NameSep s] by (cases "go_split NameSep s") auto
  moreover obtain z zs where "go_split NameSep (s @ [NameSep]) = z # zs"
    using go_split_nonempty [of NameSep "s @ [NameSep]"] by (cases "go_split NameSep (s @ [NameSep])") auto
  moreover have "go_split NameSep (s @ [NameSep]) = go_split NameSep s @ [[]]"
    by (induction s) (auto split: list.splits)
  ultimately show ?case by (auto simp: segments_def)
qed (simp add: segments_def)

lemma segments_dropWhile: "segments (dropWhile (\<lambda>x. x = NameSep) s) = segments s"
  by (induction s) (auto simp: segments_Cons_sep)

lemma segments_trim_end: "segments (rev (dropWhile (\<lambda>x. x = NameSep) r)) = segments (rev r)"
  by (induction r) (auto simp: segments_append_sep)

lemma normalize_topic_name_eq: "normalize_topic_name s = go_join NameSep (segments s)"
  unfolding normalize_topic_name_def go_trim_def Let_def segments_def [symmetric]
  by (simp add: segments_trim_end segments_dropWhile)

lemma segments_normal: "segments (go_join NameSep (segments s)) = segments s"
  using segments_pieces by (intro segments_join) blast

lemma set_go_split: "p \<in> set (go_split c s) \<Longrightarrow> set p \<subseteq> set s"
proof (induction s arbitrary: p)
  case (Cons a s)
  then show ?case by (cases "go_split c s"; cases "a = c") fastforce+
qed simp

lemma set_go_join: "set (go_join c ps) \<subseteq> insert c (\<Union>p \<in> set ps. set p)"
  by (induction c ps rule: go_join.induct) auto

lemma normal_chars: "\<forall>c \<in> set s. is_name_char c \<Longrightarrow> \<forall>c \<in> set (go_join NameSep (segments s)). is_name_char c"
proof
  fix c assume v: "\<forall>c \<in> set s. is_name_char c" and "c \<in> set (go_join NameSep (segments s))"
  then have "c = NameSep \<or> (\<exists>p \<in> set (segments s). c \<in> set p)" using set_go_join by fastforce
  then show "is_name_char c"
  proof
    assume "\<exists>p \<in> set (segments s). c \<in> set p"
    then have "c \<in> set s" using set_go_split by (fastforce simp: segments_def)
    with v show ?thesis by blast
  qed (simp add: is_name_char_def)
qed

end
