(* ===== verification/CyNameSpec.thy ===== *)
theory CyNameSpec
  imports CyName
begin

text \<open>
  What the operations on names guarantee: the two normalisations of the code agree and are
  idempotent, the pin suffix is exactly a canonical decimal numeral, and a resolved name is in
  normal form.
\<close>

subsection \<open>Normal forms\<close>

definition normal_name :: "string \<Rightarrow> bool" where
  "normal_name s \<longleftrightarrow> (\<forall>c \<in> set s. is_name_char c) \<and> go_join NameSep (segments s) = s"

lemma normalize_name_normal: "normalize_name s = Some t \<Longrightarrow> normal_name t"
  using normal_chars [of s] segments_normal [of s] by (auto simp: normalize_name_eq normal_name_def split: if_splits)

lemma normal_name_normalize: "normal_name t \<Longrightarrow> normalize_name t = Some t"
  by (simp add: normalize_name_eq normal_name_def)

lemma normal_name_join_pieces:
  assumes "\<forall>p \<in> set ps. p \<noteq> [] \<and> NameSep \<notin> set p \<and> (\<forall>c \<in> set p. is_name_char c)"
  shows "normal_name (go_join NameSep ps)"
proof -
  have "segments (go_join NameSep ps) = ps" using assms by (intro segments_join) blast
  moreover have "\<forall>c \<in> set (go_join NameSep ps). is_name_char c"
    using set_go_join [of NameSep ps] assms by (fastforce simp: is_name_char_def)
  ultimately show ?thesis by (simp add: normal_name_def)
qed

lemma segments_chars: "\<forall>c \<in> set s. is_name_char c \<Longrightarrow> p \<in> set (segments s) \<Longrightarrow> \<forall>c \<in> set p. is_name_char c"
  using set_go_split [of p NameSep s] by (auto simp: segments_def)

lemma go_join_append:
  "ps \<noteq> [] \<Longrightarrow> qs \<noteq> [] \<Longrightarrow> go_join c (ps @ qs) = go_join c ps @ [c] @ go_join c qs"
  by (cases ps; cases qs) (auto simp: go_join_Cons)

lemma go_join_segments_Nil: "go_join NameSep (segments s) = [] \<longleftrightarrow> segments s = []"
  using segments_normal [of s] by (cases "segments s") (auto simp: segments_def go_join_Cons)

lemma name_join_eq:
  "name_join l r =
    (if (\<forall>c \<in> set l. is_name_char c) \<and> (\<forall>c \<in> set r. is_name_char c)
     then Some (go_join NameSep (segments l @ segments r)) else None)"
  by (auto simp: name_join_def normalize_name_eq go_join_segments_Nil go_join_append)

lemma name_join_normal: "name_join l r = Some t \<Longrightarrow> normal_name t"
proof -
  assume "name_join l r = Some t"
  then have v: "\<forall>c \<in> set l. is_name_char c" "\<forall>c \<in> set r. is_name_char c"
      and t: "t = go_join NameSep (segments l @ segments r)"
    by (auto simp: name_join_eq split: if_splits)
  show ?thesis
    unfolding t using segments_chars [OF v(1)] segments_chars [OF v(2)]
    by (intro normal_name_join_pieces) (auto dest: segments_pieces)
qed

lemma resolve_construct_normal: "name_resolve_construct name ns home = Some t \<Longrightarrow> normal_name t"
  by (auto simp: name_resolve_construct_def Let_def normalize_name_normal name_join_normal split: if_splits)

text \<open>C28: Normalising a name is idempotent and keeps exactly its segments; the length computed beforehand
  is that of the result; and the second normalisation of the code, the one the patterns use, gives
  the same name. It is refused exactly when some character is not a printable ASCII character, and
  then the computed length is -1.\<close>
theorem normalize_name_agrees:
  "(case normalize_name s of
      Some t \<Rightarrow> normalize_topic_name s = t \<and> normalize_name t = Some t \<and> segments t = segments s
        \<and> name_normalized_len s = int (length t)
    | None \<Rightarrow> (\<exists>c \<in> set s. \<not> is_name_char c) \<and> name_normalized_len s = -1)"
proof (cases "\<forall>c \<in> set s. is_name_char c")
  case True
  then have n: "normalize_name s = Some (go_join NameSep (segments s))" by (simp add: normalize_name_eq)
  moreover have "normalize_name (go_join NameSep (segments s)) = Some (go_join NameSep (segments s))"
    using normal_name_normalize [OF normalize_name_normal [OF n]] .
  ultimately show ?thesis
    using True by (simp add: normalize_topic_name_eq segments_normal name_normalized_len_eq)
next
  case False
  then show ?thesis
    using norm_len_loop_invalid [of s 0 False] by (auto simp: normalize_name_eq name_normalized_len_def)
qed

subsection \<open>Pin suffixes are canonical decimal numerals\<close>

function dec :: "nat \<Rightarrow> string" where
  "dec n = (if n < 10 then [char_of (48 + n)] else dec (n div 10) @ [char_of (48 + n mod 10)])"
  by auto
termination by (relation "measure id") auto

declare dec.simps [simp del]

definition digit_val :: "char \<Rightarrow> nat" where "digit_val c = of_char c - 48"

definition decimal :: "string \<Rightarrow> nat \<Rightarrow> nat" where
  "decimal ds v = foldl (\<lambda>v c. v * 10 + digit_val c) v ds"

lemma of_char_digit: "n < 10 \<Longrightarrow> of_char (char_of (48 + n :: nat)) = 48 + n"
  by (simp add: of_char_of)

lemma is_digit_char_of: "n < 10 \<Longrightarrow> is_digit (char_of (48 + n :: nat)) \<and> digit_val (char_of (48 + n)) = n"
  by (simp add: is_digit_def digit_val_def of_char_digit)

lemma char_of_digit_val: "is_digit c \<Longrightarrow> char_of (48 + digit_val c) = c \<and> digit_val c < 10"
  by (auto simp: is_digit_def digit_val_def)

lemma decimal_snoc: "decimal (ds @ [c]) v = decimal ds v * 10 + digit_val c"
  by (simp add: decimal_def)

lemma decimal_ge: "v \<le> decimal ds v"
  by (induction ds rule: rev_induct) (auto simp: decimal_def)

lemma dec_digits: "\<forall>c \<in> set (dec n). is_digit c"
  by (induction n rule: dec.induct) (subst dec.simps, auto simp: is_digit_char_of)

lemma decimal_dec: "decimal (dec n) 0 = n"
proof (induction n rule: dec.induct)
  case (1 n)
  then show ?case
    by (subst dec.simps) (auto simp: decimal_snoc is_digit_char_of, simp add: decimal_def is_digit_char_of)
qed

lemma dec_nonempty [simp]: "dec n \<noteq> []"
  by (subst dec.simps) simp

lemma dec_hd: "1 < length (dec n) \<Longrightarrow> dec n ! 0 \<noteq> CHR ''0''"
proof (induction n rule: dec.induct)
  case (1 n)
  show ?case
  proof (cases "n < 10")
    case True
    with "1.prems" show ?thesis by (simp add: dec.simps)
  next
    case False
    then have d: "dec n = dec (n div 10) @ [char_of (48 + n mod 10)]" by (simp add: dec.simps [of n])
    show ?thesis
    proof (cases "1 < length (dec (n div 10))")
      case True
      with "1.IH" False show ?thesis by (simp add: d nth_append)
    next
      case F: False
      then have l: "length (dec (n div 10)) = 1" by (cases "dec (n div 10)") auto
      have "n div 10 < 10"
      proof (rule ccontr)
        assume "\<not> n div 10 < 10"
        then have "length (dec (n div 10)) \<noteq> 1" by (simp add: dec.simps [of "n div 10"])
        with l show False by simp
      qed
      then have "dec (n div 10) ! 0 = char_of (48 + n div 10)" by (simp add: dec.simps [of "n div 10"])
      moreover have "char_of (48 + n div 10) \<noteq> CHR ''0''"
      proof
        assume "char_of (48 + n div 10) = CHR ''0''"
        then have "of_char (char_of (48 + n div 10 :: nat)) = (48 :: nat)" by simp
        then have "n div 10 = 0" using \<open>n div 10 < 10\<close> by (simp add: of_char_digit)
        with False show False by simp
      qed
      ultimately show ?thesis by (simp add: d nth_append)
    qed
  qed
qed

lemma dec_decimal:
  assumes "\<forall>c \<in> set ds. is_digit c" "ds \<noteq> []" "1 < length ds \<longrightarrow> ds ! 0 \<noteq> CHR ''0''"
  shows "dec (decimal ds 0) = ds"
  using assms
proof (induction ds rule: rev_induct)
  case (snoc c ds)
  have c: "char_of (48 + digit_val c) = c" "digit_val c < 10" using snoc.prems(1) char_of_digit_val [of c] by auto
  show ?case
  proof (cases "ds = []")
    case True
    then show ?thesis using c by (simp add: decimal_def dec.simps)
  next
    case False
    have h: "ds ! 0 \<noteq> CHR ''0''" using snoc.prems(3) False by (simp add: nth_append)
    have d: "is_digit (ds ! 0)" using snoc.prems(1) False by (auto simp: hd_conv_nth [symmetric])
    have ih: "dec (decimal ds 0) = ds" using snoc h False by auto
    have "0 < decimal ds 0"
    proof -
      have "digit_val (ds ! 0) \<noteq> 0"
      proof
        assume "digit_val (ds ! 0) = 0"
        with char_of_digit_val [OF d] have "char_of (48 :: nat) = ds ! 0" by simp
        moreover have "char_of (48 :: nat) = CHR ''0''" by code_simp
        ultimately show False using h by metis
      qed
      moreover have "decimal ds 0 = decimal (tl ds) (digit_val (ds ! 0))"
        using False by (cases ds) (auto simp: decimal_def)
      ultimately show ?thesis using decimal_ge [of "digit_val (ds ! 0)" "tl ds"] by simp
    qed
    then have "\<not> decimal ds 0 * 10 + digit_val c < 10" by simp
    then have "dec (decimal ds 0 * 10 + digit_val c)
        = dec ((decimal ds 0 * 10 + digit_val c) div 10) @ [char_of (48 + (decimal ds 0 * 10 + digit_val c) mod 10)]"
      by (subst dec.simps) simp
    also have "\<dots> = ds @ [c]" using ih c by simp
    finally show ?thesis by (simp add: decimal_snoc)
  qed
qed simp

lemma digit_word: "is_digit c \<Longrightarrow> word_of_nat (of_char c) - 48 = (word_of_nat (digit_val c) :: u32)"
  by (auto simp: is_digit_def digit_val_def of_nat_diff)

lemma pin_value_decimal:
  assumes "\<forall>c \<in> set ds. is_digit c" "v \<le> 8191"
  shows "pin_value ds (word_of_nat v) = (if decimal ds v \<le> 8191 then Some (word_of_nat (decimal ds v)) else None)"
  using assms
proof (induction ds arbitrary: v)
  case (Cons c ds)
  let ?w = "v * 10 + digit_val c"
  have d: "digit_val c < 10" using Cons.prems char_of_digit_val by simp
  have w: "word_of_nat v * 10 + (word_of_nat (of_char c) - 48) = (word_of_nat ?w :: u32)"
    using Cons.prems by (simp add: digit_word)
  have u: "unat (word_of_nat ?w :: u32) = ?w"
    using d Cons.prems by (intro unat_of_nat_small) simp
  have gt: "subject_id_pinned_max < word_of_nat ?w \<longleftrightarrow> 8191 < ?w"
    unfolding word_less_nat_alt u pinned_max_unat ..
  have "decimal (c # ds) v = decimal ds ?w" by (simp add: decimal_def)
  moreover have "?w \<le> decimal ds ?w" by (rule decimal_ge)
  ultimately show ?case using Cons.IH [of ?w] Cons.prems w gt by (simp add: Let_def)
qed (simp add: decimal_def)

text \<open>The backward scan stops at the last pin prefix, if only digits follow it.\<close>

lemma pin_hash_pos_suffix:
  assumes "\<forall>c \<in> set ds. is_digit c" "k \<le> length ds"
  shows "pin_hash_pos (b @ NamePinPrefix # ds) (length b + 1 + k) = Some (length b)"
  using assms(2)
proof (induction k)
  case (Suc k)
  have "(b @ NamePinPrefix # ds) ! (length b + 1 + k) = ds ! k" by (simp add: nth_append)
  moreover have "is_digit (ds ! k)" using assms(1) Suc.prems by simp
  moreover have "ds ! k \<noteq> NamePinPrefix" using \<open>is_digit (ds ! k)\<close> by (auto simp: is_digit_def)
  ultimately show ?case using Suc by simp
qed (simp add: nth_append)

lemma pin_hash_pos_Some:
  "pin_hash_pos s i = Some h \<Longrightarrow> i \<le> length s \<Longrightarrow> h < length s \<Longrightarrow>
    h < i \<and> s ! h = NamePinPrefix \<and> (\<forall>j. h < j \<and> j < i \<longrightarrow> is_digit (s ! j))"
proof (induction i)
  case (Suc i)
  show ?case
  proof (cases "s ! i = NamePinPrefix")
    case False
    with Suc.prems have d: "is_digit (s ! i)" "pin_hash_pos s i = Some h" by (auto split: if_splits)
    with Suc show ?thesis by (auto simp: less_Suc_eq)
  qed (use Suc.prems in auto)
qed simp

lemma pin_accepts:
  assumes "n \<le> 8191"
  shows "name_consume_pin_suffix (b @ NamePinPrefix # dec n) = (b, word_of_nat n)"
proof -
  let ?s = "b @ NamePinPrefix # dec n"
  have h: "pin_hash_pos ?s (length ?s) = Some (length b)"
    using pin_hash_pos_suffix [OF dec_digits, of "length (dec n)" n b] by simp
  have v: "pin_value (dec n) 0 = Some (word_of_nat n)"
    using pin_value_decimal [OF dec_digits, of 0 n] assms by (simp add: decimal_dec)
  have z: "\<not> (1 < length (dec n) \<and> ?s ! (length b + 1) = CHR ''0'')"
    using dec_hd [of n] by (auto simp: nth_append)
  have u: "ucast (word_of_nat n :: u32) = (word_of_nat n :: u16)"
  proof -
    have "unat (word_of_nat n :: u32) = n" "unat (word_of_nat n :: u16) = n"
      using assms by (auto intro: unat_of_nat_small)
    then show ?thesis using assms by (simp add: word_unat_eq_iff unsigned_ucast_eq take_bit_nat_eq_self)
  qed
  show ?thesis
    unfolding name_consume_pin_suffix_def h using z v u by (simp add: Let_def)
qed

lemma pin_sound:
  assumes "name_consume_pin_suffix s = (b, p)"
  shows "p = PinNone \<and> b = s \<or> unat p \<le> 8191 \<and> s = b @ NamePinPrefix # dec (unat p)"
proof (cases "p = PinNone \<and> b = s")
  case False
  obtain h where h0: "pin_hash_pos s (length s) = Some h"
    using assms False by (cases "pin_hash_pos s (length s)") (auto simp: name_consume_pin_suffix_def)
  have c: "(if h \<ge> length s then (s, PinNone)
      else if length s - h - 1 = 0 then (s, PinNone)
      else if length s - h - 1 > 1 \<and> s ! (h + 1) = CHR ''0'' then (s, PinNone)
      else case pin_value (drop (h + 1) s) 0 of None \<Rightarrow> (s, PinNone) | Some val \<Rightarrow> (take h s, ucast val)) = (b, p)"
    using assms unfolding name_consume_pin_suffix_def h0 Let_def option.case .
  have n: "(b, p) \<noteq> (s, PinNone)" using False by auto
  have h: "pin_hash_pos s (length s) = Some h" "h < length s" using h0 c n by (auto split: if_split_asm)
  have z: "length s - h - 1 \<noteq> 0" "\<not> (length s - h - 1 > 1 \<and> s ! (h + 1) = CHR ''0'')"
    using c n h(2) by (metis not_le)+
  obtain val where v: "pin_value (drop (h + 1) s) 0 = Some val"
    using c n h(2) z by (cases "pin_value (drop (h + 1) s) 0") (metis (no_types, lifting) not_le option.case(1))+
  have bp: "b = take h s" "p = ucast val"
    using c n h(2) z unfolding v option.case by (metis not_le prod.inject)+
  let ?ds = "drop (h + 1) s"
  from pin_hash_pos_Some [OF h(1) order_refl h(2)]
  have s: "s ! h = NamePinPrefix" and ds: "\<forall>c \<in> set ?ds. is_digit c"
    by (auto simp: in_set_conv_nth)
  have split: "s = b @ NamePinPrefix # ?ds"
    using h(2) s bp(1) by (metis Suc_eq_plus1 id_take_nth_drop)
  have ne: "?ds \<noteq> []" "1 < length ?ds \<longrightarrow> ?ds ! 0 \<noteq> CHR ''0''" using z by auto
  have le: "decimal ?ds 0 \<le> 8191" and val: "val = word_of_nat (decimal ?ds 0)"
    using pin_value_decimal [OF ds, of 0] v by (auto split: if_splits)
  have u: "unat (word_of_nat (decimal ?ds 0) :: u32) = decimal ?ds 0" using le by (intro unat_of_nat_small) simp
  have "unat p = decimal ?ds 0"
    using le unfolding bp(2) val unsigned_ucast_eq u by (simp add: take_bit_nat_eq_self)
  with le split dec_decimal [OF ds ne] show ?thesis by simp
qed blast

text \<open>C29: The pin of a name is recognised exactly when the name ends in the pin prefix and the canonical
  decimal numeral (no leading zeros) of a number in the pinned range; then the name is shortened by
  it, and otherwise it is left alone. A name printed with a pin is read back to the same parts.\<close>
theorem pin_suffix_exact:
  "(n \<le> 8191 \<longrightarrow> name_consume_pin_suffix (b @ NamePinPrefix # dec n) = (b, word_of_nat n))
   \<and> (\<forall>b' p. name_consume_pin_suffix s = (b', p) \<longrightarrow>
        (if p = PinNone then b' = s else unat p \<le> 8191 \<and> s = b' @ NamePinPrefix # dec (unat p)))"
proof (intro conjI allI impI)
  assume "n \<le> 8191"
  then show "name_consume_pin_suffix (b @ NamePinPrefix # dec n) = (b, word_of_nat n)" by (rule pin_accepts)
next
  fix b' p assume "name_consume_pin_suffix s = (b', p)"
  from pin_sound [OF this] show "if p = PinNone then b' = s else unat p \<le> 8191 \<and> s = b' @ NamePinPrefix # dec (unat p)"
    by (auto simp: PinNone_def)
qed

theorem pin_suffix_exact_witness:
  "name_consume_pin_suffix (''foo'' @ NamePinPrefix # dec 1234) = (''foo'', 1234)"
  using pin_suffix_exact [of 1234 "''foo''" "[]"] by simp

subsection \<open>Resolution\<close>

lemma pinned_iff:
  assumes "name_consume_pin_suffix s = (b, p)"
  shows "(ucast p :: u32) \<le> subject_id_pinned_max \<longleftrightarrow> p \<noteq> PinNone"
proof -
  have "unat (ucast p :: u32) = unat p" by (rule unat_ucast_up) simp
  then show ?thesis
    using pin_sound [OF assms] by (auto simp: word_le_nat_alt pinned_max_unat PinNone_def)
qed

lemma remap_name_pin:
  assumes "name_consume_pin_suffix s = (b, q)" "remap_name remap b q = (e, p)"
  shows "(ucast p :: u32) \<le> subject_id_pinned_max \<longleftrightarrow> p \<noteq> PinNone"
  using assms pinned_iff by (auto simp: remap_name_def split: option.splits)

lemma name_resolve_ok:
  assumes "res_ok (name_resolve remap name ns home)"
  obtains p t where "name_resolve remap name ns home = \<lparr>res_name = t, res_pin = p, res_verbatim = name_is_verbatim t, res_ok = True\<rparr>"
    "normal_name t" "t \<noteq> []" "length t \<le> topic_name_max" "p \<noteq> PinNone \<longrightarrow> p \<le> 0x1FFF \<and> name_is_verbatim t"
proof -
  obtain b q where c: "name_consume_pin_suffix name = (b, q)" by fastforce
  obtain e p where r: "remap_name remap b q = (e, p)" by fastforce
  from assms c r obtain t where t: "name_resolve_construct e ns home = Some t" "t \<noteq> []" "length t \<le> topic_name_max"
      "\<not> (ucast p \<le> subject_id_pinned_max \<and> \<not> name_is_verbatim t)"
    "name_resolve remap name ns home = \<lparr>res_name = t, res_pin = p, res_verbatim = name_is_verbatim t, res_ok = True\<rparr>"
    by (auto simp: name_resolve_def bad_resolved_def Let_def split: if_splits option.splits)
  have "p \<le> 0x1FFF" if "p \<noteq> PinNone"
  proof -
    have "(ucast p :: u32) \<le> subject_id_pinned_max" using remap_name_pin [OF c r] that by simp
    moreover have "unat (ucast p :: u32) = unat p" by (rule unat_ucast_up) simp
    ultimately show ?thesis by (simp add: word_le_nat_alt pinned_max_unat)
  qed
  with t remap_name_pin [OF c r] that show ?thesis using resolve_construct_normal [OF t(1)] by blast
qed

lemma resolve_absolute_normal:
  assumes "normal_name t" "t \<noteq> []" "length t \<le> topic_name_max" "snd (name_consume_pin_suffix (NameSep # t)) = PinNone"
  shows "name_resolve Map.empty (NameSep # t) ns home
    = \<lparr>res_name = t, res_pin = PinNone, res_verbatim = name_is_verbatim t, res_ok = True\<rparr>"
proof -
  obtain b where b: "name_consume_pin_suffix (NameSep # t) = (b, PinNone)" using assms(4) by (metis prod.collapse)
  then have b: "name_consume_pin_suffix (NameSep # t) = (NameSep # t, PinNone)"
    using pin_sound [OF b] by (auto simp: PinNone_def)
  have v: "\<forall>c \<in> set (NameSep # t). is_name_char c"
    using assms(1) by (auto simp: normal_name_def is_name_char_def)
  have n: "go_join NameSep (segments (NameSep # t)) = t"
    using assms(1) by (simp add: segments_Cons_sep normal_name_def)
  then have l: "name_normalized_len (NameSep # t) = int (length t)" using name_normalized_len_eq [OF v] by simp
  have r: "remap_name Map.empty (NameSep # t) PinNone = (NameSep # t, PinNone)"
    by (simp add: remap_name_def split: option.split)
  have "name_resolve_construct (NameSep # t) ns home = Some t"
    using v n by (simp add: name_resolve_construct_def name_is_absolute_def normalize_name_eq)
  moreover have "\<not> ucast PinNone \<le> subject_id_pinned_max"
    by (simp add: PinNone_def subject_id_pinned_max_def)
  ultimately show ?thesis using b l r assms(2, 3) by (simp add: name_resolve_def)
qed

text \<open>C27: A name either fails to resolve, and then the result is the empty one without a pin, or it
  resolves to a nonempty name in normal form of at most 200 characters, whatever the remapping, the
  namespace and the home are; a pin is kept only for a name that is not a pattern, and lies in the
  pinned range. The resolved name, made absolute, resolves to itself under any namespace and home
  (unless it ends in a pin suffix of its own).\<close>
theorem name_resolve_canonical:
  "(let r = name_resolve remap name ns home in
     if res_ok r then
       normalize_name (res_name r) = Some (res_name r) \<and> res_name r \<noteq> [] \<and> length (res_name r) \<le> topic_name_max
       \<and> res_verbatim r = name_is_verbatim (res_name r)
       \<and> (res_pin r = PinNone \<or> res_pin r \<le> 0x1FFF \<and> res_verbatim r)
       \<and> (snd (name_consume_pin_suffix (NameSep # res_name r)) = PinNone \<longrightarrow>
            res_name (name_resolve Map.empty (NameSep # res_name r) ns' home') = res_name r)
     else r = bad_resolved)"
proof (cases "res_ok (name_resolve remap name ns home)")
  case True
  then show ?thesis
    by (elim name_resolve_ok) (auto simp: Let_def normal_name_normalize resolve_absolute_normal)
next
  case False
  then have "name_resolve remap name ns home = bad_resolved"
    by (auto simp: name_resolve_def bad_resolved_def Let_def split: if_splits option.splits prod.splits)
  with False show ?thesis by (simp add: Let_def)
qed

theorem name_resolve_canonical_witness:
  "res_name (name_resolve Map.empty (NameSep # ''ns/foo/bar'') ''x'' ''y'') = ''ns/foo/bar''"
proof -
  have r: "name_resolve Map.empty ''foo//bar'' ''ns'' ''home''
      = \<lparr>res_name = ''ns/foo/bar'', res_pin = PinNone, res_verbatim = True, res_ok = True\<rparr>"
    by code_simp
  have p: "snd (name_consume_pin_suffix (NameSep # ''ns/foo/bar'')) = PinNone" by code_simp
  show ?thesis
    using name_resolve_canonical [of Map.empty "''foo//bar''" "''ns''" "''home''" "''x''" "''y''"]
    unfolding r Let_def by (simp add: p)
qed

end
