(* ===== verification/CyPattern.thy ===== *)
theory CyPattern
  imports CyNameSpec "HOL-Library.AList"
begin

text \<open>
  \<open>cy/pattern.go\<close>: topic patterns. A pattern is a name with the segments \<open>*\<close> (any one segment)
  and \<open>>\<close> (any number of segments); the matcher backtracks over what \<open>>\<close> takes.
\<close>

subsection \<open>The matcher\<close>

text \<open>The first alternative that succeeds, as a loop with a return in its body.\<close>

fun first_some :: "('a \<Rightarrow> 'b option) \<Rightarrow> 'a list \<Rightarrow> 'b option" where
  "first_some f [] = None"
| "first_some f (x # xs) = (case f x of None \<Rightarrow> first_some f xs | Some y \<Rightarrow> Some y)"

abbreviation one_segment :: string where "one_segment \<equiv> ''*''"
abbreviation any_segments :: string where "any_segments \<equiv> ''>''"

text \<open>
  The indices \<open>pi\<close> and \<open>ti\<close> of the code are the suffixes of the two lists; what is appended to
  \<open>subs\<close> in a failed attempt is cut off again, so that \<open>None\<close> carries nothing.
\<close>

primrec match_segs :: "string list \<Rightarrow> string list \<Rightarrow> string list \<Rightarrow> string list option" where
  "match_segs [] t subs = (if t = [] then Some subs else None)"
| "match_segs (seg # p) t subs =
    (if seg = one_segment then (case t of [] \<Rightarrow> None | x # t' \<Rightarrow> match_segs p t' (subs @ [x]))
     else if seg = any_segments then
       first_some (\<lambda>k. match_segs p (drop k t) (subs @ [if 0 < k then go_join NameSep (take k t) else []]))
         [0..<Suc (length t)]
     else (case t of [] \<Rightarrow> None | x # t' \<Rightarrow> if seg \<noteq> x then None else match_segs p t' subs))"

definition match_segments :: "string list \<Rightarrow> string list \<Rightarrow> bool \<times> string list" where
  "match_segments pattern topic =
    (case match_segs pattern topic [] of Some subs \<Rightarrow> (True, subs) | None \<Rightarrow> (False, []))"

definition match_pattern :: "string \<Rightarrow> string \<Rightarrow> bool \<times> string list" where
  "match_pattern pattern topic =
    (let pattern = normalize_topic_name pattern;
         topic = normalize_topic_name topic;
         pattern_segs = go_split NameSep pattern;
         topic_segs = go_split NameSep topic
     in match_segments pattern_segs topic_segs)"

definition is_pattern :: "string \<Rightarrow> bool" where
  "is_pattern name \<longleftrightarrow> contains_any name ''*>''"

record pattern_segment =
  seg_literal :: string
  seg_wildcard :: bool
  seg_multi :: bool

definition compile_pattern :: "string \<Rightarrow> pattern_segment list" where
  "compile_pattern pattern =
    (let parts = go_split NameSep (normalize_topic_name pattern)
     in map (\<lambda>part.
          if part = one_segment then \<lparr>seg_literal = [], seg_wildcard = True, seg_multi = False\<rparr>
          else if part = any_segments then \<lparr>seg_literal = [], seg_wildcard = True, seg_multi = True\<rparr>
          else \<lparr>seg_literal = part, seg_wildcard = False, seg_multi = False\<rparr>) parts)"

subsection \<open>The registry of pattern subscribers\<close>

text \<open>
  A subscriber is a pointer, here a number. The map from patterns to subscribers is kept as a list
  of entries with different keys, in some iteration order.
\<close>

type_synonym matcher = "(string \<times> nat list) list"

definition subs_of :: "matcher \<Rightarrow> string \<Rightarrow> nat list" where
  "subs_of pm pattern = (case map_of pm pattern of None \<Rightarrow> [] | Some subs \<Rightarrow> subs)"

definition add_pattern :: "matcher \<Rightarrow> string \<Rightarrow> nat \<Rightarrow> matcher" where
  "add_pattern pm pattern sub = AList.update pattern (subs_of pm pattern @ [sub]) pm"

definition has_pattern :: "matcher \<Rightarrow> string \<Rightarrow> bool" where
  "has_pattern pm pattern \<longleftrightarrow> 0 < length (subs_of pm pattern)"

definition remove_pattern :: "matcher \<Rightarrow> string \<Rightarrow> nat \<Rightarrow> matcher" where
  "remove_pattern pm pattern sub =
    (case map_of pm pattern of
       None \<Rightarrow> pm
     | Some subs \<Rightarrow> if sub \<in> set subs then AList.update pattern (remove1 sub subs) pm else pm)"

definition remove_subscriber :: "matcher \<Rightarrow> nat \<Rightarrow> matcher" where
  "remove_subscriber pm sub = map (\<lambda>(pattern, subs). (pattern, remove1 sub subs)) pm"

definition match_topic :: "matcher \<Rightarrow> string \<Rightarrow> (nat \<rightharpoonup> string list)" where
  "match_topic pm topic_name =
    fold (\<lambda>(pattern, subs) results.
        let (matched, substitutions) = match_pattern pattern topic_name
        in if matched then fold (\<lambda>sub results. results(sub \<mapsto> substitutions)) subs results else results)
      pm Map.empty"

subsection \<open>What a match is\<close>

inductive matches :: "string list \<Rightarrow> string list \<Rightarrow> string list \<Rightarrow> bool" where
  matches_nil: "matches [] [] []"
| matches_one: "matches p t ss \<Longrightarrow> matches (one_segment # p) (x # t) (x # ss)"
| matches_any: "matches p t ss \<Longrightarrow> matches (any_segments # p) (ts @ t) (go_join NameSep ts # ss)"
| matches_lit: "seg \<noteq> one_segment \<Longrightarrow> seg \<noteq> any_segments \<Longrightarrow> matches p t ss \<Longrightarrow> matches (seg # p) (seg # t) ss"

inductive_cases matches_NilE: "matches [] t ss"
inductive_cases matches_ConsE: "matches (seg # p) t ss"

lemma first_some_Some: "first_some f xs = Some y \<Longrightarrow> \<exists>x \<in> set xs. f x = Some y"
  by (induction xs) (auto split: option.splits)

lemma first_some_None: "first_some f xs = None \<longleftrightarrow> (\<forall>x \<in> set xs. f x = None)"
  by (induction xs) (auto split: option.splits)

lemma match_segs_sound: "match_segs p t subs = Some res \<Longrightarrow> \<exists>ss. res = subs @ ss \<and> matches p t ss"
proof (induction p arbitrary: t subs res)
  case Nil
  then show ?case by (auto split: if_splits intro: matches_nil)
next
  case (Cons seg p)
  consider (one) "seg = one_segment" | (any) "seg = any_segments" | (lit) "seg \<noteq> one_segment" "seg \<noteq> any_segments" by blast
  then show ?case
  proof cases
    case one
    with Cons.prems obtain x t' where "t = x # t'" "match_segs p t' (subs @ [x]) = Some res" by (auto split: list.splits)
    with Cons.IH one show ?thesis by (fastforce intro: matches_one)
  next
    case any
    with Cons.prems obtain k where k: "k \<le> length t"
        "match_segs p (drop k t) (subs @ [if 0 < k then go_join NameSep (take k t) else []]) = Some res"
      by (auto dest!: first_some_Some simp: less_Suc_eq_le simp del: upt_Suc)
    from Cons.IH [OF k(2)] obtain ss where ss: "res = (subs @ [if 0 < k then go_join NameSep (take k t) else []]) @ ss"
        "matches p (drop k t) ss" by blast
    have "matches (any_segments # p) (take k t @ drop k t) (go_join NameSep (take k t) # ss)"
      by (rule matches_any) (rule ss(2))
    with any ss(1) show ?thesis by (intro exI [of _ "go_join NameSep (take k t) # ss"]) auto
  next
    case lit
    with Cons.prems obtain t' where "t = seg # t'" "match_segs p t' subs = Some res" by (auto split: list.splits if_splits)
    with Cons.IH lit show ?thesis by (fastforce intro: matches_lit)
  qed
qed

lemma match_segs_complete: "matches p t ss \<Longrightarrow> match_segs p t subs \<noteq> None"
proof (induction p t ss arbitrary: subs rule: matches.induct)
  case (matches_any p t ss ts)
  have "match_segs p (drop (length ts) (ts @ t)) (subs @ [if 0 < length ts then go_join NameSep (take (length ts) (ts @ t)) else []]) \<noteq> None"
    using matches_any.IH by simp
  then have "first_some (\<lambda>k. match_segs p (drop k (ts @ t)) (subs @ [if 0 < k then go_join NameSep (take k (ts @ t)) else []]))
      [0..<Suc (length (ts @ t))] \<noteq> None"
    unfolding first_some_None by (intro notI) (drule bspec [of _ _ "length ts"], auto)
  then show ?case by (simp del: upt_Suc)
qed auto

lemma matches_length: "matches p t ss \<Longrightarrow> length ss = length (filter (\<lambda>s. s = one_segment \<or> s = any_segments) p)"
  by (induction rule: matches.induct) auto

text \<open>Putting the substitutions back for the wildcards gives the topic.\<close>

fun substitute :: "string list \<Rightarrow> string list \<Rightarrow> string list" where
  "substitute [] ss = []"
| "substitute (seg # p) ss =
    (if seg = one_segment \<or> seg = any_segments then
       (case ss of [] \<Rightarrow> substitute p [] | s # ss \<Rightarrow> (if seg = any_segments then segments s else [s]) @ substitute p ss)
     else seg # substitute p ss)"

lemma matches_substitute:
  "matches p t ss \<Longrightarrow> \<forall>x \<in> set t. x \<noteq> [] \<and> NameSep \<notin> set x \<Longrightarrow> substitute p ss = t"
  by (induction rule: matches.induct) (auto simp: segments_join)

lemma go_split_normalized: "go_split NameSep (normalize_topic_name s) = (if segments s = [] then [[]] else segments s)"
proof (cases "segments s")
  case (Cons x xs)
  have "go_split NameSep (go_join NameSep ps) = ps" if "ps \<noteq> []" "\<forall>p \<in> set ps. NameSep \<notin> set p" for ps
    using that by (induction NameSep ps rule: go_join.induct) (auto simp: go_split_no_sep go_split_append)
  then show ?thesis using Cons segments_pieces [of _ s] by (auto simp: normalize_topic_name_eq)
qed (simp add: normalize_topic_name_eq)

abbreviation name_segs :: "string \<Rightarrow> string list" where
  "name_segs s \<equiv> go_split NameSep (normalize_topic_name s)"

text \<open>C30: The backtracking matcher is sound and complete: it reports a match exactly when the segments of
  the topic can be obtained from the pattern by replacing every \<open>*\<close> by one segment and every \<open>>\<close> by
  any number of them, and then it returns one substitution for each wildcard, in order, which put in place
  of the wildcards give back the segments of the topic. When there is no match there are no substitutions.\<close>
theorem match_pattern_correct:
  "(case match_pattern pattern topic of
      (matched, ss) \<Rightarrow>
        matched = (\<exists>ss'. matches (name_segs pattern) (name_segs topic) ss')
        \<and> (if matched then matches (name_segs pattern) (name_segs topic) ss
             \<and> length ss = length (filter (\<lambda>s. seg_wildcard s) (compile_pattern pattern))
             \<and> (segments topic = [] \<or> substitute (name_segs pattern) ss = segments topic)
           else ss = []))"
proof -
  let ?p = "name_segs pattern" and ?t = "name_segs topic"
  have wild: "length (filter (\<lambda>s. seg_wildcard s) (compile_pattern pattern))
      = length (filter (\<lambda>s. s = one_segment \<or> s = any_segments) ?p)"
    by (simp add: compile_pattern_def Let_def filter_map o_def) (rule arg_cong [of _ _ length], rule filter_cong, auto)
  show ?thesis
  proof (cases "match_segs ?p ?t []")
    case None
    then have "\<not> matches ?p ?t ss'" for ss' using match_segs_complete by metis
    with None show ?thesis by (simp add: match_pattern_def match_segments_def)
  next
    case (Some ss)
    then have m: "matches ?p ?t ss" using match_segs_sound by fastforce
    have "substitute ?p ss = segments topic" if "segments topic \<noteq> []"
      using that matches_substitute [OF m] segments_pieces [of _ topic] by (auto simp: go_split_normalized)
    with m Some matches_length [OF m] wild show ?thesis
      by (auto simp: match_pattern_def match_segments_def)
  qed
qed

subsection \<open>The registry\<close>

definition matcher_ok :: "matcher \<Rightarrow> bool" where
  "matcher_ok pm \<longleftrightarrow> distinct (map fst pm)"

lemma subs_of_add: "subs_of (add_pattern pm p s) q = (if q = p then subs_of pm p @ [s] else subs_of pm q)"
  by (simp add: subs_of_def add_pattern_def update_conv')

lemma matcher_ok_add: "matcher_ok pm \<Longrightarrow> matcher_ok (add_pattern pm p s)"
  by (simp add: matcher_ok_def add_pattern_def distinct_update)

lemma matcher_ok_remove: "matcher_ok pm \<Longrightarrow> matcher_ok (remove_pattern pm p s)"
  by (auto simp: matcher_ok_def remove_pattern_def distinct_update split: option.splits)

lemma subs_of_remove: "subs_of (remove_pattern pm p s) q = (if q = p then remove1 s (subs_of pm p) else subs_of pm q)"
  by (auto simp: subs_of_def remove_pattern_def update_conv' remove1_idem split: option.splits)

lemma subs_of_remove_subscriber: "subs_of (remove_subscriber pm s) q = remove1 s (subs_of pm q)"
  by (induction pm) (auto simp: subs_of_def remove_subscriber_def)

lemma fold_results: "fold (\<lambda>sub results. results(sub \<mapsto> v)) subs r s = (if s \<in> set subs then Some v else r s)"
  by (induction subs arbitrary: r) auto

lemma match_topic_dom:
  assumes "matcher_ok pm"
  shows "dom (match_topic pm name) = {s. \<exists>p. fst (match_pattern p name) \<and> s \<in> set (subs_of pm p)}"
proof -
  define step where "step = (\<lambda>(pattern, subs) results.
        let (matched, substitutions) = match_pattern pattern name
        in if matched then fold (\<lambda>sub results. results(sub \<mapsto> substitutions)) subs results else (results :: nat \<rightharpoonup> string list))"
  have "dom (fold step xs r) = dom r \<union> {s. \<exists>(p, subs) \<in> set xs. fst (match_pattern p name) \<and> s \<in> set subs}" for xs r
  proof (induction xs arbitrary: r)
    case (Cons x xs)
    obtain p subs where x: "x = (p, subs)" by fastforce
    have "dom (step x r) = dom r \<union> {s. fst (match_pattern p name) \<and> s \<in> set subs}"
      by (auto simp: step_def x fold_results dom_def split: prod.splits)
    then show ?case using Cons.IH [of "step x r"] x by auto
  qed simp
  from this [of pm Map.empty] have "dom (match_topic pm name) = {s. \<exists>(p, subs) \<in> set pm. fst (match_pattern p name) \<and> s \<in> set subs}"
    by (simp add: match_topic_def step_def)
  also have "\<dots> = {s. \<exists>p. fst (match_pattern p name) \<and> s \<in> set (subs_of pm p)}"
    using assms by (auto simp: matcher_ok_def subs_of_def split: option.splits dest: map_of_SomeD)
  finally show ?thesis .
qed

end
