(* ===== verification/CyDedup.thy ===== *)
theory CyDedup
  imports CyTypes
begin

unbundle bit_operations_syntax

text \<open>
  The reliable-message deduplication of \<open>cy/reliable.go\<close> and \<open>cy/topic.go\<close>: a sliding bitmap of the
  tags that were accepted from one remote node, and the states of a topic for all its remotes.
\<close>

subsection \<open>Shifting a bitmap\<close>

definition dedup_history :: nat where "dedup_history = 512"

text \<open>The in-place loops of \<open>bitmapShift\<close>, each a fold over the indices in the order of the code.\<close>

definition shift_words_up :: "nat \<Rightarrow> nat \<Rightarrow> u64 list \<Rightarrow> u64 list" where
  "shift_words_up words whole b =
    fold (\<lambda>i b. b[i := if i \<ge> whole then b ! (i - whole) else 0]) (rev [0..<words]) b"

definition shift_bits_up :: "nat \<Rightarrow> nat \<Rightarrow> u64 list \<Rightarrow> u64 list" where
  "shift_bits_up words part b =
    fold (\<lambda>i b. b[i := push_bit part (b ! i) OR (if i > 0 then drop_bit (64 - part) (b ! (i - 1)) else 0)])
      (rev [0..<words]) b"

definition shift_words_down :: "nat \<Rightarrow> nat \<Rightarrow> u64 list \<Rightarrow> u64 list" where
  "shift_words_down words whole b =
    fold (\<lambda>i b. b[i := if i + whole < words then b ! (i + whole) else 0]) [0..<words] b"

definition shift_bits_down :: "nat \<Rightarrow> nat \<Rightarrow> u64 list \<Rightarrow> u64 list" where
  "shift_bits_down words part b =
    fold (\<lambda>i b. b[i := drop_bit part (b ! i) OR (if i + 1 < words then push_bit (64 - part) (b ! (i + 1)) else 0)])
      [0..<words] b"

definition mask_tail :: "nat \<Rightarrow> nat \<Rightarrow> u64 list \<Rightarrow> u64 list" where
  "mask_tail words tail b =
    (if tail > 0 then b[words - 1 := b ! (words - 1) AND (push_bit tail 1 - 1)] else b)"

definition bitmap_shift :: "u64 list \<Rightarrow> int \<Rightarrow> int \<Rightarrow> u64 list" where
  "bitmap_shift bitmap bit_count shift_amount =
    (if length bitmap = 0 \<or> bit_count \<le> 0 \<or> shift_amount = 0 then bitmap
     else
       let words = (nat bit_count + 63) div 64;
           tail = nat bit_count mod 64;
           bitmap = mask_tail words tail bitmap;
           shift_mag = (if shift_amount \<ge> 0 then nat shift_amount else nat (- (shift_amount + 1)) + 1)
       in if shift_mag \<ge> nat bit_count then replicate words 0 @ drop words bitmap
          else
            let whole_words = shift_mag div 64;
                part_bits = shift_mag mod 64;
                bitmap =
                  (if shift_amount > 0 then
                     let bitmap = (if whole_words > 0 then shift_words_up words whole_words bitmap else bitmap)
                     in if part_bits > 0 then shift_bits_up words part_bits bitmap else bitmap
                   else
                     let bitmap = (if whole_words > 0 then shift_words_down words whole_words bitmap else bitmap)
                     in if part_bits > 0 then shift_bits_down words part_bits bitmap else bitmap)
            in mask_tail words tail bitmap)"

subsection \<open>The window of one remote\<close>

record dedup_state =
  dd_remote_id :: u64
  dd_tag :: u64
  dd_last_active_at :: microsecond
  dd_bitmap :: "u64 list"

definition dedup_new :: "u64 \<Rightarrow> u64 \<Rightarrow> microsecond \<Rightarrow> dedup_state" where
  "dedup_new remote tag now =
    \<lparr>dd_remote_id = remote, dd_tag = tag, dd_last_active_at = now, dd_bitmap = replicate (dedup_history div 64) 0\<rparr>"

definition dedup_test :: "dedup_state \<Rightarrow> u64 \<Rightarrow> bool" where
  "dedup_test d tag =
    (let rev = dd_tag d - tag
     in if rev < of_nat dedup_history
        then dd_bitmap d ! (unat rev div 64) AND push_bit (unat rev mod 64) 1 \<noteq> 0
        else False)"

definition dedup_mark :: "dedup_state \<Rightarrow> u64 \<Rightarrow> dedup_state" where
  "dedup_mark d tag =
    (let rev = dd_tag d - tag
     in if rev < of_nat dedup_history
        then d\<lparr>dd_bitmap := (dd_bitmap d)[unat rev div 64 := dd_bitmap d ! (unat rev div 64) OR push_bit (unat rev mod 64) 1]\<rparr>
        else
          let fwd = tag - dd_tag d;
              bitmap =
                (if fwd \<ge> of_nat dedup_history then replicate (dedup_history div 64) 0
                 else bitmap_shift (dd_bitmap d) (int dedup_history) (sint fwd))
          in d\<lparr>dd_bitmap := bitmap[0 := bitmap ! 0 OR 1], dd_tag := tag\<rparr>)"

subsection \<open>The states of a topic\<close>

type_synonym dedup_map = "u64 \<rightharpoonup> dedup_state"

definition dedup_find :: "dedup_map \<Rightarrow> u64 \<Rightarrow> microsecond \<Rightarrow> dedup_map \<times> dedup_state option" where
  "dedup_find dedup remote_id now =
    (case dedup remote_id of
       None \<Rightarrow> (dedup, None)
     | Some d \<Rightarrow>
         if session_lifetime <s now - dd_last_active_at d then (dedup(remote_id := None), None)
         else (dedup, Some d))"

definition dedup_find_or_create :: "dedup_map \<Rightarrow> u64 \<Rightarrow> u64 \<Rightarrow> microsecond \<Rightarrow> dedup_map \<times> dedup_state" where
  "dedup_find_or_create dedup remote_id tag now =
    (case dedup_find dedup remote_id now of
       (dedup, Some d) \<Rightarrow> (dedup, d)
     | (dedup, None) \<Rightarrow> let d = dedup_new remote_id tag now in (dedup(remote_id \<mapsto> d), d))"

definition dedup_check :: "dedup_map \<Rightarrow> u64 \<Rightarrow> u64 \<Rightarrow> microsecond \<Rightarrow> dedup_map \<times> bool" where
  "dedup_check dedup remote_id tag now =
    (case dedup_find dedup remote_id now of
       (dedup, None) \<Rightarrow> (dedup, False)
     | (dedup, Some d) \<Rightarrow> (dedup, dedup_test d tag))"

definition dedup_commit :: "dedup_map \<Rightarrow> u64 \<Rightarrow> u64 \<Rightarrow> microsecond \<Rightarrow> dedup_map" where
  "dedup_commit dedup remote_id tag now =
    (let (dedup, d) = dedup_find_or_create dedup remote_id tag now
     in dedup(remote_id \<mapsto> (dedup_mark d tag)\<lparr>dd_last_active_at := now\<rparr>))"

subsection \<open>In-place loops\<close>

lemma fold_down_update:
  assumes "n \<le> length b" "\<And>b1 b2 i. i < n \<Longrightarrow> length b1 = length b2 \<Longrightarrow> \<forall>j \<le> i. b1 ! j = b2 ! j \<Longrightarrow> g b1 i = g b2 i"
  shows "fold (\<lambda>i b. b[i := g b i]) (rev [0..<n]) b = map (g b) [0..<n] @ drop n b"
  using assms
proof (induction n arbitrary: b)
  case (Suc n)
  let ?b = "b[n := g b n]"
  have "fold (\<lambda>i b. b[i := g b i]) (rev [0..<n]) ?b = map (g ?b) [0..<n] @ drop n ?b"
    using Suc.prems(1) by (intro Suc.IH Suc.prems(2)) auto
  also have "map (g ?b) [0..<n] = map (g b) [0..<n]"
    by (intro map_cong refl Suc.prems(2)) auto
  also have "drop n ?b = g b n # drop (Suc n) b"
    using Suc.prems(1) by (simp add: Cons_nth_drop_Suc [symmetric])
  finally show ?case by simp
qed simp

lemma fold_up_update:
  assumes "n \<le> length b" "\<And>b1 b2 i. i < n \<Longrightarrow> length b1 = length b2 \<Longrightarrow> \<forall>j \<ge> i. b1 ! j = b2 ! j \<Longrightarrow> g b1 i = g b2 i"
  shows "fold (\<lambda>i b. b[i := g b i]) [0..<n] b = map (g b) [0..<n] @ drop n b"
  using assms
proof (induction n)
  case (Suc n)
  let ?b = "map (g b) [0..<n] @ drop n b"
  have "fold (\<lambda>i b. b[i := g b i]) [0..<n] b = ?b"
    using Suc.prems(1) by (intro Suc.IH Suc.prems(2)) auto
  moreover have "g ?b n = g b n"
    using Suc.prems(1) by (intro Suc.prems(2)) (auto simp: nth_append)
  moreover have "?b[n := g b n] = map (g b) [0..<n] @ g b n # drop (Suc n) b"
    using Suc.prems(1) by (simp add: list_update_append Cons_nth_drop_Suc [symmetric])
  ultimately show ?case by simp
qed simp

subsection \<open>The bits of a bitmap\<close>

definition bm :: "u64 list \<Rightarrow> nat \<Rightarrow> bool" where
  "bm b n \<longleftrightarrow> n div 64 < length b \<and> bit (b ! (n div 64)) (n mod 64)"

lemma bm_nth: "i < length b \<Longrightarrow> j < 64 \<Longrightarrow> bit (b ! i) j = bm b (64 * i + j)"
  by (simp add: bm_def)

lemma shift_words_up_eq:
  "length b = words \<Longrightarrow> shift_words_up words whole b = map (\<lambda>i. if i \<ge> whole then b ! (i - whole) else 0) [0..<words]"
  unfolding shift_words_up_def by (subst fold_down_update) auto

lemma shift_bits_up_eq:
  "length b = words \<Longrightarrow> shift_bits_up words part b
    = map (\<lambda>i. push_bit part (b ! i) OR (if i > 0 then drop_bit (64 - part) (b ! (i - 1)) else 0)) [0..<words]"
  unfolding shift_bits_up_def by (subst fold_down_update) auto

lemma shift_words_down_eq:
  "length b = words \<Longrightarrow> shift_words_down words whole b = map (\<lambda>i. if i + whole < words then b ! (i + whole) else 0) [0..<words]"
  unfolding shift_words_down_def by (subst fold_up_update) auto

lemma shift_bits_down_eq:
  "length b = words \<Longrightarrow> shift_bits_down words part b
    = map (\<lambda>i. drop_bit part (b ! i) OR (if i + 1 < words then push_bit (64 - part) (b ! (i + 1)) else 0)) [0..<words]"
  unfolding shift_bits_down_def by (subst fold_up_update) auto

lemma bm_split: "r < 64 \<Longrightarrow> bm b (64 * q + r) \<longleftrightarrow> q < length b \<and> bit (b ! q) r"
  by (simp add: bm_def)

lemma bm_map: "r < 64 \<Longrightarrow> bm (map f [0..<w]) (64 * q + r) \<longleftrightarrow> q < w \<and> bit (f q) r"
  by (auto simp: bm_split)

lemma index_split: obtains q r :: nat where "n = 64 * q + r" "r < 64"
  using that [of "n div 64" "n mod 64"] by simp

lemma bm_words_up:
  assumes "length b = words"
  shows "bm (shift_words_up words whole b) n \<longleftrightarrow> n < 64 * words \<and> 64 * whole \<le> n \<and> bm b (n - 64 * whole)"
proof -
  obtain q r where n: "n = 64 * q + r" "r < 64" by (rule index_split)
  have l: "bm (shift_words_up words whole b) n \<longleftrightarrow> q < words \<and> whole \<le> q \<and> bit (b ! (q - whole)) r"
    unfolding n(1) shift_words_up_eq [OF assms] bm_map [OF n(2)] by auto
  have le: "64 * whole \<le> n \<longleftrightarrow> whole \<le> q" and lt: "n < 64 * words \<longleftrightarrow> q < words" using n by auto
  have "bm b (n - 64 * whole) \<longleftrightarrow> q - whole < words \<and> bit (b ! (q - whole)) r" if "whole \<le> q"
  proof -
    have "n - 64 * whole = 64 * (q - whole) + r" using n that by (simp add: algebra_simps)
    then show ?thesis using bm_split [OF n(2)] assms by simp
  qed
  with l le lt show ?thesis by auto
qed

lemma bm_words_down:
  assumes "length b = words"
  shows "bm (shift_words_down words whole b) n \<longleftrightarrow> bm b (n + 64 * whole)"
proof -
  obtain q r where n: "n = 64 * q + r" "r < 64" by (rule index_split)
  have "n + 64 * whole = 64 * (q + whole) + r" using n by simp
  then show ?thesis
    using assms bm_split [OF n(2), of b "q + whole"]
    by (simp only: n(1) shift_words_down_eq [OF assms] bm_map [OF n(2)]) auto
qed

lemma bm_bits_up:
  assumes "length b = words" "0 < part" "part < 64"
  shows "bm (shift_bits_up words part b) n \<longleftrightarrow> n < 64 * words \<and> part \<le> n \<and> bm b (n - part)"
proof -
  obtain q r where n: "n = 64 * q + r" "r < 64" by (rule index_split)
  have l: "bm (shift_bits_up words part b) n \<longleftrightarrow> q < words
      \<and> (part \<le> r \<and> bit (b ! q) (r - part) \<or> 0 < q \<and> bit (b ! (q - 1)) (64 - part + r))"
    unfolding n(1) shift_bits_up_eq [OF assms(1)] bm_map [OF n(2)] using n(2) assms by (auto simp: bit_simps)
  have lt: "n < 64 * words \<longleftrightarrow> q < words" using n by auto
  show ?thesis
  proof (cases "part \<le> r")
    case True
    have "n - part = 64 * q + (r - part)" using n True by simp
    moreover have "r - part < 64" using n by simp
    ultimately have "bm b (n - part) \<longleftrightarrow> q < words \<and> bit (b ! q) (r - part)" using bm_split assms(1) by simp
    moreover have "\<not> bit (b ! (q - 1)) (64 - part + r)" using True assms(2, 3) by (auto dest: bit_imp_le_length)
    ultimately show ?thesis using l lt True n by auto
  next
    case F: False
    show ?thesis
    proof (cases q)
      case 0
      with F n l show ?thesis by auto
    next
      case (Suc k)
      then have "n - part = 64 * k + (64 - part + r)" using n assms(3) by simp
      moreover have "64 - part + r < 64" using F assms by simp
      ultimately have "bm b (n - part) \<longleftrightarrow> k < words \<and> bit (b ! k) (64 - part + r)" using bm_split assms(1) by simp
      moreover have "part \<le> n" using Suc n assms(3) by simp
      ultimately show ?thesis using l lt F Suc by auto
    qed
  qed
qed

lemma bm_bits_down:
  assumes "length b = words" "0 < part" "part < 64"
  shows "bm (shift_bits_down words part b) n \<longleftrightarrow> bm b (n + part)"
proof -
  obtain q r where n: "n = 64 * q + r" "r < 64" by (rule index_split)
  have l: "bm (shift_bits_down words part b) n \<longleftrightarrow> q < words
      \<and> (bit (b ! q) (part + r) \<or> q + 1 < words \<and> 64 - part \<le> r \<and> bit (b ! (q + 1)) (r - (64 - part)))"
    unfolding n(1) shift_bits_down_eq [OF assms(1)] bm_map [OF n(2)] using n(2) assms by (auto simp: bit_simps)
  show ?thesis
  proof (cases "r + part < 64")
    case True
    have "n + part = 64 * q + (part + r)" using n by simp
    then have "bm b (n + part) \<longleftrightarrow> q < words \<and> bit (b ! q) (part + r)"
      using bm_split [of "part + r" b q] True assms(1) by (simp only: add.commute [of r part])
    with l True show ?thesis by auto
  next
    case False
    have "n + part = 64 * (q + 1) + (r - (64 - part))" using n False assms by simp
    moreover have "r - (64 - part) < 64" using n by simp
    ultimately have "bm b (n + part) \<longleftrightarrow> q + 1 < words \<and> bit (b ! (q + 1)) (r - (64 - part))"
      using bm_split [of "r - (64 - part)" b "q + 1"] assms(1) by simp
    moreover have "\<not> bit (b ! q) (part + r)" using False by (auto dest: bit_imp_le_length)
    ultimately show ?thesis using l False by auto
  qed
qed

lemma length_shifts [simp]:
  "length (shift_words_up words whole b) = length b" "length (shift_bits_up words part b) = length b"
  "length (shift_words_down words whole b) = length b" "length (shift_bits_down words part b) = length b"
  "length (mask_tail words tail b) = length b"
proof -
  have "length (fold (\<lambda>i b. b[i := g b i]) xs b) = length b" for g xs and b :: "u64 list"
    by (induction xs arbitrary: b) auto
  then show "length (shift_words_up words whole b) = length b" "length (shift_bits_up words part b) = length b"
    "length (shift_words_down words whole b) = length b" "length (shift_bits_down words part b) = length b"
    by (simp_all add: shift_words_up_def shift_bits_up_def shift_words_down_def shift_bits_down_def)
qed (simp add: mask_tail_def)

lemma bm_mask_tail:
  assumes "length b = (c + 63) div 64" "0 < c"
  shows "bm (mask_tail (length b) (c mod 64) b) n \<longleftrightarrow> n < c \<and> bm b n"
proof (cases "c mod 64 = 0")
  case True
  then have "64 * length b = c" using assms(1) by (auto simp: mod_eq_0_iff_dvd elim!: dvdE)
  then show ?thesis using True by (auto simp: mask_tail_def bm_def)
next
  case False
  define t where "t = c mod 64"
  have t: "0 < t" "t < 64" using False by (auto simp: t_def)
  have c: "c = 64 * (length b - 1) + t" "0 < length b"
  proof -
    define d where "d = c div 64"
    have d: "c = 64 * d + t" by (simp add: d_def t_def)
    have "(t + 63) div 64 = 1" using t by simp
    then have "(64 * d + (t + 63)) div 64 = d + 1" by (metis add.commute div_mult_self2 zero_neq_numeral)
    then have "length b = d + 1" using assms(1) d by (simp add: add.assoc)
    with d show "c = 64 * (length b - 1) + t" "0 < length b" by simp_all
  qed
  have m: "bit (push_bit t 1 - 1 :: u64) k \<longleftrightarrow> k < t" for k
  proof -
    have "(push_bit t 1 - 1 :: u64) = Bit_Operations.mask t" by (simp add: mask_eq_exp_minus_1 push_bit_of_1)
    then show ?thesis using t by (auto simp: bit_mask_iff)
  qed
  obtain q r where n: "n = 64 * q + r" "r < 64" by (rule index_split)
  have b: "bm b n \<longleftrightarrow> q < length b \<and> bit (b ! q) r" unfolding n(1) by (rule bm_split [OF n(2)])
  have l: "bm (mask_tail (length b) t b) n \<longleftrightarrow> q < length b \<and> bit (mask_tail (length b) t b ! q) r"
    unfolding n(1) using bm_split [OF n(2), of "mask_tail (length b) t b"] by simp
  show ?thesis unfolding t_def [symmetric]
  proof (cases "q = length b - 1")
    case True
    then have "mask_tail (length b) t b ! q = b ! q AND (push_bit t 1 - 1)" using t c(2) by (simp add: mask_tail_def)
    moreover have "n < c \<longleftrightarrow> r < t" using n c True by auto
    ultimately show "bm (mask_tail (length b) t b) n \<longleftrightarrow> n < c \<and> bm b n" using l b m by (auto simp: bit_and_iff)
  next
    case F: False
    then have "mask_tail (length b) t b ! q = b ! q" by (simp add: mask_tail_def)
    moreover have "n < c" if "q < length b"
    proof -
      have "q + 1 \<le> length b - 1" using F that by simp
      then have "64 * (q + 1) \<le> 64 * (length b - 1)" by (rule mult_le_mono2)
      then show ?thesis using n c(1) t(1) by simp
    qed
    ultimately show "bm (mask_tail (length b) t b) n \<longleftrightarrow> n < c \<and> bm b n" using l b by auto
  qed
qed

subsection \<open>The shift is a shift of the whole bitmap\<close>

lemma bm_bound: "bm b n \<Longrightarrow> n < 64 * length b"
  by (auto simp: bm_def)

lemma bitmap_shift_bits:
  assumes "length b = (c + 63) div 64" "0 < c" "x \<noteq> 0"
  shows "bm (bitmap_shift b (int c) x) n \<longleftrightarrow> n < c \<and>
    (if 0 < x then nat x \<le> n \<and> n - nat x < c \<and> bm b (n - nat x) else n + nat (- x) < c \<and> bm b (n + nat (- x)))"
    and "length (bitmap_shift b (int c) x) = length b"
proof -
  define mag where "mag = (if x \<ge> 0 then nat x else nat (- (x + 1)) + 1)"
  have mag: "mag = (if 0 < x then nat x else nat (- x))" "0 < mag" using assms(3) by (auto simp: mag_def)
  have ne: "length b \<noteq> 0" using assms(1, 2) by (simp add: div_eq_0_iff)
  define b0 where "b0 = mask_tail (length b) (c mod 64) b"
  have b0: "bm b0 n \<longleftrightarrow> n < c \<and> bm b n" "length b0 = length b" for n
    using bm_mask_tail [OF assms(1, 2)] by (auto simp: b0_def)
  define w where "w = mag div 64"
  define p where "p = mag mod 64"
  have wp: "mag = 64 * w + p" "p < 64" by (simp_all add: w_def p_def)
  define up where "up = (let b1 = (if w > 0 then shift_words_up (length b) w b0 else b0)
      in if p > 0 then shift_bits_up (length b) p b1 else b1)"
  define down where "down = (let b1 = (if w > 0 then shift_words_down (length b) w b0 else b0)
      in if p > 0 then shift_bits_down (length b) p b1 else b1)"
  have lup: "length up = length b" "length down = length b" using b0(2) by (simp_all add: up_def down_def Let_def)
  have bup: "bm up n \<longleftrightarrow> n < 64 * length b \<and> mag \<le> n \<and> bm b0 (n - mag)" for n
  proof -
    let ?b1 = "if w > 0 then shift_words_up (length b) w b0 else b0"
    have b1: "bm ?b1 n \<longleftrightarrow> n < 64 * length b \<and> 64 * w \<le> n \<and> bm b0 (n - 64 * w)" for n
      using bm_words_up [of b0 "length b" w n] b0(2) bm_bound [of b0 n] by auto
    have "bm up n \<longleftrightarrow> n < 64 * length b \<and> p \<le> n \<and> bm ?b1 (n - p)"
      using bm_bits_up [of ?b1 "length b" p n] b0(2) wp(2) bm_bound [of ?b1 n] by (auto simp: up_def Let_def)
    then show ?thesis unfolding b1 wp(1) by (auto simp: algebra_simps)
  qed
  have bdown: "bm down n \<longleftrightarrow> bm b0 (n + mag)" for n
  proof -
    let ?b1 = "if w > 0 then shift_words_down (length b) w b0 else b0"
    have b1: "bm ?b1 n \<longleftrightarrow> bm b0 (n + 64 * w)" for n
      using bm_words_down [of b0 "length b" w n] b0(2) by auto
    have "bm down n \<longleftrightarrow> bm ?b1 (n + p)"
      using bm_bits_down [of ?b1 "length b" p n] b0(2) wp(2) by (auto simp: down_def Let_def)
    then show ?thesis unfolding b1 wp(1) by (simp add: algebra_simps)
  qed
  have code: "bitmap_shift b (int c) x =
      (if mag \<ge> c then replicate (length b) 0 @ drop (length b) b0
       else mask_tail (length b) (c mod 64) (if 0 < x then up else down))"
    using assms ne unfolding bitmap_shift_def mag_def [symmetric] Let_def
    by (simp add: assms(1) [symmetric] b0_def [symmetric] w_def [symmetric] p_def [symmetric] up_def down_def Let_def)
  show "length (bitmap_shift b (int c) x) = length b" using lup b0(2) by (simp add: code)
  have le: "c \<le> 64 * length b" unfolding assms(1) by presburger
  show "bm (bitmap_shift b (int c) x) n \<longleftrightarrow> n < c \<and>
    (if 0 < x then nat x \<le> n \<and> n - nat x < c \<and> bm b (n - nat x) else n + nat (- x) < c \<and> bm b (n + nat (- x)))"
  proof (cases "mag \<ge> c")
    case True
    have "\<not> bm (replicate (length b) 0 @ drop (length b) b0) n" using b0(2) by (auto simp: bm_def)
    with True mag show ?thesis by (auto simp: code)
  next
    case False
    have t: "bm (mask_tail (length b) (c mod 64) y) n \<longleftrightarrow> n < c \<and> bm y n" if "length y = length b" for y
      using bm_mask_tail [of y c n] that assms by simp
    show ?thesis using False mag t lup le by (auto simp: code bup bdown b0(1))
  qed
qed

subsection \<open>The window as a set of tags\<close>

definition dedup_ok :: "dedup_state \<Rightarrow> bool" where
  "dedup_ok d \<longleftrightarrow> length (dd_bitmap d) = 8"

lemma dedup_new_ok: "dedup_ok (dedup_new r t now)"
  by (simp add: dedup_ok_def dedup_new_def dedup_history_def)

lemma history_unat: "unat (of_nat dedup_history :: u64) = 512"
  by (simp add: dedup_history_def)

lemma bit_and_push: "(w :: u64) AND 2 ^ k \<noteq> 0 \<longleftrightarrow> bit w k"
  by (simp add: bit_iff_and_push_bit_not_eq_0)

lemma dedup_test_iff:
  assumes "dedup_ok d"
  shows "dedup_test d t \<longleftrightarrow> unat (dd_tag d - t) < 512 \<and> bm (dd_bitmap d) (unat (dd_tag d - t))"
proof -
  have "unat (dd_tag d - t) div 64 < 8" if "unat (dd_tag d - t) < 512" using that by (simp add: less_mult_imp_div_less)
  with assms show ?thesis
    by (simp add: dedup_test_def Let_def word_less_nat_alt history_unat bm_def dedup_ok_def bit_and_push)
qed

lemma bm_set:
  assumes "i < 64 * length b"
  shows "bm (b[i div 64 := b ! (i div 64) OR push_bit (i mod 64) 1]) n \<longleftrightarrow> n = i \<or> bm b n"
proof -
  have i: "i div 64 < length b" using assms by (simp add: less_mult_imp_div_less mult.commute)
  have "n = i \<longleftrightarrow> n div 64 = i div 64 \<and> n mod 64 = i mod 64" by (metis div_mult_mod_eq)
  then show ?thesis using i by (cases "n div 64 = i div 64") (auto simp: bm_def bit_simps)
qed

lemma unat_diff_shift: "unat (a - u) < 512 \<Longrightarrow> unat (t - a) < 512 \<Longrightarrow> unat (t - u :: u64) = unat (t - a) + unat (a - u)"
proof -
  assume a: "unat (a - u) < 512" "unat (t - a) < 512"
  have "unat ((t - a) + (a - u)) = unat (t - a) + unat (a - u)"
    by (rule unat_add_lem [THEN iffD1]) (use a in simp)
  then show ?thesis by simp
qed

lemma unat_diff_back:
  assumes "unat (t - u :: u64) < 512" "unat (t - a) < 512"
  shows "unat (t - a) \<le> unat (t - u) \<longleftrightarrow> unat (a - u) < 512"
    and "unat (t - a) \<le> unat (t - u) \<Longrightarrow> unat (a - u) = unat (t - u) - unat (t - a)"
proof -
  show e: "unat (a - u) = unat (t - u) - unat (t - a)" if "unat (t - a) \<le> unat (t - u)"
  proof -
    have "unat ((t - u) - (t - a)) = unat (t - u) - unat (t - a)"
      by (rule unat_sub) (use that in \<open>simp add: word_le_nat_alt\<close>)
    then show ?thesis by simp
  qed
  show "unat (t - a) \<le> unat (t - u) \<longleftrightarrow> unat (a - u) < 512"
  proof
    assume "unat (t - a) \<le> unat (t - u)"
    then have "unat (a - u) = unat (t - u) - unat (t - a)" by (rule e)
    with assms(1) show "unat (a - u) < 512" by linarith
  next
    assume "unat (a - u) < 512"
    then have "unat (t - u) = unat (t - a) + unat (a - u)" using assms(2) by (rule unat_diff_shift)
    then show "unat (t - a) \<le> unat (t - u)" by linarith
  qed
qed

text \<open>The frontier after a commit, and the window it opens.\<close>

definition frontier :: "dedup_state \<Rightarrow> u64 \<Rightarrow> u64" where
  "frontier d t = (if unat (dd_tag d - t) < 512 then dd_tag d else t)"

lemma dedup_mark_effect:
  assumes "dedup_ok d"
  shows "dedup_ok (dedup_mark d t) \<and> dd_tag (dedup_mark d t) = frontier d t
    \<and> (dedup_test (dedup_mark d t) u \<longleftrightarrow> u = t \<or> dedup_test d u \<and> unat (frontier d t - u) < 512)"
proof (cases "unat (dd_tag d - t) < 512")
  case True
  let ?i = "unat (dd_tag d - t)"
  have l: "length (dd_bitmap d) = 8" using assms by (simp add: dedup_ok_def)
  have m: "dedup_mark d t = d\<lparr>dd_bitmap := (dd_bitmap d)[?i div 64 := dd_bitmap d ! (?i div 64) OR push_bit (?i mod 64) 1]\<rparr>"
    using True by (simp add: dedup_mark_def Let_def word_less_nat_alt history_unat)
  have ok: "dedup_ok (dedup_mark d t)" using l by (simp add: m dedup_ok_def)
  have "unat (dd_tag d - u) = ?i \<longleftrightarrow> u = t" by (simp add: word_unat_eq_iff [symmetric])
  then have "dedup_test (dedup_mark d t) u \<longleftrightarrow> u = t \<or> dedup_test d u"
    using True bm_set [of ?i "dd_bitmap d" "unat (dd_tag d - u)"] l
    unfolding dedup_test_iff [OF ok] dedup_test_iff [OF assms] by (auto simp: m)
  moreover have "dedup_test d u \<Longrightarrow> unat (dd_tag d - u) < 512" unfolding dedup_test_iff [OF assms] by blast
  ultimately show ?thesis using True ok by (auto simp: frontier_def m)
next
  case False
  let ?f = "t - dd_tag d"
  have l: "length (dd_bitmap d) = 8" using assms by (simp add: dedup_ok_def)
  define b where "b = (if ?f \<ge> of_nat dedup_history then replicate (dedup_history div 64) 0
                 else bitmap_shift (dd_bitmap d) (int dedup_history) (sint ?f))"
  have m: "dedup_mark d t = d\<lparr>dd_bitmap := b[0 := b ! 0 OR 1], dd_tag := t\<rparr>"
    using False by (simp add: dedup_mark_def Let_def word_less_nat_alt history_unat b_def)
  have f0: "?f \<noteq> 0" using False by auto
  have sf: "sint ?f = int (unat ?f)" if "unat ?f < 512"
  proof -
    have "?f < 512" using that by (simp add: word_less_nat_alt)
    then have "uint ?f < 512" by (simp add: word_less_def)
    then have "sint ?f = uint ?f"
      unfolding sint_uint by (intro signed_take_bit_int_eq_self) (auto intro: order_trans [of _ 0])
    then show ?thesis by simp
  qed
  have b: "length b = 8" "n < 512 \<Longrightarrow> bm b n \<longleftrightarrow> unat ?f < 512 \<and> unat ?f \<le> n \<and> bm (dd_bitmap d) (n - unat ?f)" for n
  proof -
    show "length b = 8"
    proof (cases "unat ?f < 512")
      case True
      then show ?thesis
        using bitmap_shift_bits(2) [of "dd_bitmap d" 512 "sint ?f"] l sf [OF True] f0
        by (simp add: b_def word_le_nat_alt history_unat) (simp add: dedup_history_def uint_0_iff)
    qed (simp add: b_def word_le_nat_alt history_unat, simp add: dedup_history_def)
    assume n: "n < 512"
    show "bm b n \<longleftrightarrow> unat ?f < 512 \<and> unat ?f \<le> n \<and> bm (dd_bitmap d) (n - unat ?f)"
    proof (cases "unat ?f < 512")
      case True
      obtain k where k: "unat ?f = k" by blast
      have p: "0 < k" "k < 512" using f0 True by (auto simp: unat_gt_0 k [symmetric])
      have "sint ?f = int k" unfolding k [symmetric] by (rule sf [OF True])
      then have "b = bitmap_shift (dd_bitmap d) (int 512) (int k)"
        using True by (simp add: b_def word_le_nat_alt history_unat) (simp add: dedup_history_def)
      then show ?thesis
        unfolding k using bitmap_shift_bits(1) [of "dd_bitmap d" 512 "int k" n] l p n by auto
    next
      case F: False
      then have "b = replicate 8 0" by (simp add: b_def word_le_nat_alt history_unat) (simp add: dedup_history_def)
      then show ?thesis using F by (auto simp: bm_def)
    qed
  qed
  have ok: "dedup_ok (dedup_mark d t)" using b(1) by (simp add: m dedup_ok_def)
  have set0: "bm (b[0 := b ! 0 OR 1]) n \<longleftrightarrow> n = 0 \<or> bm b n" for n using bm_set [of 0 b n] b(1) by simp
  have "dedup_test (dedup_mark d t) u \<longleftrightarrow> unat (t - u) < 512 \<and> (unat (t - u) = 0 \<or> bm b (unat (t - u)))"
    unfolding dedup_test_iff [OF ok] by (simp add: m set0)
  also have "\<dots> \<longleftrightarrow> u = t \<or> unat (t - u) < 512 \<and> unat ?f < 512 \<and> unat ?f \<le> unat (t - u)
      \<and> bm (dd_bitmap d) (unat (t - u) - unat ?f)"
    using b(2) by (auto simp: unat_eq_zero)
  also have "\<dots> \<longleftrightarrow> u = t \<or> dedup_test d u \<and> unat (t - u) < 512"
  proof -
    have "unat (t - u) < 512 \<and> unat ?f < 512 \<and> unat ?f \<le> unat (t - u) \<and> bm (dd_bitmap d) (unat (t - u) - unat ?f)
      \<longleftrightarrow> dedup_test d u \<and> unat (t - u) < 512" if "u \<noteq> t"
    proof (cases "unat (t - u) < 512 \<and> unat ?f < 512")
      case True
      then show ?thesis using unat_diff_back [of t u "dd_tag d"] by (auto simp: dedup_test_iff [OF assms])
    next
      case F: False
      have "\<not> (unat (dd_tag d - u) < 512 \<and> unat (t - u) < 512)"
      proof
        assume a: "unat (dd_tag d - u) < 512 \<and> unat (t - u) < 512"
        show False
        proof (cases "unat (t - u) \<le> unat (dd_tag d - u)")
          case True
          then have "unat ((dd_tag d - u) - (t - u)) = unat (dd_tag d - u) - unat (t - u)"
            by (intro unat_sub) (simp add: word_le_nat_alt)
          moreover have "(dd_tag d - u) - (t - u) = dd_tag d - t" by simp
          ultimately show ?thesis using a False by (metis less_imp_diff_less)
        next
          case le: False
          then have "unat ((t - u) - (dd_tag d - u)) = unat (t - u) - unat (dd_tag d - u)"
            by (intro unat_sub) (simp add: word_le_nat_alt)
          moreover have "(t - u) - (dd_tag d - u) = ?f" by simp
          ultimately show ?thesis using a F by (metis less_imp_diff_less)
        qed
      qed
      with F show ?thesis by (auto simp: dedup_test_iff [OF assms])
    qed
    then show ?thesis by blast
  qed
  finally show ?thesis using False ok by (simp add: frontier_def m)
qed

text \<open>C31: The bitmap of a remote is a window of the last 512 tags before the frontier. Committing a tag keeps the
  shape of the bitmap, makes the tag known, and changes nothing else except that tags that fall out of the
  window of the new frontier are forgotten; the frontier only moves when the tag is not in the window
  (to a newer tag, or back to one more than 511 behind).\<close>
theorem dedup_window:
  assumes "dedup_ok d"
  shows "dedup_ok (dedup_mark d t)
    \<and> dd_tag (dedup_mark d t) = (if unat (dd_tag d - t) < 512 then dd_tag d else t)
    \<and> dedup_test (dedup_mark d t) t
    \<and> (u \<noteq> t \<longrightarrow> dedup_test (dedup_mark d t) u
         = (dedup_test d u \<and> unat (dd_tag (dedup_mark d t) - u) < 512))"
  using dedup_mark_effect [OF assms, of t t] dedup_mark_effect [OF assms, of t u] by (auto simp: frontier_def)

theorem dedup_window_witness:
  "dedup_test (dedup_mark (dedup_mark (dedup_new 7 100 0) 100) 105) 105
   \<and> dedup_test (dedup_mark (dedup_mark (dedup_new 7 100 0) 100) 105) 100
   \<and> \<not> dedup_test (dedup_mark (dedup_mark (dedup_new 7 100 0) 100) 105) 103"
proof -
  let ?d0 = "dedup_new 7 100 0"
  let ?d = "dedup_mark ?d0 100"
  note w0 = dedup_window [OF dedup_new_ok, of 7 100 0 100]
  have n: "\<not> dedup_test ?d0 103" by code_simp
  have t: "dd_tag ?d = 100" using w0 [of 100] by (simp add: dedup_new_def)
  have ok: "dedup_ok ?d" and k: "dedup_test ?d 100" and m: "\<not> dedup_test ?d 103"
    using w0 [of 103] n by simp_all
  note w = dedup_window [OF ok, of 105]
  have t': "dd_tag (dedup_mark ?d 105) = 105" using w [of 105] t by simp
  show ?thesis using w [of 100] w [of 103] k m t' by simp
qed

end
