(* ===== verification/CyReorder.thy ===== *)
theory CyReorder
  imports CyMessage
begin

text \<open>
  The reordering buffer of ordered subscribers (\<open>reorderingState\<close> of \<open>cy/reliable.go\<close>), with the part of
  the subscriber it uses: whether it is disposed of, its window, its last arrival, counter, error and liveness
  timer, and its \<open>notify\<close>, which hands an arrival to the application. The calls of the application's callback
  are kept in a log; a timer is the deadline it is armed with. The map of interned slots is the list of its entries, in any order.
\<close>

definition reordering_capacity :: u64 where "reordering_capacity = 16"
definition int64_max :: u64 where "int64_max = 9223372036854775807"

record reorder_slot =
  rs_lin :: u64
  rs_priority :: u8
  rs_message :: message_ts

record arrival =
  arr_message :: message_ts
  arr_priority :: u8
  arr_remote_id :: u64
  arr_topic_hash :: u64
  arr_tag :: u64
  arr_ctx :: bytes

record reordering =
  ro_remote_id :: u64
  ro_topic_hash :: u64
  ro_ctx :: bytes
  ro_baseline :: u64
  ro_last :: u64
  ro_slots :: "reorder_slot list"
  ro_window_task :: "microsecond option"
  ro_last_active_at :: microsecond
  ro_disposed :: bool
  ro_window :: microsecond
  ro_last_arrival :: "arrival option"
  ro_message_count :: u64
  ro_err :: cy_error
  ro_liveness_timeout :: microsecond
  ro_liveness_task :: "microsecond option"
  ro_log :: "arrival list"

subsection \<open>The operations\<close>

definition ro_notify :: "reordering \<Rightarrow> arrival \<Rightarrow> reordering \<times> bool" where
  "ro_notify r a =
    (if ro_disposed r then (r, False)
     else
       let r = r\<lparr>ro_last_arrival := Some a, ro_message_count := ro_message_count r + 1\<rparr>;
           r = (if 0 <s ro_liveness_timeout r
                then r\<lparr>ro_liveness_task := Some (mts_timestamp (arr_message a) + ro_liveness_timeout r)\<rparr> else r);
           r = r\<lparr>ro_err := OK\<rparr>
       in (r\<lparr>ro_log := ro_log r @ [a]\<rparr>, True))"

definition ro_resequence :: "reordering \<Rightarrow> u64 \<Rightarrow> reordering" where
  "ro_resequence r tag = r\<lparr>ro_baseline := tag - reordering_capacity div 2, ro_last := 0\<rparr>"

definition min_slot :: "reorder_slot list \<Rightarrow> reorder_slot option" where
  "min_slot slots =
    fold (\<lambda>s best. case best of None \<Rightarrow> Some s | Some b \<Rightarrow> if rs_lin s < rs_lin b then Some s else Some b) slots None"

definition ro_arrival :: "reordering \<Rightarrow> message_ts \<Rightarrow> u8 \<Rightarrow> u64 \<Rightarrow> arrival" where
  "ro_arrival r m prio tag =
    \<lparr>arr_message = m, arr_priority = prio, arr_remote_id = ro_remote_id r, arr_topic_hash = ro_topic_hash r,
     arr_tag = tag, arr_ctx = ro_ctx r\<rparr>"

definition delete_slot :: "u64 \<Rightarrow> reorder_slot list \<Rightarrow> reorder_slot list" where
  "delete_slot lin slots = filter (\<lambda>s. rs_lin s \<noteq> lin) slots"

definition ro_eject :: "reordering \<Rightarrow> reorder_slot \<Rightarrow> reordering" where
  "ro_eject r slot =
    (let r = r\<lparr>ro_slots := delete_slot (rs_lin slot) (ro_slots r), ro_last := rs_lin slot\<rparr>
     in fst (ro_notify r (ro_arrival r (rs_message slot) (rs_priority slot) (rs_lin slot + ro_baseline r))))"

lemma min_slot_None: "min_slot slots = None \<longleftrightarrow> slots = []"
proof -
  have "fold (\<lambda>s best. case best of None \<Rightarrow> Some s | Some b \<Rightarrow> if rs_lin s < rs_lin b then Some s else Some b) xs (Some b) \<noteq> None"
    for xs and b :: reorder_slot
    by (induction xs arbitrary: b) auto
  then show ?thesis by (cases slots) (auto simp: min_slot_def)
qed

lemma min_slot_Some: "min_slot slots = Some s \<Longrightarrow> s \<in> set slots \<and> (\<forall>x \<in> set slots. rs_lin s \<le> rs_lin x)"
proof -
  have *: "\<exists>s \<in> insert b (set xs). (\<forall>x \<in> insert b (set xs). rs_lin s \<le> rs_lin x)
    \<and> fold (\<lambda>s best. case best of None \<Rightarrow> Some s | Some b \<Rightarrow> if rs_lin s < rs_lin b then Some s else Some b) xs (Some b) = Some s"
    for xs and b :: reorder_slot
  proof (induction xs arbitrary: b)
    case (Cons x xs)
    show ?case using Cons [of "if rs_lin x < rs_lin b then x else b"]
      by (auto split: if_splits intro: order_trans dest: less_imp_le)
  qed simp
  assume "min_slot slots = Some s"
  with * [of "hd slots" "tl slots"] show ?thesis by (cases slots) (auto simp: min_slot_def)
qed

lemma delete_slot_less: "s \<in> set slots \<Longrightarrow> length (delete_slot (rs_lin s) slots) < length slots"
  unfolding delete_slot_def by (rule length_filter_less) auto

lemma eject_fields [simp]:
  "ro_slots (ro_eject r s) = delete_slot (rs_lin s) (ro_slots r)" "ro_last (ro_eject r s) = rs_lin s"
  "ro_baseline (ro_eject r s) = ro_baseline r" "ro_disposed (ro_eject r s) = ro_disposed r"
  "ro_window (ro_eject r s) = ro_window r" "ro_window_task (ro_eject r s) = ro_window_task r"
  "ro_remote_id (ro_eject r s) = ro_remote_id r" "ro_topic_hash (ro_eject r s) = ro_topic_hash r"
  "ro_ctx (ro_eject r s) = ro_ctx r"
  "ro_log (ro_eject r s) = (if ro_disposed r then ro_log r
     else ro_log r @ [ro_arrival r (rs_message s) (rs_priority s) (rs_lin s + ro_baseline r)])"
  by (auto simp: ro_eject_def ro_notify_def ro_arrival_def Let_def)

function ro_scan :: "reordering \<Rightarrow> bool \<Rightarrow> reordering" where
  "ro_scan r force_first =
    (case min_slot (ro_slots r) of
       None \<Rightarrow> r\<lparr>ro_window_task := None\<rparr>
     | Some slot \<Rightarrow>
         if force_first \<or> rs_lin slot = ro_last r + 1 then ro_scan (ro_eject r slot) False
         else r\<lparr>ro_window_task := Some (mts_timestamp (rs_message slot) + ro_window r)\<rparr>)"
  by auto
termination
  by (relation "measure (\<lambda>(r, _). length (ro_slots r))") (auto dest!: min_slot_Some intro: delete_slot_less)

declare ro_scan.simps [simp del]

definition ro_on_window_expiration :: "reordering \<Rightarrow> reordering" where
  "ro_on_window_expiration r = ro_scan r True"

function ro_eject_all_loop :: "reordering \<Rightarrow> bool \<Rightarrow> reordering" where
  "ro_eject_all_loop r silenced =
    (case min_slot (ro_slots r) of
       None \<Rightarrow> r
     | Some slot \<Rightarrow>
         ro_eject_all_loop (if silenced then r\<lparr>ro_slots := delete_slot (rs_lin slot) (ro_slots r)\<rparr> else ro_eject r slot) silenced)"
  by auto
termination
  by (relation "measure (\<lambda>(r, _). length (ro_slots r))") (auto dest!: min_slot_Some intro: delete_slot_less)

declare ro_eject_all_loop.simps [simp del]

definition ro_eject_all :: "reordering \<Rightarrow> bool \<Rightarrow> reordering" where
  "ro_eject_all r silenced = (ro_eject_all_loop r silenced)\<lparr>ro_window_task := None\<rparr>"

lemma scan_slots_le: "length (ro_slots (ro_scan r f)) \<le> length (ro_slots r)"
proof (induction r f rule: ro_scan.induct)
  case (1 r f)
  show ?case
  proof (cases "min_slot (ro_slots r)")
    case (Some slot)
    with 1 [OF Some] delete_slot_less [of slot "ro_slots r"] min_slot_Some [OF Some] show ?thesis
      by (subst ro_scan.simps) auto
  qed (subst ro_scan.simps, simp)
qed

lemma scan_force_less: "ro_slots r \<noteq> [] \<Longrightarrow> length (ro_slots (ro_scan r True)) < length (ro_slots r)"
proof -
  assume "ro_slots r \<noteq> []"
  then obtain slot where s: "min_slot (ro_slots r) = Some slot" using min_slot_None by blast
  then have "ro_scan r True = ro_scan (ro_eject r slot) False" by (subst ro_scan.simps) simp
  with scan_slots_le [of "ro_eject r slot" False] delete_slot_less [of slot "ro_slots r"] min_slot_Some [OF s]
  show ?thesis by simp
qed

text \<open>Sliding the window right before a tag that is too far ahead.\<close>

function ro_slide :: "reordering \<Rightarrow> u64 \<Rightarrow> reordering" where
  "ro_slide r lin_tag =
    (if 0 < length (ro_slots r) \<and> lin_tag > ro_last r + reordering_capacity
     then ro_slide (ro_scan r True) lin_tag else r)"
  by auto
termination by (relation "measure (\<lambda>(r, _). length (ro_slots r))") (auto intro: scan_force_less)

declare ro_slide.simps [simp del]

text \<open>The last part of \<open>push\<close>: interning a message.\<close>

definition ro_intern :: "reordering \<Rightarrow> u64 \<Rightarrow> u8 \<Rightarrow> message_ts \<Rightarrow> reordering" where
  "ro_intern r lin_tag prio m =
    (if \<exists>s \<in> set (ro_slots r). rs_lin s = lin_tag then r
     else
       let r = r\<lparr>ro_slots := ro_slots r @ [\<lparr>rs_lin = lin_tag, rs_priority = prio, rs_message = m\<rparr>]\<rparr>
       in (case min_slot (ro_slots r) of
             None \<Rightarrow> r
           | Some first \<Rightarrow> r\<lparr>ro_window_task := Some (mts_timestamp (rs_message first) + ro_window r)\<rparr>))"

text \<open>What \<open>push\<close> does once the tag is known to lie ahead of the last ejected one.\<close>

definition ro_push_ahead :: "reordering \<Rightarrow> u64 \<Rightarrow> u64 \<Rightarrow> u8 \<Rightarrow> message_ts \<Rightarrow> reordering \<times> bool" where
  "ro_push_ahead r lin_tag tag prio m =
    (let r = ro_slide r lin_tag
     in if ro_disposed r then (r, False)
        else if lin_tag = ro_last r + 1 then
          (let r = r\<lparr>ro_last := lin_tag\<rparr>;
               (r, delivered) = ro_notify r (ro_arrival r m prio tag)
           in (ro_scan r False, delivered))
        else
          let (r, lin_tag) =
            (if lin_tag > ro_last r + reordering_capacity
             then (let r = ro_resequence r tag in (r, tag - ro_baseline r)) else (r, lin_tag))
          in (ro_intern r lin_tag prio m, True))"

definition ro_push :: "reordering \<Rightarrow> u64 \<Rightarrow> u8 \<Rightarrow> message_ts \<Rightarrow> reordering \<times> bool" where
  "ro_push r tag prio m =
    (let lin_tag = tag - ro_baseline r
     in if lin_tag \<le> ro_last r then (r, False)
        else if lin_tag > int64_max then
          (let backward_distance = ro_last r - lin_tag
           in if backward_distance \<le> session_counter_max_backward_lag then (r, False)
              else
                let r = ro_eject_all r False;
                    r = ro_resequence r tag
                in ro_push_ahead r (tag - ro_baseline r) tag prio m)
        else ro_push_ahead r lin_tag tag prio m)"

text \<open>\<open>getOrCreateReordering\<close> of a subscriber starts the sequence around the first tag.\<close>

definition ro_new :: "u64 \<Rightarrow> u64 \<Rightarrow> u64 \<Rightarrow> microsecond \<Rightarrow> reordering" where
  "ro_new remote topic_hash tag window =
    ro_resequence \<lparr>ro_remote_id = remote, ro_topic_hash = topic_hash, ro_ctx = replicate 24 0, ro_baseline = 0, ro_last = 0,
      ro_slots = [], ro_window_task = None, ro_last_active_at = 0, ro_disposed = False, ro_window = window, ro_last_arrival = None, ro_message_count = 0,
      ro_err = OK, ro_liveness_timeout = 0, ro_liveness_task = None, ro_log = []\<rparr> tag"

subsection \<open>The invariant\<close>

text \<open>
  The interned tags are different, lie in the window after the last ejected one, are never the next one (which
  would have been ejected) and never in the negative half of the linear tags, and while something is interned the timer of the window is armed.
\<close>

definition ro_inv :: "reordering \<Rightarrow> bool" where
  "ro_inv r \<longleftrightarrow> distinct (map rs_lin (ro_slots r))
    \<and> unat (ro_last r) < 2 ^ 63
    \<and> (\<forall>s \<in> set (ro_slots r). unat (ro_last r) < unat (rs_lin s) \<and> unat (rs_lin s) \<le> unat (ro_last r) + 16
         \<and> unat (rs_lin s) < 2 ^ 63)
    \<and> (\<forall>s \<in> set (ro_slots r). unat (rs_lin s) \<noteq> unat (ro_last r) + 1)
    \<and> (ro_slots r \<noteq> [] \<longrightarrow> ro_window_task r \<noteq> None)"

text \<open>The part that also holds in the middle of an operation.\<close>

definition ro_core :: "reordering \<Rightarrow> bool" where
  "ro_core r \<longleftrightarrow> distinct (map rs_lin (ro_slots r))
    \<and> unat (ro_last r) < 2 ^ 63
    \<and> (\<forall>s \<in> set (ro_slots r). unat (ro_last r) < unat (rs_lin s) \<and> unat (rs_lin s) \<le> unat (ro_last r) + 16
         \<and> unat (rs_lin s) < 2 ^ 63)"

lemma ro_inv_core: "ro_inv r \<longleftrightarrow> ro_core r
    \<and> (\<forall>s \<in> set (ro_slots r). unat (rs_lin s) \<noteq> unat (ro_last r) + 1) \<and> (ro_slots r \<noteq> [] \<longrightarrow> ro_window_task r \<noteq> None)"
  by (auto simp: ro_inv_def ro_core_def)

text \<open>
  A batch: what an operation that keeps the sequence appends to the log. The arrivals come from a given set
  of tags and messages, in increasing linear order, after the old last tag and up to the new one.
\<close>

definition lin_of :: "reordering \<Rightarrow> arrival \<Rightarrow> nat" where
  "lin_of r a = unat (arr_tag a - ro_baseline r)"

definition slot_arrival :: "reordering \<Rightarrow> reorder_slot \<Rightarrow> arrival" where
  "slot_arrival r s = ro_arrival r (rs_message s) (rs_priority s) (rs_lin s + ro_baseline r)"

definition same_source :: "reordering \<Rightarrow> reordering \<Rightarrow> bool" where
  "same_source r r' \<longleftrightarrow> ro_baseline r' = ro_baseline r \<and> ro_disposed r' = ro_disposed r \<and> ro_remote_id r' = ro_remote_id r
    \<and> ro_topic_hash r' = ro_topic_hash r \<and> ro_ctx r' = ro_ctx r \<and> ro_window r' = ro_window r"

definition batch :: "reordering \<Rightarrow> reordering \<Rightarrow> arrival list \<Rightarrow> bool" where
  "batch r r' new \<longleftrightarrow> same_source r r' \<and> ro_log r' = ro_log r @ new
    \<and> sorted_wrt (<) (map (lin_of r) new)
    \<and> (\<forall>a \<in> set new. unat (ro_last r) < lin_of r a \<and> lin_of r a \<le> unat (ro_last r'))
    \<and> unat (ro_last r) \<le> unat (ro_last r')"

lemma lin_of_slot [simp]: "lin_of r (slot_arrival r s) = unat (rs_lin s)"
  by (simp add: lin_of_def slot_arrival_def ro_arrival_def)

lemma batch_refl [simp]: "batch r r []"
  by (simp add: batch_def same_source_def)

lemma lin_of_same: "same_source r r' \<Longrightarrow> lin_of r' = lin_of r"
  by (auto simp: lin_of_def same_source_def)

lemma batch_trans:
  assumes "batch r r' xs" "batch r' r'' ys"
  shows "batch r r'' (xs @ ys)"
proof -
  have s: "same_source r r'" "same_source r' r''" using assms by (auto simp: batch_def)
  then have "same_source r r''" by (auto simp: same_source_def)
  moreover have "lin_of r' = lin_of r" using lin_of_same [OF s(1)] .
  ultimately show ?thesis using assms by (auto simp: batch_def sorted_wrt_append) fastforce
qed

lemma core_eject:
  assumes "ro_core r" "min_slot (ro_slots r) = Some s"
  shows "ro_core (ro_eject r s)" "set (ro_slots (ro_eject r s)) = set (ro_slots r) - {s}"
    and "batch r (ro_eject r s) (if ro_disposed r then [] else [slot_arrival r s])"
proof -
  note m = min_slot_Some [OF assms(2)]
  have d: "x = s" if "x \<in> set (ro_slots r)" "rs_lin x = rs_lin s" for x
    using that m assms(1) by (auto simp: ro_core_def distinct_map dest: inj_onD)
  then show set: "set (ro_slots (ro_eject r s)) = set (ro_slots r) - {s}" by (auto simp: delete_slot_def)
  have lt: "unat (rs_lin s) < unat (rs_lin x)" if "x \<in> set (ro_slots r)" "x \<noteq> s" for x
    using that d m by (metis le_neq_trans word_le_nat_alt word_unat_eq_iff nat_less_le)
  have "distinct (map rs_lin (delete_slot (rs_lin s) (ro_slots r)))"
    using assms(1) by (simp add: delete_slot_def ro_core_def distinct_map_filter)
  moreover have "unat (ro_last r) < unat (rs_lin s)" "unat (rs_lin s) < 2 ^ 63" using m assms(1) by (auto simp: ro_core_def)
  moreover have "\<forall>x \<in> set (ro_slots r). unat (rs_lin x) \<le> unat (ro_last r) + 16 \<and> unat (rs_lin x) < 2 ^ 63"
    using assms(1) by (auto simp: ro_core_def)
  ultimately show "ro_core (ro_eject r s)" using set lt unfolding ro_core_def by fastforce
  show "batch r (ro_eject r s) (if ro_disposed r then [] else [slot_arrival r s])"
    using \<open>unat (ro_last r) < unat (rs_lin s)\<close>
    by (auto simp: batch_def same_source_def) (simp_all add: slot_arrival_def)
qed

lemma same_source_slot_arrival: "same_source r r' \<Longrightarrow> slot_arrival r' = slot_arrival r"
  by (auto simp: slot_arrival_def ro_arrival_def same_source_def)

text \<open>Scanning ejects some of the interned messages, at least the first if it is forced, and keeps the rest.\<close>

lemma scan_batch:
  assumes "ro_core r"
  shows "ro_inv (ro_scan r f)
    \<and> (\<exists>out. set (ro_slots r) = set out \<union> set (ro_slots (ro_scan r f)) \<and> set out \<inter> set (ro_slots (ro_scan r f)) = {}
         \<and> batch r (ro_scan r f) (if ro_disposed r then [] else map (slot_arrival r) out))"
  using assms
proof (induction r f rule: ro_scan.induct)
  case (1 r f)
  show ?case
  proof (cases "min_slot (ro_slots r)")
    case None
    then have "ro_scan r f = r\<lparr>ro_window_task := None\<rparr>" by (subst ro_scan.simps) simp
    moreover have "ro_slots r = []" using None by (simp add: min_slot_None)
    ultimately show ?thesis using "1.prems"
      by (intro conjI exI [of _ "[]"]) (auto simp: ro_inv_core ro_core_def batch_def same_source_def)
  next
    case (Some s)
    show ?thesis
    proof (cases "f \<or> rs_lin s = ro_last r + 1")
      case True
      note e = core_eject [OF "1.prems" Some]
      have eq: "ro_scan r f = ro_scan (ro_eject r s) False" using Some True by (subst ro_scan.simps) simp
      from "1.IH" [OF Some True e(1)] obtain out where inv: "ro_inv (ro_scan r f)"
        and out: "set (ro_slots (ro_eject r s)) = set out \<union> set (ro_slots (ro_scan r f))"
          "set out \<inter> set (ro_slots (ro_scan r f)) = {}"
          "batch (ro_eject r s) (ro_scan r f) (if ro_disposed r then [] else map (slot_arrival (ro_eject r s)) out)"
        unfolding eq by auto
      have sa: "slot_arrival (ro_eject r s) = slot_arrival r"
        using e(3) by (intro same_source_slot_arrival) (simp add: batch_def)
      have "s \<in> set (ro_slots r)" using min_slot_Some [OF Some] by simp
      have "batch r (ro_scan r f) (if ro_disposed r then [] else map (slot_arrival r) (s # out))"
        using batch_trans [OF e(3) out(3)] unfolding sa by (simp split: if_splits)
      moreover have "set (ro_slots r) = set (s # out) \<union> set (ro_slots (ro_scan r f))"
          "set (s # out) \<inter> set (ro_slots (ro_scan r f)) = {}"
        using out(1, 2) e(2) \<open>s \<in> set (ro_slots r)\<close> by auto
      ultimately show ?thesis using inv by blast
    next
      case False
      then have eq: "ro_scan r f = r\<lparr>ro_window_task := Some (mts_timestamp (rs_message s) + ro_window r)\<rparr>"
        using Some by (subst ro_scan.simps) simp
      have "unat (rs_lin x) \<noteq> unat (ro_last r) + 1" if x: "x \<in> set (ro_slots r)" for x
      proof
        assume a: "unat (rs_lin x) = unat (ro_last r) + 1"
        have "unat (ro_last r) < unat (rs_lin s)" "unat (rs_lin s) \<le> unat (rs_lin x)" "unat (ro_last r) < 2 ^ 63"
          using min_slot_Some [OF Some] x "1.prems" by (auto simp: ro_core_def word_le_nat_alt)
        with a have "unat (rs_lin s) = unat (ro_last r + 1)" by (simp add: unat_word_ariths)
        with False show False by (simp add: word_unat_eq_iff)
      qed
      with "1.prems" show ?thesis unfolding eq
        by (intro conjI exI [of _ "[]"]) (auto simp: ro_inv_core ro_core_def batch_def same_source_def)
    qed
  qed
qed

lemma scan_last: "ro_last (ro_scan r f) = ro_last r \<or> (\<exists>s \<in> set (ro_slots r). ro_last (ro_scan r f) = rs_lin s)"
proof (induction r f rule: ro_scan.induct)
  case (1 r f)
  show ?case
  proof (cases "min_slot (ro_slots r)")
    case (Some s)
    show ?thesis
    proof (cases "f \<or> rs_lin s = ro_last r + 1")
      case True
      then have "ro_scan r f = ro_scan (ro_eject r s) False" using Some by (subst ro_scan.simps) simp
      with "1.IH" [OF Some True] min_slot_Some [OF Some] show ?thesis by (auto simp: delete_slot_def)
    qed (use Some in \<open>subst ro_scan.simps, simp\<close>)
  qed (subst ro_scan.simps, simp)
qed

subsection \<open>What is pending\<close>

definition pend :: "reordering \<Rightarrow> arrival set" where
  "pend r = slot_arrival r ` set (ro_slots r)"

text \<open>An operation that keeps the sequence and neither loses nor invents anything.\<close>

definition moves :: "reordering \<Rightarrow> reordering \<Rightarrow> arrival list \<Rightarrow> bool" where
  "moves r r' new \<longleftrightarrow> ro_inv r' \<and> batch r r' new \<and> pend r = set new \<union> pend r'"

lemma pend_same: "same_source r r' \<Longrightarrow> pend r' = slot_arrival r ` set (ro_slots r')"
  by (simp add: pend_def same_source_slot_arrival)

lemma scan_moves: "ro_core r \<Longrightarrow> \<not> ro_disposed r \<Longrightarrow> \<exists>new. moves r (ro_scan r f) new"
proof -
  assume a: "ro_core r" "\<not> ro_disposed r"
  from scan_batch [OF a(1), of f] a(2) obtain out where inv: "ro_inv (ro_scan r f)"
    and o: "set (ro_slots r) = set out \<union> set (ro_slots (ro_scan r f))"
    and b: "batch r (ro_scan r f) (map (slot_arrival r) out)"
    by auto
  have "same_source r (ro_scan r f)" using b by (simp add: batch_def)
  from pend_same [OF this] have "pend r = set (map (slot_arrival r) out) \<union> pend (ro_scan r f)"
    using o by (simp add: pend_def image_Un)
  with inv b show ?thesis by (auto simp: moves_def)
qed

lemma moves_trans: "moves r r' xs \<Longrightarrow> moves r' r'' ys \<Longrightarrow> moves r r'' (xs @ ys)"
  using batch_trans by (auto simp: moves_def)

lemma moves_refl: "ro_inv r \<Longrightarrow> moves r r []"
  by (simp add: moves_def)

lemma moves_disposed: "moves r r' xs \<Longrightarrow> ro_disposed r' = ro_disposed r"
  by (simp add: moves_def batch_def same_source_def)

lemma last_plus: "ro_core r \<Longrightarrow> unat (ro_last r + reordering_capacity) = unat (ro_last r) + 16 \<and> unat (ro_last r + 1) = unat (ro_last r) + 1"
  by (simp add: ro_core_def reordering_capacity_def unat_word_ariths)

lemma slide_moves:
  assumes "ro_inv r" "\<not> ro_disposed r" "unat (ro_last r) < unat l"
  shows "\<exists>new. moves r (ro_slide r l) new \<and> unat (ro_last (ro_slide r l)) < unat l
    \<and> (ro_slots (ro_slide r l) = [] \<or> unat l \<le> unat (ro_last (ro_slide r l)) + 16)"
  using assms
proof (induction r l rule: ro_slide.induct)
  case (1 r l)
  have core: "ro_core r" using "1.prems"(1) by (simp add: ro_inv_core)
  show ?case
  proof (cases "0 < length (ro_slots r) \<and> l > ro_last r + reordering_capacity")
    case True
    then have eq: "ro_slide r l = ro_slide (ro_scan r True) l" by (subst ro_slide.simps) simp
    from scan_moves [OF core "1.prems"(2), of True] obtain xs where xs: "moves r (ro_scan r True) xs" by blast
    then have d: "\<not> ro_disposed (ro_scan r True)" "ro_inv (ro_scan r True)"
      using "1.prems"(2) moves_disposed by (auto simp: moves_def)
    have "unat (ro_last r) + 16 < unat l" using True last_plus [OF core] by (simp add: word_less_nat_alt)
    then have "unat (ro_last (ro_scan r True)) < unat l"
      using scan_last [of r True] core "1.prems"(3) by (auto simp: ro_core_def)
    from "1.IH" [OF True d(2, 1) this] obtain ys where ys: "moves (ro_scan r True) (ro_slide (ro_scan r True) l) ys"
      "unat (ro_last (ro_slide (ro_scan r True) l)) < unat l"
      "ro_slots (ro_slide (ro_scan r True) l) = [] \<or> unat l \<le> unat (ro_last (ro_slide (ro_scan r True) l)) + 16" by blast
    with moves_trans [OF xs ys(1)] show ?thesis unfolding eq by blast
  next
    case False
    then have eq: "ro_slide r l = r" by (subst ro_slide.simps) (simp only: if_False)
    have "ro_slots r = [] \<or> unat l \<le> unat (ro_last r) + 16"
      using False last_plus [OF core] by (auto simp: word_less_nat_alt)
    with "1.prems" show ?thesis unfolding eq using moves_refl by blast
  qed
qed

lemma eject_all_loop_moves:
  assumes "ro_core r" "\<not> ro_disposed r"
  shows "\<exists>new. batch r (ro_eject_all_loop r False) new \<and> set new = pend r \<and> ro_slots (ro_eject_all_loop r False) = []"
  using assms
proof (induction r False rule: ro_eject_all_loop.induct)
  case (1 r)
  show ?case
  proof (cases "min_slot (ro_slots r)")
    case None
    then have "ro_eject_all_loop r False = r" by (subst ro_eject_all_loop.simps) simp
    with None show ?thesis by (intro exI [of _ "[]"]) (auto simp: min_slot_None pend_def)
  next
    case (Some s)
    then have eq: "ro_eject_all_loop r False = ro_eject_all_loop (ro_eject r s) False"
      by (subst ro_eject_all_loop.simps) simp
    note e = core_eject [OF "1.prems"(1) Some]
    from "1.hyps" [OF Some] e(1) "1.prems"(2) obtain new where n: "batch (ro_eject r s) (ro_eject_all_loop (ro_eject r s) False) new"
      "set new = pend (ro_eject r s)" "ro_slots (ro_eject_all_loop (ro_eject r s) False) = []"
      by auto
    have "pend (ro_eject r s) = slot_arrival r ` (set (ro_slots r) - {s})"
      using e(2, 3) by (subst pend_same) (auto simp: batch_def)
    moreover have bb: "batch r (ro_eject r s) [slot_arrival r s]" using e(3) "1.prems"(2) by simp
    ultimately show ?thesis
      using batch_trans [OF bb n(1)] n(2, 3) min_slot_Some [OF Some] unfolding eq pend_def
      by (intro exI [of _ "[slot_arrival r s] @ new"]) auto
  qed
qed

subsection \<open>Pushing a message\<close>

text \<open>The outcome of a push that keeps the sequence.\<close>

definition push_kept :: "reordering \<Rightarrow> reordering \<Rightarrow> bool \<Rightarrow> arrival \<Rightarrow> arrival list \<Rightarrow> bool" where
  "push_kept r r' acc a new \<longleftrightarrow> ro_inv r' \<and> batch r r' new
    \<and> pend r \<subseteq> set new \<union> pend r' \<and> set new \<union> pend r' \<subseteq> insert a (pend r)
    \<and> (acc \<longrightarrow> (\<exists>x \<in> set new \<union> pend r'. arr_tag x = arr_tag a))"

text \<open>The outcome of a push that restarts the sequence: everything pending was handed over before.\<close>

definition push_restarted :: "reordering \<Rightarrow> reordering \<Rightarrow> bool \<Rightarrow> arrival \<Rightarrow> arrival list \<Rightarrow> bool" where
  "push_restarted r r' acc a new \<longleftrightarrow> ro_inv r' \<and> acc \<and> ro_baseline r' \<noteq> ro_baseline r \<and> \<not> ro_disposed r'
    \<and> ro_log r' = ro_log r @ new \<and> sorted_wrt (<) (map (lin_of r) new) \<and> (\<forall>x \<in> set new. unat (ro_last r) < lin_of r x)
    \<and> set new = pend r \<and> pend r' = {a}"

lemma intern_inv:
  assumes "ro_inv r" "unat (ro_last r) + 1 < unat l" "unat l \<le> unat (ro_last r) + 16" "unat l < 2 ^ 63"
  shows "ro_inv (ro_intern r l p m)" "batch r (ro_intern r l p m) []"
    and "pend (ro_intern r l p m) = pend r \<or> pend (ro_intern r l p m) = insert (ro_arrival r m p (l + ro_baseline r)) (pend r)"
    and "\<exists>x \<in> pend (ro_intern r l p m). arr_tag x = l + ro_baseline r"
proof -
  let ?n = "\<lparr>rs_lin = l, rs_priority = p, rs_message = m\<rparr>"
  let ?slots = "ro_slots r @ [?n]"
  have "ro_inv (ro_intern r l p m) \<and> batch r (ro_intern r l p m) []
    \<and> (pend (ro_intern r l p m) = pend r \<or> pend (ro_intern r l p m) = insert (ro_arrival r m p (l + ro_baseline r)) (pend r))
    \<and> (\<exists>x \<in> pend (ro_intern r l p m). arr_tag x = l + ro_baseline r)"
  proof (cases "\<exists>s \<in> set (ro_slots r). rs_lin s = l")
    case True
    then have "ro_intern r l p m = r" by (simp add: ro_intern_def)
    moreover have "\<exists>x \<in> pend r. arr_tag x = l + ro_baseline r"
      using True by (auto simp: pend_def slot_arrival_def ro_arrival_def)
    ultimately show ?thesis using assms(1) by simp
  next
    case False
    obtain first where f: "min_slot ?slots = Some first" using min_slot_None [of ?slots] by auto
    then have eq: "ro_intern r l p m = r\<lparr>ro_slots := ?slots, ro_window_task := Some (mts_timestamp (rs_message first) + ro_window r)\<rparr>"
      using False by (simp add: ro_intern_def)
    have "distinct (map rs_lin ?slots)" using assms(1) False by (auto simp: ro_inv_def)
    then have "ro_inv (ro_intern r l p m)" using assms unfolding eq by (auto simp: ro_inv_def)
    moreover have b: "batch r (ro_intern r l p m) []" unfolding eq by (simp add: batch_def same_source_def)
    moreover have "pend (ro_intern r l p m) = insert (ro_arrival r m p (l + ro_baseline r)) (pend r)"
      using b unfolding eq by (subst pend_same) (auto simp: batch_def pend_def slot_arrival_def)
    ultimately show ?thesis by (simp add: ro_arrival_def)
  qed
  then show "ro_inv (ro_intern r l p m)" "batch r (ro_intern r l p m) []"
    "pend (ro_intern r l p m) = pend r \<or> pend (ro_intern r l p m) = insert (ro_arrival r m p (l + ro_baseline r)) (pend r)"
    "\<exists>x \<in> pend (ro_intern r l p m). arr_tag x = l + ro_baseline r" by auto
qed

lemma resequence_log [simp]: "ro_log (ro_resequence r tag) = ro_log r"
  by (simp add: ro_resequence_def)

lemma resequence_intern:
  assumes "ro_slots r = []" "\<not> ro_disposed r"
  shows "(let r = ro_resequence r tag in ro_inv (ro_intern r (tag - ro_baseline r) p m)
      \<and> ro_baseline (ro_intern r (tag - ro_baseline r) p m) = tag - 8
      \<and> \<not> ro_disposed (ro_intern r (tag - ro_baseline r) p m)
      \<and> ro_log (ro_intern r (tag - ro_baseline r) p m) = ro_log r)
      \<and> pend (ro_intern (ro_resequence r tag) 8 p m) = {ro_arrival r m p tag}"
proof -
  let ?r = "ro_resequence r tag"
  have l: "tag - ro_baseline ?r = 8" by (simp add: ro_resequence_def reordering_capacity_def)
  have inv: "ro_inv ?r" using assms by (simp add: ro_inv_def ro_resequence_def)
  have b: "unat (ro_last ?r) + 1 < unat (8 :: u64)" "unat (8 :: u64) \<le> unat (ro_last ?r) + 16" "unat (8 :: u64) < 2 ^ 63"
    by (simp_all add: ro_resequence_def)
  note i = intern_inv [OF inv b, of p m]
  have s: "same_source ?r (ro_intern ?r 8 p m)" and g: "ro_log (ro_intern ?r 8 p m) = ro_log ?r"
    using i(2) by (auto simp: batch_def)
  have "pend ?r = {}" using assms by (simp add: pend_def ro_resequence_def)
  then have "pend (ro_intern ?r 8 p m) = {ro_arrival ?r m p (8 + ro_baseline ?r)}" using i(3, 4) by auto
  moreover have "ro_arrival ?r m p (8 + ro_baseline ?r) = ro_arrival r m p tag"
    by (simp add: ro_arrival_def ro_resequence_def reordering_capacity_def)
  ultimately show ?thesis
    using i(1) s g assms(2) unfolding Let_def l by (auto simp: same_source_def ro_resequence_def reordering_capacity_def)
qed

lemma push_ahead_effect:
  assumes "ro_inv r" "\<not> ro_disposed r" "l = tag - ro_baseline r" "unat (ro_last r) < unat l" "unat l < 2 ^ 63"
    and "ro_push_ahead r l tag p m = (r', acc)"
  shows "\<exists>new. push_kept r r' acc (ro_arrival r m p tag) new \<or> push_restarted r r' acc (ro_arrival r m p tag) new"
proof -
  let ?a = "ro_arrival r m p tag"
  define r1 where "r1 = ro_slide r l"
  from slide_moves [OF assms(1, 2, 4)] obtain xs where m1: "moves r r1 xs" and lt: "unat (ro_last r1) < unat l"
    and wnd: "ro_slots r1 = [] \<or> unat l \<le> unat (ro_last r1) + 16" by (auto simp: r1_def)
  have inv1: "ro_inv r1" and b1: "batch r r1 xs" and p1: "pend r = set xs \<union> pend r1" using m1 by (auto simp: moves_def)
  have d1: "\<not> ro_disposed r1" using moves_disposed [OF m1] assms(2) by simp
  have ss: "same_source r r1" using b1 by (simp add: batch_def)
  have core1: "ro_core r1" using inv1 by (simp add: ro_inv_core)
  have a1: "ro_arrival r1 m p tag = ?a" using ss by (simp add: ro_arrival_def same_source_def)
  have l1: "l + ro_baseline r1 = tag" using ss assms(3) by (simp add: same_source_def)
  show ?thesis
  proof (cases "l = ro_last r1 + 1")
    case True
    define r2 where "r2 = fst (ro_notify (r1\<lparr>ro_last := l\<rparr>) ?a)"
    have r2 [simp]: "ro_last r2 = l" "ro_log r2 = ro_log r1 @ [?a]" "ro_slots r2 = ro_slots r1" "same_source r1 r2"
      "ro_disposed r2 = ro_disposed r1"
      using d1 by (simp_all add: r2_def ro_notify_def Let_def same_source_def)
    have r': "r' = ro_scan r2 False" and acc: acc
    proof -
      have "ro_notify (r1\<lparr>ro_last := l\<rparr>) ?a = (r2, True)" using d1 by (simp add: r2_def ro_notify_def Let_def)
      moreover have "ro_arrival (r1\<lparr>ro_last := l\<rparr>) m p tag = ?a" using a1 by (simp add: ro_arrival_def)
      moreover have "l = ro_last r1 + 1" by (rule True)
      ultimately have "ro_push_ahead r l tag p m = (ro_scan r2 False, True)"
        using d1 unfolding ro_push_ahead_def r1_def [symmetric] Let_def by (simp only: if_True if_False prod.case refl)
      with assms(6) show "r' = ro_scan r2 False" "acc" by simp_all
    qed
    have ul: "unat l = unat (ro_last r1) + 1" using True last_plus [OF core1] by simp
    have core2: "ro_core r2"
    proof -
      have "unat (ro_last r1) + 1 < unat (rs_lin s)" if "s \<in> set (ro_slots r1)" for s
        using inv1 that by (auto simp: ro_inv_def) (metis Suc_lessI)
      then show ?thesis using inv1 ul assms(5) by (auto simp: ro_core_def ro_inv_def)
    qed
    have b2: "batch r1 r2 [?a]"
    proof -
      have "lin_of r1 ?a = unat l" using l1 by (simp add: lin_of_def ro_arrival_def flip: l1)
      with ul show ?thesis by (simp add: batch_def)
    qed
    have p2: "pend r2 = pend r1" using pend_same [OF r2(4)] by (simp add: pend_def)
    from scan_moves [OF core2] d1 obtain ys where "moves r2 (ro_scan r2 False) ys" by auto
    then have m3: "ro_inv r'" "batch r2 r' ys" "pend r2 = set ys \<union> pend r'" by (auto simp: moves_def r')
    have "batch r r' (xs @ [?a] @ ys)" using batch_trans [OF b1 batch_trans [OF b2 m3(2)]] .
    then have "push_kept r r' acc ?a (xs @ [?a] @ ys)"
      using m3 p1 p2 by (auto simp: push_kept_def)
    then show ?thesis by blast
  next
    case False
    show ?thesis
    proof (cases "l > ro_last r1 + reordering_capacity")
      case True
      then have e: "ro_slots r1 = []" using wnd last_plus [OF core1] by (auto simp: word_less_nat_alt)
      have r': "r' = ro_intern (ro_resequence r1 tag) (tag - ro_baseline (ro_resequence r1 tag)) p m" and acc: acc
        using assms(6) d1 False True unfolding ro_push_ahead_def r1_def [symmetric] Let_def by auto
      have l8: "tag - ro_baseline (ro_resequence r1 tag) = 8" by (simp add: ro_resequence_def reordering_capacity_def)
      note ri = resequence_intern [OF e d1, of tag p m, unfolded Let_def l8]
      have ne: "tag - 8 \<noteq> ro_baseline r"
      proof
        assume "tag - 8 = ro_baseline r"
        then have "l = 8" using assms(3) by (simp add: algebra_simps)
        moreover have "unat (ro_last r1) + 16 < unat l"
          using True last_plus [OF core1] by (simp add: word_less_nat_alt)
        ultimately show False by simp
      qed
      have "pend r1 = {}" using e by (simp add: pend_def)
      then have "set xs = pend r" using p1 by simp
      moreover have "ro_log r1 = ro_log r @ xs" "sorted_wrt (<) (map (lin_of r) xs)" "\<forall>x \<in> set xs. unat (ro_last r) < lin_of r x"
        using b1 by (auto simp: batch_def)
      ultimately have "push_restarted r r' acc ?a xs"
        using ri acc ne a1 unfolding r' l8 push_restarted_def by auto
      then show ?thesis by blast
    next
      case F: False
      have r': "r' = ro_intern r1 l p m" and acc: acc
        using assms(6) d1 False F unfolding ro_push_ahead_def r1_def [symmetric] Let_def by auto
      have "unat l \<noteq> unat (ro_last r1) + 1"
        using False last_plus [OF core1] by (metis word_unat_eq_iff)
      then have bnd: "unat (ro_last r1) + 1 < unat l" "unat l \<le> unat (ro_last r1) + 16"
        using lt F last_plus [OF core1] by (auto simp: word_less_nat_alt not_less)
      note i = intern_inv [OF inv1 bnd assms(5), of p m]
      have "batch r r' (xs @ [])" using batch_trans [OF b1 i(2)] unfolding r' .
      then have "push_kept r r' acc ?a xs"
        using i(1, 3, 4) p1 a1 l1 unfolding r' push_kept_def by (auto simp: ro_arrival_def)
      then show ?thesis by blast
    qed
  qed
qed

lemma push_effect:
  assumes "ro_inv r" "\<not> ro_disposed r" "ro_push r tag p m = (r', acc)"
  shows "\<exists>new. push_kept r r' acc (ro_arrival r m p tag) new \<or> push_restarted r r' acc (ro_arrival r m p tag) new"
proof -
  let ?a = "ro_arrival r m p tag"
  let ?l = "tag - ro_baseline r"
  have max: "unat int64_max = 2 ^ 63 - 1" by (simp add: int64_max_def)
  have same: "push_kept r r False ?a []" using assms(1) by (auto simp: push_kept_def)
  consider (late) "?l \<le> ro_last r" | (ahead) "\<not> ?l \<le> ro_last r" "\<not> ?l > int64_max"
    | (lag) "\<not> ?l \<le> ro_last r" "?l > int64_max" "ro_last r - ?l \<le> session_counter_max_backward_lag"
    | (jump) "\<not> ?l \<le> ro_last r" "?l > int64_max" "\<not> ro_last r - ?l \<le> session_counter_max_backward_lag" by blast
  then show ?thesis
  proof cases
    case late
    with assms(3) same show ?thesis by (auto simp: ro_push_def Let_def)
  next
    case lag
    with assms(3) same show ?thesis by (auto simp: ro_push_def Let_def)
  next
    case ahead
    then have "ro_push_ahead r ?l tag p m = (r', acc)" using assms(3) by (simp add: ro_push_def Let_def)
    moreover have "unat (ro_last r) < unat ?l" "unat ?l < 2 ^ 63"
      using ahead max by (auto simp: word_le_nat_alt word_less_nat_alt)
    ultimately show ?thesis using push_ahead_effect [OF assms(1, 2) refl] by blast
  next
    case jump
    define r1 where "r1 = ro_eject_all r False"
    define r2 where "r2 = ro_resequence r1 tag"
    have core: "ro_core r" using assms(1) by (simp add: ro_inv_core)
    from eject_all_loop_moves [OF core assms(2)] obtain xs where
      xs: "batch r (ro_eject_all_loop r False) xs" "set xs = pend r" "ro_slots (ro_eject_all_loop r False) = []" by blast
    have e: "ro_slots r1 = []" "ro_log r1 = ro_log r @ xs" "same_source r r1"
      using xs by (auto simp: r1_def ro_eject_all_def batch_def same_source_def)
    have d1: "\<not> ro_disposed r1" using e(3) assms(2) by (simp add: same_source_def)
    have l8: "tag - ro_baseline r2 = 8" by (simp add: r2_def ro_resequence_def reordering_capacity_def)
    have "ro_push_ahead r2 8 tag p m = (r', acc)"
      using assms(3) jump by (simp add: ro_push_def Let_def r1_def r2_def l8 [unfolded r1_def r2_def])
    moreover have "ro_slide r2 8 = r2" using e(1) by (subst ro_slide.simps) (simp add: r2_def ro_resequence_def)
    ultimately have r': "r' = ro_intern r2 8 p m" and acc: acc
      using d1 by (auto simp: ro_push_ahead_def r2_def ro_resequence_def reordering_capacity_def)
    note ri = resequence_intern [OF e(1) d1, of tag p m, unfolded Let_def, folded r2_def, unfolded l8]
    have ne: "tag - 8 \<noteq> ro_baseline r"
    proof
      assume "tag - 8 = ro_baseline r"
      then have "?l = 8" by (simp add: algebra_simps)
      with jump(2) max show False by (simp add: word_less_nat_alt)
    qed
    have "ro_arrival r1 m p tag = ?a" using e(3) by (simp add: ro_arrival_def same_source_def)
    moreover have "sorted_wrt (<) (map (lin_of r) xs)" "\<forall>x \<in> set xs. unat (ro_last r) < lin_of r x"
      using xs(1) by (auto simp: batch_def)
    ultimately have "push_restarted r r' acc ?a xs"
      using ri acc ne xs(2) e(2) unfolding r' push_restarted_def by (auto simp: r2_def)
    then show ?thesis by blast
  qed
qed

subsection \<open>Runs\<close>

datatype ro_event = Pushed u64 u8 message_ts | WindowExpired

text \<open>A run of the buffer, with the tags of the messages it accepted (which are then acknowledged).\<close>

fun ro_run :: "ro_event list \<Rightarrow> reordering \<Rightarrow> reordering \<times> u64 list" where
  "ro_run [] r = (r, [])"
| "ro_run (Pushed tag prio m # evs) r =
    (let (r, accepted) = ro_push r tag prio m;
         (r, tags) = ro_run evs r
     in (r, if accepted then tag # tags else tags))"
| "ro_run (WindowExpired # evs) r = ro_run evs (ro_on_window_expiration r)"

text \<open>No event of the run restarts the sequence.\<close>

fun ro_continuous :: "ro_event list \<Rightarrow> reordering \<Rightarrow> bool" where
  "ro_continuous [] r \<longleftrightarrow> True"
| "ro_continuous (Pushed tag prio m # evs) r \<longleftrightarrow>
    (let r' = fst (ro_push r tag prio m) in ro_baseline r' = ro_baseline r \<and> ro_continuous evs r')"
| "ro_continuous (WindowExpired # evs) r \<longleftrightarrow> ro_continuous evs (ro_on_window_expiration r)"

definition run_arrivals :: "reordering \<Rightarrow> ro_event list \<Rightarrow> arrival set" where
  "run_arrivals r evs = {ro_arrival r m prio tag | m prio tag. Pushed tag prio m \<in> set evs}"

lemma arrival_same: "same_source r r' \<Longrightarrow> ro_arrival r' = ro_arrival r"
  by (auto simp: ro_arrival_def same_source_def fun_eq_iff)

lemma run_inv: "ro_inv r \<Longrightarrow> \<not> ro_disposed r \<Longrightarrow> ro_inv (fst (ro_run evs r))"
proof (induction evs r rule: ro_run.induct)
  case (2 tag prio m evs r)
  obtain r' acc where p: "ro_push r tag prio m = (r', acc)" by fastforce
  from push_effect [OF "2.prems" p] "2.prems"(2) have "ro_inv r'" "\<not> ro_disposed r'"
    by (auto simp: push_kept_def push_restarted_def batch_def same_source_def)
  with "2.IH" [OF p [symmetric] refl] p show ?case by (cases "ro_run evs r'") simp
next
  case (3 evs r)
  from scan_moves [of r True] 3(2, 3) obtain new where "moves r (ro_on_window_expiration r) new"
    by (auto simp: ro_inv_core ro_on_window_expiration_def)
  then have "ro_inv (ro_on_window_expiration r)" "\<not> ro_disposed (ro_on_window_expiration r)"
    using 3(3) moves_disposed by (auto simp: moves_def)
  with 3 show ?case by simp
qed simp

lemma run_continuous:
  assumes "ro_inv r" "\<not> ro_disposed r" "ro_continuous evs r" "ro_run evs r = (r', tags)"
  shows "\<exists>new. ro_inv r' \<and> batch r r' new \<and> pend r \<subseteq> set new \<union> pend r'
    \<and> set new \<union> pend r' \<subseteq> pend r \<union> run_arrivals r evs
    \<and> (\<forall>t \<in> set tags. \<exists>x \<in> set new \<union> pend r'. arr_tag x = t)"
  using assms
proof (induction evs r arbitrary: r' tags rule: ro_run.induct)
  case (1 r)
  then show ?case by (intro exI [of _ "[]"]) (auto simp: run_arrivals_def)
next
  case (2 tag prio m evs r)
  obtain r1 acc where p: "ro_push r tag prio m = (r1, acc)" by fastforce
  obtain ts where t: "ro_run evs r1 = (r', ts)" "tags = (if acc then tag # ts else ts)"
    using "2.prems"(4) p by (auto split: prod.splits)
  from push_effect [OF "2.prems"(1, 2) p] "2.prems"(3) p obtain xs where k: "push_kept r r1 acc (ro_arrival r m prio tag) xs"
    by (auto simp: push_restarted_def Let_def)
  then have b: "batch r r1 xs" and i: "ro_inv r1" and ss: "same_source r r1" by (auto simp: push_kept_def batch_def)
  have "\<not> ro_disposed r1" using ss "2.prems"(2) by (simp add: same_source_def)
  from "2.IH" [OF p [symmetric] refl i this _ t(1)] "2.prems"(3) p obtain ys where y: "ro_inv r'" "batch r1 r' ys"
    "pend r1 \<subseteq> set ys \<union> pend r'" "set ys \<union> pend r' \<subseteq> pend r1 \<union> run_arrivals r1 evs"
    "\<forall>t \<in> set ts. \<exists>x \<in> set ys \<union> pend r'. arr_tag x = t"
    by (auto simp: Let_def)
  have ra: "run_arrivals r (Pushed tag prio m # evs) = insert (ro_arrival r m prio tag) (run_arrivals r1 evs)"
    using arrival_same [OF ss] by (auto simp: run_arrivals_def)
  have acc_tag: "\<exists>x \<in> set xs \<union> pend r1. arr_tag x = tag" if acc
    using k that by (auto simp: push_kept_def ro_arrival_def)
  have "pend r \<subseteq> set (xs @ ys) \<union> pend r'" using k y(3) by (auto simp: push_kept_def)
  moreover have "set (xs @ ys) \<union> pend r' \<subseteq> pend r \<union> run_arrivals r (Pushed tag prio m # evs)"
    using k y(4) unfolding ra by (auto simp: push_kept_def)
  moreover have "\<forall>t \<in> set tags. \<exists>x \<in> set (xs @ ys) \<union> pend r'. arr_tag x = t"
  proof
    fix t' assume "t' \<in> set tags"
    then consider "acc" "t' = tag" | "t' \<in> set ts" using t(2) by (auto split: if_splits)
    then show "\<exists>x \<in> set (xs @ ys) \<union> pend r'. arr_tag x = t'"
      using acc_tag y(3, 5) by cases auto
  qed
  ultimately show ?case using y(1) batch_trans [OF b y(2)] by blast
next
  case (3 evs r)
  let ?r1 = "ro_on_window_expiration r"
  from scan_moves [of r True] "3.prems"(1, 2) obtain xs where m: "moves r ?r1 xs"
    by (auto simp: ro_inv_core ro_on_window_expiration_def)
  then have b: "batch r ?r1 xs" and ss: "same_source r ?r1" by (auto simp: moves_def batch_def)
  from "3.IH" [of r' tags] 3(2-) m moves_disposed [OF m] obtain ys where y: "ro_inv r'" "batch ?r1 r' ys"
    "pend ?r1 \<subseteq> set ys \<union> pend r'" "set ys \<union> pend r' \<subseteq> pend ?r1 \<union> run_arrivals ?r1 evs"
    "\<forall>t \<in> set tags. \<exists>x \<in> set ys \<union> pend r'. arr_tag x = t"
    by (auto simp: moves_def)
  have ra: "run_arrivals r (WindowExpired # evs) = run_arrivals ?r1 evs"
    using arrival_same [OF ss] by (auto simp: run_arrivals_def)
  have "batch r r' (xs @ ys)" using batch_trans [OF b y(2)] .
  moreover have "pend r \<subseteq> set (xs @ ys) \<union> pend r'" "set (xs @ ys) \<union> pend r' \<subseteq> pend r \<union> run_arrivals r (WindowExpired # evs)"
    using m y(3, 4) unfolding ra by (auto simp: moves_def)
  ultimately show ?case using y(1, 5) by (intro exI [of _ "xs @ ys"]) auto
qed

lemma ro_new_inv: "ro_inv (ro_new remote hash tag window) \<and> \<not> ro_disposed (ro_new remote hash tag window)
    \<and> pend (ro_new remote hash tag window) = {} \<and> ro_log (ro_new remote hash tag window) = []"
  by (simp add: ro_new_def ro_inv_def ro_resequence_def pend_def)

text \<open>C32: As long as the sequence is not restarted, an ordered subscriber gets the messages of a remote in strictly
  increasing order of their tags, none twice, and only messages that were pushed; every message that
  was accepted (and so acknowledged) has been handed over or waits in the buffer.\<close>
theorem ordered_delivery:
  assumes "ro_continuous evs (ro_new remote hash tag window)"
    and "ro_run evs (ro_new remote hash tag window) = (r', tags)"
  shows "sorted_wrt (\<lambda>a b. unat (arr_tag a - ro_baseline r') < unat (arr_tag b - ro_baseline r')) (ro_log r')
    \<and> set (ro_log r') \<subseteq> run_arrivals r' evs
    \<and> (\<forall>t \<in> set tags. t \<in> arr_tag ` set (ro_log r') \<or> (\<exists>s \<in> set (ro_slots r'). t = rs_lin s + ro_baseline r'))"
proof -
  let ?r = "ro_new remote hash tag window"
  from run_continuous [OF _ _ assms] ro_new_inv [of remote hash tag window] obtain new where
    n: "batch ?r r' new" "set new \<union> pend r' \<subseteq> pend ?r \<union> run_arrivals ?r evs"
      "\<forall>t \<in> set tags. \<exists>x \<in> set new \<union> pend r'. arr_tag x = t" by blast
  have ss: "same_source ?r r'" and log: "ro_log r' = new" using n(1) ro_new_inv [of remote hash tag window] by (auto simp: batch_def)
  have ra: "run_arrivals r' evs = run_arrivals ?r evs" using arrival_same [OF ss] by (simp add: run_arrivals_def)
  have "sorted_wrt (<) (map (lin_of r') new)" using n(1) lin_of_same [OF ss] by (simp add: batch_def)
  then have "sorted_wrt (\<lambda>a b. unat (arr_tag a - ro_baseline r') < unat (arr_tag b - ro_baseline r')) (ro_log r')"
    unfolding log by (simp add: sorted_wrt_map lin_of_def)
  moreover have "set (ro_log r') \<subseteq> run_arrivals r' evs"
    using n(2) ro_new_inv [of remote hash tag window] unfolding ra log by blast
  moreover have "\<forall>t \<in> set tags. t \<in> arr_tag ` set (ro_log r') \<or> (\<exists>s \<in> set (ro_slots r'). t = rs_lin s + ro_baseline r')"
    using n(3) unfolding log by (force simp: pend_def slot_arrival_def ro_arrival_def)
  ultimately show ?thesis by blast
qed

definition demo_message :: "byte \<Rightarrow> message_ts" where
  "demo_message b = \<lparr>mts_timestamp = 0, mts_content = Some (new_message [b])\<rparr>"

definition demo_events :: "ro_event list" where
  "demo_events = [Pushed 100 4 (demo_message 0), Pushed 102 4 (demo_message 2), WindowExpired, Pushed 101 4 (demo_message 1)]"

lemma demo_run: "map arr_tag (ro_log (fst (ro_run demo_events (ro_new 7 9 100 1000)))) = [100, 101, 102]"
  "ro_continuous demo_events (ro_new 7 9 100 1000)"
  by code_simp+

theorem ordered_delivery_witness:
  "sorted_wrt (\<lambda>a b. unat (arr_tag a - 92) < unat (arr_tag b - 92)) (ro_log (fst (ro_run demo_events (ro_new 7 9 100 1000))))
   \<and> map arr_tag (ro_log (fst (ro_run demo_events (ro_new 7 9 100 1000)))) = [100, 101, 102]"
proof -
  obtain r' tags where r: "ro_run demo_events (ro_new 7 9 100 1000) = (r', tags)" by fastforce
  have "ro_baseline (fst (ro_run demo_events (ro_new 7 9 100 1000))) = 92" by code_simp
  with ordered_delivery [OF demo_run(2) r] r demo_run(1) show ?thesis by simp
qed

subsection \<open>Nothing waits for ever\<close>

lemma expirations_drain:
  assumes "ro_inv r" "\<not> ro_disposed r" "length (ro_slots r) \<le> n"
  shows "\<exists>new. batch r ((ro_on_window_expiration ^^ n) r) new \<and> set new = pend r
    \<and> ro_slots ((ro_on_window_expiration ^^ n) r) = []"
  using assms
proof (induction n arbitrary: r)
  case 0
  then show ?case by (auto simp: pend_def)
next
  case (Suc n)
  let ?r1 = "ro_on_window_expiration r"
  from scan_moves [of r True] Suc.prems obtain xs where m: "moves r ?r1 xs"
    by (auto simp: ro_inv_core ro_on_window_expiration_def)
  have "length (ro_slots ?r1) \<le> n"
    using scan_force_less [of r] scan_slots_le [of r True] Suc.prems(3)
    by (cases "ro_slots r = []") (auto simp: ro_on_window_expiration_def)
  with Suc.IH [of ?r1] m moves_disposed [OF m] Suc.prems(2) obtain ys where
    "batch ?r1 ((ro_on_window_expiration ^^ n) ?r1) ys" "set ys = pend ?r1" "ro_slots ((ro_on_window_expiration ^^ n) ?r1) = []"
    by (auto simp: moves_def)
  then show ?case
    using m batch_trans [of r ?r1 xs "(ro_on_window_expiration ^^ n) ?r1" ys]
    by (intro exI [of _ "xs @ ys"]) (auto simp: moves_def funpow_swap1)
qed

text \<open>C33: Nothing waits in the reordering buffer for ever. After any run, restarts included, the timer is armed
  whenever a message waits, and each expiration hands over at least the first: after as many expirations as
  messages wait, without any further message arriving, all of them have been handed over, in order, and
  nothing else.\<close>
theorem waiting_messages_delivered:
  assumes "fst (ro_run evs (ro_new remote hash tag window)) = r" "length (ro_slots r) \<le> n" "\<not> ro_disposed r"
  shows "(ro_slots r \<noteq> [] \<longrightarrow> ro_window_task r \<noteq> None)
    \<and> (\<exists>new. ro_log ((ro_on_window_expiration ^^ n) r) = ro_log r @ new
         \<and> set new = slot_arrival r ` set (ro_slots r)
         \<and> sorted_wrt (\<lambda>a b. unat (arr_tag a - ro_baseline r) < unat (arr_tag b - ro_baseline r)) new)
    \<and> ro_slots ((ro_on_window_expiration ^^ n) r) = []"
proof -
  have inv: "ro_inv r" using run_inv ro_new_inv assms(1) by blast
  from expirations_drain [OF inv assms(3, 2)] obtain new where
    "batch r ((ro_on_window_expiration ^^ n) r) new" "set new = pend r" "ro_slots ((ro_on_window_expiration ^^ n) r) = []" by blast
  moreover have "ro_slots r \<noteq> [] \<longrightarrow> ro_window_task r \<noteq> None" using inv by (simp add: ro_inv_def)
  ultimately show ?thesis
    by (intro conjI exI [of _ new]) (auto simp: batch_def pend_def sorted_wrt_map lin_of_def)
qed

theorem waiting_messages_delivered_witness:
  "ro_slots ((ro_on_window_expiration ^^ 2) (fst (ro_run (take 2 demo_events) (ro_new 7 9 100 1000)))) = []"
proof -
  let ?r = "fst (ro_run (take 2 demo_events) (ro_new 7 9 100 1000))"
  have "length (ro_slots ?r) \<le> 2" "\<not> ro_disposed ?r" by code_simp+
  from waiting_messages_delivered [OF refl this] show ?thesis by blast
qed

end
