(* ===== verification/CyCrdt.thy ===== *)
theory CyCrdt
  imports CySubject "HOL-Library.AList"
begin

text \<open>
  \<open>cy/crdt.go\<close>: the replicated state of topic allocations. The map from hashes to topic states is the
  list of its entries with different keys (\<open>HOL-Library.AList\<close>); the locks are left out.

  A locale states what a merge has to satisfy for replicas to converge, and the merge of the code is
  an instance of it.
\<close>

subsection \<open>Merges that converge\<close>

locale convergent_merge =
  fixes merge :: "'a \<Rightarrow> 'a \<Rightarrow> 'a"
  assumes merge_assoc: "merge (merge a b) c = merge a (merge b c)"
    and merge_comm: "merge a b = merge b a"
    and merge_idem: "merge a a = a"
begin

definition absorb :: "'a list \<Rightarrow> 'a \<Rightarrow> 'a" where
  "absorb us s = fold (\<lambda>u s. merge s u) us s"

lemma merge_left_comm: "merge (merge s a) b = merge (merge s b) a"
  by (metis merge_assoc merge_comm)

lemma absorb_merge: "absorb us (merge s u) = merge (absorb us s) u"
  by (induction us arbitrary: s) (simp_all add: absorb_def merge_left_comm)

lemma absorb_append: "absorb (us @ vs) s = absorb vs (absorb us s)"
  by (simp add: absorb_def)

lemma absorb_Cons: "absorb (u # us) s = merge (absorb us s) u"
  using absorb_merge by (simp add: absorb_def)

lemma absorb_mem: "u \<in> set us \<Longrightarrow> merge (absorb us s) u = absorb us s"
proof (induction us)
  case (Cons v us)
  then show ?case
    by (auto simp: absorb_Cons merge_assoc merge_idem) (metis merge_assoc merge_comm)
qed simp

lemma absorb_subset: "set vs \<subseteq> set us \<Longrightarrow> absorb vs (absorb us s) = absorb us s"
proof (induction vs)
  case (Cons v vs)
  then show ?case by (simp add: absorb_Cons absorb_mem)
qed (simp add: absorb_def)

lemma absorb_comm: "absorb us (absorb vs s) = absorb vs (absorb us s)"
proof (induction us)
  case (Cons u us)
  then show ?case by (simp add: absorb_Cons absorb_merge)
qed (simp add: absorb_def)

text \<open>Replicas that have seen the same updates agree, whatever the order and the duplicates.\<close>

lemma absorb_set_eq: "set us = set vs \<Longrightarrow> absorb us s = absorb vs s"
  using absorb_subset [of us vs s] absorb_subset [of vs us s] absorb_comm [of us vs s] by simp

end

subsection \<open>The state\<close>

record topic_state =
  ts_hash :: u64
  ts_name :: string
  ts_log_age :: lage
  ts_evictions :: u32
  ts_origin :: microsecond
  ts_pinned :: bool
  ts_pinned_sid :: u32

record crdt =
  crdt_topics :: "(u64 \<times> topic_state) list"
  crdt_modulus :: u32
  crdt_last_gossip_time :: microsecond
  crdt_pending :: "u64 list"

definition new_topic_state :: "string \<Rightarrow> u64 \<Rightarrow> lage \<Rightarrow> u32 \<Rightarrow> topic_state" where
  "new_topic_state name hash log_age evictions =
    \<lparr>ts_hash = hash, ts_name = name, ts_log_age = log_age, ts_evictions = evictions, ts_origin = 0,
     ts_pinned = False, ts_pinned_sid = 0\<rparr>"

definition new_pinned_topic_state :: "string \<Rightarrow> u64 \<Rightarrow> u32 \<Rightarrow> topic_state" where
  "new_pinned_topic_state name hash pinned_sid =
    \<lparr>ts_hash = hash, ts_name = name, ts_log_age = LAGEMin, ts_evictions = NOT pinned_sid, ts_origin = 0,
     ts_pinned = True, ts_pinned_sid = pinned_sid\<rparr>"

definition new_crdt :: "u32 \<Rightarrow> crdt" where
  "new_crdt modulus = \<lparr>crdt_topics = [], crdt_modulus = modulus, crdt_last_gossip_time = 0, crdt_pending = []\<rparr>"

definition crdt_set_modulus :: "crdt \<Rightarrow> u32 \<Rightarrow> crdt" where
  "crdt_set_modulus c modulus = c\<lparr>crdt_modulus := modulus\<rparr>"

definition crdt_get_topic :: "crdt \<Rightarrow> u64 \<Rightarrow> topic_state option" where
  "crdt_get_topic c hash = map_of (crdt_topics c) hash"

definition crdt_put :: "crdt \<Rightarrow> u64 \<Rightarrow> topic_state \<Rightarrow> crdt" where
  "crdt_put c hash state = c\<lparr>crdt_topics := AList.update hash state (crdt_topics c)\<rparr>"

definition crdt_add_topic :: "crdt \<Rightarrow> string \<Rightarrow> u64 \<Rightarrow> crdt \<times> topic_state" where
  "crdt_add_topic c name hash =
    (case crdt_get_topic c hash of
       Some state \<Rightarrow> (c, state)
     | None \<Rightarrow> let state = new_topic_state name hash LAGEMin 0 in (crdt_put c hash state, state))"

definition crdt_add_pinned_topic :: "crdt \<Rightarrow> string \<Rightarrow> u64 \<Rightarrow> u32 \<Rightarrow> crdt \<times> topic_state" where
  "crdt_add_pinned_topic c name hash pinned_sid =
    (let state = new_pinned_topic_state name hash pinned_sid in (crdt_put c hash state, state))"

definition crdt_merge :: "crdt \<Rightarrow> u64 \<Rightarrow> lage \<Rightarrow> u32 \<Rightarrow> crdt \<times> bool" where
  "crdt_merge c hash remote_log_age remote_evictions =
    (case crdt_get_topic c hash of
       None \<Rightarrow> (c, False)
     | Some local \<Rightarrow>
         if remote_log_age < ts_log_age local then (c, False)
         else if remote_log_age > ts_log_age local then
           (crdt_put c hash (local\<lparr>ts_log_age := remote_log_age, ts_evictions := remote_evictions\<rparr>), True)
         else if remote_evictions > ts_evictions local then
           (crdt_put c hash (local\<lparr>ts_evictions := remote_evictions\<rparr>), True)
         else (c, False))"

definition crdt_compute_subject_id :: "crdt \<Rightarrow> u64 \<Rightarrow> u32 \<Rightarrow> go_panic + u32" where
  "crdt_compute_subject_id c hash evictions =
    (if evictions \<ge> evictions_pinned_min then Inr (NOT evictions)
     else compute_subject_id hash evictions (crdt_modulus c))"

definition crdt_increment_evictions :: "crdt \<Rightarrow> u64 \<Rightarrow> crdt" where
  "crdt_increment_evictions c hash =
    (case crdt_get_topic c hash of
       None \<Rightarrow> c
     | Some state \<Rightarrow> crdt_put c hash (state\<lparr>ts_evictions := ts_evictions state + 1, ts_log_age := LAGEMin\<rparr>))"

definition crdt_update_log_age :: "crdt \<Rightarrow> u64 \<Rightarrow> lage \<Rightarrow> crdt" where
  "crdt_update_log_age c hash log_age =
    (case crdt_get_topic c hash of None \<Rightarrow> c | Some state \<Rightarrow> crdt_put c hash (state\<lparr>ts_log_age := log_age\<rparr>))"

definition crdt_remove_topic :: "crdt \<Rightarrow> u64 \<Rightarrow> crdt" where
  "crdt_remove_topic c hash = c\<lparr>crdt_topics := AList.delete hash (crdt_topics c)\<rparr>"

text \<open>The test of one entry in the loop of \<open>Validate\<close>; the computation of the subject identifier may panic.\<close>

definition crdt_entry_valid :: "crdt \<Rightarrow> u64 \<Rightarrow> topic_state \<Rightarrow> go_panic + bool" where
  "crdt_entry_valid c hash state =
    (if ts_log_age state < LAGEMin \<or> ts_log_age state > LAGEMax then Inr False
     else if ts_pinned state \<and> ts_evictions state < evictions_pinned_min then Inr False
     else and_then (crdt_compute_subject_id c hash (ts_evictions state))
       (\<lambda>computed. Inr (\<not> (ts_pinned state \<and> computed \<noteq> ts_pinned_sid state))))"

fun crdt_validate_loop :: "crdt \<Rightarrow> (u64 \<times> topic_state) list \<Rightarrow> go_panic + bool" where
  "crdt_validate_loop c [] = Inr True"
| "crdt_validate_loop c ((hash, state) # rest) =
    and_then (crdt_entry_valid c hash state) (\<lambda>ok. if ok then crdt_validate_loop c rest else Inr False)"

definition crdt_validate :: "crdt \<Rightarrow> go_panic + bool" where
  "crdt_validate c = crdt_validate_loop c (crdt_topics c)"

definition crdt_is_pinned :: "crdt \<Rightarrow> u64 \<Rightarrow> bool" where
  "crdt_is_pinned c hash = (case crdt_get_topic c hash of None \<Rightarrow> False | Some state \<Rightarrow> ts_pinned state)"

definition crdt_get_pinned_subject_id :: "crdt \<Rightarrow> u64 \<Rightarrow> u32 \<times> bool" where
  "crdt_get_pinned_subject_id c hash =
    (case crdt_get_topic c hash of
       None \<Rightarrow> (0, False)
     | Some state \<Rightarrow> if \<not> ts_pinned state then (0, False) else (ts_pinned_sid state, True))"

definition crdt_mark_for_gossip :: "crdt \<Rightarrow> u64 \<Rightarrow> crdt" where
  "crdt_mark_for_gossip c hash =
    (if hash \<in> set (crdt_pending c) then c else c\<lparr>crdt_pending := crdt_pending c @ [hash]\<rparr>)"

definition crdt_get_pending_gossip :: "crdt \<Rightarrow> crdt \<times> u64 list" where
  "crdt_get_pending_gossip c = (c\<lparr>crdt_pending := []\<rparr>, crdt_pending c)"

definition crdt_get_all_topic_states :: "crdt \<Rightarrow> topic_state list" where
  "crdt_get_all_topic_states c = map snd (crdt_topics c)"

definition crdt_increment_log_age :: "crdt \<Rightarrow> crdt" where
  "crdt_increment_log_age c =
    c\<lparr>crdt_topics := map (\<lambda>(hash, state).
        (hash, if ts_log_age state < LAGEMax then state\<lparr>ts_log_age := ts_log_age state + 1\<rparr> else state)) (crdt_topics c)\<rparr>"

text \<open>\<open>LAGEMax/2\<close> is the integer 17.\<close>

definition crdt_cleanup :: "crdt \<Rightarrow> crdt" where
  "crdt_cleanup c =
    c\<lparr>crdt_topics := filter (\<lambda>(hash, state).
        ts_pinned state \<or> \<not> (ts_log_age state > LAGEMax div 2 \<and> ts_evictions state > 0)) (crdt_topics c)\<rparr>"

definition crdt_reset :: "crdt \<Rightarrow> crdt" where
  "crdt_reset c = c\<lparr>crdt_topics := [], crdt_pending := [], crdt_last_gossip_time := 0\<rparr>"

subsection \<open>The merge is a join\<close>

text \<open>What is replicated of a topic: the log-age and the eviction counter, ordered lexicographically.\<close>

fun age_join :: "lage \<times> u32 \<Rightarrow> lage \<times> u32 \<Rightarrow> lage \<times> u32" where
  "age_join (l, e) (l', e') = (if l < l' then (l', e') else if l' < l then (l, e) else (l, max e e'))"

interpretation ages: convergent_merge age_join
proof unfold_locales
  show "age_join (age_join a b) c = age_join a (age_join b c)" for a b c
    by (cases a; cases b; cases c) (auto simp: max_def)
  show "age_join a b = age_join b a" for a b
    by (cases a; cases b) (auto simp: max_def)
  show "age_join a a = a" for a
    by (cases a) auto
qed

definition age_of :: "crdt \<Rightarrow> u64 \<Rightarrow> (lage \<times> u32) option" where
  "age_of c hash = map_option (\<lambda>s. (ts_log_age s, ts_evictions s)) (crdt_get_topic c hash)"

definition merge_all :: "u64 \<Rightarrow> (lage \<times> u32) list \<Rightarrow> crdt \<Rightarrow> crdt" where
  "merge_all hash us c = fold (\<lambda>(l, e) c. fst (crdt_merge c hash l e)) us c"

lemma get_put [simp]: "crdt_get_topic (crdt_put c h s) h' = (if h' = h then Some s else crdt_get_topic c h')"
  by (simp add: crdt_get_topic_def crdt_put_def update_conv')

lemma age_of_merge:
  "age_of (fst (crdt_merge c hash l e)) hash' =
    (if hash' = hash then map_option (\<lambda>a. age_join a (l, e)) (age_of c hash) else age_of c hash')"
  by (auto simp: crdt_merge_def age_of_def max_def split: option.splits)

lemma merge_changed: "snd (crdt_merge c hash l e) \<longleftrightarrow> age_of (fst (crdt_merge c hash l e)) hash \<noteq> age_of c hash"
  by (auto simp: crdt_merge_def age_of_def split: option.splits)

lemma age_of_merge_all:
  "age_of (merge_all hash us c) hash' =
    (if hash' = hash then map_option (ages.absorb us) (age_of c hash) else age_of c hash')"
proof (induction us arbitrary: c)
  case Nil
  then show ?case by (simp add: merge_all_def ages.absorb_def option.map_id0 [unfolded id_def])
next
  case (Cons u us)
  obtain l e where u: "u = (l, e)" by fastforce
  have "merge_all hash (u # us) c = merge_all hash us (fst (crdt_merge c hash l e))" by (simp add: merge_all_def u)
  moreover have "ages.absorb (u # us) s = ages.absorb us (age_join s (l, e))" for s by (simp add: ages.absorb_def u)
  ultimately show ?case using Cons [of "fst (crdt_merge c hash l e)"] by (simp add: age_of_merge option.map_comp o_def)
qed

text \<open>C34: The merge of the replicated topic state converges: two replicas that start with the same log-age and
  eviction counter of a topic and receive the same updates, in whatever order and however often, end
  with the same log-age and counter; a merge reports a change exactly when there is one; no merge
  touches another topic. (The larger log-age wins, that is the older topic; the comments in the
  code have it both ways.)\<close>
theorem crdt_merge_converges:
  assumes "age_of a hash = age_of b hash" "set us = set vs"
  shows "age_of (merge_all hash us a) hash = age_of (merge_all hash vs b) hash
    \<and> (other \<noteq> hash \<longrightarrow> age_of (merge_all hash us a) other = age_of a other)
    \<and> snd (crdt_merge a hash l e) = (age_of (fst (crdt_merge a hash l e)) hash \<noteq> age_of a hash)"
proof -
  have "ages.absorb us = ages.absorb vs" using ages.absorb_set_eq [OF assms(2)] by blast
  with assms(1) show ?thesis by (simp add: age_of_merge_all merge_changed)
qed

definition demo_crdt :: crdt where
  "demo_crdt = fst (crdt_add_topic (new_crdt 57203) ''time'' 42)"

theorem crdt_merge_converges_witness:
  "age_of (merge_all 42 [(3, 1), (5, 0), (5, 2)] demo_crdt) 42 = age_of (merge_all 42 [(5, 2), (3, 1), (5, 0), (3, 1)] demo_crdt) 42"
  using crdt_merge_converges [of demo_crdt 42 demo_crdt "[(3, 1), (5, 0), (5, 2)]" "[(5, 2), (3, 1), (5, 0), (3, 1)]"]
  by auto

subsection \<open>Validity\<close>

definition crdt_ok :: "crdt \<Rightarrow> bool" where
  "crdt_ok c \<longleftrightarrow> crdt_modulus c \<noteq> 0 \<and> distinct (map fst (crdt_topics c))
    \<and> (\<forall>(h, s) \<in> set (crdt_topics c). LAGEMin \<le> ts_log_age s \<and> ts_log_age s \<le> LAGEMax
         \<and> (ts_pinned s \<longrightarrow> is_pinned (ts_evictions s) \<and> NOT (ts_evictions s) = ts_pinned_sid s))"

lemma entry_valid_iff:
  "crdt_modulus c \<noteq> 0 \<Longrightarrow> crdt_entry_valid c h s = Inr (LAGEMin \<le> ts_log_age s \<and> ts_log_age s \<le> LAGEMax
     \<and> (ts_pinned s \<longrightarrow> is_pinned (ts_evictions s) \<and> NOT (ts_evictions s) = ts_pinned_sid s))"
  by (auto simp: crdt_entry_valid_def crdt_compute_subject_id_def is_pinned_def compute_subject_id_def Let_def)

lemma validate_loop_iff:
  "crdt_modulus c \<noteq> 0 \<Longrightarrow> crdt_validate_loop c xs = Inr (\<forall>(h, s) \<in> set xs. LAGEMin \<le> ts_log_age s \<and> ts_log_age s \<le> LAGEMax
     \<and> (ts_pinned s \<longrightarrow> is_pinned (ts_evictions s) \<and> NOT (ts_evictions s) = ts_pinned_sid s))"
  by (induction xs) (auto simp: entry_valid_iff)

lemma crdt_ok_validate: "crdt_ok c \<Longrightarrow> crdt_validate c = Inr True"
  by (simp add: crdt_ok_def crdt_validate_def validate_loop_iff)

lemma set_update_subset: "set (AList.update k v xs) \<subseteq> insert (k, v) (set xs)"
  by (induction xs) auto

lemma crdt_ok_put:
  assumes "crdt_ok c" "LAGEMin \<le> ts_log_age s" "ts_log_age s \<le> LAGEMax"
    and "ts_pinned s \<longrightarrow> is_pinned (ts_evictions s) \<and> NOT (ts_evictions s) = ts_pinned_sid s"
  shows "crdt_ok (crdt_put c h s)"
proof -
  have "set (AList.update h s (crdt_topics c)) \<subseteq> insert (h, s) (set (crdt_topics c))"
    by (rule set_update_subset)
  then show ?thesis using assms by (auto simp: crdt_ok_def crdt_put_def distinct_update)
qed

lemma crdt_ok_get:
  "crdt_ok c \<Longrightarrow> crdt_get_topic c h = Some s \<Longrightarrow> LAGEMin \<le> ts_log_age s \<and> ts_log_age s \<le> LAGEMax
     \<and> (ts_pinned s \<longrightarrow> is_pinned (ts_evictions s) \<and> NOT (ts_evictions s) = ts_pinned_sid s)"
  by (auto simp: crdt_ok_def crdt_get_topic_def dest!: map_of_SomeD)

lemma crdt_ok_filter:
  "crdt_ok c \<Longrightarrow> crdt_ok (c\<lparr>crdt_topics := filter P (crdt_topics c)\<rparr>)"
  by (auto simp: crdt_ok_def distinct_map_filter)

lemma pinned_evictions: "(sid :: u32) \<le> subject_id_pinned_max \<Longrightarrow> is_pinned (NOT sid)"
proof -
  assume "sid \<le> subject_id_pinned_max"
  then have "unat sid \<le> 8191" by (simp add: word_le_nat_alt pinned_max_unat)
  moreover have "unat (NOT sid) = 4294967295 - unat sid"
  proof -
    have "NOT sid = -1 - sid" by (simp add: not_eq_complement)
    moreover have "unat (-1 - sid) = unat (-1 :: u32) - unat sid" by (rule unat_sub) simp
    moreover have "unat (-1 :: u32) = 4294967295" by (simp add: unsigned_minus_1_eq_mask mask_eq_exp_minus_1)
    ultimately show ?thesis by metis
  qed
  ultimately show ?thesis by (simp add: is_pinned_def word_le_nat_alt evictions_pinned_min_unat)
qed

text \<open>The uses of the store that keep it valid: a merge or an eviction only of a topic that is not pinned.\<close>

inductive crdt_step :: "crdt \<Rightarrow> crdt \<Rightarrow> bool" where
  step_add: "crdt_step c (fst (crdt_add_topic c name h))"
| step_add_pinned: "sid \<le> subject_id_pinned_max \<Longrightarrow> crdt_step c (fst (crdt_add_pinned_topic c name h sid))"
| step_merge: "\<not> crdt_is_pinned c h \<Longrightarrow> LAGEMin \<le> l \<Longrightarrow> l \<le> LAGEMax \<Longrightarrow> crdt_step c (fst (crdt_merge c h l e))"
| step_increment: "\<not> crdt_is_pinned c h \<Longrightarrow> crdt_step c (crdt_increment_evictions c h)"
| step_update_age: "LAGEMin \<le> l \<Longrightarrow> l \<le> LAGEMax \<Longrightarrow> crdt_step c (crdt_update_log_age c h l)"
| step_remove: "crdt_step c (crdt_remove_topic c h)"
| step_age: "crdt_step c (crdt_increment_log_age c)"
| step_cleanup: "crdt_step c (crdt_cleanup c)"
| step_mark: "crdt_step c (crdt_mark_for_gossip c h)"
| step_take: "crdt_step c (fst (crdt_get_pending_gossip c))"
| step_reset: "crdt_step c (crdt_reset c)"

inductive_cases crdt_stepE: "crdt_step c c'"

lemma crdt_step_ok: "crdt_step c c' \<Longrightarrow> crdt_ok c \<Longrightarrow> crdt_ok c'"
proof (induction rule: crdt_step.induct)
  case (step_add c name h)
  then show ?case
    by (auto simp: crdt_add_topic_def new_topic_state_def LAGEMin_def LAGEMax_def Let_def
        intro!: crdt_ok_put split: option.split)
next
  case (step_add_pinned sid c name h)
  then show ?case
    by (auto simp: crdt_add_pinned_topic_def new_pinned_topic_state_def LAGEMin_def LAGEMax_def Let_def pinned_evictions
        intro!: crdt_ok_put)
next
  case (step_merge c h l e)
  then show ?case
    by (auto simp: crdt_merge_def crdt_is_pinned_def intro!: crdt_ok_put dest: crdt_ok_get split: option.splits)
next
  case (step_increment c h)
  then show ?case
    by (auto simp: crdt_increment_evictions_def crdt_is_pinned_def LAGEMin_def LAGEMax_def intro!: crdt_ok_put
        dest: crdt_ok_get split: option.splits)
next
  case (step_update_age l c h)
  then show ?case
    by (auto simp: crdt_update_log_age_def intro!: crdt_ok_put dest: crdt_ok_get split: option.splits)
next
  case (step_remove c h)
  have "AList.delete h (crdt_topics c) = filter (\<lambda>(k, _). k \<noteq> h) (crdt_topics c)"
    by (simp add: AList.delete_eq eq_commute)
  then show ?case using crdt_ok_filter [OF step_remove] by (simp add: crdt_remove_topic_def)
next
  case (step_age c)
  then show ?case
    by (auto simp: crdt_increment_log_age_def crdt_ok_def o_def case_prod_unfold)
next
  case (step_cleanup c)
  then show ?case unfolding crdt_cleanup_def by (rule crdt_ok_filter)
qed (auto simp: crdt_ok_def crdt_mark_for_gossip_def crdt_get_pending_gossip_def crdt_reset_def)

lemma crdt_reachable_ok: "crdt_step\<^sup>*\<^sup>* (new_crdt m) c \<Longrightarrow> m \<noteq> 0 \<Longrightarrow> crdt_ok c"
  by (induction rule: rtranclp_induct) (auto simp: new_crdt_def crdt_ok_def [of "\<lparr>crdt_topics = [], crdt_modulus = m, crdt_last_gossip_time = 0, crdt_pending = []\<rparr>"] intro: crdt_step_ok)



end
