(* ===== verification/CyAlloc.thy ===== *)
theory CyAlloc
  imports CyCrdt CyPattern CyDedup CyMessage
begin

text \<open>
  Topics and the allocation of their subject identifiers: \<open>cy/topic.go\<close>, the consensus part of
  \<open>cy/cy.go\<close> and the scheduling part of \<open>cy/gossip.go\<close>.

  A topic is an object in a heap, addressed by a number; the indexes of the node map to addresses; the one by
  name, whose entries are traversed, is a list of entries with different names. The
  platform is a record of functions that thread an environment: creating a subject reader may fail,
  and a reader is configured for the subject identifier it was created with. A task given to
  the scheduler is logged with its time. The hash function (the package rapidhash) is a parameter.
  The locks are left out: every operation runs while the instance's lock is held.
\<close>

subsection \<open>The state\<close>

record topic =
  t_name :: string
  t_hash :: u64
  t_sid :: u32
  t_pinned :: bool
  t_pinned_sid :: u32
  t_ts_origin :: microsecond
  t_log_age :: lage
  t_evictions :: u32
  t_reader :: "u32 option"
  t_gossip_counter :: u64
  t_extent :: int
  t_refcount :: int
  t_dedup :: dedup_map

datatype cy_task = UrgentGossip nat | PeriodicGossip nat

record 'e cy =
  cy_topic :: "nat \<Rightarrow> topic"
  cy_next :: nat
  cy_by_name :: "(string \<times> nat) list"
  cy_by_hash :: "u64 \<rightharpoonup> nat"
  cy_by_sid :: "u32 \<rightharpoonup> nat"
  cy_modulus :: u32
  cy_broadcast :: u32
  cy_broad_writer :: "u32 option"
  cy_broadcast_ratio :: u8
  cy_shard_count :: u32
  cy_pending :: "nat list"
  cy_gossip_period :: microsecond
  cy_urgent_delay_max :: microsecond
  cy_tasks :: "(microsecond \<times> cy_task) list"
  cy_crdt :: crdt
  cy_patterns :: matcher
  cy_reallocated :: "(nat \<times> u32 \<times> u32) list"
  cy_env :: 'e

record 'e cy_platform =
  cp_now :: "'e \<Rightarrow> microsecond"
  cp_new_reader :: "u32 \<Rightarrow> int \<Rightarrow> 'e \<Rightarrow> 'e \<times> bool"
  cp_destroy_reader :: "u32 \<Rightarrow> 'e \<Rightarrow> 'e"
  cp_send :: "u32 \<Rightarrow> microsecond \<Rightarrow> u8 \<Rightarrow> bytes \<Rightarrow> 'e \<Rightarrow> 'e \<times> cy_error option"

definition upd_topic :: "nat \<Rightarrow> (topic \<Rightarrow> topic) \<Rightarrow> 'e cy \<Rightarrow> 'e cy" where
  "upd_topic a f s = s\<lparr>cy_topic := (cy_topic s)(a := f (cy_topic s a))\<rparr>"

subsection \<open>The age of a topic\<close>

definition topic_lage :: "topic \<Rightarrow> microsecond \<Rightarrow> lage" where
  "topic_lage t now =
    (let age = now - t_ts_origin t;
         age = (if age <s 0 then 0 else age)
     in log2_floor (age div MEGA))"

definition set_origin_at :: "topic \<Rightarrow> microsecond \<Rightarrow> lage \<Rightarrow> u32 \<Rightarrow> topic" where
  "set_origin_at t now l evictions =
    (let t = t\<lparr>t_evictions := evictions, t_ts_origin := now - lage_to_us l\<rparr>
     in t\<lparr>t_log_age := topic_lage t now\<rparr>)"

definition merge_lage_at :: "topic \<Rightarrow> microsecond \<Rightarrow> lage \<Rightarrow> topic" where
  "merge_lage_at t now r_lage =
    (let other_origin = now - lage_to_us r_lage;
         t = (if other_origin <s t_ts_origin t then t\<lparr>t_ts_origin := other_origin\<rparr> else t)
     in t\<lparr>t_log_age := topic_lage t now\<rparr>)"

text \<open>The topic after the update, and the results \<open>merged\<close> and \<open>win\<close>.\<close>

definition update_state :: "topic \<Rightarrow> microsecond \<Rightarrow> lage \<Rightarrow> u32 \<Rightarrow> topic \<times> bool \<times> bool" where
  "update_state t now other_log_age other_evictions =
    (let mine_lage = topic_lage t now;
         t = merge_lage_at t now other_log_age
     in if t_evictions t \<noteq> other_evictions
        then (t, True, mine_lage > other_log_age \<or> mine_lage = other_log_age \<and> t_evictions t > other_evictions)
        else (t, True, False))"

definition left_wins :: "topic \<Rightarrow> microsecond \<Rightarrow> lage \<Rightarrow> u64 \<Rightarrow> bool" where
  "left_wins left now r_lage r_hash =
    (let l_lage = topic_lage left now
     in if l_lage \<noteq> r_lage then l_lage > r_lage else t_hash left < r_hash)"

subsection \<open>Gossip scheduling and readers\<close>

definition gossip_add_topic :: "nat \<Rightarrow> 'e cy \<Rightarrow> 'e cy" where
  "gossip_add_topic a s = (if a \<in> set (cy_pending s) then s else s\<lparr>cy_pending := cy_pending s @ [a]\<rparr>)"

definition schedule_urgent :: "'e cy_platform \<Rightarrow> nat \<Rightarrow> 'e cy \<Rightarrow> 'e cy" where
  "schedule_urgent p a s =
    (let s = gossip_add_topic a s;
         s = upd_topic a (\<lambda>t. t\<lparr>t_gossip_counter := 0\<rparr>) s;
         at = cp_now p (cy_env s) + cy_urgent_delay_max s
     in s\<lparr>cy_tasks := cy_tasks s @ [(at, UrgentGossip a)]\<rparr>)"

definition schedule_periodic :: "'e cy_platform \<Rightarrow> nat \<Rightarrow> bool \<Rightarrow> 'e cy \<Rightarrow> 'e cy" where
  "schedule_periodic p a suppressed s =
    (let s = gossip_add_topic a s;
         dither = gossip_period div 8;
         delay = (if suppressed then cy_gossip_period s + dither else cy_gossip_period s - dither);
         at = cp_now p (cy_env s) + delay
     in s\<lparr>cy_tasks := cy_tasks s @ [(at, PeriodicGossip a)]\<rparr>)"

definition drop_reader :: "'e cy_platform \<Rightarrow> nat \<Rightarrow> 'e cy \<Rightarrow> 'e cy" where
  "drop_reader p a s =
    (case t_reader (cy_topic s a) of
       None \<Rightarrow> s
     | Some r \<Rightarrow> upd_topic a (\<lambda>t. t\<lparr>t_reader := None\<rparr>) (s\<lparr>cy_env := cp_destroy_reader p r (cy_env s)\<rparr>))"

definition resync_topic_reader :: "'e cy_platform \<Rightarrow> nat \<Rightarrow> 'e cy \<Rightarrow> 'e cy" where
  "resync_topic_reader p a s =
    (if t_reader (cy_topic s a) = Some (t_sid (cy_topic s a)) then s
     else
       let s = drop_reader p a s;
           t = cy_topic s a;
           (e, ok) = cp_new_reader p (t_sid t) (t_extent t) (cy_env s);
           s = s\<lparr>cy_env := e\<rparr>
       in if ok then upd_topic a (\<lambda>t. t\<lparr>t_reader := Some (t_sid t)\<rparr>) s else s)"

subsection \<open>Allocation\<close>

text \<open>The branch of pinned topics.\<close>

definition allocate_pinned :: "'e cy_platform \<Rightarrow> nat \<Rightarrow> u32 \<Rightarrow> 'e cy \<Rightarrow> 'e cy" where
  "allocate_pinned p a new_evictions s =
    (let s = drop_reader p a s;
         s = upd_topic a (\<lambda>t. t\<lparr>t_evictions := new_evictions, t_pinned := True, t_sid := NOT new_evictions\<rparr>) s;
         s = resync_topic_reader p a s;
         s = schedule_urgent p a s
     in s\<lparr>cy_reallocated := cy_reallocated s @ [(a, t_sid (cy_topic s a), t_evictions (cy_topic s a))]\<rparr>)"

text \<open>Taking a subject identifier, after a victory.\<close>

definition allocate_claim :: "'e cy_platform \<Rightarrow> nat \<Rightarrow> u32 \<Rightarrow> u32 \<Rightarrow> nat option \<Rightarrow> 'e cy \<Rightarrow> 'e cy" where
  "allocate_claim p a new_evictions new_sid that s =
    (let same_subject = (new_sid = t_sid (cy_topic s a));
         s = (if \<not> same_subject \<and> t_reader (cy_topic s a) = Some (t_sid (cy_topic s a)) then drop_reader p a s else s);
         s = (if that \<noteq> None then s\<lparr>cy_by_sid := (cy_by_sid s)(new_sid := None)\<rparr> else s);
         s = upd_topic a (\<lambda>t. t\<lparr>t_evictions := new_evictions, t_pinned := False, t_sid := new_sid\<rparr>) s;
         s = s\<lparr>cy_by_sid := (cy_by_sid s)(new_sid \<mapsto> a)\<rparr>;
         s = resync_topic_reader p a s;
         s = schedule_urgent p a s
     in s\<lparr>cy_reallocated := cy_reallocated s @ [(a, t_sid (cy_topic s a), t_evictions (cy_topic s a))]\<rparr>)"

text \<open>\<open>that\<close>: the other topic that occupies a subject identifier.\<close>

definition occupant :: "'e cy \<Rightarrow> nat \<Rightarrow> u32 \<Rightarrow> nat option" where
  "occupant s a sid = (case cy_by_sid s sid of None \<Rightarrow> None | Some b \<Rightarrow> if b = a then None else Some b)"

definition victory :: "'e cy \<Rightarrow> nat \<Rightarrow> microsecond \<Rightarrow> nat option \<Rightarrow> bool" where
  "victory s a now that =
    (case that of None \<Rightarrow> True
     | Some b \<Rightarrow> left_wins (cy_topic s a) now (topic_lage (cy_topic s b) now) (t_hash (cy_topic s b)))"

definition unindex :: "nat \<Rightarrow> 'e cy \<Rightarrow> 'e cy" where
  "unindex a s =
    (if \<not> t_pinned (cy_topic s a) then s\<lparr>cy_by_sid := (cy_by_sid s)(t_sid (cy_topic s a) := None)\<rparr> else s)"

text \<open>
  The rank of a topic in an arbitration: the smaller one wins. It does not change during an allocation, and
  bounds the recursion: every topic that is evicted has a greater rank than the one that evicts it.
\<close>

definition rank :: "topic \<Rightarrow> microsecond \<Rightarrow> nat" where
  "rank t now = nat (63 - topic_lage t now) * 2 ^ 64 + unat (t_hash t)"

definition rank_bound :: nat where "rank_bound = 65 * 2 ^ 64"

lemma topic_lage_range: "-1 \<le> topic_lage t now \<and> topic_lage t now \<le> 63"
  using log2_floor_range by (simp add: topic_lage_def Let_def)

lemma rank_less_bound: "rank t now < rank_bound"
proof -
  have "nat (63 - topic_lage t now) \<le> 64" using topic_lage_range [of t now] by (simp add: nat_le_iff)
  then have "nat (63 - topic_lage t now) * 2 ^ 64 \<le> 64 * 2 ^ 64" by (rule mult_le_mono1)
  moreover have "unat (t_hash t) < 2 ^ 64" using unsigned_less [where 'a = nat and w = "t_hash t"] by simp
  ultimately show ?thesis by (simp add: rank_def rank_bound_def)
qed

lemma left_wins_rank:
  "left_wins l now (topic_lage r now) (t_hash r) \<longleftrightarrow> rank l now < rank r now"
proof -
  have h: "unat (t_hash l) < 2 ^ 64" "unat (t_hash r) < 2 ^ 64"
    using unsigned_less [where 'a = nat and w = "t_hash l"] unsigned_less [where 'a = nat and w = "t_hash r"] by simp_all
  define x where "x = nat (63 - topic_lage l now)"
  define y where "y = nat (63 - topic_lage r now)"
  have c: "topic_lage r now < topic_lage l now \<longleftrightarrow> x < y" "topic_lage l now = topic_lage r now \<longleftrightarrow> x = y"
    using topic_lage_range [of l now] topic_lage_range [of r now] by (auto simp: x_def y_def)
  have "x < y \<Longrightarrow> x * 2 ^ 64 + unat (t_hash l) < y * 2 ^ 64 + unat (t_hash r)"
  proof -
    assume "x < y"
    then have "(x + 1) * 2 ^ 64 \<le> y * 2 ^ 64" by (intro mult_le_mono1) simp
    with h show ?thesis by simp
  qed
  moreover have "y < x \<Longrightarrow> y * 2 ^ 64 + unat (t_hash r) < x * 2 ^ 64 + unat (t_hash l)"
  proof -
    assume "y < x"
    then have "(y + 1) * 2 ^ 64 \<le> x * 2 ^ 64" by (intro mult_le_mono1) simp
    with h show ?thesis by simp
  qed
  ultimately have r: "x * 2 ^ 64 + unat (t_hash l) < y * 2 ^ 64 + unat (t_hash r)
      \<longleftrightarrow> x < y \<or> x = y \<and> unat (t_hash l) < unat (t_hash r)"
    by (cases x y rule: linorder_cases) auto
  show ?thesis
    unfolding left_wins_def Let_def rank_def x_def [symmetric] y_def [symmetric] r word_less_nat_alt [symmetric]
    using c by auto
qed

lemma rank_cong: "t_ts_origin t = t_ts_origin t' \<Longrightarrow> t_hash t = t_hash t' \<Longrightarrow> rank t now = rank t' now"
  by (simp add: rank_def topic_lage_def)

text \<open>What the helpers leave alone.\<close>

definition same_identity :: "topic \<Rightarrow> topic \<Rightarrow> bool" where
  "same_identity t t' \<longleftrightarrow> t_ts_origin t' = t_ts_origin t \<and> t_hash t' = t_hash t \<and> t_name t' = t_name t
    \<and> t_extent t' = t_extent t \<and> t_pinned_sid t' = t_pinned_sid t \<and> t_log_age t' = t_log_age t
    \<and> t_dedup t' = t_dedup t"

lemma same_identity_refl [simp]: "same_identity t t" by (simp add: same_identity_def)

lemma same_identity_trans: "same_identity t t' \<Longrightarrow> same_identity t' t'' \<Longrightarrow> same_identity t t''"
  by (simp add: same_identity_def)

lemma same_identity_rank: "same_identity t t' \<Longrightarrow> rank t' now = rank t now"
  by (intro rank_cong) (simp_all add: same_identity_def)

definition alloc_fields :: "topic \<Rightarrow> u32 \<times> u32 \<times> bool" where
  "alloc_fields t = (t_sid t, t_evictions t, t_pinned t)"

definition quiet :: "nat \<Rightarrow> 'e cy \<Rightarrow> 'e cy \<Rightarrow> bool" where
  "quiet a s s' \<longleftrightarrow> cy_by_sid s' = cy_by_sid s \<and> cy_by_hash s' = cy_by_hash s \<and> cy_by_name s' = cy_by_name s
    \<and> cy_modulus s' = cy_modulus s \<and> cy_next s' = cy_next s \<and> cy_broadcast s' = cy_broadcast s
    \<and> cy_crdt s' = cy_crdt s \<and> cy_patterns s' = cy_patterns s
    \<and> (\<forall>b. b \<noteq> a \<longrightarrow> cy_topic s' b = cy_topic s b)
    \<and> same_identity (cy_topic s a) (cy_topic s' a) \<and> alloc_fields (cy_topic s' a) = alloc_fields (cy_topic s a)"

lemma quiet_refl [simp]: "quiet a s s" by (simp add: quiet_def)

lemma quiet_trans: "quiet a s s' \<Longrightarrow> quiet a s' s'' \<Longrightarrow> quiet a s s''"
  by (auto simp: quiet_def intro: same_identity_trans)

lemma quiet_drop_reader: "quiet a s (drop_reader p a s)"
  by (auto simp: quiet_def drop_reader_def upd_topic_def same_identity_def alloc_fields_def split: option.split)

lemma quiet_upd: "(\<And>t. same_identity t (f t)) \<Longrightarrow> (\<And>t. alloc_fields (f t) = alloc_fields t) \<Longrightarrow> quiet a s (upd_topic a f s)"
  by (simp add: quiet_def upd_topic_def)

lemma quiet_env: "quiet a s s' \<Longrightarrow> quiet a s (s'\<lparr>cy_env := e\<rparr>)"
  by (simp add: quiet_def)

lemma quiet_resync: "quiet a s (resync_topic_reader p a s)"
proof (cases "t_reader (cy_topic s a) = Some (t_sid (cy_topic s a))")
  case False
  let ?s1 = "drop_reader p a s"
  obtain e ok where n: "cp_new_reader p (t_sid (cy_topic ?s1 a)) (t_extent (cy_topic ?s1 a)) (cy_env ?s1) = (e, ok)" by fastforce
  have 1: "quiet a s (?s1\<lparr>cy_env := e\<rparr>)" by (rule quiet_env) (rule quiet_drop_reader)
  have "quiet a (?s1\<lparr>cy_env := e\<rparr>) (upd_topic a (\<lambda>t. t\<lparr>t_reader := Some (t_sid t)\<rparr>) (?s1\<lparr>cy_env := e\<rparr>))"
    by (rule quiet_upd) (simp_all add: same_identity_def alloc_fields_def)
  from quiet_trans [OF 1 this] 1 show ?thesis using False n by (simp add: resync_topic_reader_def Let_def)
qed (simp add: resync_topic_reader_def)

lemma quiet_schedule_urgent: "quiet a s (schedule_urgent p a s)"
  by (auto simp: quiet_def schedule_urgent_def gossip_add_topic_def upd_topic_def same_identity_def alloc_fields_def Let_def)

lemma quiet_schedule_periodic: "quiet a s (schedule_periodic p a b s)"
  by (auto simp: quiet_def schedule_periodic_def gossip_add_topic_def Let_def)

lemma quiet_reallocated: "quiet a s s' \<Longrightarrow> quiet a s (s'\<lparr>cy_reallocated := d\<rparr>)"
  by (simp add: quiet_def)

text \<open>A claim, up to what is quiet.\<close>

lemma claim_effect:
  "quiet a (upd_topic a (\<lambda>t. t\<lparr>t_evictions := ev, t_pinned := False, t_sid := sid\<rparr>) (s\<lparr>cy_by_sid := (cy_by_sid s)(sid \<mapsto> a)\<rparr>))
     (allocate_claim p a ev sid that s)"
proof -
  define s1 where "s1 = (if sid \<noteq> t_sid (cy_topic s a) \<and> t_reader (cy_topic s a) = Some (t_sid (cy_topic s a)) then drop_reader p a s else s)"
  have q1: "quiet a s s1" using quiet_drop_reader by (auto simp: s1_def)
  define s2 where "s2 = (if that \<noteq> None then s1\<lparr>cy_by_sid := (cy_by_sid s1)(sid := None)\<rparr> else s1)"
  define s3 where "s3 = upd_topic a (\<lambda>t. t\<lparr>t_evictions := ev, t_pinned := False, t_sid := sid\<rparr>) s2"
  define s4 where "s4 = s3\<lparr>cy_by_sid := (cy_by_sid s3)(sid \<mapsto> a)\<rparr>"
  have q4: "quiet a (upd_topic a (\<lambda>t. t\<lparr>t_evictions := ev, t_pinned := False, t_sid := sid\<rparr>) (s\<lparr>cy_by_sid := (cy_by_sid s)(sid \<mapsto> a)\<rparr>)) s4"
    using q1 by (auto simp: quiet_def s4_def s3_def s2_def upd_topic_def same_identity_def alloc_fields_def fun_eq_iff)
  have "quiet a s4 (schedule_urgent p a (resync_topic_reader p a s4))"
    using quiet_trans [OF quiet_resync quiet_schedule_urgent] .
  from quiet_reallocated [OF quiet_trans [OF q4 this]] show ?thesis
    unfolding allocate_claim_def Let_def s1_def [symmetric] s2_def [symmetric] s3_def [symmetric] s4_def [symmetric] .
qed

lemma pinned_effect:
  "quiet a (upd_topic a (\<lambda>t. t\<lparr>t_evictions := ev, t_pinned := True, t_sid := NOT ev\<rparr>) s) (allocate_pinned p a ev s)"
proof -
  define s1 where "s1 = drop_reader p a s"
  define s2 where "s2 = upd_topic a (\<lambda>t. t\<lparr>t_evictions := ev, t_pinned := True, t_sid := NOT ev\<rparr>) s1"
  have q: "quiet a (upd_topic a (\<lambda>t. t\<lparr>t_evictions := ev, t_pinned := True, t_sid := NOT ev\<rparr>) s) s2"
    using quiet_drop_reader [of a s p] by (auto simp: quiet_def s2_def s1_def upd_topic_def same_identity_def alloc_fields_def)
  have "quiet a s2 (schedule_urgent p a (resync_topic_reader p a s2))"
    using quiet_trans [OF quiet_resync quiet_schedule_urgent] .
  from quiet_reallocated [OF quiet_trans [OF q this]] show ?thesis
    unfolding allocate_pinned_def Let_def s1_def [symmetric] s2_def [symmetric] .
qed

lemma unindex_topics [simp]: "cy_topic (unindex a s) = cy_topic s" "cy_modulus (unindex a s) = cy_modulus s"
  "cy_by_hash (unindex a s) = cy_by_hash s" "cy_by_name (unindex a s) = cy_by_name s"
  by (simp_all add: unindex_def)

lemma occupant_ne: "occupant s a sid = Some b \<Longrightarrow> b \<noteq> a \<and> cy_by_sid s sid = Some b"
  by (auto simp: occupant_def split: option.splits if_splits)

lemma claim_rank:
  "rank (cy_topic (drop_reader p b (allocate_claim p a ev sid that s)) c) now = rank (cy_topic s c) now"
proof -
  have r1: "rank (cy_topic (drop_reader p b s') c) now = rank (cy_topic s' c) now" for s' :: "'a cy"
    using quiet_drop_reader [of b s' p] same_identity_rank by (cases "c = b") (auto simp: quiet_def)
  have "rank (cy_topic (allocate_claim p a ev sid that s) c) now = rank (cy_topic s c) now"
  proof (cases "c = a")
    case True
    have "same_identity (cy_topic s a) (cy_topic (allocate_claim p a ev sid that s) a)"
      using claim_effect [of a sid ev s p that] by (simp add: quiet_def upd_topic_def same_identity_def)
    with True show ?thesis by (simp add: same_identity_rank)
  next
    case False
    with claim_effect [of a sid ev s p that] show ?thesis by (simp add: quiet_def upd_topic_def)
  qed
  with r1 show ?thesis by simp
qed

function topic_allocate :: "'e cy_platform \<Rightarrow> nat \<Rightarrow> u32 \<Rightarrow> microsecond \<Rightarrow> 'e cy \<Rightarrow> go_panic + 'e cy" where
  "topic_allocate p a new_evictions now s0 =
    (let s = unindex a s0
     in if is_pinned new_evictions then Inr (allocate_pinned p a new_evictions s)
        else (case compute_subject_id (t_hash (cy_topic s a)) new_evictions (cy_modulus s) of
          Inl e \<Rightarrow> Inl e
        | Inr new_sid \<Rightarrow>
            let that = occupant s a new_sid
            in if victory s a now that then
                 let s1 = allocate_claim p a new_evictions new_sid that s
                 in (case that of
                       None \<Rightarrow> Inr s1
                     | Some b \<Rightarrow>
                         let s2 = drop_reader p b s1
                         in topic_allocate p b (t_evictions (cy_topic s2 b) + 1) now s2)
               else topic_allocate p a (new_evictions + 1) now s))"
  by pat_completeness auto
termination
proof (relation "measures [\<lambda>(p, a, ev, now, s). rank_bound - rank (cy_topic s a) now, \<lambda>(p, a, ev, now, s). 2 ^ 32 - unat ev]")
  show "wf (measures [\<lambda>(p, a, ev, now, s). rank_bound - rank (cy_topic s a) now, \<lambda>(p, a, ev, now, s). 2 ^ 32 - unat ev])"
    by simp
next
  fix p :: "'e cy_platform" and a ev now and s0 s :: "'e cy" and sid that s1 b s2
  assume a: "s = unindex a s0" "that = occupant s a sid" "victory s a now that"
    "s1 = allocate_claim p a ev sid that s" "that = Some b" "s2 = drop_reader p b s1"
  from a(3, 5) have "rank (cy_topic s a) now < rank (cy_topic s b) now"
    by (simp add: victory_def left_wins_rank)
  moreover have "rank (cy_topic s2 b) now = rank (cy_topic s b) now" unfolding a(6, 4) by (rule claim_rank)
  moreover have "cy_topic s a = cy_topic s0 a" using a(1) by simp
  ultimately show "((p, b, t_evictions (cy_topic s2 b) + 1, now, s2), p, a, ev, now, s0)
      \<in> measures [\<lambda>(p, a, ev, now, s). rank_bound - rank (cy_topic s a) now, \<lambda>(p, a, ev, now, s). 2 ^ 32 - unat ev]"
    using rank_less_bound [of "cy_topic s b" now] diff_less_mono2 [of "rank (cy_topic s0 a) now" "rank (cy_topic s b) now" rank_bound]
    by simp
next
  fix p :: "'e cy_platform" and a ev now and s0 s :: "'e cy"
  assume a: "s = unindex a s0" "\<not> is_pinned ev"
  then have "unat (ev + 1) = unat ev + 1"
    by (simp add: is_pinned_def word_le_nat_alt evictions_pinned_min_unat unat_word_ariths)
  with a show "((p, a, ev + 1, now, s), p, a, ev, now, s0)
      \<in> measures [\<lambda>(p, a, ev, now, s). rank_bound - rank (cy_topic s a) now, \<lambda>(p, a, ev, now, s). 2 ^ 32 - unat ev]"
    using unsigned_less [where 'a = nat and w = "ev + 1"] by simp
qed

declare topic_allocate.simps [simp del]

end
