(* ===== verification/CyAllocSpec.thy ===== *)
theory CyAllocSpec
  imports CyAlloc
begin

text \<open>
  What the allocation of subject identifiers guarantees: it ends, it never panics for a valid modulus, the
  index by subject identifier stays sound, topics that outrank the allocated one are left alone, and the topic
  takes the first eviction counter whose identifier no topic that outranks it occupies.
\<close>

subsection \<open>The index\<close>

definition idx_sound :: "'e cy \<Rightarrow> bool" where
  "idx_sound s \<longleftrightarrow> (\<forall>sid a. cy_by_sid s sid = Some a \<longrightarrow>
     \<not> t_pinned (cy_topic s a) \<and> t_sid (cy_topic s a) = sid \<and> \<not> is_pinned (t_evictions (cy_topic s a))
     \<and> compute_subject_id (t_hash (cy_topic s a)) (t_evictions (cy_topic s a)) (cy_modulus s) = Inr sid)"

text \<open>A counter is blocked for a topic when another one that it does not defeat occupies the identifier.\<close>

definition blocked :: "'e cy \<Rightarrow> nat \<Rightarrow> microsecond \<Rightarrow> u32 \<Rightarrow> bool" where
  "blocked s a now e \<longleftrightarrow> (\<exists>sid b. compute_subject_id (t_hash (cy_topic s a)) e (cy_modulus s) = Inr sid
     \<and> cy_by_sid s sid = Some b \<and> b \<noteq> a \<and> rank (cy_topic s b) now \<le> rank (cy_topic s a) now)"

definition first_free :: "'e cy \<Rightarrow> nat \<Rightarrow> microsecond \<Rightarrow> u32 \<Rightarrow> u32 \<Rightarrow> bool" where
  "first_free s a now ev e \<longleftrightarrow> unat ev \<le> unat e
     \<and> (\<forall>e'. unat ev \<le> unat e' \<and> unat e' < unat e \<longrightarrow> \<not> is_pinned e' \<and> blocked s a now e')
     \<and> (is_pinned e \<or> \<not> blocked s a now e)"

lemma first_free_here: "is_pinned ev \<or> \<not> blocked s a now ev \<Longrightarrow> first_free s a now ev ev"
  unfolding first_free_def by (metis less_le_not_le order_refl)

text \<open>The fields of a topic that holds the identifier of a counter.\<close>

definition placed :: "'e cy \<Rightarrow> nat \<Rightarrow> u32 \<Rightarrow> bool" where
  "placed s a e \<longleftrightarrow> t_evictions (cy_topic s a) = e \<and> t_pinned (cy_topic s a) = is_pinned e
     \<and> (if is_pinned e then t_sid (cy_topic s a) = NOT e
        else compute_subject_id (t_hash (cy_topic s a)) e (cy_modulus s) = Inr (t_sid (cy_topic s a)))"

definition keeps :: "'e cy \<Rightarrow> 'e cy \<Rightarrow> bool" where
  "keeps s s' \<longleftrightarrow> cy_by_hash s' = cy_by_hash s \<and> cy_by_name s' = cy_by_name s \<and> cy_modulus s' = cy_modulus s
     \<and> cy_next s' = cy_next s \<and> cy_broadcast s' = cy_broadcast s \<and> cy_crdt s' = cy_crdt s \<and> cy_patterns s' = cy_patterns s
     \<and> (\<forall>b. same_identity (cy_topic s b) (cy_topic s' b))"

lemma keeps_refl [simp]: "keeps s s" by (simp add: keeps_def)

lemma keeps_trans: "keeps s s' \<Longrightarrow> keeps s' s'' \<Longrightarrow> keeps s s''"
  by (auto simp: keeps_def intro: same_identity_trans)

lemma keeps_rank: "keeps s s' \<Longrightarrow> rank (cy_topic s' b) now = rank (cy_topic s b) now"
  by (simp add: keeps_def same_identity_rank)

lemma quiet_keeps: "quiet a s s' \<Longrightarrow> keeps s s'"
  unfolding quiet_def keeps_def by (metis same_identity_refl)

lemma keeps_unindex [simp]: "keeps s (unindex a s)"
  by (simp add: keeps_def unindex_def)

lemma quiet_alloc_fields: "quiet a s s' \<Longrightarrow> alloc_fields (cy_topic s' b) = alloc_fields (cy_topic s b)"
  unfolding quiet_def by metis

lemma alloc_fieldsD: "alloc_fields t' = alloc_fields t \<Longrightarrow> t_sid t' = t_sid t \<and> t_evictions t' = t_evictions t \<and> t_pinned t' = t_pinned t"
  by (simp add: alloc_fields_def)

lemma idx_sound_cong:
  assumes "keeps s s'" "cy_by_sid s' = cy_by_sid s" "\<And>b. alloc_fields (cy_topic s' b) = alloc_fields (cy_topic s b)" "idx_sound s"
  shows "idx_sound s'"
  using assms unfolding idx_sound_def keeps_def same_identity_def alloc_fields_def by (metis prod.inject)

lemma quiet_idx_sound: "quiet a s s' \<Longrightarrow> idx_sound s \<Longrightarrow> idx_sound s'"
  using idx_sound_cong [of s s'] quiet_keeps quiet_alloc_fields by (metis quiet_def)

lemma unindex_removes: "idx_sound s \<Longrightarrow> cy_by_sid (unindex a s) sid \<noteq> Some a"
  by (auto simp: idx_sound_def unindex_def split: if_splits)

lemma unindex_sub: "cy_by_sid (unindex a s) sid = Some b \<Longrightarrow> cy_by_sid s sid = Some b"
  by (auto simp: unindex_def split: if_splits)

lemma unindex_sound: "idx_sound s \<Longrightarrow> idx_sound (unindex a s)"
  using unindex_sub [of a s] unfolding idx_sound_def by (metis unindex_topics(1, 2))

text \<open>A claim and a pinning, as updates of the state.\<close>

lemma claim_facts:
  fixes s :: "'e cy" and p a ev sid that b
  assumes "idx_sound s" "\<And>sid. cy_by_sid s sid \<noteq> Some a" "\<not> is_pinned ev"
    and "compute_subject_id (t_hash (cy_topic s a)) ev (cy_modulus s) = Inr sid"
  defines "s' \<equiv> allocate_claim p a ev sid that s"
  shows "idx_sound s'" "keeps s s'" "placed s' a ev" "cy_by_sid s' = (cy_by_sid s)(sid \<mapsto> a)"
    and "b \<noteq> a \<Longrightarrow> alloc_fields (cy_topic s' b) = alloc_fields (cy_topic s b)"
proof -
  let ?u = "upd_topic a (\<lambda>t. t\<lparr>t_evictions := ev, t_pinned := False, t_sid := sid\<rparr>) (s\<lparr>cy_by_sid := (cy_by_sid s)(sid \<mapsto> a)\<rparr>)"
  have q: "quiet a ?u s'" unfolding s'_def by (rule claim_effect)
  have k: "keeps s ?u" by (simp add: keeps_def upd_topic_def same_identity_def)
  show "keeps s s'" using keeps_trans [OF k quiet_keeps [OF q]] .
  show "cy_by_sid s' = (cy_by_sid s)(sid \<mapsto> a)" using q by (simp add: quiet_def upd_topic_def)
  show "b \<noteq> a \<Longrightarrow> alloc_fields (cy_topic s' b) = alloc_fields (cy_topic s b)"
    using quiet_alloc_fields [OF q, of b] by (simp add: upd_topic_def)
  have "idx_sound ?u" using assms(1-4) by (auto simp: idx_sound_def upd_topic_def)
  with q show "idx_sound s'" by (rule quiet_idx_sound)
  have "placed ?u a ev" using assms(3, 4) by (simp add: placed_def upd_topic_def)
  then show "placed s' a ev"
    using alloc_fieldsD [OF quiet_alloc_fields [OF q, of a]] quiet_keeps [OF q]
    by (simp add: placed_def keeps_def same_identity_def)
qed

lemma pinned_facts:
  fixes s :: "'e cy" and p a ev b
  assumes "idx_sound s" "\<And>sid. cy_by_sid s sid \<noteq> Some a" "is_pinned ev"
  defines "s' \<equiv> allocate_pinned p a ev s"
  shows "idx_sound s'" "keeps s s'" "placed s' a ev" "cy_by_sid s' = cy_by_sid s"
    and "b \<noteq> a \<Longrightarrow> alloc_fields (cy_topic s' b) = alloc_fields (cy_topic s b)"
proof -
  let ?u = "upd_topic a (\<lambda>t. t\<lparr>t_evictions := ev, t_pinned := True, t_sid := NOT ev\<rparr>) s"
  have q: "quiet a ?u s'" unfolding s'_def by (rule pinned_effect)
  have k: "keeps s ?u" by (simp add: keeps_def upd_topic_def same_identity_def)
  show "keeps s s'" using keeps_trans [OF k quiet_keeps [OF q]] .
  show "cy_by_sid s' = cy_by_sid s" using q by (simp add: quiet_def upd_topic_def)
  show "b \<noteq> a \<Longrightarrow> alloc_fields (cy_topic s' b) = alloc_fields (cy_topic s b)"
    using quiet_alloc_fields [OF q, of b] by (simp add: upd_topic_def)
  have "idx_sound ?u" using assms(1, 2) by (auto simp: idx_sound_def upd_topic_def)
  with q show "idx_sound s'" by (rule quiet_idx_sound)
  have "placed ?u a ev" using assms(3) by (simp add: placed_def upd_topic_def)
  then show "placed s' a ev"
    using alloc_fieldsD [OF quiet_alloc_fields [OF q, of a]] quiet_keeps [OF q]
    by (simp add: placed_def keeps_def same_identity_def)
qed

lemma placed_cong:
  "keeps s s' \<Longrightarrow> alloc_fields (cy_topic s' a) = alloc_fields (cy_topic s a) \<Longrightarrow> placed s a e \<Longrightarrow> placed s' a e"
  by (simp add: placed_def keeps_def same_identity_def alloc_fields_def)

subsection \<open>The allocation as a whole\<close>

definition alloc_post :: "'e cy \<Rightarrow> nat \<Rightarrow> microsecond \<Rightarrow> 'e cy \<Rightarrow> bool" where
  "alloc_post s a now s' \<longleftrightarrow> idx_sound s' \<and> keeps s s'
     \<and> (\<forall>b. b \<noteq> a \<and> rank (cy_topic s b) now \<le> rank (cy_topic s a) now \<longrightarrow>
          alloc_fields (cy_topic s' b) = alloc_fields (cy_topic s b)
          \<and> (\<forall>sid. cy_by_sid s' sid = Some b \<longrightarrow> cy_by_sid (unindex a s) sid = Some b))"

lemma blocked_unindex: "blocked (unindex a s) a now e \<Longrightarrow> blocked s a now e"
  using unindex_sub by (fastforce simp: blocked_def)

lemma blocked_unindex_iff: "idx_sound s \<Longrightarrow> blocked (unindex a s) a now e \<longleftrightarrow>
    blocked s a now e \<and> \<not> (\<not> t_pinned (cy_topic s a)
      \<and> compute_subject_id (t_hash (cy_topic s a)) e (cy_modulus s) = Inr (t_sid (cy_topic s a)))"
  by (auto simp: blocked_def unindex_def split: if_splits)

lemma unindex_twice: "unindex a (unindex a s) = unindex a s"
  by (auto simp: unindex_def)

lemma victory_iff:
  assumes "compute_subject_id (t_hash (cy_topic s a)) e (cy_modulus s) = Inr sid"
  shows "victory s a now (occupant s a sid) \<longleftrightarrow> \<not> blocked s a now e"
  using assms by (auto simp: victory_def occupant_def blocked_def left_wins_rank split: option.splits if_splits)

lemma allocate_spec:
  assumes "is_valid_subject_id_modulus (cy_modulus s)" "idx_sound s"
  shows "\<exists>s' e. topic_allocate p a ev now s = Inr s' \<and> alloc_post s a now s'
    \<and> first_free (unindex a s) a now ev e \<and> placed s' a e"
  using assms
proof (induction p a ev now s rule: topic_allocate.induct)
  case (1 p a ev now s0)
  define s where "s = unindex a s0"
  have sound: "idx_sound s" unfolding s_def by (rule unindex_sound [OF "1.prems"(2)])
  have none: "cy_by_sid s sid \<noteq> Some a" for sid unfolding s_def by (rule unindex_removes [OF "1.prems"(2)])
  have ks: "keeps s0 s" and same: "cy_topic s = cy_topic s0" "cy_modulus s = cy_modulus s0" by (simp_all add: s_def)
  have idem: "unindex a s = s" by (simp add: s_def unindex_twice)
  show ?case
  proof (cases "is_pinned ev")
    case True
    have eq: "topic_allocate p a ev now s0 = Inr (allocate_pinned p a ev s)"
      using True by (subst topic_allocate.simps) (simp add: s_def Let_def)
    note f = pinned_facts [where p = p, OF sound none True]
    have "alloc_post s0 a now (allocate_pinned p a ev s)"
      unfolding alloc_post_def using f keeps_trans [OF ks f(2)] same by (auto simp: s_def [symmetric])
    moreover have "first_free (unindex a s0) a now ev ev" using True by (simp add: first_free_here)
    ultimately show ?thesis using eq f(3) by blast
  next
    case np: False
    from compute_subject_id_probe [OF "1.prems"(1)] obtain sid where
      sid: "compute_subject_id (t_hash (cy_topic s a)) ev (cy_modulus s) = Inr sid"
      by (metis same)
    show ?thesis
    proof (cases "victory s a now (occupant s a sid)")
      case True
      then have nb: "\<not> blocked s a now ev" using victory_iff [OF sid] by simp
      then have ff: "first_free (unindex a s0) a now ev ev" by (simp add: first_free_here s_def)
      define s1 where "s1 = allocate_claim p a ev sid (occupant s a sid) s"
      note f = claim_facts [where p = p and that = "occupant s a sid", OF sound none np sid, folded s1_def]
      have k1: "keeps s0 s1" using keeps_trans [OF ks f(2)] .
      show ?thesis
      proof (cases "occupant s a sid")
        case None
        have eq: "topic_allocate p a ev now s0 = Inr s1"
          using np sid True None by (subst topic_allocate.simps) (simp add: s_def Let_def s1_def)
        have "alloc_post s0 a now s1"
          unfolding alloc_post_def using f(1, 5) k1 same by (auto simp: f(4) s_def [symmetric])
        with eq f(3) ff show ?thesis by blast
      next
        case (Some b)
        define s2 where "s2 = drop_reader p b s1"
        have q2: "quiet b s1 s2" unfolding s2_def by (rule quiet_drop_reader)
        have k2: "keeps s1 s2" by (rule quiet_keeps [OF q2])
        have sound2: "idx_sound s2" using quiet_idx_sound [OF q2 f(1)] .
        have "is_valid_subject_id_modulus (cy_modulus s2)"
          using "1.prems"(1) k1 k2 by (simp add: keeps_def)
        note ih = "1.IH"(1) [OF s_def np sid refl True s1_def Some s2_def this sound2]
        then obtain s' e where al: "topic_allocate p b (t_evictions (cy_topic s2 b) + 1) now s2 = Inr s'"
          and post: "alloc_post s2 b now s'" by blast
        have eq: "topic_allocate p a ev now s0 = Inr s'"
          using np sid True Some al by (subst topic_allocate.simps) (simp add: s_def Let_def s1_def s2_def)
        have r2: "rank (cy_topic s2 c) now = rank (cy_topic s0 c) now" for c
          using keeps_rank [OF k2] keeps_rank [OF k1] by simp
        have lt: "rank (cy_topic s0 a) now < rank (cy_topic s0 b) now"
          using True Some same by (simp add: victory_def left_wins_rank)
        have ab: "a \<noteq> b" using Some occupant_ne by metis
        have fr: "alloc_fields (cy_topic s' c) = alloc_fields (cy_topic s2 c)
            \<and> (\<forall>sid. cy_by_sid s' sid = Some c \<longrightarrow> cy_by_sid (unindex b s2) sid = Some c)"
          if "c \<noteq> b" "rank (cy_topic s0 c) now \<le> rank (cy_topic s0 b) now" for c
          using post that r2 by (simp add: alloc_post_def)
        have k': "keeps s0 s'" using keeps_trans [OF k1 keeps_trans [OF k2]] post by (simp add: alloc_post_def)
        have "alloc_fields (cy_topic s' c) = alloc_fields (cy_topic s0 c)
            \<and> (\<forall>x. cy_by_sid s' x = Some c \<longrightarrow> cy_by_sid s x = Some c)"
          if c: "c \<noteq> a" "rank (cy_topic s0 c) now \<le> rank (cy_topic s0 a) now" for c
        proof -
          have cb: "c \<noteq> b" using c(2) lt by auto
          have "alloc_fields (cy_topic s' c) = alloc_fields (cy_topic s2 c)" using fr [OF cb] c(2) lt by simp
          also have "\<dots> = alloc_fields (cy_topic s0 c)"
            using quiet_alloc_fields [OF q2, of c] f(5) [OF c(1)] same by simp
          finally have 1: "alloc_fields (cy_topic s' c) = alloc_fields (cy_topic s0 c)" .
          have "cy_by_sid s x = Some c" if "cy_by_sid s' x = Some c" for x
          proof -
            have "cy_by_sid (unindex b s2) x = Some c" using fr [OF cb] c(2) lt that by simp
            then have "cy_by_sid s1 x = Some c" using unindex_sub q2 by (metis quiet_def)
            then show ?thesis using c(1) by (auto simp: f(4) split: if_splits)
          qed
          with 1 show ?thesis by blast
        qed
        then have "alloc_post s0 a now s'"
          using post k' by (auto simp: alloc_post_def s_def)
        moreover have "placed s' a ev"
        proof -
          have "alloc_fields (cy_topic s' a) = alloc_fields (cy_topic s1 a)"
            using fr [OF ab] lt quiet_alloc_fields [OF q2, of a] by simp
          moreover have "keeps s1 s'" using keeps_trans [OF k2] post by (simp add: alloc_post_def)
          ultimately show ?thesis using placed_cong f(3) by blast
        qed
        ultimately show ?thesis using eq ff by blast
      qed
    next
      case False
      then have bl: "blocked s a now ev" using victory_iff [OF sid] by simp
      have "is_valid_subject_id_modulus (cy_modulus s)" using "1.prems"(1) same by simp
      note ih = "1.IH"(2) [OF s_def np sid refl False this sound]
      then obtain s' e where al: "topic_allocate p a (ev + 1) now s = Inr s'" and post: "alloc_post s a now s'"
        and ff: "first_free (unindex a s) a now (ev + 1) e" and pl: "placed s' a e" by blast
      have eq: "topic_allocate p a ev now s0 = Inr s'"
        using np sid False al by (subst topic_allocate.simps) (simp add: s_def Let_def)
      have u: "unat (ev + 1) = unat ev + 1"
        using np by (simp add: is_pinned_def word_le_nat_alt evictions_pinned_min_unat unat_word_ariths)
      have "first_free (unindex a s0) a now ev e"
        unfolding first_free_def s_def [symmetric]
      proof (intro conjI allI impI)
        fix e' :: u32 assume e': "unat ev \<le> unat e' \<and> unat e' < unat e"
        have "\<not> is_pinned e' \<and> blocked s a now e'"
        proof (cases "unat e' = unat ev")
          case True
          then have "e' = ev" by (simp add: word_unat_eq_iff)
          with np bl show ?thesis by simp
        next
          case F: False
          with e' u have "unat (ev + 1) \<le> unat e'" by simp
          with ff e' show ?thesis by (simp add: first_free_def idem)
        qed
        then show "\<not> is_pinned e'" "blocked s a now e'" by blast+
      qed (use ff u idem in \<open>auto simp: first_free_def\<close>)
      moreover have "alloc_post s0 a now s'"
        using post keeps_trans [OF ks] same unfolding alloc_post_def idem by (simp add: s_def [symmetric])
      ultimately show ?thesis using eq pl by blast
    qed
  qed
qed

text \<open>C10: For a valid modulus and an index whose entries are right, the reallocation of a topic ends without a panic,
  however the topics it evicts evict each other. The entries of the index stay right. The topic takes the first
  eviction counter, from the requested one on, that is in the pinned range or whose subject identifier is not
  occupied by another topic that outranks it (older, or as old with a hash that is not larger), and gets the
  identifier of this counter; no topic that outranks it is moved, and the age, hash and name of no topic change.\<close>
theorem allocation_settles:
  assumes "is_valid_subject_id_modulus (cy_modulus s)" "idx_sound s"
  shows "\<exists>s' e. topic_allocate p a ev now s = Inr s' \<and> idx_sound s'
    \<and> first_free (unindex a s) a now ev e \<and> placed s' a e
    \<and> (\<forall>b. same_identity (cy_topic s b) (cy_topic s' b))
    \<and> (\<forall>b. b \<noteq> a \<and> rank (cy_topic s b) now \<le> rank (cy_topic s a) now \<longrightarrow>
          alloc_fields (cy_topic s' b) = alloc_fields (cy_topic s b))"
  using allocate_spec [OF assms, of p a ev now] unfolding alloc_post_def keeps_def by blast

text \<open>Two topics that contend for the subject identifier 8197: the one at address 1 holds it, the one at address 0,
  that held another one, wins it.\<close>

definition contender :: "u64 \<Rightarrow> u32 \<Rightarrow> topic" where
  "contender h sid = \<lparr>t_name = ''a'', t_hash = h, t_sid = sid, t_pinned = False, t_pinned_sid = 0, t_ts_origin = 0, t_log_age = -1,
     t_evictions = 0, t_reader = None, t_gossip_counter = 0, t_extent = 64, t_refcount = 1, t_dedup = Map.empty\<rparr>"

definition contention :: "unit cy" where
  "contention = \<lparr>cy_topic = (\<lambda>a. if a = 0 then contender 5 8206 else contender 57208 8197), cy_next = 2, cy_by_name = [],
     cy_by_hash = [5 \<mapsto> 0, 57208 \<mapsto> 1], cy_by_sid = [8197 \<mapsto> 1], cy_modulus = 57203, cy_broadcast = 65535, cy_broad_writer = Some 65535, cy_broadcast_ratio = 10,
     cy_shard_count = gossip_shard_count 57203,
     cy_pending = [], cy_gossip_period = 5000000000, cy_urgent_delay_max = 10000000, cy_tasks = [], cy_crdt = new_crdt 57203,
     cy_patterns = [], cy_reallocated = [], cy_env = ()\<rparr>"

definition idle_platform :: "unit cy_platform" where
  "idle_platform = \<lparr>cp_now = (\<lambda>_. 7), cp_new_reader = (\<lambda>_ _ e. (e, True)), cp_destroy_reader = (\<lambda>_ e. e),
     cp_send = (\<lambda>_ _ _ _ e. (e, None))\<rparr>"

lemma contention_valid: "is_valid_subject_id_modulus (cy_modulus contention)"
  using default_modulus_valid by (simp add: contention_def subject_id_modulus_16bit_def)

lemma contention_sid: "compute_subject_id 5 0 57203 = Inr 8197" "compute_subject_id 57208 0 57203 = Inr 8197"
  by (simp_all add: compute_subject_id_def subject_id_pinned_max_def)

lemma contention_sound: "idx_sound contention"
  by (auto simp: idx_sound_def contention_def contender_def contention_sid is_pinned_def evictions_pinned_min_def
      subject_id_pinned_max_def split: if_splits)

theorem allocation_settles_witness:
  "\<exists>s' e. topic_allocate idle_platform 0 0 7 contention = Inr s' \<and> placed s' 0 e \<and> idx_sound s'"
  using allocation_settles [OF contention_valid contention_sound, of idle_platform 0 0 7] by blast

text \<open>C36: A topic that takes its subject identifier from another one ends without an entry in the index: the allocation
  of the defeated topic starts by deleting the entry of the identifier that it has just lost. The winner keeps the
  identifier and its reader, but the collision handling and the dispatch, which look topics up by subject
  identifier, no longer find it.\<close>
theorem winner_not_indexed:
  assumes "is_valid_subject_id_modulus (cy_modulus s)" "idx_sound s" "\<not> is_pinned ev"
    and "compute_subject_id (t_hash (cy_topic s a)) ev (cy_modulus s) = Inr sid"
    and "occupant (unindex a s) a sid = Some b" "rank (cy_topic s a) now < rank (cy_topic s b) now"
  shows "\<exists>s'. topic_allocate p a ev now s = Inr s' \<and> placed s' a ev \<and> t_sid (cy_topic s' a) = sid
    \<and> (\<forall>x. cy_by_sid s' x \<noteq> Some a)"
proof -
  define u where "u = unindex a s"
  have su: "idx_sound u" unfolding u_def by (rule unindex_sound [OF assms(2)])
  have none: "cy_by_sid u x \<noteq> Some a" for x unfolding u_def by (rule unindex_removes [OF assms(2)])
  have same: "cy_topic u = cy_topic s" "cy_modulus u = cy_modulus s" by (simp_all add: u_def)
  have sid: "compute_subject_id (t_hash (cy_topic u a)) ev (cy_modulus u) = Inr sid" using assms(4) same by simp
  have b: "b \<noteq> a" "cy_by_sid u sid = Some b" using occupant_ne [OF assms(5)] by (simp_all add: u_def)
  have win: "victory u a now (occupant u a sid)"
    using assms(5, 6) same by (simp add: u_def [symmetric] victory_def left_wins_rank)
  define s1 where "s1 = allocate_claim p a ev sid (Some b) u"
  note f = claim_facts [where p = p and that = "Some b", OF su none assms(3) sid, folded s1_def]
  define s2 where "s2 = drop_reader p b s1"
  have q2: "quiet b s1 s2" unfolding s2_def by (rule quiet_drop_reader)
  have k2: "keeps u s2" using keeps_trans [OF f(2) quiet_keeps [OF q2]] .
  have "is_valid_subject_id_modulus (cy_modulus s2)" using k2 assms(1) same by (simp add: keeps_def)
  from allocate_spec [OF this quiet_idx_sound [OF q2 f(1)]] obtain s' where
    al: "topic_allocate p b (t_evictions (cy_topic s2 b) + 1) now s2 = Inr s'" and post: "alloc_post s2 b now s'" by blast
  have eq: "topic_allocate p a ev now s = Inr s'"
    using assms(3, 5) sid win al by (subst topic_allocate.simps) (simp add: u_def [symmetric] Let_def s1_def s2_def)
  have "rank (cy_topic s2 a) now \<le> rank (cy_topic s2 b) now"
    using keeps_rank [OF k2] assms(6) same by simp
  then have fr: "alloc_fields (cy_topic s' a) = alloc_fields (cy_topic s2 a)"
      "cy_by_sid s' x = Some a \<Longrightarrow> cy_by_sid (unindex b s2) x = Some a" for x
    using post b(1) by (simp_all add: alloc_post_def)
  have ks: "keeps s1 s'" using keeps_trans [OF quiet_keeps [OF q2]] post by (simp add: alloc_post_def)
  have af: "alloc_fields (cy_topic s' a) = alloc_fields (cy_topic s1 a)"
    using fr(1) quiet_alloc_fields [OF q2, of a] by simp
  have pl: "placed s' a ev" by (rule placed_cong [OF ks af f(3)])
  have hm: "t_hash (cy_topic s' a) = t_hash (cy_topic u a)" "cy_modulus s' = cy_modulus u"
    using keeps_trans [OF f(2) ks] by (simp_all add: keeps_def same_identity_def)
  have sid': "t_sid (cy_topic s' a) = sid" using pl assms(3) sid hm by (simp add: placed_def)
  have bt: "\<not> t_pinned (cy_topic s2 b) \<and> t_sid (cy_topic s2 b) = sid"
    using su b quiet_alloc_fields [OF q2, of b] f(5) [of b] by (simp add: idx_sound_def alloc_fields_def)
  have "cy_by_sid s' x \<noteq> Some a" for x
  proof
    assume "cy_by_sid s' x = Some a"
    then have "cy_by_sid (unindex b s2) x = Some a" by (rule fr(2))
    moreover have "cy_by_sid s2 = cy_by_sid s1" using q2 by (simp add: quiet_def)
    ultimately have "x \<noteq> sid \<and> cy_by_sid u x = Some a" using bt by (auto simp: unindex_def f(4) split: if_splits)
    with none show False by blast
  qed
  with eq pl sid' show ?thesis by blast
qed

theorem winner_not_indexed_witness:
  "\<exists>s'. topic_allocate idle_platform 0 0 7 contention = Inr s' \<and> t_sid (cy_topic s' 0) = 8197
    \<and> (\<forall>x. cy_by_sid s' x \<noteq> Some 0)"
proof -
  have r: "rank (cy_topic contention 0) 7 < rank (cy_topic contention 1) 7"
    by (simp add: contention_def contender_def rank_def topic_lage_def)
  have o: "occupant (unindex 0 contention) 0 8197 = Some 1"
    by (simp add: contention_def contender_def occupant_def unindex_def)
  have np: "\<not> is_pinned 0" by (simp add: is_pinned_def evictions_pinned_min_def subject_id_pinned_max_def)
  have c: "compute_subject_id (t_hash (cy_topic contention 0)) 0 (cy_modulus contention) = Inr 8197"
    using contention_sid by (simp add: contention_def contender_def)
  show ?thesis
    using winner_not_indexed [OF contention_valid contention_sound np c o r, of idle_platform] by blast
qed

end
