(* ===== verification/CyGossip.thy ===== *)
theory CyGossip
  imports CyAllocSpec CyNameSpec
begin

text \<open>
  Creation of topics (\<open>newTopic\<close> of \<open>cy/topic.go\<close>, \<open>findOrCreateTopic\<close> of \<open>cy/cy.go\<close>) and the
  reception side of the gossip protocol (\<open>cy/gossip.go\<close>), on the state of theory \<open>CyAlloc\<close>. The hash of names (the
  package rapidhash) is the parameter \<open>h\<close>. The diagnostics listeners, which only observe, are left out.
\<close>

subsection \<open>Topics\<close>

definition pinned_max16 :: u16 where "pinned_max16 = 0x1FFF"

definition new_topic :: "(string \<Rightarrow> u64) \<Rightarrow> string \<Rightarrow> u32 \<Rightarrow> u16 \<Rightarrow> go_panic + topic cy_result" where
  "new_topic h name modulus pin =
    (if name = [] then Inr (Inl ErrName)
     else case normalize_name name of
       None \<Rightarrow> Inr (Inl ErrName)
     | Some name \<Rightarrow>
         let hash = h name;
             t = \<lparr>t_name = name, t_hash = hash, t_sid = 0, t_pinned = False, t_pinned_sid = 0, t_ts_origin = 0,
                  t_log_age = LAGEMin, t_evictions = 0, t_reader = None, t_gossip_counter = 0, t_extent = 0,
                  t_refcount = 1, t_dedup = Map.empty\<rparr>
         in if pin \<le> pinned_max16
            then Inr (Inr (t\<lparr>t_pinned := True, t_pinned_sid := ucast pin, t_sid := ucast pin, t_evictions := NOT (ucast pin)\<rparr>))
            else and_then (compute_subject_id hash 0 modulus) (\<lambda>sid. Inr (Inr (t\<lparr>t_sid := sid\<rparr>))))"

text \<open>A new object in the heap.\<close>

definition new_object :: "topic \<Rightarrow> 'e cy \<Rightarrow> nat \<times> 'e cy" where
  "new_object t s = (cy_next s, s\<lparr>cy_topic := (cy_topic s)(cy_next s := t), cy_next := cy_next s + 1\<rparr>)"

definition index_topic :: "string \<Rightarrow> nat \<Rightarrow> 'e cy \<Rightarrow> 'e cy" where
  "index_topic name a s =
    s\<lparr>cy_by_name := AList.update name a (cy_by_name s), cy_by_hash := (cy_by_hash s)(t_hash (cy_topic s a) \<mapsto> a)\<rparr>"

text \<open>The resolved name and its pin; the result is the address of the topic.\<close>

definition find_or_create_topic_resolved ::
    "(string \<Rightarrow> u64) \<Rightarrow> 'e cy_platform \<Rightarrow> resolved \<Rightarrow> int \<Rightarrow> 'e cy \<Rightarrow> go_panic + ('e cy \<times> nat) cy_result" where
  "find_or_create_topic_resolved h p r extent s =
    (case map_of (cy_by_name s) (res_name r) of
       Some a \<Rightarrow> Inr (Inr (s, a))
     | None \<Rightarrow>
         and_then (new_topic h (res_name r) (cy_modulus s) (res_pin r))
           (\<lambda>res. case res of
              Inl e \<Rightarrow> Inr (Inl e)
            | Inr t \<Rightarrow>
                let t = t\<lparr>t_extent := extent\<rparr>;
                    (c, state) = crdt_add_topic (cy_crdt s) (res_name r) (t_hash t);
                    t = (if \<not> t_pinned t then t\<lparr>t_evictions := ts_evictions state\<rparr>
                         else t\<lparr>t_evictions := NOT (t_pinned_sid t)\<rparr>);
                    now = cp_now p (cy_env s);
                    t = set_origin_at t now (ts_log_age state) (t_evictions t);
                    (a, s) = new_object t (s\<lparr>cy_crdt := c\<rparr>);
                    s = index_topic (res_name r) a s
                in and_then (topic_allocate p a (t_evictions t) now s)
                     (\<lambda>s. Inr (Inr (schedule_urgent p a s, a)))))"

text \<open>The name is resolved with the remapping rules, the namespace and the home of the node.\<close>

definition find_or_create_topic ::
    "(string \<Rightarrow> u64) \<Rightarrow> 'e cy_platform \<Rightarrow> (string \<rightharpoonup> string) \<Rightarrow> string \<Rightarrow> string \<Rightarrow> string \<Rightarrow> int \<Rightarrow> 'e cy
      \<Rightarrow> go_panic + ('e cy \<times> nat) cy_result" where
  "find_or_create_topic h p remap ns home name extent s =
    (let r = name_resolve remap name ns home
     in if \<not> res_ok r then Inr (Inl ErrName) else find_or_create_topic_resolved h p r extent s)"

subsection \<open>The list of pending gossips\<close>

definition gossip_remove_topic :: "nat \<Rightarrow> 'e cy \<Rightarrow> 'e cy" where
  "gossip_remove_topic a s = s\<lparr>cy_pending := remove1 a (cy_pending s)\<rparr>"

definition gossip_has_pending :: "'e cy \<Rightarrow> bool" where
  "gossip_has_pending s \<longleftrightarrow> length (cy_pending s) > 0"

definition gossip_next_pending :: "'e cy \<Rightarrow> 'e cy \<times> nat option" where
  "gossip_next_pending s =
    (case cy_pending s of [] \<Rightarrow> (s, None) | a # rest \<Rightarrow> (s\<lparr>cy_pending := rest\<rparr>, Some a))"

subsection \<open>Sending gossips\<close>

definition priority_low :: u8 where "priority_low = 5"

text \<open>
  The writer of a gossip: the broadcast one, or the one of the shard of the topic. For the latter
  \<open>SendGossip\<close>, which holds the mutex of the gossip state, calls \<open>getWriter\<close>, which locks the same mutex: the goroutine
  blocks forever.
\<close>

definition gossip_writer :: "nat \<Rightarrow> bool \<Rightarrow> 'e cy \<Rightarrow> go_panic + ('e cy \<times> u32 option)" where
  "gossip_writer a urgent s =
    (if urgent then Inr (s, cy_broad_writer s)
     else
       let ratio = ucast (cy_broadcast_ratio s) :: u64;
           counter = t_gossip_counter (cy_topic s a)
       in if \<not> counter < ratio \<and> ratio = 0 then Inl DivideByZero
          else
            let broadcast = (counter < ratio \<or> counter mod ratio = 0);
                s = upd_topic a (\<lambda>t. t\<lparr>t_gossip_counter := t_gossip_counter t + 1\<rparr>) s
            in if broadcast then Inr (s, cy_broad_writer s) else Inl Deadlock)"

definition send_gossip :: "'e cy_platform \<Rightarrow> nat \<Rightarrow> bool \<Rightarrow> 'e cy \<Rightarrow> go_panic + 'e cy \<times> cy_error option" where
  "send_gossip p a urgent s =
    (let now = cp_now p (cy_env s)
     in and_then (gossip_writer a urgent s)
       (\<lambda>(s, writer). case writer of
          None \<Rightarrow> Inr (s, Some ErrArgument)
        | Some w \<Rightarrow>
            let t = cy_topic s a;
                data = marshal_gossip_message (word_of_int (topic_lage t now)) (t_hash t) (ucast (t_evictions t)) (t_name t);
                deadline = now + cy_gossip_period s;
                (e, err) = cp_send p w deadline priority_low data (cy_env s)
            in Inr (s\<lparr>cy_env := e\<rparr>, err)))"

text \<open>The callbacks that the scheduler runs.\<close>

fun run_task :: "'e cy_platform \<Rightarrow> cy_task \<Rightarrow> 'e cy \<Rightarrow> go_panic + 'e cy" where
  "run_task p (UrgentGossip a) s = and_then (send_gossip p a True s) (\<lambda>(s, err). Inr s)"
| "run_task p (PeriodicGossip a) s =
    and_then (send_gossip p a False s) (\<lambda>(s, err). Inr (schedule_periodic p a False s))"

subsection \<open>Reception of gossips\<close>

datatype gossip_scope = GossipBroadcast | GossipSharded | GossipUnicast | GossipInline

definition on_gossip_known_topic ::
    "'e cy_platform \<Rightarrow> nat \<Rightarrow> u32 \<Rightarrow> lage \<Rightarrow> gossip_scope \<Rightarrow> microsecond \<Rightarrow> 'e cy \<Rightarrow> go_panic + 'e cy" where
  "on_gossip_known_topic p mine evictions lage scope now s =
    and_then
      (if t_evictions (cy_topic s mine) \<noteq> evictions then
         let (t, merged, win) = update_state (cy_topic s mine) now lage evictions;
             s = upd_topic mine (\<lambda>_. t) s
         in if win then Inr (schedule_urgent p mine s)
            else and_then (topic_allocate p mine evictions now s)
              (\<lambda>s. Inr (if t_evictions (cy_topic s mine) = evictions then schedule_periodic p mine True s else s))
       else
         let s = upd_topic mine (\<lambda>t. merge_lage_at t now lage) s;
             suppress = ((scope = GossipBroadcast \<or> scope = GossipSharded) \<and> topic_lage (cy_topic s mine) now = lage)
         in Inr (if suppress then schedule_periodic p mine True s else s))
      (\<lambda>s. Inr (resync_topic_reader p mine s))"

definition on_gossip_unknown_topic ::
    "'e cy_platform \<Rightarrow> u64 \<Rightarrow> u32 \<Rightarrow> lage \<Rightarrow> microsecond \<Rightarrow> 'e cy \<Rightarrow> go_panic + 'e cy" where
  "on_gossip_unknown_topic p hash evictions lage now s =
    and_then (compute_subject_id hash evictions (cy_modulus s))
      (\<lambda>sid. case cy_by_sid s sid of
         None \<Rightarrow> Inr s
       | Some mine \<Rightarrow>
           if left_wins (cy_topic s mine) now lage hash then Inr (schedule_urgent p mine s)
           else topic_allocate p mine (t_evictions (cy_topic s mine) + 1) now s)"

text \<open>The keys of the map that \<open>Match\<close> returns, in an order in which it may be traversed.\<close>

definition matched_subscribers :: "matcher \<Rightarrow> string \<Rightarrow> nat list" where
  "matched_subscribers pm name = remdups (concat (map snd (filter (\<lambda>(pattern, subs). fst (match_pattern pattern name)) pm)))"

lemma matched_subscribers_dom:
  assumes "matcher_ok pm"
  shows "set (matched_subscribers pm name) = dom (match_topic pm name)"
proof -
  have "s \<in> set (subs_of pm p) \<longleftrightarrow> (\<exists>subs. (p, subs) \<in> set pm \<and> s \<in> set subs)" for s p
    using assms by (auto simp: matcher_ok_def subs_of_def split: option.splits dest: map_of_SomeD)
  then show ?thesis unfolding match_topic_dom [OF assms] by (fastforce simp: matched_subscribers_def)
qed

definition default_topic_extent :: int where "default_topic_extent = 256"

definition topic_subscribe_if_matching ::
    "(string \<Rightarrow> u64) \<Rightarrow> 'e cy_platform \<Rightarrow> string \<Rightarrow> u64 \<Rightarrow> u32 \<Rightarrow> lage \<Rightarrow> microsecond \<Rightarrow> 'e cy
      \<Rightarrow> go_panic + ('e cy \<times> nat option)" where
  "topic_subscribe_if_matching h p name hash evictions lage now s =
    (if normalize_name name = None \<or> \<not> name_is_verbatim name then Inr (s, None)
     else if matched_subscribers (cy_patterns s) name = [] then Inr (s, None)
     else case map_of (cy_by_name s) name of
       Some a \<Rightarrow> Inr (s, Some a)
     | None \<Rightarrow>
         and_then (new_topic h name (cy_modulus s) PinNone)
           (\<lambda>res. case res of
              Inl e \<Rightarrow> Inr (s, None)
            | Inr t \<Rightarrow>
                let t = t\<lparr>t_extent := default_topic_extent\<rparr>;
                    (a, s) = new_object t s;
                    s = index_topic name a s;
                    s = upd_topic a (\<lambda>t. set_origin_at t now lage evictions) s;
                    s = s\<lparr>cy_crdt := fst (crdt_add_topic (cy_crdt s) name (t_hash t))\<rparr>
                in and_then (topic_allocate p a evictions now s) (\<lambda>s. Inr (schedule_urgent p a s, Some a))))"

definition on_gossip ::
    "(string \<Rightarrow> u64) \<Rightarrow> 'e cy_platform \<Rightarrow> microsecond \<Rightarrow> u64 \<Rightarrow> u32 \<Rightarrow> lage \<Rightarrow> string \<Rightarrow> gossip_scope \<Rightarrow> 'e cy
      \<Rightarrow> go_panic + 'e cy" where
  "on_gossip h p now hash evictions lage name scope s =
    and_then
      (case cy_by_hash s hash of
         Some a \<Rightarrow> Inr (s, Some a)
       | None \<Rightarrow>
           if name \<noteq> [] \<and> (scope = GossipBroadcast \<or> scope = GossipUnicast)
           then topic_subscribe_if_matching h p name hash evictions lage now s else Inr (s, None))
      (\<lambda>(s, mine). case mine of
         Some a \<Rightarrow> on_gossip_known_topic p a evictions lage scope now s
       | None \<Rightarrow> on_gossip_unknown_topic p hash evictions lage now s)"

definition process_gossip ::
    "(string \<Rightarrow> u64) \<Rightarrow> 'e cy_platform \<Rightarrow> lage \<Rightarrow> u64 \<Rightarrow> u64 \<Rightarrow> string \<Rightarrow> gossip_scope \<Rightarrow> microsecond \<Rightarrow> 'e cy
      \<Rightarrow> go_panic + 'e cy" where
  "process_gossip h p lage hash evictions name scope now s =
    (if lage < LAGEMin \<or> lage > LAGEMax then Inr s
     else on_gossip h p now hash (ucast evictions) lage name scope s)"

subsection \<open>Periodic gossips stop the node\<close>

text \<open>
  With the broadcast ratio 10 of the code, the periodic gossips of a topic are sent while its counter is at most
  10; the next one blocks the goroutine that runs the scheduler.
\<close>

lemma periodic_gossip_deadlock:
  assumes "cy_broadcast_ratio s = 10" "t_gossip_counter (cy_topic s a) = 11"
  shows "run_task p (PeriodicGossip a) s = Inl Deadlock"
  using assms by (simp add: send_gossip_def gossip_writer_def Let_def unsigned_ucast_eq)

lemma urgent_gossip_sent:
  assumes "cy_broad_writer s \<noteq> None"
  shows "\<exists>s'. run_task p (UrgentGossip a) s = Inr s' \<and> cy_topic s' = cy_topic s"
  using assms by (auto simp: send_gossip_def gossip_writer_def Let_def split: prod.split)

subsection \<open>Ages as integers\<close>

text \<open>The age of a topic in seconds.\<close>

definition age_seconds :: "topic \<Rightarrow> microsecond \<Rightarrow> nat" where
  "age_seconds t now = nat (sint now - sint (t_ts_origin t)) div 1000000"

definition clock_ok :: "microsecond \<Rightarrow> topic \<Rightarrow> bool" where
  "clock_ok now t \<longleftrightarrow> 0 \<le> sint now \<and> sint now < 2 ^ 62 \<and> - (2 ^ 62) \<le> sint (t_ts_origin t)"

lemma sint_minus64:
  fixes a b :: "64 word"
  assumes "- (2 ^ 63) \<le> sint a - sint b" "sint a - sint b < 2 ^ 63"
  shows "sint (a - b) = sint a - sint b"
proof -
  have "sint (a - b) = signed_take_bit 63 (sint a - sint b)"
    using sint_word_ariths(2) [of a b] by simp
  also have "\<dots> = sint a - sint b" using assms by (intro signed_take_bit_int_eq_self) auto
  finally show ?thesis .
qed

lemma sint_less63: "sint (w :: 64 word) < 2 ^ 63" "- (2 ^ 63) \<le> sint w"
  using sint_range_size [of w] by (simp_all add: word_size)

lemma unat_nonneg:
  assumes "0 \<le> sint (w :: 64 word)"
  shows "unat w = nat (sint w)"
proof -
  have "uint w = take_bit 64 (sint w)" using uint_sint [of w] by simp
  also have "\<dots> = sint w" using assms sint_less63 [of w] by (intro take_bit_int_eq_self) auto
  finally show ?thesis by (simp add: nat_uint_eq [symmetric] del: nat_uint_eq)
qed

lemma sint_small:
  assumes "unat (w :: 64 word) < 2 ^ 63"
  shows "sint w = int (unat w)"
proof -
  have "sint w = signed_take_bit 63 (int (unat w))" using sint_uint [of w] by (simp only: uint_nat) simp
  also have "\<dots> = int (unat w)"
  proof (rule signed_take_bit_int_eq_self)
    show "- (2 ^ 63) \<le> int (unat w)" by (rule order_trans [of _ 0]) (simp, rule of_nat_0_le_iff)
    have "int (unat w) < int (2 ^ 63)" using assms by (simp only: of_nat_less_iff)
    then show "int (unat w) < 2 ^ 63" by (simp only: of_nat_power of_nat_numeral)
  qed
  finally show ?thesis .
qed

lemma topic_lage_age:
  assumes "clock_ok now t"
  shows "topic_lage t now = int (bit_len (age_seconds t now)) - 1"
proof -
  have s: "sint (now - t_ts_origin t) = sint now - sint (t_ts_origin t)"
    using assms sint_less63 [of "t_ts_origin t"] by (intro sint_minus64) (auto simp: clock_ok_def)
  define c where "c = (if now - t_ts_origin t <s 0 then 0 else now - t_ts_origin t)"
  have "unat c = nat (sint now - sint (t_ts_origin t))"
    using unat_nonneg [of "now - t_ts_origin t"] s by (auto simp: c_def word_sless_alt)
  then have "unat (c div MEGA) = age_seconds t now"
    by (simp add: unat_div age_seconds_def MEGA_def)
  moreover have "topic_lage t now = log2_floor (c div MEGA)" by (simp add: topic_lage_def c_def Let_def)
  ultimately show ?thesis by (simp add: log2_floor_def leading_zeros64_def)
qed

lemma lage_to_us_value: "-1 \<le> l \<Longrightarrow> sint (lage_to_us l) = (if l = -1 then 0 else 2 ^ nat (min l 35) * 1000000)"
  by (auto simp: lage_to_us_sint LAGEMax_def)

text \<open>The merge of ages is the maximum.\<close>

lemma bit_len_power: "bit_len (2 ^ k) = Suc k"
proof (induction k)
  case 0
  show ?case by (simp add: bit_len.simps)
next
  case (Suc k)
  have "bit_len (2 ^ Suc k) = Suc (bit_len (2 ^ k))" by (subst bit_len.simps) simp
  with Suc show ?case by simp
qed

lemma bit_len_max: "bit_len (max m n) = max (bit_len m) (bit_len n)"
  using bit_len_mono by (metis max.absorb1 max.absorb2 nle_le)

lemma max_pred: "int y - 1 = m \<Longrightarrow> int (max x y) - 1 = max (int x - 1) m"
  by auto

lemma merge_lage_max:
  assumes "clock_ok now t" "-1 \<le> l"
  shows "topic_lage (merge_lage_at t now l) now = max (topic_lage t now) (min l 35)"
    and "clock_ok now (merge_lage_at t now l)"
proof -
  define L where "L = sint (lage_to_us l)"
  have L: "L = (if l = -1 then 0 else 2 ^ nat (min l 35) * 1000000)" unfolding L_def by (rule lage_to_us_value [OF assms(2)])
  have "(2::int) ^ nat (min l 35) \<le> 2 ^ 35" by (rule power_increasing) auto
  with L have Lb: "0 \<le> L" "L \<le> 2 ^ 35 * 1000000" by auto
  have now: "0 \<le> sint now" "sint now < 2 ^ 62" using assms(1) by (simp_all add: clock_ok_def)
  have o: "sint (now - lage_to_us l) = sint now - L"
    unfolding L_def using Lb now by (intro sint_minus64) (auto simp: L_def [symmetric])
  define t' where "t' = merge_lage_at t now l"
  have org: "sint (t_ts_origin t') = min (sint (t_ts_origin t)) (sint now - L)"
    by (auto simp: t'_def merge_lage_at_def Let_def word_sless_alt o min_def)
  show ck: "clock_ok now (merge_lage_at t now l)"
    using assms(1) org Lb now by (auto simp: clock_ok_def t'_def [symmetric])
  have "nat (sint now - sint (t_ts_origin t')) = max (nat (sint now - sint (t_ts_origin t))) (nat L)"
    unfolding org using Lb by auto
  then have age: "age_seconds t' now = max (age_seconds t now) (nat L div 1000000)"
    unfolding age_seconds_def using div_le_mono by (auto simp: max_def) (meson div_le_mono le_antisym nat_le_linear)+
  have "int (bit_len (nat L div 1000000)) - 1 = min l 35"
  proof (cases "l = -1")
    case True
    then show ?thesis by (simp add: L bit_len.simps)
  next
    case False
    then have "nat L div 1000000 = 2 ^ nat (min l 35)" by (simp add: L nat_mult_distrib nat_power_eq)
    then show ?thesis using False assms(2) by (simp add: bit_len_power)
  qed
  moreover have "topic_lage t' now = int (bit_len (age_seconds t' now)) - 1"
    using ck by (intro topic_lage_age) (simp add: t'_def)
  ultimately show "topic_lage (merge_lage_at t now l) now = max (topic_lage t now) (min l 35)"
    unfolding topic_lage_age [OF assms(1)] t'_def [symmetric] age bit_len_max using max_pred by metis
qed

subsection \<open>Convergence\<close>

lemma merge_fields [simp]:
  "t_hash (merge_lage_at t now l) = t_hash t" "t_evictions (merge_lage_at t now l) = t_evictions t"
  "t_sid (merge_lage_at t now l) = t_sid t" "t_pinned (merge_lage_at t now l) = t_pinned t"
  "t_name (merge_lage_at t now l) = t_name t"
  by (simp_all add: merge_lage_at_def Let_def)

lemma merge_idx_sound: "idx_sound s \<Longrightarrow> idx_sound (upd_topic a (\<lambda>_. merge_lage_at (cy_topic s a) now l) s)"
  by (auto simp: idx_sound_def upd_topic_def)

lemma on_gossip_known: "cy_by_hash s hash = Some a \<Longrightarrow> -1 \<le> lage \<Longrightarrow> lage \<le> 35 \<Longrightarrow>
    process_gossip h p lage hash ev name scope now s = on_gossip_known_topic p a (ucast ev) lage scope now s"
  by (simp add: process_gossip_def on_gossip_def LAGEMin_def LAGEMax_def)

lemma resync_quiet_lage:
  "topic_lage (cy_topic (resync_topic_reader p a s) a) now = topic_lage (cy_topic s a) now"
  using quiet_resync [of a s p] by (simp add: quiet_def same_identity_def topic_lage_def)

text \<open>The winner keeps its counter and its identifier.\<close>

lemma known_topic_wins:
  fixes s :: "'e cy" and p a ev l scope now
  defines "t \<equiv> cy_topic s a"
  assumes "t_evictions t \<noteq> ev" "l < topic_lage t now \<or> l = topic_lage t now \<and> ev < t_evictions t"
  obtains s' where "on_gossip_known_topic p a ev l scope now s = Inr s'" "alloc_fields (cy_topic s' a) = alloc_fields t"
    "topic_lage (cy_topic s' a) now = topic_lage (merge_lage_at t now l) now"
    "cy_tasks (schedule_urgent p a (upd_topic a (\<lambda>_. merge_lage_at t now l) s)) = cy_tasks s'"
proof
  define u where "u = upd_topic a (\<lambda>_. merge_lage_at t now l) s"
  have ua: "cy_topic u a = merge_lage_at t now l" by (simp add: u_def upd_topic_def)
  define s' where "s' = resync_topic_reader p a (schedule_urgent p a u)"
  have q: "quiet a u s'" unfolding s'_def using quiet_trans [OF quiet_schedule_urgent quiet_resync] .
  show "on_gossip_known_topic p a ev l scope now s = Inr s'"
    using assms(2, 3) by (auto simp: on_gossip_known_topic_def update_state_def t_def [symmetric] Let_def u_def s'_def)
  show "alloc_fields (cy_topic s' a) = alloc_fields t"
    using quiet_alloc_fields [OF q, of a] by (simp add: ua alloc_fields_def)
  show "topic_lage (cy_topic s' a) now = topic_lage (merge_lage_at t now l) now"
    using q by (simp add: quiet_def same_identity_def topic_lage_def ua)
  show "cy_tasks (schedule_urgent p a (upd_topic a (\<lambda>_. merge_lage_at t now l) s)) = cy_tasks s'"
    by (simp add: s'_def u_def resync_topic_reader_def drop_reader_def upd_topic_def Let_def split: option.split prod.split)
qed

lemma known_topic_loses:
  fixes s :: "'e cy" and p a ev l scope now
  defines "t \<equiv> cy_topic s a"
  defines "u \<equiv> upd_topic a (\<lambda>_. merge_lage_at t now l) s"
  assumes "is_valid_subject_id_modulus (cy_modulus s)" "idx_sound s"
    and "t_evictions t \<noteq> ev" "\<not> (l < topic_lage t now \<or> l = topic_lage t now \<and> ev < t_evictions t)"
  obtains s' e where "on_gossip_known_topic p a ev l scope now s = Inr s'" "idx_sound s'" "keeps u s'"
    "first_free (unindex a u) a now ev e" "placed s' a e"
proof -
  have "is_valid_subject_id_modulus (cy_modulus u)" using assms(3) by (simp add: u_def upd_topic_def)
  moreover have "idx_sound u" using merge_idx_sound [OF assms(4)] by (simp add: u_def t_def)
  ultimately obtain s1 e where al: "topic_allocate p a ev now u = Inr s1" "alloc_post u a now s1"
    "first_free (unindex a u) a now ev e" "placed s1 a e"
    using allocate_spec [of u p a ev now] by blast
  define s2 where "s2 = (if t_evictions (cy_topic s1 a) = ev then schedule_periodic p a True s1 else s1)"
  define s' where "s' = resync_topic_reader p a s2"
  have "quiet a s1 s2" using quiet_schedule_periodic by (auto simp: s2_def)
  then have q: "quiet a s1 s'" unfolding s'_def using quiet_resync quiet_trans by blast
  have "on_gossip_known_topic p a ev l scope now s = Inr s'"
    using assms(5, 6) al(1)
    by (auto simp: on_gossip_known_topic_def update_state_def t_def [symmetric] Let_def u_def [symmetric] s'_def s2_def)
  moreover have "idx_sound s'" "keeps u s'"
    using quiet_idx_sound [OF q] al(2) keeps_trans [OF _ quiet_keeps [OF q]] by (auto simp: alloc_post_def)
  moreover have "placed s' a e" by (rule placed_cong [OF quiet_keeps [OF q] quiet_alloc_fields [OF q] al(4)])
  ultimately show ?thesis using al(3) that by blast
qed

lemma rank_eq: "topic_lage t now = topic_lage t' now \<Longrightarrow> t_hash t = t_hash t' \<Longrightarrow> rank t now = rank t' now"
  by (simp add: rank_def)

lemma keeps_topic_lage: "keeps s s' \<Longrightarrow> topic_lage (cy_topic s' b) now = topic_lage (cy_topic s b) now"
  by (simp add: keeps_def same_identity_def topic_lage_def)

lemma ucast_there_back: "(ucast (ucast (e :: u32) :: u64) :: u32) = e"
  by transfer simp

lemma first_free_unblocked:
  assumes "first_free (unindex a s) a now ev e" "is_pinned ev \<or> \<not> blocked s a now ev"
  shows "e = ev"
proof (rule ccontr)
  assume "e \<noteq> ev"
  then have "unat ev < unat e" using assms(1) by (simp add: first_free_def le_less word_unat_eq_iff)
  then have "\<not> is_pinned ev \<and> blocked (unindex a s) a now ev" using assms(1) by (simp add: first_free_def)
  with assms(2) blocked_unindex show False by blast
qed


text \<open>The topic of \<open>contention\<close> with another counter, on a second node where its identifier is free.\<close>

definition diverged :: "u32 \<Rightarrow> u32 \<Rightarrow> unit cy" where
  "diverged sid e = contention\<lparr>cy_topic := (\<lambda>_. (contender 5 sid)\<lparr>t_evictions := e\<rparr>), cy_by_sid := [sid \<mapsto> 0]\<rparr>"

lemma diverged_sid: "compute_subject_id 5 1 57203 = Inr 8198"
  by (simp add: compute_subject_id_def subject_id_pinned_max_def)

lemma small_not_pinned: "\<not> is_pinned 0" "\<not> is_pinned 1"
  by (simp_all add: is_pinned_def word_le_nat_alt evictions_pinned_min_unat)

lemma diverged_ok:
  "idx_sound (diverged 8197 0)" "idx_sound (diverged 8198 1)" "placed (diverged 8197 0) 0 0" "placed (diverged 8198 1) 0 1"
  "clock_ok 7 (cy_topic (diverged x y) 0)" "topic_lage (cy_topic (diverged x y) 0) 7 = -1"
  "cy_modulus (diverged x y) = 57203" "cy_by_hash (diverged x y) 5 = Some 0" "t_hash (cy_topic (diverged x y) 0) = 5"
  "t_sid (cy_topic (diverged x y) 0) = x" "cy_by_sid (diverged x y) = [x \<mapsto> 0]"
  using contention_sid diverged_sid
  by (auto simp: diverged_def contention_def contender_def idx_sound_def placed_def clock_ok_def topic_lage_def
      log2_floor_zero small_not_pinned MEGA_def split: if_splits)


end
