(* ===== verification/CyNode.thy ===== *)
theory CyNode
  imports CyGossip CyReorder
begin

text \<open>
  The subscribers (\<open>cy/subscriber.go\<close>) and the multicast side of the reception of messages
  (\<open>handleMulticastMessage\<close>, \<open>deliverTopic\<close>, \<open>sendAck\<close>, \<open>onScout\<close> of \<open>cy/cy.go\<close>). Subscribers are objects in a heap,
  addressed by a number. The parts of a subscriber that its reordering buffers use are loaded into the buffer
  for the time of an operation and stored back. The frames given to the platform for unicast are logged with
  their lane and deadline; its errors are ignored by the code. The application's callbacks only take
  their arrivals; the log of a subscriber is the sequence of them.
\<close>

subsection \<open>Subscribers\<close>

record lane =
  lane_id :: u64
  lane_priority :: u8
  lane_ctx :: bytes

type_synonym reordering_key = "u64 \<times> u64"

record subscriber =
  sb_name :: string
  sb_topic :: "nat option"
  sb_extent :: int
  sb_pattern :: string
  sb_window :: microsecond
  sb_liveness_timeout :: microsecond
  sb_last_arrival :: "arrival option"
  sb_message_count :: u64
  sb_err :: cy_error
  sb_liveness_task :: "microsecond option"
  sb_reordering :: "(reordering_key \<times> reordering) list"
  sb_disposed :: bool
  sb_log :: "arrival list"

definition new_subscriber :: "string \<Rightarrow> nat \<Rightarrow> int \<Rightarrow> microsecond \<Rightarrow> subscriber" where
  "new_subscriber topic_name topic extent window =
    \<lparr>sb_name = topic_name, sb_topic = Some topic, sb_extent = extent, sb_pattern = [], sb_window = window,
     sb_liveness_timeout = 0, sb_last_arrival = None, sb_message_count = 0, sb_err = OK, sb_liveness_task = None,
     sb_reordering = [], sb_disposed = False, sb_log = []\<rparr>"

definition new_pattern_subscriber :: "string \<Rightarrow> int \<Rightarrow> subscriber" where
  "new_pattern_subscriber pattern extent =
    \<lparr>sb_name = pattern, sb_topic = None, sb_extent = extent, sb_pattern = pattern, sb_window = -1,
     sb_liveness_timeout = 0, sb_last_arrival = None, sb_message_count = 0, sb_err = OK, sb_liveness_task = None,
     sb_reordering = [], sb_disposed = False, sb_log = []\<rparr>"

text \<open>The fields that a reordering buffer reads and writes through its pointer to the subscriber.\<close>

definition sub_load :: "subscriber \<Rightarrow> reordering \<Rightarrow> reordering" where
  "sub_load s r = r\<lparr>ro_disposed := sb_disposed s, ro_window := sb_window s, ro_last_arrival := sb_last_arrival s,
     ro_message_count := sb_message_count s, ro_err := sb_err s, ro_liveness_timeout := sb_liveness_timeout s,
     ro_liveness_task := sb_liveness_task s, ro_log := sb_log s\<rparr>"

definition sub_store :: "reordering \<Rightarrow> subscriber \<Rightarrow> subscriber" where
  "sub_store r s = s\<lparr>sb_last_arrival := ro_last_arrival r, sb_message_count := ro_message_count r, sb_err := ro_err r,
     sb_liveness_task := ro_liveness_task r, sb_log := ro_log r\<rparr>"

definition sub_notify :: "subscriber \<Rightarrow> arrival \<Rightarrow> subscriber \<times> bool" where
  "sub_notify s a =
    (if sb_disposed s then (s, False)
     else
       let s = s\<lparr>sb_last_arrival := Some a, sb_message_count := sb_message_count s + 1\<rparr>;
           s = (if 0 <s sb_liveness_timeout s
                then s\<lparr>sb_liveness_task := Some (mts_timestamp (arr_message a) + sb_liveness_timeout s)\<rparr> else s);
           s = s\<lparr>sb_err := OK\<rparr>
       in (s\<lparr>sb_log := sb_log s @ [a]\<rparr>, True))"

definition sub_deliver :: "subscriber \<Rightarrow> message_ts \<Rightarrow> lane \<Rightarrow> u64 \<Rightarrow> u64 \<Rightarrow> subscriber \<times> bool" where
  "sub_deliver s m lane msg_tag topic_hash =
    (if sb_disposed s then (s, False)
     else if 0 \<le>s sb_window s then
       let key = (lane_id lane, topic_hash);
           rr = (case map_of (sb_reordering s) key of
                   Some rr \<Rightarrow> rr
                 | None \<Rightarrow> ro_new (lane_id lane) topic_hash msg_tag (sb_window s));
           rr = rr\<lparr>ro_ctx := lane_ctx lane, ro_last_active_at := mts_timestamp m\<rparr>;
           (rr, accepted) = ro_push (sub_load s rr) msg_tag (lane_priority lane) m;
           s = sub_store rr s
       in (s\<lparr>sb_reordering := AList.update key rr (sb_reordering s)\<rparr>, accepted)
     else
       sub_notify s \<lparr>arr_message = m, arr_priority = lane_priority lane, arr_remote_id = lane_id lane,
         arr_topic_hash = topic_hash, arr_tag = msg_tag, arr_ctx = lane_ctx lane\<rparr>)"

text \<open>\<open>destroy\<close> of a reordering buffer and the removal of the stale ones.\<close>

definition sub_destroy_reordering :: "bool \<Rightarrow> reordering_key \<Rightarrow> subscriber \<Rightarrow> subscriber" where
  "sub_destroy_reordering silenced key s =
    (case map_of (sb_reordering s) key of
       None \<Rightarrow> s
     | Some rr \<Rightarrow>
         let rr = ro_eject_all (sub_load s rr) silenced;
             s = sub_store rr s
         in s\<lparr>sb_reordering := AList.delete key (sb_reordering s)\<rparr>)"

definition sub_drop_stale :: "microsecond \<Rightarrow> subscriber \<Rightarrow> subscriber" where
  "sub_drop_stale now s =
    (let stale = map fst (filter (\<lambda>(k, rr). session_lifetime <s now - ro_last_active_at rr) (sb_reordering s))
     in fold (sub_destroy_reordering True) stale s)"

definition sub_set_liveness_timeout :: "microsecond \<Rightarrow> subscriber \<Rightarrow> subscriber" where
  "sub_set_liveness_timeout timeout s =
    (let s = s\<lparr>sb_liveness_timeout := timeout\<rparr>
     in if timeout = 0 then s\<lparr>sb_liveness_task := None, sb_err := OK\<rparr>
        else
          let base = (case sb_last_arrival s of None \<Rightarrow> 0 | Some a \<Rightarrow> mts_timestamp (arr_message a))
          in s\<lparr>sb_liveness_task := Some (base + timeout)\<rparr>)"

definition sub_notify_error :: "cy_error \<Rightarrow> subscriber \<Rightarrow> subscriber" where
  "sub_notify_error e s = s\<lparr>sb_err := e\<rparr>"

definition sub_is_done :: "subscriber \<Rightarrow> bool" where
  "sub_is_done s \<longleftrightarrow>
    (case sb_last_arrival s of
       Some a \<Rightarrow> mts_content (arr_message a) \<noteq> None \<or> (0 <s sb_liveness_timeout s \<and> sb_liveness_task s = None)
     | None \<Rightarrow> 0 <s sb_liveness_timeout s \<and> sb_liveness_task s = None)"

definition sub_arrival_move :: "subscriber \<Rightarrow> subscriber \<times> arrival option" where
  "sub_arrival_move s =
    (case sb_last_arrival s of
       None \<Rightarrow> (s, None)
     | Some out \<Rightarrow>
         (s\<lparr>sb_last_arrival := Some (out\<lparr>arr_message := \<lparr>mts_timestamp = mts_timestamp (arr_message out), mts_content = None\<rparr>\<rparr>)\<rparr>,
          Some out))"

definition sub_match :: "(nat \<Rightarrow> string) \<Rightarrow> subscriber \<Rightarrow> string \<Rightarrow> bool \<times> string list" where
  "sub_match topic_name s name =
    (if sb_pattern s = [] then (case sb_topic s of None \<Rightarrow> (False, []) | Some a \<Rightarrow> (topic_name a = name, []))
     else match_pattern (sb_pattern s) name)"

subsection \<open>The node\<close>

record 'e node =
  nd_cy :: "'e cy"
  nd_sub :: "nat \<Rightarrow> subscriber"
  nd_next_sub :: nat
  nd_topic_subs :: "nat \<Rightarrow> nat list"
  nd_scouting :: "string list"
  nd_unicast :: "(lane \<times> microsecond \<times> bytes) list"

definition with_cy :: "('e cy \<Rightarrow> 'e cy) \<Rightarrow> 'e node \<Rightarrow> 'e node" where
  "with_cy f nd = nd\<lparr>nd_cy := f (nd_cy nd)\<rparr>"

definition set_dedup :: "nat \<Rightarrow> dedup_map \<Rightarrow> 'e node \<Rightarrow> 'e node" where
  "set_dedup a dm nd = with_cy (upd_topic a (\<lambda>t. t\<lparr>t_dedup := dm\<rparr>)) nd"

text \<open>One turn of the two loops of \<open>deliverTopic\<close>.\<close>

definition deliver_to :: "message_ts \<Rightarrow> lane \<Rightarrow> u64 \<Rightarrow> u64 \<Rightarrow> microsecond \<Rightarrow> nat \<Rightarrow> 'e node \<times> bool \<Rightarrow> 'e node \<times> bool" where
  "deliver_to m lane msg_tag topic_hash now sub st =
    (let (nd, acknowledge) = st;
         s = sub_drop_stale now (nd_sub nd sub);
         (s, accepted) = sub_deliver s m lane msg_tag topic_hash
     in (nd\<lparr>nd_sub := (nd_sub nd)(sub := s)\<rparr>, acknowledge \<or> accepted))"

definition deliver_topic :: "nat \<Rightarrow> message_ts \<Rightarrow> lane \<Rightarrow> u64 \<Rightarrow> bool \<Rightarrow> microsecond \<Rightarrow> 'e node \<Rightarrow> 'e node \<times> bool" where
  "deliver_topic a m lane msg_tag reliable now nd =
    (let t = cy_topic (nd_cy nd) a;
         pattern_subs = matched_subscribers (cy_patterns (nd_cy nd)) (t_name t);
         has_subs = (nd_topic_subs nd a \<noteq> [] \<or> pattern_subs \<noteq> [])
     in if reliable \<and> \<not> has_subs then
          (let (dm, seen) = dedup_check (t_dedup t) (lane_id lane) msg_tag now
           in (set_dedup a dm nd, seen))
        else
          let (nd, dd) = (if reliable
                then (let (dm, d) = dedup_find_or_create (t_dedup t) (lane_id lane) msg_tag now in (set_dedup a dm nd, Some d))
                else (nd, None))
          in if (case dd of None \<Rightarrow> False | Some d \<Rightarrow> dedup_test d msg_tag) then (nd, True)
             else
               let (nd, acknowledge) = fold (deliver_to m lane msg_tag (t_hash t) now) (nd_topic_subs nd a @ pattern_subs) (nd, False)
               in case dd of
                    Some d \<Rightarrow>
                      if reliable \<and> acknowledge
                      then (set_dedup a ((t_dedup (cy_topic (nd_cy nd) a))(lane_id lane \<mapsto> (dedup_mark d msg_tag)\<lparr>dd_last_active_at := now\<rparr>)) nd, acknowledge)
                      else (nd, acknowledge)
                  | None \<Rightarrow> (nd, acknowledge))"

definition nominal_priority :: u8 where "nominal_priority = 4"

definition send_ack :: "lane \<Rightarrow> u64 \<Rightarrow> u64 \<Rightarrow> microsecond \<Rightarrow> 'e node \<Rightarrow> 'e node" where
  "send_ack lane hash tag now nd =
    (let header = new_ack_header True hash tag;
         ack_lane = \<lparr>lane_id = lane_id lane, lane_priority = nominal_priority, lane_ctx = replicate 24 0\<rparr>
     in nd\<lparr>nd_unicast := nd_unicast nd @ [(ack_lane, now + 100000, marshal_binary header)]\<rparr>)"

definition send_gossip_unicast :: "'e cy_platform \<Rightarrow> nat \<Rightarrow> lane \<Rightarrow> 'e node \<Rightarrow> 'e node" where
  "send_gossip_unicast p a lane nd =
    (let now = cp_now p (cy_env (nd_cy nd));
         t = cy_topic (nd_cy nd) a;
         data = marshal_gossip_message (word_of_int (topic_lage t now)) (t_hash t) (ucast (t_evictions t)) (t_name t);
         deadline = now + cy_gossip_period (nd_cy nd)
     in nd\<lparr>nd_unicast := nd_unicast nd @ [(lane, deadline, data)]\<rparr>)"

definition on_scout :: "'e cy_platform \<Rightarrow> string \<Rightarrow> lane \<Rightarrow> 'e node \<Rightarrow> 'e node" where
  "on_scout p pattern lane nd =
    fold (\<lambda>(name, a) nd. if fst (match_pattern pattern name) then send_gossip_unicast p a lane nd else nd)
      (cy_by_name (nd_cy nd)) nd"

definition send_scout :: "'e cy_platform \<Rightarrow> string \<Rightarrow> 'e node \<Rightarrow> 'e node \<times> cy_error option" where
  "send_scout p pattern nd =
    (case cy_broad_writer (nd_cy nd) of
       None \<Rightarrow> (nd, Some ErrArgument)
     | Some w \<Rightarrow>
         let now = cp_now p (cy_env (nd_cy nd));
             deadline = now + MEGA;
             (e, err) = cp_send p w deadline nominal_priority (marshal_scout pattern) (cy_env (nd_cy nd));
             nd = with_cy (\<lambda>s. s\<lparr>cy_env := e\<rparr>) nd
         in (case err of
               Some x \<Rightarrow> (nd, Some x)
             | None \<Rightarrow> (nd\<lparr>nd_scouting := removeAll pattern (nd_scouting nd)\<rparr>, None)))"

definition send_pending_scouts :: "'e cy_platform \<Rightarrow> 'e node \<Rightarrow> 'e node" where
  "send_pending_scouts p nd = fold (\<lambda>pattern nd. fst (send_scout p pattern nd)) (nd_scouting nd) nd"

subsection \<open>Subscribing\<close>

definition new_sub_object :: "subscriber \<Rightarrow> 'e node \<Rightarrow> 'e node \<times> nat" where
  "new_sub_object s nd =
    (nd\<lparr>nd_sub := (nd_sub nd)(nd_next_sub nd := s), nd_next_sub := nd_next_sub nd + 1\<rparr>, nd_next_sub nd)"

definition subscribe_locked ::
    "(string \<Rightarrow> u64) \<Rightarrow> 'e cy_platform \<Rightarrow> resolved \<Rightarrow> int \<Rightarrow> microsecond \<Rightarrow> 'e node \<Rightarrow> go_panic + ('e node \<times> nat) cy_result" where
  "subscribe_locked h p r extent window nd =
    (if \<not> res_ok r then Inr (Inl ErrName)
     else if is_pattern (res_name r) then
       let (nd, sub) = new_sub_object (new_pattern_subscriber (res_name r) extent) nd;
           first_for_pattern = (\<not> has_pattern (cy_patterns (nd_cy nd)) (res_name r));
           nd = with_cy (\<lambda>s. s\<lparr>cy_patterns := add_pattern (cy_patterns s) (res_name r) sub\<rparr>) nd;
           nd = (if first_for_pattern
                 then fst (send_scout p (res_name r) (nd\<lparr>nd_scouting := List.insert (res_name r) (nd_scouting nd)\<rparr>)) else nd)
       in Inr (Inr (nd, sub))
     else
       and_then (find_or_create_topic_resolved h p r extent (nd_cy nd))
         (\<lambda>res. case res of
            Inl e \<Rightarrow> Inr (Inl e)
          | Inr (s, a) \<Rightarrow>
              let nd = nd\<lparr>nd_cy := s\<rparr>;
                  (nd, sub) = new_sub_object (new_subscriber (t_name (cy_topic s a)) a extent window) nd
              in Inr (Inr (nd\<lparr>nd_topic_subs := (nd_topic_subs nd)(a := nd_topic_subs nd a @ [sub])\<rparr>, sub))))"

definition subscribe_ordered ::
    "(string \<Rightarrow> u64) \<Rightarrow> 'e cy_platform \<Rightarrow> resolved \<Rightarrow> int \<Rightarrow> microsecond \<Rightarrow> 'e node \<Rightarrow> go_panic + ('e node \<times> nat) cy_result" where
  "subscribe_ordered h p r extent window nd =
    subscribe_locked h p r extent (if window <s 0 then 0 else window) nd"

definition sub_teardown :: "nat \<Rightarrow> 'e node \<Rightarrow> 'e node" where
  "sub_teardown sub nd =
    (let s = (nd_sub nd sub)\<lparr>sb_liveness_task := None\<rparr>;
         s = fold (sub_destroy_reordering True) (map fst (sb_reordering s)) s;
         s = s\<lparr>sb_reordering := []\<rparr>;
         nd = nd\<lparr>nd_sub := (nd_sub nd)(sub := s)\<rparr>
     in if sb_pattern s \<noteq> [] then with_cy (\<lambda>c. c\<lparr>cy_patterns := remove_pattern (cy_patterns c) (sb_pattern s) sub\<rparr>) nd
        else (case sb_topic s of
            None \<Rightarrow> nd
          | Some a \<Rightarrow> nd\<lparr>nd_topic_subs := (nd_topic_subs nd)(a := remove1 sub (nd_topic_subs nd a))\<rparr>))"

definition sub_destroy :: "nat \<Rightarrow> 'e node \<Rightarrow> 'e node" where
  "sub_destroy sub nd =
    (if sb_disposed (nd_sub nd sub) then nd
     else sub_teardown sub (nd\<lparr>nd_sub := (nd_sub nd)(sub := (nd_sub nd sub)\<lparr>sb_disposed := True\<rparr>)\<rparr>))"

text \<open>The timer of the liveness.\<close>

definition sub_on_liveness_timeout :: "nat \<Rightarrow> 'e node \<Rightarrow> 'e node" where
  "sub_on_liveness_timeout sub nd =
    (let s = (nd_sub nd sub)\<lparr>sb_liveness_task := None\<rparr>;
         nd = nd\<lparr>nd_sub := (nd_sub nd)(sub := s)\<rparr>
     in if sb_disposed s then sub_teardown sub nd
        else nd\<lparr>nd_sub := (nd_sub nd)(sub := sub_notify_error ErrLiveness s)\<rparr>)"

subsection \<open>Dispatch of multicast messages\<close>

definition handle_data_frame ::
    "'e cy_platform \<Rightarrow> lane \<Rightarrow> u32 \<Rightarrow> bytes \<Rightarrow> message_ts \<Rightarrow> bool \<Rightarrow> 'e node \<Rightarrow> go_panic + 'e node" where
  "handle_data_frame p lane subject_id hdr message reliable nd =
    (let lage = sint (hdr ! 3);
         hash = le_word (slice 8 16 hdr);
         msg_tag = le_word (slice 16 24 hdr);
         now = mts_timestamp message;
         broadcast = (subject_id = cy_broadcast (nd_cy nd));
         multicast = (\<not> broadcast \<and> subject_id \<le> cy_subject_id_max (cy_modulus (nd_cy nd)));
         evictions = le_word (slice 4 8 hdr)
     in if broadcast then Inr nd
        else and_then
          (if multicast then and_then (compute_subject_id hash evictions (cy_modulus (nd_cy nd))) (\<lambda>sid. Inr (sid \<noteq> subject_id))
           else Inr False)
          (\<lambda>inconsistent.
             if inconsistent then Inr nd
             else case cy_by_hash (nd_cy nd) hash of
                 Some topic \<Rightarrow>
                   and_then (on_gossip_known_topic p topic evictions lage GossipInline now (nd_cy nd))
                     (\<lambda>s.
                        let nd = nd\<lparr>nd_cy := s\<rparr>;
                            (nd, acknowledge) = deliver_topic topic message lane msg_tag reliable now nd
                        in Inr (if reliable \<and> acknowledge then send_ack lane (t_hash (cy_topic (nd_cy nd) topic)) msg_tag now nd else nd))
               | None \<Rightarrow>
                   and_then (on_gossip_unknown_topic p hash evictions lage now (nd_cy nd)) (\<lambda>s. Inr (nd\<lparr>nd_cy := s\<rparr>))))"

definition handle_gossip_frame ::
    "(string \<Rightarrow> u64) \<Rightarrow> 'e cy_platform \<Rightarrow> u32 \<Rightarrow> bytes \<Rightarrow> message_ts \<Rightarrow> message \<Rightarrow> 'e node \<Rightarrow> go_panic + 'e node" where
  "handle_gossip_frame h p subject_id hdr message content nd =
    (let broadcast = (subject_id = cy_broadcast (nd_cy nd));
         multicast = (\<not> broadcast \<and> subject_id \<le> cy_subject_id_max (cy_modulus (nd_cy nd)))
     in if multicast then Inr nd
        else
          let scope = (if broadcast then GossipBroadcast else GossipSharded);
              evictions = (le_word (slice 16 20 hdr) :: u32)
          in and_then (message_payload content)
            (\<lambda>name. and_then
               (process_gossip h p (sint (hdr ! 3)) (le_word (slice 8 16 hdr)) (ucast evictions) (string_of_bytes name) scope
                  (mts_timestamp message) (nd_cy nd))
               (\<lambda>s. Inr (nd\<lparr>nd_cy := s\<rparr>))))"

definition handle_multicast ::
    "(string \<Rightarrow> u64) \<Rightarrow> 'e cy_platform \<Rightarrow> lane \<Rightarrow> u32 \<Rightarrow> message_ts \<Rightarrow> 'e node \<Rightarrow> go_panic + 'e node" where
  "handle_multicast h p lane subject_id message nd =
    (case mts_content message of
       None \<Rightarrow> Inr nd
     | Some content \<Rightarrow>
         if message_size content < int header_size then Inr nd
         else and_then (message_read content 0 (int header_size) (replicate header_size 0))
           (\<lambda>(n, hdr).
              if n \<noteq> int header_size then Inr nd
              else
                let msg_type = hdr ! 0;
                    content = message_skip content (int header_size);
                    message = message\<lparr>mts_content := Some content\<rparr>
                in if msg_type = type_byte HeaderTypeMsgBE \<or> msg_type = type_byte HeaderTypeMsgRel
                   then handle_data_frame p lane subject_id hdr message (msg_type = type_byte HeaderTypeMsgRel) nd
                   else if msg_type = type_byte HeaderTypeGossip
                   then handle_gossip_frame h p subject_id hdr message content nd
                   else if msg_type = type_byte HeaderTypeScout
                   then and_then (message_payload content)
                     (\<lambda>pattern. Inr (if string_of_bytes pattern \<noteq> [] then on_scout p (string_of_bytes pattern) lane nd else nd))
                   else Inr nd))"

end
