(* ===== verification/CyDelivery.thy ===== *)
theory CyDelivery
  imports CyNode
begin

text \<open>
  What the delivery of data frames guarantees: a reliable message that was acknowledged is not handed to the
  subscribers again when it is retransmitted, whatever arrives in between within the window of tags and
  the lifetime of the session; and how the dispatch loses the frames of pinned subjects.
\<close>

subsection \<open>Frames of one topic\<close>

record frame =
  fr_message :: message_ts
  fr_lane :: lane
  fr_tag :: u64
  fr_reliable :: bool
  fr_now :: microsecond

definition deliver_frame :: "nat \<Rightarrow> frame \<Rightarrow> 'e node \<Rightarrow> 'e node \<times> bool" where
  "deliver_frame a f nd = deliver_topic a (fr_message f) (fr_lane f) (fr_tag f) (fr_reliable f) (fr_now f) nd"

definition deliver_frames :: "nat \<Rightarrow> frame list \<Rightarrow> 'e node \<Rightarrow> 'e node" where
  "deliver_frames a fs nd = fold (\<lambda>f nd. fst (deliver_frame a f nd)) fs nd"

definition node_dedup :: "nat \<Rightarrow> 'e node \<Rightarrow> dedup_map" where
  "node_dedup a nd = t_dedup (cy_topic (nd_cy nd) a)"

text \<open>Times within one session lifetime from \<open>t0\<close>, and tags within one window from \<open>base\<close>.\<close>

definition in_session :: "int \<Rightarrow> microsecond \<Rightarrow> bool" where
  "in_session t0 now \<longleftrightarrow> t0 \<le> sint now \<and> sint now \<le> t0 + 60000000"

definition in_window :: "u64 \<Rightarrow> u64 \<Rightarrow> bool" where
  "in_window base tag \<longleftrightarrow> unat (tag - base) < 512"

definition frame_fits :: "u64 \<Rightarrow> u64 \<Rightarrow> int \<Rightarrow> frame \<Rightarrow> bool" where
  "frame_fits r base t0 f \<longleftrightarrow> in_session t0 (fr_now f)
    \<and> (lane_id (fr_lane f) = r \<and> fr_reliable f \<longrightarrow> in_window base (fr_tag f))"

definition state_fits :: "u64 \<Rightarrow> int \<Rightarrow> dedup_state \<Rightarrow> bool" where
  "state_fits base t0 d \<longleftrightarrow> dedup_ok d \<and> in_window base (dd_tag d) \<and> in_session t0 (dd_last_active_at d)"

lemma lifetime_sint: "sint session_lifetime = 60000000"
  by (simp add: session_lifetime_def)

lemma session_alive:
  assumes "in_session t0 now" "in_session t0 since"
  shows "\<not> session_lifetime <s now - since"
proof -
  have "sint (now - since) = sint now - sint since"
    using assms by (intro sint_minus64) (auto simp: in_session_def)
  then show ?thesis using assms lifetime_sint by (auto simp: word_sless_alt in_session_def)
qed

lemma window_order:
  assumes "in_window base x" "in_window base y"
  shows "unat (x - y) < 512 \<longleftrightarrow> unat (y - base) \<le> unat (x - base)"
proof
  assume "unat (y - base) \<le> unat (x - base)"
  then have "unat ((x - base) - (y - base)) = unat (x - base) - unat (y - base)"
    by (intro unat_sub) (simp add: word_le_nat_alt)
  then show "unat (x - y) < 512" using assms by (simp add: in_window_def)
next
  assume a: "unat (x - y) < 512"
  have "unat (x - base) = unat (x - y) + unat (y - base)"
    using a assms(2) unat_diff_shift [of y base x] by (simp add: in_window_def)
  then show "unat (y - base) \<le> unat (x - base)" by simp
qed

lemma frontier_fits:
  assumes "in_window base (dd_tag d)" "in_window base t"
  shows "in_window base (frontier d t)" "unat (dd_tag d - base) \<le> unat (frontier d t - base)"
  using assms window_order [OF assms] by (auto simp: frontier_def)

lemma dedup_test_active [simp]: "dedup_test (d\<lparr>dd_last_active_at := now\<rparr>) u = dedup_test d u"
  by (simp add: dedup_test_def)

text \<open>A committed tag stays known while the window does not leave it.\<close>

lemma mark_keeps:
  assumes "state_fits base t0 d" "in_window base t" "in_window base u" "dedup_test d u \<or> u = t" "in_session t0 now"
  shows "state_fits base t0 ((dedup_mark d t)\<lparr>dd_last_active_at := now\<rparr>)"
    and "dedup_test ((dedup_mark d t)\<lparr>dd_last_active_at := now\<rparr>) u"
proof -
  have ok: "dedup_ok d" and w: "in_window base (dd_tag d)" using assms(1) by (simp_all add: state_fits_def)
  note e = dedup_mark_effect [OF ok, of t u]
  note f = frontier_fits [OF w assms(2)]
  show "state_fits base t0 ((dedup_mark d t)\<lparr>dd_last_active_at := now\<rparr>)"
    using e f(1) assms(5) by (simp add: state_fits_def dedup_ok_def)
  have "dedup_test d u \<Longrightarrow> unat (frontier d t - u) < 512"
  proof -
    assume "dedup_test d u"
    then have "unat (dd_tag d - u) < 512" using dedup_test_iff [OF ok] by blast
    then have "unat (u - base) \<le> unat (frontier d t - base)" using window_order [OF w assms(3)] f(2) by simp
    then show ?thesis using window_order [OF f(1) assms(3)] by blast
  qed
  then have "dedup_test (dedup_mark d t) u" using e assms(4) by blast
  then show "dedup_test ((dedup_mark d t)\<lparr>dd_last_active_at := now\<rparr>) u" by simp
qed

subsection \<open>The parts of a delivery\<close>

lemma deliver_to_cy: "nd_cy (fst (deliver_to m lane tag th now sub st)) = nd_cy (fst st)"
  by (auto simp: deliver_to_def Let_def split: prod.splits)

lemma deliver_fold_cy: "nd_cy (fst (fold (deliver_to m lane tag th now) subs st)) = nd_cy (fst st)"
  by (induction subs arbitrary: st) (simp_all add: deliver_to_cy)

lemma set_dedup_same [simp]:
  "nd_sub (set_dedup a dm nd) = nd_sub nd" "nd_topic_subs (set_dedup a dm nd) = nd_topic_subs nd"
  "nd_unicast (set_dedup a dm nd) = nd_unicast nd" "cy_patterns (nd_cy (set_dedup a dm nd)) = cy_patterns (nd_cy nd)"
  "node_dedup a (set_dedup a dm nd) = dm" "t_name (cy_topic (nd_cy (set_dedup a dm nd)) b) = t_name (cy_topic (nd_cy nd) b)"
  by (simp_all add: set_dedup_def with_cy_def upd_topic_def node_dedup_def)

definition topic_has_subs :: "nat \<Rightarrow> 'e node \<Rightarrow> bool" where
  "topic_has_subs a nd \<longleftrightarrow> nd_topic_subs nd a \<noteq> [] \<or> matched_subscribers (cy_patterns (nd_cy nd)) (t_name (cy_topic (nd_cy nd) a)) \<noteq> []"

lemma deliver_unreliable: "node_dedup a (fst (deliver_topic a m lane tag False now nd)) = node_dedup a nd"
proof -
  obtain n k where f: "fold (deliver_to m lane tag (t_hash (cy_topic (nd_cy nd) a)) now)
      (nd_topic_subs nd a @ matched_subscribers (cy_patterns (nd_cy nd)) (t_name (cy_topic (nd_cy nd) a))) (nd, False) = (n, k)"
    by fastforce
  have "nd_cy n = nd_cy nd" using deliver_fold_cy [of m lane tag _ now _ "(nd, False)"] f by (metis fst_conv)
  then show ?thesis using f by (simp add: deliver_topic_def Let_def node_dedup_def)
qed

lemma deliver_no_subs:
  assumes "\<not> topic_has_subs a nd"
  shows "deliver_topic a m lane tag True now nd
    = (let (dm, seen) = dedup_check (node_dedup a nd) (lane_id lane) tag now in (set_dedup a dm nd, seen))"
  using assms by (simp add: deliver_topic_def topic_has_subs_def Let_def node_dedup_def)

lemma deliver_duplicate:
  assumes "topic_has_subs a nd" "dedup_find_or_create (node_dedup a nd) (lane_id lane) tag now = (dm, d)" "dedup_test d tag"
  shows "deliver_topic a m lane tag True now nd = (set_dedup a dm nd, True)"
  using assms by (auto simp: deliver_topic_def topic_has_subs_def Let_def node_dedup_def)

lemma deliver_fresh:
  assumes "topic_has_subs a nd" "dedup_find_or_create (node_dedup a nd) (lane_id lane) tag now = (dm, d)" "\<not> dedup_test d tag"
  obtains n ack where "deliver_topic a m lane tag True now nd
      = ((if ack then set_dedup a (dm(lane_id lane \<mapsto> (dedup_mark d tag)\<lparr>dd_last_active_at := now\<rparr>)) n else n), ack)"
    "node_dedup a n = dm"
proof -
  let ?nd = "set_dedup a dm nd"
  obtain n k where f: "fold (deliver_to m lane tag (t_hash (cy_topic (nd_cy nd) a)) now)
      (nd_topic_subs nd a @ matched_subscribers (cy_patterns (nd_cy nd)) (t_name (cy_topic (nd_cy nd) a))) (?nd, False) = (n, k)"
    by fastforce
  have "nd_cy n = nd_cy ?nd" using deliver_fold_cy [of m lane tag _ now _ "(?nd, False)"] f by (metis fst_conv)
  then have "node_dedup a n = dm" by (simp add: node_dedup_def set_dedup_def with_cy_def upd_topic_def)
  moreover have "deliver_topic a m lane tag True now nd
      = ((if k then set_dedup a (dm(lane_id lane \<mapsto> (dedup_mark d tag)\<lparr>dd_last_active_at := now\<rparr>)) n else n), k)"
    using assms f calculation by (auto simp: deliver_topic_def topic_has_subs_def Let_def node_dedup_def)
  ultimately show ?thesis using that by blast
qed

subsection \<open>What is known stays known\<close>

definition known :: "nat \<Rightarrow> u64 \<Rightarrow> u64 \<Rightarrow> u64 \<Rightarrow> int \<Rightarrow> 'e node \<Rightarrow> bool" where
  "known a r tag base t0 nd \<longleftrightarrow> (\<exists>d. node_dedup a nd r = Some d \<and> state_fits base t0 d \<and> dedup_test d tag)"

lemma dedup_find_alive:
  "dm r = Some d \<Longrightarrow> in_session t0 now \<Longrightarrow> in_session t0 (dd_last_active_at d) \<Longrightarrow> dedup_find dm r now = (dm, Some d)"
  using session_alive by (simp add: dedup_find_def)

lemma dedup_find_other: "r' \<noteq> r \<Longrightarrow> fst (dedup_find dm r' now) r = dm r"
  by (auto simp: dedup_find_def split: option.splits)

lemma dedup_find_or_create_other: "r' \<noteq> r \<Longrightarrow> fst (dedup_find_or_create dm r' tag now) r = dm r"
  using dedup_find_other [of r' r dm now] by (auto simp: dedup_find_or_create_def Let_def split: prod.splits option.splits)

lemma known_step:
  assumes "known a r tag base t0 nd" "in_window base tag" "frame_fits r base t0 f"
  shows "known a r tag base t0 (fst (deliver_frame a f nd))"
proof (cases "fr_reliable f")
  case False
  then show ?thesis using assms(1) deliver_unreliable [of a "fr_message f" "fr_lane f" "fr_tag f" "fr_now f" nd]
    by (simp add: known_def deliver_frame_def)
next
  case True
  obtain d where d: "node_dedup a nd r = Some d" "state_fits base t0 d" "dedup_test d tag" using assms(1) by (auto simp: known_def)
  let ?l = "lane_id (fr_lane f)" and ?now = "fr_now f" and ?t = "fr_tag f"
  have now: "in_session t0 ?now" using assms(3) by (simp add: frame_fits_def)
  have alive: "in_session t0 (dd_last_active_at d)" using d(2) by (simp add: state_fits_def)
  note find = dedup_find_alive [where dm = "node_dedup a nd" and r = r, OF d(1) now alive]
  show ?thesis
  proof (cases "topic_has_subs a nd")
    case False
    obtain dm seen where c: "dedup_check (node_dedup a nd) ?l ?t ?now = (dm, seen)" by fastforce
    have "dm r = Some d"
    proof (cases "?l = r")
      case True
      then show ?thesis using c find d(1) by (simp add: dedup_check_def)
    next
      case F: False
      then show ?thesis using c dedup_find_other [OF F, of "node_dedup a nd" ?now] d(1)
        by (auto simp: dedup_check_def split: prod.splits option.splits)
    qed
    then show ?thesis using deliver_no_subs [OF False, of "fr_message f" "fr_lane f" ?t ?now] c True d
      by (simp add: known_def deliver_frame_def)
  next
    case subs: True
    obtain dm d' where c: "dedup_find_or_create (node_dedup a nd) ?l ?t ?now = (dm, d')" by fastforce
    have dmr: "dm r = Some d" and same: "?l = r \<Longrightarrow> d' = d"
      using c find d(1) dedup_find_or_create_other [of ?l r "node_dedup a nd" ?t ?now]
      by (cases "?l = r"; auto simp: dedup_find_or_create_def)+
    show ?thesis
    proof (cases "dedup_test d' ?t")
      case True
      then show ?thesis using deliver_duplicate [OF subs c True, of "fr_message f"] dmr d \<open>fr_reliable f\<close>
        by (simp add: known_def deliver_frame_def)
    next
      case fresh: False
      obtain n ack where del: "deliver_topic a (fr_message f) (fr_lane f) ?t True ?now nd
          = ((if ack then set_dedup a (dm(?l \<mapsto> (dedup_mark d' ?t)\<lparr>dd_last_active_at := ?now\<rparr>)) n else n), ack)"
        "node_dedup a n = dm"
        using deliver_fresh [OF subs c fresh] by metis
      show ?thesis
      proof (cases "ack \<and> ?l = r")
        case True
        then have "in_window base ?t" using assms(3) \<open>fr_reliable f\<close> by (simp add: frame_fits_def)
        from mark_keeps [OF d(2) this assms(2) disjI1 [OF d(3)] now] True same del \<open>fr_reliable f\<close> show ?thesis
          by (simp add: known_def deliver_frame_def)
      next
        case False
        then have "node_dedup a (fst (deliver_frame a f nd)) r = Some d"
          using del dmr \<open>fr_reliable f\<close> by (auto simp: deliver_frame_def)
        with d show ?thesis by (simp add: known_def)
      qed
    qed
  qed
qed

lemma known_run:
  assumes "known a r tag base t0 nd" "in_window base tag" "list_all (frame_fits r base t0) fs"
  shows "known a r tag base t0 (deliver_frames a fs nd)"
  using assms(1, 3) by (induction fs arbitrary: nd) (simp_all add: deliver_frames_def known_step [OF _ assms(2)])

lemma known_not_delivered:
  assumes "known a (lane_id lane) tag base t0 nd" "in_session t0 now"
  shows "\<exists>nd'. deliver_topic a m lane tag True now nd = (nd', True) \<and> nd_sub nd' = nd_sub nd"
proof -
  obtain d where d: "node_dedup a nd (lane_id lane) = Some d" "state_fits base t0 d" "dedup_test d tag"
    using assms(1) by (auto simp: known_def)
  have alive: "in_session t0 (dd_last_active_at d)" using d(2) by (simp add: state_fits_def)
  note find = dedup_find_alive [where dm = "node_dedup a nd" and r = "lane_id lane", OF d(1) assms(2) alive]
  show ?thesis
  proof (cases "topic_has_subs a nd")
    case True
    have "dedup_find_or_create (node_dedup a nd) (lane_id lane) tag now = (node_dedup a nd, d)"
      using find by (simp add: dedup_find_or_create_def)
    from deliver_duplicate [OF True this d(3)] show ?thesis by simp
  next
    case False
    then show ?thesis using deliver_no_subs [OF False] find d(3) by (simp add: dedup_check_def)
  qed
qed

lemma acknowledged_known:
  assumes "deliver_topic a m lane tag True now nd = (nd', True)" "in_window base tag" "in_session t0 now"
    and "\<And>d. node_dedup a nd (lane_id lane) = Some d \<Longrightarrow> state_fits base t0 d"
  shows "known a (lane_id lane) tag base t0 nd'"
proof (cases "topic_has_subs a nd")
  case False
  obtain d where d: "node_dedup a nd (lane_id lane) = Some d" "dedup_test d tag" "nd' = set_dedup a (node_dedup a nd) nd"
  proof (cases "node_dedup a nd (lane_id lane)")
    case None
    then show ?thesis using deliver_no_subs [OF False] assms(1) by (simp add: dedup_check_def dedup_find_def)
  next
    case (Some d)
    have "in_session t0 (dd_last_active_at d)" using assms(4) [OF Some] by (simp add: state_fits_def)
    from dedup_find_alive [where dm = "node_dedup a nd" and r = "lane_id lane", OF Some assms(3) this] that Some show ?thesis
      using deliver_no_subs [OF False] assms(1) by (simp add: dedup_check_def)
  qed
  then show ?thesis using assms(4) by (simp add: known_def)
next
  case True
  obtain dm d where c: "dedup_find_or_create (node_dedup a nd) (lane_id lane) tag now = (dm, d)" by fastforce
  have d: "state_fits base t0 d \<and> dm (lane_id lane) = Some d"
  proof (cases "node_dedup a nd (lane_id lane)")
    case None
    then show ?thesis
      using c assms(2, 3) dedup_new_ok by (auto simp: dedup_find_or_create_def dedup_find_def Let_def state_fits_def dedup_new_def)
  next
    case (Some d0)
    have "in_session t0 (dd_last_active_at d0)" using assms(4) [OF Some] by (simp add: state_fits_def)
    from dedup_find_alive [where dm = "node_dedup a nd" and r = "lane_id lane", OF Some assms(3) this] c Some assms(4) [OF Some]
    show ?thesis by (auto simp: dedup_find_or_create_def)
  qed
  show ?thesis
  proof (cases "dedup_test d tag")
    case dup: True
    have "nd' = set_dedup a dm nd" using deliver_duplicate [OF True c dup, of m] assms(1) by simp
    then show ?thesis using d dup by (simp add: known_def)
  next
    case fresh: False
    obtain n ack where del: "deliver_topic a m lane tag True now nd
        = ((if ack then set_dedup a (dm(lane_id lane \<mapsto> (dedup_mark d tag)\<lparr>dd_last_active_at := now\<rparr>)) n else n), ack)"
      using deliver_fresh [OF True c fresh] by metis
    from mark_keeps [OF conjunct1 [OF d] assms(2) assms(2) disjI2 [OF refl] assms(3)] del assms(1) show ?thesis
      by (auto simp: known_def)
  qed
qed


text \<open>A node with one unordered subscriber.\<close>

definition demo_node :: "unit node" where
  "demo_node = \<lparr>nd_cy = contention, nd_sub = (\<lambda>_. new_subscriber ''a'' 0 64 (-1)), nd_next_sub = 1,
     nd_topic_subs = (\<lambda>a. if a = 0 then [0] else []), nd_scouting = [], nd_unicast = []\<rparr>"

definition demo_lane :: lane where
  "demo_lane = \<lparr>lane_id = 77, lane_priority = 4, lane_ctx = []\<rparr>"

definition demo_frame :: "u64 \<Rightarrow> frame" where
  "demo_frame tag = \<lparr>fr_message = \<lparr>mts_timestamp = 9, mts_content = None\<rparr>, fr_lane = demo_lane, fr_tag = tag, fr_reliable = True, fr_now = 9\<rparr>"

lemma demo_accepts: "snd (deliver_frame 0 (demo_frame 100) demo_node)"
proof -
  have m: "matched_subscribers (cy_patterns (nd_cy demo_node)) x = []" for x
    by (simp add: demo_node_def contention_def matched_subscribers_def)
  have d: "node_dedup 0 demo_node = Map.empty" by (simp add: node_dedup_def demo_node_def contention_def contender_def)
  have subs: "topic_has_subs 0 demo_node" by (simp add: topic_has_subs_def demo_node_def)
  have c: "dedup_find_or_create (node_dedup 0 demo_node) (lane_id demo_lane) 100 9
      = ([77 \<mapsto> dedup_new 77 100 9], dedup_new 77 100 9)"
    by (simp add: d dedup_find_or_create_def dedup_find_def demo_lane_def Let_def)
  have n: "\<not> dedup_test (dedup_new 77 100 9) 100" by code_simp
  have one: "snd (deliver_to \<lparr>mts_timestamp = 9, mts_content = None\<rparr> demo_lane 100 th 9 0 (set_dedup 0 dm demo_node, False))" for th dm
    by (simp add: deliver_to_def sub_deliver_def sub_notify_def sub_drop_stale_def new_subscriber_def demo_node_def
        set_dedup_def with_cy_def Let_def word_sle_eq)
  have "nd_topic_subs demo_node 0 = [0]" by (simp add: demo_node_def)
  then show ?thesis
    using c n m one [of "t_hash (cy_topic (nd_cy demo_node) 0)" "[77 \<mapsto> dedup_new 77 100 9]"] by (auto simp: deliver_frame_def demo_frame_def deliver_topic_def Let_def node_dedup_def [symmetric] split: prod.splits)
qed


subsection \<open>Pinned subjects\<close>

text \<open>
  The identifier computed for the header of a data frame is never a pinned one, also not for the eviction counter of a pinned
  topic: every data frame that arrives on a pinned subject is dropped as inconsistent.
\<close>

lemma pinned_data_dropped:
  assumes "is_valid_subject_id_modulus (cy_modulus (nd_cy nd))" "subject_id \<le> subject_id_pinned_max"
  shows "handle_data_frame p lane subject_id hdr message reliable nd = Inr nd"
proof (cases "subject_id = cy_broadcast (nd_cy nd)")
  case True
  then show ?thesis by (simp add: handle_data_frame_def Let_def)
next
  case False
  let ?m = "cy_modulus (nd_cy nd)"
  obtain sid where sid: "compute_subject_id (le_word (slice 8 16 hdr)) (le_word (slice 4 8 hdr)) ?m = Inr sid"
      "unat sid = probe (unat ?m) (unat (le_word (slice 8 16 hdr) :: u64)) (unat (le_word (slice 4 8 hdr) :: u32))"
    using compute_subject_id_probe [OF assms(1)] by blast
  have "8192 \<le> unat sid" using probe_bounds [OF valid_modulus_pos [OF assms(1)]] sid(2) by simp
  moreover have "unat subject_id \<le> 8191" using assms(2) by (simp add: word_le_nat_alt pinned_max_unat)
  ultimately have ne: "sid \<noteq> subject_id" by auto
  have "subject_id \<le> cy_subject_id_max ?m"
    using \<open>unat subject_id \<le> 8191\<close> by (simp add: word_le_nat_alt cy_subject_id_max_unat [OF assms(1)])
  with False sid(1) ne show ?thesis by (simp add: handle_data_frame_def Let_def)
qed

end
