(* ===== verification/CyTree.thy ===== *)
theory CyTree
  imports CanPrelude
begin

text \<open>
  The AVL tree of \<open>cy/cavl/tree.go\<close>, which the scheduler keeps its tasks in, as a value: the parent pointers, which
  only \<open>Next\<close> and \<open>Prev\<close> follow, and \<open>DeleteNode\<close> are left out. The stored height is a mathematical integer: an \<open>int8\<close>
  holds the height of every balanced tree of fewer than 2 to the 87 nodes. The comparison function is a
  parameter; the locale states what the tree needs of it.
\<close>

subsection \<open>Nodes and rotations\<close>

datatype ('k, 'v) ctree = CtNil | CtNode "('k, 'v) ctree" 'k 'v int "('k, 'v) ctree"

fun ct_height :: "('k, 'v) ctree \<Rightarrow> int" where
  "ct_height CtNil = -1"
| "ct_height (CtNode l k v h r) = h"

definition ct_update :: "('k, 'v) ctree \<Rightarrow> 'k \<Rightarrow> 'v \<Rightarrow> ('k, 'v) ctree \<Rightarrow> ('k, 'v) ctree" where
  "ct_update l k v r = CtNode l k v (if ct_height l > ct_height r then ct_height l + 1 else ct_height r + 1) r"

fun ct_balance_factor :: "('k, 'v) ctree \<Rightarrow> int" where
  "ct_balance_factor CtNil = 0"
| "ct_balance_factor (CtNode l k v h r) = ct_height l - ct_height r"

fun ct_rotate_right :: "('k, 'v) ctree \<Rightarrow> ('k, 'v) ctree" where
  "ct_rotate_right (CtNode (CtNode a k' v' h' c) k v h r) = ct_update a k' v' (ct_update c k v r)"
| "ct_rotate_right t = t"

fun ct_rotate_left :: "('k, 'v) ctree \<Rightarrow> ('k, 'v) ctree" where
  "ct_rotate_left (CtNode l k v h (CtNode c k' v' h' b)) = ct_update (ct_update l k v c) k' v' b"
| "ct_rotate_left t = t"

text \<open>The node is given by its parts; its height is recomputed first.\<close>

definition ct_balance :: "('k, 'v) ctree \<Rightarrow> 'k \<Rightarrow> 'v \<Rightarrow> ('k, 'v) ctree \<Rightarrow> ('k, 'v) ctree" where
  "ct_balance l k v r =
    (let h = (if ct_height l > ct_height r then ct_height l + 1 else ct_height r + 1);
         bf = ct_height l - ct_height r
     in if bf > 1 then ct_rotate_right (CtNode (if ct_balance_factor l < 0 then ct_rotate_left l else l) k v h r)
        else if bf < -1 then ct_rotate_left (CtNode l k v h (if ct_balance_factor r > 0 then ct_rotate_right r else r))
        else CtNode l k v h r)"

subsection \<open>Operations\<close>

text \<open>The result says whether a node was inserted.\<close>

fun ct_insert :: "('k \<Rightarrow> 'k \<Rightarrow> int) \<Rightarrow> 'k \<Rightarrow> 'v \<Rightarrow> ('k, 'v) ctree \<Rightarrow> ('k, 'v) ctree \<times> bool" where
  "ct_insert cmp key val CtNil = (CtNode CtNil key val 0 CtNil, True)"
| "ct_insert cmp key val (CtNode l k v h r) =
    (if cmp key k < 0 then
       (case ct_insert cmp key val l of
          (l', inserted) \<Rightarrow> if inserted then (ct_balance l' k v r, True) else (CtNode l' k v h r, False))
     else if cmp key k > 0 then
       (case ct_insert cmp key val r of
          (r', inserted) \<Rightarrow> if inserted then (ct_balance l k v r', True) else (CtNode l k v h r', False))
     else (CtNode l k val h r, False))"

fun ct_find :: "('k \<Rightarrow> 'k \<Rightarrow> int) \<Rightarrow> 'k \<Rightarrow> ('k, 'v) ctree \<Rightarrow> ('k \<times> 'v) option" where
  "ct_find cmp key CtNil = None"
| "ct_find cmp key (CtNode l k v h r) =
    (if cmp key k < 0 then ct_find cmp key l
     else if cmp key k > 0 then ct_find cmp key r
     else Some (k, v))"

fun ct_find_min :: "('k, 'v) ctree \<Rightarrow> ('k \<times> 'v) option" where
  "ct_find_min CtNil = None"
| "ct_find_min (CtNode l k v h r) = (if l = CtNil then Some (k, v) else ct_find_min l)"

fun ct_find_max :: "('k, 'v) ctree \<Rightarrow> ('k \<times> 'v) option" where
  "ct_find_max CtNil = None"
| "ct_find_max (CtNode l k v h r) = (if r = CtNil then Some (k, v) else ct_find_max r)"

text \<open>
  The removed node is given by what it holds when the call returns: where the node has two children,
  it is the node that has taken over the key and the value of its successor.
\<close>

fun ct_delete :: "('k \<Rightarrow> 'k \<Rightarrow> int) \<Rightarrow> 'k \<Rightarrow> ('k, 'v) ctree \<Rightarrow> ('k, 'v) ctree \<times> ('k \<times> 'v) option" where
  "ct_delete cmp key CtNil = (CtNil, None)"
| "ct_delete cmp key (CtNode l k v h r) =
    (if cmp key k < 0 then
       (case ct_delete cmp key l of
          (l', removed) \<Rightarrow> if removed \<noteq> None then (ct_balance l' k v r, removed) else (CtNode l' k v h r, None))
     else if cmp key k > 0 then
       (case ct_delete cmp key r of
          (r', removed) \<Rightarrow> if removed \<noteq> None then (ct_balance l k v r', removed) else (CtNode l k v h r', None))
     else if l = CtNil then (r, Some (k, v))
     else if r = CtNil then (l, Some (k, v))
     else
       (case ct_find_min r of
          None \<Rightarrow> (CtNode l k v h r, None)
        | Some (ks, vs) \<Rightarrow> (ct_balance l ks vs (fst (ct_delete cmp ks r)), Some (ks, vs))))"

fun ct_in_order :: "('k, 'v) ctree \<Rightarrow> ('k \<times> 'v) list" where
  "ct_in_order CtNil = []"
| "ct_in_order (CtNode l k v h r) = ct_in_order l @ (k, v) # ct_in_order r"

record ('k, 'v) cavl_tree =
  tr_root :: "('k, 'v) ctree"
  tr_count :: int

definition tree_new :: "('k, 'v) cavl_tree" where
  "tree_new = \<lparr>tr_root = CtNil, tr_count = 0\<rparr>"

definition tree_len :: "('k, 'v) cavl_tree \<Rightarrow> int" where "tree_len t = tr_count t"

definition tree_empty :: "('k, 'v) cavl_tree \<Rightarrow> bool" where "tree_empty t \<longleftrightarrow> tr_root t = CtNil"

definition tree_insert :: "('k \<Rightarrow> 'k \<Rightarrow> int) \<Rightarrow> 'k \<Rightarrow> 'v \<Rightarrow> ('k, 'v) cavl_tree \<Rightarrow> ('k, 'v) cavl_tree" where
  "tree_insert cmp key val t =
    (let (root, inserted) = ct_insert cmp key val (tr_root t);
         t = t\<lparr>tr_root := root\<rparr>
     in if inserted then t\<lparr>tr_count := tr_count t + 1\<rparr> else t)"

definition tree_get :: "('k \<Rightarrow> 'k \<Rightarrow> int) \<Rightarrow> 'k \<Rightarrow> ('k, 'v) cavl_tree \<Rightarrow> 'v option" where
  "tree_get cmp key t = map_option snd (ct_find cmp key (tr_root t))"

definition tree_contains :: "('k \<Rightarrow> 'k \<Rightarrow> int) \<Rightarrow> 'k \<Rightarrow> ('k, 'v) cavl_tree \<Rightarrow> bool" where
  "tree_contains cmp key t \<longleftrightarrow> ct_find cmp key (tr_root t) \<noteq> None"

definition tree_delete :: "('k \<Rightarrow> 'k \<Rightarrow> int) \<Rightarrow> 'k \<Rightarrow> ('k, 'v) cavl_tree \<Rightarrow> ('k, 'v) cavl_tree \<times> ('k \<times> 'v) option" where
  "tree_delete cmp key t =
    (let (root, removed) = ct_delete cmp key (tr_root t);
         t = t\<lparr>tr_root := root\<rparr>
     in (if removed \<noteq> None then t\<lparr>tr_count := tr_count t - 1\<rparr> else t, removed))"

definition tree_clear :: "('k, 'v) cavl_tree \<Rightarrow> ('k, 'v) cavl_tree" where
  "tree_clear t = t\<lparr>tr_root := CtNil, tr_count := 0\<rparr>"

definition tree_keys :: "('k, 'v) cavl_tree \<Rightarrow> 'k list" where
  "tree_keys t = map fst (ct_in_order (tr_root t))"

definition tree_values :: "('k, 'v) cavl_tree \<Rightarrow> 'v list" where
  "tree_values t = map snd (ct_in_order (tr_root t))"

definition tree_first :: "('k, 'v) cavl_tree \<Rightarrow> ('k \<times> 'v) option" where
  "tree_first t = ct_find_min (tr_root t)"

definition tree_last :: "('k, 'v) cavl_tree \<Rightarrow> ('k \<times> 'v) option" where
  "tree_last t = ct_find_max (tr_root t)"

subsection \<open>Balance\<close>

fun ct_avl :: "('k, 'v) ctree \<Rightarrow> bool" where
  "ct_avl CtNil \<longleftrightarrow> True"
| "ct_avl (CtNode l k v h r) \<longleftrightarrow> ct_avl l \<and> ct_avl r \<and> h = max (ct_height l) (ct_height r) + 1
    \<and> \<bar>ct_height l - ct_height r\<bar> \<le> 1"

lemma ct_height_min: "ct_avl t \<Longrightarrow> -1 \<le> ct_height t" "ct_avl t \<Longrightarrow> ct_height t = -1 \<longleftrightarrow> t = CtNil"
  by (induction t) auto

lemma ct_update_in_order [simp]: "ct_in_order (ct_update l k v r) = ct_in_order l @ (k, v) # ct_in_order r"
  by (simp add: ct_update_def)

lemma rotate_right_in_order [simp]: "ct_in_order (ct_rotate_right t) = ct_in_order t"
  by (induction t rule: ct_rotate_right.induct) simp_all

lemma rotate_left_in_order [simp]: "ct_in_order (ct_rotate_left t) = ct_in_order t"
  by (induction t rule: ct_rotate_left.induct) simp_all

lemma ct_balance_in_order [simp]: "ct_in_order (ct_balance l k v r) = ct_in_order l @ (k, v) # ct_in_order r"
  by (auto simp: ct_balance_def Let_def)

lemma ct_balance_avl:
  assumes "ct_avl l" "ct_avl r" "\<bar>ct_height l - ct_height r\<bar> \<le> 2"
  shows "ct_avl (ct_balance l k v r)"
    and "ct_height (ct_balance l k v r) \<in> {max (ct_height l) (ct_height r), max (ct_height l) (ct_height r) + 1}"
    and "\<bar>ct_height l - ct_height r\<bar> \<le> 1 \<Longrightarrow> ct_height (ct_balance l k v r) = max (ct_height l) (ct_height r) + 1"
proof -
  consider "\<bar>ct_height l - ct_height r\<bar> \<le> 1" | "ct_height l = ct_height r + 2" | "ct_height r = ct_height l + 2"
    using assms(3) by linarith
  then have "ct_avl (ct_balance l k v r) \<and> ct_height (ct_balance l k v r) \<in> {max (ct_height l) (ct_height r), max (ct_height l) (ct_height r) + 1}"
  proof cases
    case 1
    then show ?thesis using assms by (auto simp: ct_balance_def Let_def max_def)
  next
    case 2
    then obtain a k' v' h' c where l: "l = CtNode a k' v' h' c" using assms ct_height_min(1) [OF assms(2)] by (cases l) auto
    show ?thesis
    proof (cases "ct_height a < ct_height c")
      case True
      then obtain c1 k2 v2 h2 c2 where "c = CtNode c1 k2 v2 h2 c2" using assms l ct_height_min(1) [of a] by (cases c) auto
      then show ?thesis using True 2 assms l by (auto simp: ct_balance_def Let_def ct_update_def max_def split: if_splits)
    next
      case False
      then show ?thesis using 2 assms l by (auto simp: ct_balance_def Let_def ct_update_def max_def split: if_splits)
    qed
  next
    case 3
    then obtain c k' v' h' b where r: "r = CtNode c k' v' h' b" using assms ct_height_min(1) [OF assms(1)] by (cases r) auto
    show ?thesis
    proof (cases "ct_height b < ct_height c")
      case True
      then obtain c1 k2 v2 h2 c2 where "c = CtNode c1 k2 v2 h2 c2" using assms r ct_height_min(1) [of b] by (cases c) auto
      then show ?thesis using True 3 assms r by (auto simp: ct_balance_def Let_def ct_update_def max_def split: if_splits)
    next
      case False
      then show ?thesis using 3 assms r by (auto simp: ct_balance_def Let_def ct_update_def max_def split: if_splits)
    qed
  qed
  then show "ct_avl (ct_balance l k v r)"
    and "ct_height (ct_balance l k v r) \<in> {max (ct_height l) (ct_height r), max (ct_height l) (ct_height r) + 1}" by blast+
  show "\<bar>ct_height l - ct_height r\<bar> \<le> 1 \<Longrightarrow> ct_height (ct_balance l k v r) = max (ct_height l) (ct_height r) + 1"
    by (auto simp: ct_balance_def Let_def max_def)
qed

lemma ct_insert_avl:
  assumes "ct_avl t"
  shows "ct_avl (fst (ct_insert cmp key val t))
    \<and> ct_height (fst (ct_insert cmp key val t)) \<in> {ct_height t, ct_height t + 1}
    \<and> (\<not> snd (ct_insert cmp key val t) \<longrightarrow> ct_height (fst (ct_insert cmp key val t)) = ct_height t)"
  using assms
proof (induction t)
  case (CtNode l k v h r)
  obtain l' bl where l': "ct_insert cmp key val l = (l', bl)" by fastforce
  obtain r' br where r': "ct_insert cmp key val r = (r', br)" by fastforce
  have hl: "ct_avl l' \<and> ct_height l' \<in> {ct_height l, ct_height l + 1} \<and> (\<not> bl \<longrightarrow> ct_height l' = ct_height l)"
    using CtNode.IH(1) CtNode.prems l' by simp
  have hr: "ct_avl r' \<and> ct_height r' \<in> {ct_height r, ct_height r + 1} \<and> (\<not> br \<longrightarrow> ct_height r' = ct_height r)"
    using CtNode.IH(2) CtNode.prems r' by simp
  have d: "\<bar>ct_height l - ct_height r\<bar> \<le> 1" "ct_avl l" "ct_avl r" "h = max (ct_height l) (ct_height r) + 1"
    using CtNode.prems by simp_all
  have dl: "\<bar>ct_height l' - ct_height r\<bar> \<le> 2" and dr: "\<bar>ct_height l - ct_height r'\<bar> \<le> 2" using d hl hr by auto
  note bl = ct_balance_avl [OF conjunct1 [OF hl] d(3) dl, of k v]
  note br = ct_balance_avl [OF d(2) conjunct1 [OF hr] dr, of k v]
  consider "cmp key k < 0" | "cmp key k > 0" | "cmp key k = 0" by linarith
  then show ?case
  proof cases
    case 1
    then show ?thesis using bl hl d l' by (auto simp: max_def split: if_splits)
  next
    case 2
    then show ?thesis using br hr d r' by (auto simp: max_def split: if_splits)
  next
    case 3
    then show ?thesis using CtNode.prems by simp
  qed
qed simp

lemma ct_in_order_Nil [simp]: "ct_in_order t = [] \<longleftrightarrow> t = CtNil" "[] = ct_in_order t \<longleftrightarrow> t = CtNil"
  by (cases t; simp)+

lemma ct_find_min_first: "ct_find_min t = (if t = CtNil then None else Some (hd (ct_in_order t)))"
proof (induction t)
  case (CtNode l k v h r)
  then show ?case by (cases "l = CtNil") (auto simp: hd_append)
qed simp

lemma ct_find_min_hd: "ct_find_min t = (case ct_in_order t of [] \<Rightarrow> None | x # xs \<Rightarrow> Some x)"
  unfolding ct_find_min_first by (cases "ct_in_order t") auto

lemma ct_find_max_last: "ct_find_max t = (if t = CtNil then None else Some (last (ct_in_order t)))"
proof (induction t)
  case (CtNode l k v h r)
  then show ?case by (cases r) auto
qed simp

lemma ct_delete_avl:
  assumes "ct_avl t"
  shows "ct_avl (fst (ct_delete cmp key t))
    \<and> ct_height t \<in> {ct_height (fst (ct_delete cmp key t)), ct_height (fst (ct_delete cmp key t)) + 1}
    \<and> (snd (ct_delete cmp key t) = None \<longrightarrow> ct_height (fst (ct_delete cmp key t)) = ct_height t)"
  using assms
proof (induction t arbitrary: key)
  case (CtNode l k v h r)
  have d: "\<bar>ct_height l - ct_height r\<bar> \<le> 1" "ct_avl l" "ct_avl r" "h = max (ct_height l) (ct_height r) + 1"
    using CtNode.prems by simp_all
  have L: "ct_avl (ct_balance l' k v r) \<and> h \<in> {ct_height (ct_balance l' k v r), ct_height (ct_balance l' k v r) + 1}"
    if "ct_avl l'" "ct_height l \<in> {ct_height l', ct_height l' + 1}" for l' k v
  proof -
    have dl: "\<bar>ct_height l' - ct_height r\<bar> \<le> 2" using d that by auto
    show ?thesis using ct_balance_avl [OF that(1) d(3) dl, of k v] d that(2) by (auto simp: max_def split: if_splits)
  qed
  have R: "ct_avl (ct_balance l k v r') \<and> h \<in> {ct_height (ct_balance l k v r'), ct_height (ct_balance l k v r') + 1}"
    if "ct_avl r'" "ct_height r \<in> {ct_height r', ct_height r' + 1}" for r' k v
  proof -
    have dr: "\<bar>ct_height l - ct_height r'\<bar> \<le> 2" using d that by auto
    show ?thesis using ct_balance_avl [OF d(2) that(1) dr, of k v] d that(2) by (auto simp: max_def split: if_splits)
  qed
  consider (less) "cmp key k < 0" | (greater) "cmp key k > 0" | (leaf) "cmp key k = 0" "l = CtNil \<or> r = CtNil"
    | (both) "cmp key k = 0" "l \<noteq> CtNil" "r \<noteq> CtNil"
    by linarith
  then show ?case
  proof cases
    case less
    obtain l' rm where l': "ct_delete cmp key l = (l', rm)" by fastforce
    then show ?thesis using less L [of l' k v] CtNode.IH(1) [OF d(2), of key] d by (cases rm) auto
  next
    case greater
    obtain r' rm where r': "ct_delete cmp key r = (r', rm)" by fastforce
    then show ?thesis using greater R [of r' k v] CtNode.IH(2) [OF d(3), of key] d by (cases rm) auto
  next
    case leaf
    then show ?thesis using d ct_height_min(1) [OF d(2)] ct_height_min(1) [OF d(3)] by (auto simp: max_def)
  next
    case both
    then obtain ks vs where m: "ct_find_min r = Some (ks, vs)" by (cases "ct_in_order r") (auto simp: ct_find_min_hd)
    then show ?thesis using both R [of "fst (ct_delete cmp ks r)" ks vs] CtNode.IH(2) [OF d(3), of ks] by auto
  qed
qed simp

text \<open>The height is logarithmic: with fewer than 2 to the 62 nodes it is below 125 and fits an \<open>int8\<close>.\<close>

lemma ct_height_log:
  assumes "ct_avl t"
  shows "2 ^ (nat (ct_height t + 1) div 2) \<le> length (ct_in_order t) + 1"
  using assms
proof (induction t)
  case (CtNode l k v h r)
  define m where "m = nat (h - 1)"
  have a: "ct_avl l" "ct_avl r" "h = max (ct_height l) (ct_height r) + 1" "\<bar>ct_height l - ct_height r\<bar> \<le> 1"
    using CtNode.prems by simp_all
  show ?case
  proof (cases "h \<le> 0")
    case True
    then have "nat (h + 1) div 2 = 0" by simp
    then show ?thesis by simp
  next
    case False
    have "m \<le> nat (ct_height l + 1)" "m \<le> nat (ct_height r + 1)" using a by (auto simp: m_def)
    then have p: "2 ^ (m div 2) \<le> (2::nat) ^ (nat (ct_height l + 1) div 2)" "2 ^ (m div 2) \<le> (2::nat) ^ (nat (ct_height r + 1) div 2)"
      by (auto intro!: power_increasing div_le_mono)
    have "nat (h + 1) div 2 = Suc (m div 2)" using False by (simp add: m_def nat_diff_distrib nat_add_distrib)
    then have "2 ^ (nat (h + 1) div 2) = 2 ^ (m div 2) + (2::nat) ^ (m div 2)" by simp
    also have "\<dots> \<le> (length (ct_in_order l) + 1) + (length (ct_in_order r) + 1)"
      by (rule add_mono [OF order_trans [OF p(1) CtNode.IH(1) [OF a(1)]] order_trans [OF p(2) CtNode.IH(2) [OF a(2)]]])
    finally show ?thesis by simp
  qed
qed simp

subsection \<open>The contents\<close>

text \<open>What the tree needs of the comparison of keys.\<close>

locale key_order =
  fixes cmp :: "'k \<Rightarrow> 'k \<Rightarrow> int"
  assumes cmp_zero: "cmp a b = 0 \<longleftrightarrow> a = b"
    and cmp_flip: "cmp a b < 0 \<longleftrightarrow> cmp b a > 0"
    and cmp_trans: "cmp a b < 0 \<Longrightarrow> cmp b c < 0 \<Longrightarrow> cmp a c < 0"
begin

definition sorted_keys :: "('k \<times> 'v) list \<Rightarrow> bool" where
  "sorted_keys xs \<longleftrightarrow> sorted_wrt (\<lambda>a b. cmp (fst a) (fst b) < 0) xs"

fun put_key :: "'k \<Rightarrow> 'v \<Rightarrow> ('k \<times> 'v) list \<Rightarrow> ('k \<times> 'v) list" where
  "put_key key val [] = [(key, val)]"
| "put_key key val ((k, v) # xs) =
    (if cmp key k < 0 then (key, val) # (k, v) # xs
     else if cmp key k > 0 then (k, v) # put_key key val xs
     else (k, val) # xs)"

definition drop_key :: "'k \<Rightarrow> ('k \<times> 'v) list \<Rightarrow> ('k \<times> 'v) list" where
  "drop_key key xs = filter (\<lambda>x. fst x \<noteq> key) xs"

lemma sorted_append: "sorted_keys (xs @ ys) \<longleftrightarrow> sorted_keys xs \<and> sorted_keys ys \<and> (\<forall>x \<in> set xs. \<forall>y \<in> set ys. cmp (fst x) (fst y) < 0)"
  by (auto simp: sorted_keys_def sorted_wrt_append)

lemma sorted_Cons: "sorted_keys (x # xs) \<longleftrightarrow> (\<forall>y \<in> set xs. cmp (fst x) (fst y) < 0) \<and> sorted_keys xs"
  by (simp add: sorted_keys_def)

lemma cmp_refl [simp]: "cmp a a = 0" by (simp add: cmp_zero)

lemma cmp_less_ne: "cmp a b < 0 \<Longrightarrow> a \<noteq> b" "cmp a b > 0 \<Longrightarrow> a \<noteq> b" by auto

lemma put_key_append:
  "sorted_keys (xs @ (k, v) # ys) \<Longrightarrow> put_key key val (xs @ (k, v) # ys)
    = (if cmp key k < 0 then put_key key val xs @ (k, v) # ys else xs @ put_key key val ((k, v) # ys))"
proof (induction xs)
  case (Cons x xs)
  obtain a b where x: "x = (a, b)" by fastforce
  have ak: "cmp a k < 0" and s: "sorted_keys (xs @ (k, v) # ys)" using Cons.prems by (simp_all add: sorted_append sorted_Cons x)
  have "cmp key a > 0" if "\<not> cmp key k < 0"
  proof (rule ccontr)
    assume "\<not> cmp key a > 0"
    then have "cmp key a < 0 \<or> key = a" using cmp_zero by (metis linorder_neqE_linordered_idom)
    then have "cmp key k < 0" using ak cmp_trans by blast
    with that show False by simp
  qed
  then show ?case using Cons.IH [OF s] x by auto
qed auto

lemma put_key_set: "set (put_key key val xs) \<subseteq> insert (key, val) (set xs) \<union> {(k, val) | k v. (k, v) \<in> set xs \<and> k = key}"
proof (induction xs)
  case (Cons x xs)
  obtain a b where x: "x = (a, b)" by fastforce
  have "\<not> cmp key a < 0 \<Longrightarrow> \<not> cmp key a > 0 \<Longrightarrow> a = key" using cmp_zero by (metis linorder_neqE_linordered_idom)
  then show ?case using Cons x by auto
qed simp

lemma put_key_sorted: "sorted_keys xs \<Longrightarrow> sorted_keys (put_key key val xs)"
proof (induction xs)
  case Nil
  show ?case by (simp add: sorted_keys_def)
next
  case (Cons x xs)
  obtain a b where x: "x = (a, b)" by fastforce
  show ?case
  proof (cases "cmp key a > 0")
    case True
    then have "cmp a key < 0" using cmp_flip by simp
    then show ?thesis using Cons True put_key_set [of key val xs] by (fastforce simp: x sorted_Cons)
  next
    case False
    then show ?thesis using Cons.prems cmp_trans [of key a] by (auto simp: x sorted_Cons)
  qed
qed

lemma insert_in_order:
  "sorted_keys (ct_in_order t) \<Longrightarrow> ct_in_order (fst (ct_insert cmp key val t)) = put_key key val (ct_in_order t)"
proof (induction t)
  case (CtNode l k v h r)
  have s: "sorted_keys (ct_in_order l)" "sorted_keys (ct_in_order r)" "sorted_keys (ct_in_order l @ (k, v) # ct_in_order r)"
    using CtNode.prems by (simp_all add: sorted_append sorted_Cons)
  have "\<not> cmp key k < 0 \<Longrightarrow> \<not> cmp key k > 0 \<Longrightarrow> k = key" using cmp_zero by (metis linorder_neqE_linordered_idom)
  then show ?case using CtNode.IH s
    by (auto simp: put_key_append split: prod.splits)
qed simp

lemma insert_new: "sorted_keys (ct_in_order t) \<Longrightarrow> snd (ct_insert cmp key val t) \<longleftrightarrow> key \<notin> fst ` set (ct_in_order t)"
proof (induction t)
  case (CtNode l k v h r)
  have s: "sorted_keys (ct_in_order l)" "sorted_keys (ct_in_order r)"
    and lk: "\<And>x. x \<in> set (ct_in_order l) \<Longrightarrow> cmp (fst x) k < 0" and kr: "\<And>x. x \<in> set (ct_in_order r) \<Longrightarrow> cmp k (fst x) < 0"
    using CtNode.prems by (auto simp: sorted_append sorted_Cons)
  have "cmp key k < 0 \<Longrightarrow> key \<notin> fst ` set (ct_in_order r)" using kr cmp_flip by (metis image_iff less_asym)
  moreover have "cmp key k > 0 \<Longrightarrow> key \<notin> fst ` set (ct_in_order l)" using lk by (metis image_iff less_asym)
  moreover have "\<not> cmp key k < 0 \<Longrightarrow> \<not> cmp key k > 0 \<Longrightarrow> k = key" using cmp_zero by (metis linorder_neqE_linordered_idom)
  ultimately show ?case using CtNode.IH s by (auto split: prod.splits)
qed simp

lemma drop_key_none: "(\<And>x. x \<in> set xs \<Longrightarrow> fst x \<noteq> key) \<Longrightarrow> drop_key key xs = xs"
  by (simp add: drop_key_def)

lemma delete_in_order:
  "sorted_keys (ct_in_order t) \<Longrightarrow> ct_in_order (fst (ct_delete cmp key t)) = drop_key key (ct_in_order t)
    \<and> (snd (ct_delete cmp key t) = None \<longleftrightarrow> key \<notin> fst ` set (ct_in_order t))"
proof (induction t arbitrary: key)
  case (CtNode l k v h r)
  have s: "sorted_keys (ct_in_order l)" "sorted_keys (ct_in_order r)"
    and lk: "\<And>x. x \<in> set (ct_in_order l) \<Longrightarrow> cmp (fst x) k < 0" and kr: "\<And>x. x \<in> set (ct_in_order r) \<Longrightarrow> cmp k (fst x) < 0"
    using CtNode.prems by (auto simp: sorted_append sorted_Cons)
  have nl: "\<not> cmp key k < 0 \<Longrightarrow> key \<notin> fst ` set (ct_in_order l)" using lk by (metis image_iff)
  have nr: "\<not> cmp key k > 0 \<Longrightarrow> key \<notin> fst ` set (ct_in_order r)" using kr cmp_flip by (metis image_iff)
  have dl: "\<not> cmp key k < 0 \<Longrightarrow> drop_key key (ct_in_order l) = ct_in_order l" using nl by (intro drop_key_none) force
  have dr: "\<not> cmp key k > 0 \<Longrightarrow> drop_key key (ct_in_order r) = ct_in_order r" using nr by (intro drop_key_none) force
  have app: "drop_key key (ct_in_order (CtNode l k v h r))
      = drop_key key (ct_in_order l) @ (if k = key then [] else [(k, v)]) @ drop_key key (ct_in_order r)"
    by (simp add: drop_key_def)
  consider (less) "cmp key k < 0" | (greater) "cmp key k > 0" | (eq) "cmp key k = 0" by linarith
  then show ?case
  proof cases
    case less
    then have "k \<noteq> key" "\<not> cmp key k > 0" by auto
    then show ?thesis using less CtNode.IH(1) [OF s(1), of key] dr nr unfolding app by (auto split: prod.splits)
  next
    case greater
    then have "k \<noteq> key" "\<not> cmp key k < 0" by auto
    then show ?thesis using greater CtNode.IH(2) [OF s(2), of key] dl nl unfolding app by (auto split: prod.splits)
  next
    case eq
    then have k: "k = key" using cmp_zero by simp
    show ?thesis
    proof (cases "l = CtNil \<or> r = CtNil")
      case True
      then show ?thesis using eq k dl dr unfolding app by auto
    next
      case False
      then obtain ks vs xs where r: "ct_in_order r = (ks, vs) # xs" by (cases "ct_in_order r") auto
      have "drop_key ks (ct_in_order r) = xs"
        using s(2) cmp_less_ne(1) by (auto simp: r drop_key_def sorted_Cons filter_id_conv)
      then have "ct_in_order (fst (ct_delete cmp ks r)) = xs" using CtNode.IH(2) [OF s(2), of ks] by simp
      moreover have "ct_find_min r = Some (ks, vs)" by (simp add: ct_find_min_hd r)
      ultimately show ?thesis using False eq k dl dr unfolding app by (auto simp: r)
    qed
  qed
qed (simp add: drop_key_def)

lemma drop_key_sorted: "sorted_keys xs \<Longrightarrow> sorted_keys (drop_key key xs)"
  unfolding sorted_keys_def drop_key_def by (rule sorted_wrt_filter)

lemma find_in_order: "sorted_keys (ct_in_order t) \<Longrightarrow> ct_find cmp key t = map_option (\<lambda>v. (key, v)) (map_of (ct_in_order t) key)"
proof (induction t)
  case (CtNode l k v h r)
  have s: "sorted_keys (ct_in_order l)" "sorted_keys (ct_in_order r)"
    and lk: "\<And>x. x \<in> set (ct_in_order l) \<Longrightarrow> cmp (fst x) k < 0" and kr: "\<And>x. x \<in> set (ct_in_order r) \<Longrightarrow> cmp k (fst x) < 0"
    using CtNode.prems by (auto simp: sorted_append sorted_Cons)
  have nl: "\<not> cmp key k < 0 \<Longrightarrow> map_of (ct_in_order l) key = None" using lk by (metis image_iff map_of_eq_None_iff)
  have nr: "\<not> cmp key k > 0 \<Longrightarrow> map_of (ct_in_order r) key = None" using kr cmp_flip by (metis image_iff map_of_eq_None_iff)
  consider (less) "cmp key k < 0" | (greater) "cmp key k > 0" | (eq) "key = k" using cmp_zero by (metis linorder_neqE_linordered_idom)
  then show ?case
    by cases (use CtNode.IH s nl nr in \<open>auto simp: map_add_def split: option.splits\<close>)
qed simp

text \<open>The invariant of a tree: sorted, balanced, counted.\<close>

definition tree_ok :: "('k, 'v) cavl_tree \<Rightarrow> bool" where
  "tree_ok t \<longleftrightarrow> sorted_keys (ct_in_order (tr_root t)) \<and> ct_avl (tr_root t) \<and> tr_count t = int (length (ct_in_order (tr_root t)))"

lemma tree_new_ok: "tree_ok tree_new" by (simp add: tree_ok_def tree_new_def sorted_keys_def)

lemma put_key_length:
  "sorted_keys xs \<Longrightarrow> length (put_key key val xs) = (if key \<in> fst ` set xs then length xs else Suc (length xs))"
proof (induction xs)
  case (Cons x xs)
  obtain a b where x: "x = (a, b)" by fastforce
  have ne: "\<And>y. y \<in> set xs \<Longrightarrow> cmp a (fst y) < 0" using Cons.prems by (auto simp: x sorted_Cons)
  consider (less) "cmp key a < 0" | (greater) "cmp key a > 0" | (eq) "key = a" using cmp_zero by (metis linorder_neqE_linordered_idom)
  then show ?case
  proof cases
    case less
    then have "key \<notin> fst ` set xs" using ne cmp_trans cmp_less_ne(1) by (metis image_iff)
    then show ?thesis using less by (auto simp: x)
  next
    case greater
    then show ?thesis using Cons cmp_less_ne(2) by (auto simp: x sorted_Cons)
  next
    case eq
    then show ?thesis by (simp add: x)
  qed
qed simp

lemma drop_key_length:
  "sorted_keys xs \<Longrightarrow> key \<in> fst ` set xs \<Longrightarrow> Suc (length (drop_key key xs)) = length xs"
proof (induction xs)
  case (Cons x xs)
  show ?case
  proof (cases "fst x = key")
    case True
    then have "drop_key key xs = xs" using Cons.prems(1) by (intro drop_key_none) (auto simp: sorted_Cons dest: cmp_less_ne(1))
    then show ?thesis using True by (simp add: drop_key_def)
  next
    case False
    then show ?thesis using Cons by (auto simp: drop_key_def sorted_Cons)
  qed
qed simp

lemma tree_insert_ok:
  assumes "tree_ok t"
  shows "tree_ok (tree_insert cmp key val t)" "ct_in_order (tr_root (tree_insert cmp key val t)) = put_key key val (ct_in_order (tr_root t))"
proof -
  have s: "sorted_keys (ct_in_order (tr_root t))" "ct_avl (tr_root t)" using assms by (simp_all add: tree_ok_def)
  show i: "ct_in_order (tr_root (tree_insert cmp key val t)) = put_key key val (ct_in_order (tr_root t))"
    using insert_in_order [OF s(1), of key val] by (auto simp: tree_insert_def Let_def split: prod.splits)
  have "ct_avl (tr_root (tree_insert cmp key val t))"
    using ct_insert_avl [OF s(2), of cmp key val] by (auto simp: tree_insert_def Let_def split: prod.splits)
  moreover have "tr_count (tree_insert cmp key val t) = int (length (put_key key val (ct_in_order (tr_root t))))"
    using insert_new [OF s(1), of key val] put_key_length [OF s(1), of key val] assms
    by (auto simp: tree_insert_def Let_def tree_ok_def split: prod.splits)
  ultimately show "tree_ok (tree_insert cmp key val t)" using put_key_sorted [OF s(1)] by (simp add: tree_ok_def i)
qed

lemma tree_delete_ok:
  assumes "tree_ok t"
  shows "tree_ok (fst (tree_delete cmp key t))" "ct_in_order (tr_root (fst (tree_delete cmp key t))) = drop_key key (ct_in_order (tr_root t))"
proof -
  have s: "sorted_keys (ct_in_order (tr_root t))" "ct_avl (tr_root t)" using assms by (simp_all add: tree_ok_def)
  note d = delete_in_order [OF s(1), of key]
  show i: "ct_in_order (tr_root (fst (tree_delete cmp key t))) = drop_key key (ct_in_order (tr_root t))"
    using d by (auto simp: tree_delete_def Let_def split: prod.splits)
  have "ct_avl (tr_root (fst (tree_delete cmp key t)))"
    using ct_delete_avl [OF s(2), of cmp key] by (auto simp: tree_delete_def Let_def split: prod.splits)
  moreover have "tr_count (fst (tree_delete cmp key t)) = int (length (drop_key key (ct_in_order (tr_root t))))"
  proof (cases "key \<in> fst ` set (ct_in_order (tr_root t))")
    case True
    then have "length (ct_in_order (tr_root t)) = Suc (length (drop_key key (ct_in_order (tr_root t))))"
      using drop_key_length [OF s(1)] by simp
    then show ?thesis using d True assms by (auto simp: tree_delete_def Let_def tree_ok_def split: prod.splits)
  next
    case False
    then have "drop_key key (ct_in_order (tr_root t)) = ct_in_order (tr_root t)" by (intro drop_key_none) force
    then show ?thesis using d False assms by (auto simp: tree_delete_def Let_def tree_ok_def split: prod.splits)
  qed
  ultimately show "tree_ok (fst (tree_delete cmp key t))" using drop_key_sorted [OF s(1)] by (simp add: tree_ok_def i)
qed

lemma tree_first_hd: "tree_first t = (case ct_in_order (tr_root t) of [] \<Rightarrow> None | x # xs \<Rightarrow> Some x)"
  by (simp add: tree_first_def ct_find_min_hd)

end

end
