(* ===== verification/CyOlga.thy ===== *)
theory CyOlga
  imports CyTree CyTypes
begin

text \<open>
  The scheduler of \<open>cy/olga/scheduler.go\<close>: tasks in an AVL tree, ordered by deadline and then by a sequence number. A
  task is an object in a heap; the entries of the tree are addresses. What the callbacks and the clock depend on is an
  environment. The blocking loop \<open>Run\<close> with its channels is left out. A spin may run forever, when its callbacks keep
  scheduling tasks that are due: it has fuel, one unit per turn of its loop.
\<close>

subsection \<open>Tasks and their keys\<close>

type_synonym task_key = "microsecond \<times> u64"

definition compare_task_key :: "task_key \<Rightarrow> task_key \<Rightarrow> int" where
  "compare_task_key a b =
    (if fst a \<noteq> fst b then (if fst b <s fst a then 1 else -1)
     else if snd a \<noteq> snd b then (if snd a > snd b then 1 else -1)
     else 0)"

lemma sint_inject: "sint (a :: 64 word) = sint b \<longleftrightarrow> a = b"
  by (rule word_eq_iff_signed [symmetric])

lemma compare_less: "compare_task_key a b < 0 \<longleftrightarrow> sint (fst a) < sint (fst b) \<or> fst a = fst b \<and> snd a < snd b"
  using sint_inject [of "fst a" "fst b"] by (auto simp: compare_task_key_def word_sless_alt)

lemma compare_greater: "compare_task_key a b > 0 \<longleftrightarrow> sint (fst b) < sint (fst a) \<or> fst a = fst b \<and> snd b < snd a"
  using sint_inject [of "fst a" "fst b"] by (auto simp: compare_task_key_def word_sless_alt)

interpretation task_order: key_order compare_task_key
proof unfold_locales
  fix a b c :: task_key
  show "compare_task_key a b = 0 \<longleftrightarrow> a = b" by (auto simp: compare_task_key_def prod_eq_iff)
  show "compare_task_key a b < 0 \<longleftrightarrow> compare_task_key b a > 0" by (auto simp: compare_less compare_greater)
  show "compare_task_key a b < 0 \<Longrightarrow> compare_task_key b c < 0 \<Longrightarrow> compare_task_key a c < 0" by (auto simp: compare_less)
qed

record 'c task =
  tk_deadline :: microsecond
  tk_seqno :: u64
  tk_callback :: "'c option"
  tk_active :: bool
  tk_key :: task_key

record ('c, 'e) scheduler =
  sc_tree :: "(task_key, nat) cavl_tree"
  sc_next_seqno :: u64
  sc_task :: "nat \<Rightarrow> 'c task"
  sc_next :: nat
  sc_env :: 'e

definition max_int64 :: microsecond where "max_int64 = 0x7FFFFFFFFFFFFFFF"

definition no_task :: "'c task" where
  "no_task = \<lparr>tk_deadline = 0, tk_seqno = 0, tk_callback = None, tk_active = False, tk_key = (0, 0)\<rparr>"

definition sched_new :: "'e \<Rightarrow> ('c, 'e) scheduler" where
  "sched_new env = \<lparr>sc_tree = tree_new, sc_next_seqno = 0, sc_task = (\<lambda>_. no_task), sc_next = 0, sc_env = env\<rparr>"

definition sched_put :: "nat \<Rightarrow> 'c task \<Rightarrow> ('c, 'e) scheduler \<Rightarrow> ('c, 'e) scheduler" where
  "sched_put a t s = s\<lparr>sc_task := (sc_task s)(a := t)\<rparr>"

subsection \<open>Scheduling\<close>

definition sched_schedule :: "microsecond \<Rightarrow> 'c option \<Rightarrow> ('c, 'e) scheduler \<Rightarrow> ('c, 'e) scheduler \<times> nat" where
  "sched_schedule deadline callback s =
    (let k = (deadline, sc_next_seqno s);
         a = sc_next s;
         s = s\<lparr>sc_next := a + 1, sc_next_seqno := sc_next_seqno s + 1\<rparr>;
         s = sched_put a \<lparr>tk_deadline = deadline, tk_seqno = snd k, tk_callback = callback, tk_active = True, tk_key = k\<rparr> s
     in (s\<lparr>sc_tree := tree_insert compare_task_key k a (sc_tree s)\<rparr>, a))"

definition sched_cancel :: "nat \<Rightarrow> ('c, 'e) scheduler \<Rightarrow> ('c, 'e) scheduler" where
  "sched_cancel a s =
    (let s = s\<lparr>sc_tree := fst (tree_delete compare_task_key (tk_key (sc_task s a)) (sc_tree s))\<rparr>
     in sched_put a ((sc_task s a)\<lparr>tk_active := False, tk_key := (0, 0)\<rparr>) s)"

definition sched_reschedule :: "nat \<Rightarrow> microsecond \<Rightarrow> ('c, 'e) scheduler \<Rightarrow> ('c, 'e) scheduler" where
  "sched_reschedule a new_deadline s =
    (if \<not> tk_active (sc_task s a) then s
     else
       let s = s\<lparr>sc_tree := fst (tree_delete compare_task_key (tk_key (sc_task s a)) (sc_tree s))\<rparr>;
           k = (new_deadline, sc_next_seqno s);
           s = s\<lparr>sc_next_seqno := sc_next_seqno s + 1\<rparr>;
           s = sched_put a ((sc_task s a)\<lparr>tk_deadline := new_deadline, tk_seqno := snd k, tk_key := k\<rparr>) s
       in s\<lparr>sc_tree := tree_insert compare_task_key k a (sc_tree s)\<rparr>)"

definition sched_first_deadline :: "('c, 'e) scheduler \<Rightarrow> microsecond" where
  "sched_first_deadline s =
    (case tree_first (sc_tree s) of None \<Rightarrow> 0 | Some (k, a) \<Rightarrow> tk_deadline (sc_task s a))"

definition sched_len :: "('c, 'e) scheduler \<Rightarrow> int" where "sched_len s = tree_len (sc_tree s)"

definition sched_empty :: "('c, 'e) scheduler \<Rightarrow> bool" where "sched_empty s \<longleftrightarrow> tree_empty (sc_tree s)"

text \<open>\<open>Clear\<close> takes the first task out until there is none; the fuel is the number of tasks.\<close>

fun sched_clear_loop :: "nat \<Rightarrow> ('c, 'e) scheduler \<Rightarrow> ('c, 'e) scheduler" where
  "sched_clear_loop 0 s = s"
| "sched_clear_loop (Suc n) s =
    (case tree_first (sc_tree s) of
       None \<Rightarrow> s
     | Some (k, a) \<Rightarrow>
         let s = s\<lparr>sc_tree := fst (tree_delete compare_task_key (tk_key (sc_task s a)) (sc_tree s))\<rparr>
         in sched_clear_loop n (sched_put a ((sc_task s a)\<lparr>tk_active := False, tk_key := (0, 0)\<rparr>) s))"

definition sched_clear :: "('c, 'e) scheduler \<Rightarrow> ('c, 'e) scheduler" where
  "sched_clear s = sched_clear_loop (length (ct_in_order (tr_root (sc_tree s)))) s"

subsection \<open>Spinning\<close>

record spin_result =
  sp_next_deadline :: microsecond
  sp_worst_lateness :: microsecond
  sp_now :: microsecond

text \<open>Calling the callback of a task.\<close>

definition call_task :: "('c \<Rightarrow> ('c, 'e) scheduler \<Rightarrow> ('c, 'e) scheduler) \<Rightarrow> 'c task \<Rightarrow> ('c, 'e) scheduler \<Rightarrow> ('c, 'e) scheduler" where
  "call_task run t s = (case tk_callback t of None \<Rightarrow> s | Some c \<Rightarrow> run c s)"

definition due :: "bool \<Rightarrow> microsecond \<Rightarrow> microsecond \<Rightarrow> microsecond \<Rightarrow> bool" where
  "due check_now limit now deadline \<longleftrightarrow> \<not> (check_now \<and> now <s deadline \<or> limit <s deadline)"

fun spin_loop :: "('c \<Rightarrow> ('c, 'e) scheduler \<Rightarrow> ('c, 'e) scheduler) \<Rightarrow> ('e \<Rightarrow> microsecond) \<Rightarrow> microsecond \<Rightarrow> bool \<Rightarrow> nat
    \<Rightarrow> ('c, 'e) scheduler \<Rightarrow> spin_result \<Rightarrow> (('c, 'e) scheduler \<times> spin_result) option" where
  "spin_loop run clock limit check_now 0 s res = None"
| "spin_loop run clock limit check_now (Suc n) s res =
    (case tree_first (sc_tree s) of
       None \<Rightarrow> Some (s, res)
     | Some (k, a) \<Rightarrow>
         let task = sc_task s a;
             now = clock (sc_env s)
         in if \<not> due check_now limit now (tk_deadline task)
            then Some (s, res\<lparr>sp_next_deadline := tk_deadline task, sp_now := now\<rparr>)
            else
              let s = s\<lparr>sc_tree := fst (tree_delete compare_task_key (tk_key task) (sc_tree s))\<rparr>;
                  lateness = now - tk_deadline task;
                  res = (if sp_worst_lateness res <s lateness then res\<lparr>sp_worst_lateness := lateness\<rparr> else res);
                  res = res\<lparr>sp_now := now\<rparr>
              in spin_loop run clock limit check_now n (call_task run task s) res)"

definition spin :: "('c \<Rightarrow> ('c, 'e) scheduler \<Rightarrow> ('c, 'e) scheduler) \<Rightarrow> ('e \<Rightarrow> microsecond) \<Rightarrow> microsecond \<Rightarrow> bool \<Rightarrow> nat
    \<Rightarrow> ('c, 'e) scheduler \<Rightarrow> (('c, 'e) scheduler \<times> spin_result) option" where
  "spin run clock limit check_now fuel s =
    spin_loop run clock limit check_now fuel s \<lparr>sp_next_deadline = max_int64, sp_worst_lateness = 0, sp_now = 0\<rparr>"

definition sched_run_once :: "('c \<Rightarrow> ('c, 'e) scheduler \<Rightarrow> ('c, 'e) scheduler) \<Rightarrow> ('e \<Rightarrow> microsecond)
    \<Rightarrow> ('c, 'e) scheduler \<Rightarrow> ('c, 'e) scheduler \<times> int" where
  "sched_run_once run clock s =
    (case tree_first (sc_tree s) of
       None \<Rightarrow> (s, 0)
     | Some (k, a) \<Rightarrow>
         let task = sc_task s a
         in if clock (sc_env s) <s tk_deadline task then (s, 0)
            else (call_task run task (s\<lparr>sc_tree := fst (tree_delete compare_task_key (tk_key task) (sc_tree s))\<rparr>), 1))"

subsection \<open>The invariant\<close>

definition pending :: "('c, 'e) scheduler \<Rightarrow> (task_key \<times> nat) list" where
  "pending s = ct_in_order (tr_root (sc_tree s))"

definition sched_ok :: "('c, 'e) scheduler \<Rightarrow> bool" where
  "sched_ok s \<longleftrightarrow> task_order.tree_ok (sc_tree s)
    \<and> (\<forall>(k, a) \<in> set (pending s). tk_key (sc_task s a) = k \<and> tk_deadline (sc_task s a) = fst k
         \<and> snd k < sc_next_seqno s \<and> a < sc_next s)"

lemma pending_put: "pending (sched_put a t s) = pending s" "sc_tree (sched_put a t s) = sc_tree s"
  by (simp_all add: pending_def sched_put_def)

lemma sched_new_ok: "sched_ok (sched_new env)"
  using task_order.tree_new_ok by (simp add: sched_ok_def pending_def sched_new_def tree_new_def)

lemma pending_distinct:
  fixes t :: "(task_key, nat) cavl_tree"
  assumes "task_order.tree_ok t" "(k, a) \<in> set (ct_in_order (tr_root t))" "(k, b) \<in> set (ct_in_order (tr_root t))"
  shows "a = b"
proof -
  have "distinct (map fst xs)" if "task_order.sorted_keys xs" for xs :: "(task_key \<times> nat) list"
    using that by (induction xs) (auto simp: task_order.sorted_Cons dest: task_order.cmp_less_ne(1))
  then have "distinct (map fst (ct_in_order (tr_root t)))" using assms(1) by (simp add: task_order.tree_ok_def)
  then show ?thesis using assms(2, 3) by (metis map_of_is_SomeI option.inject)
qed

lemma drop_key_set: "x \<in> set (task_order.drop_key k xs) \<longleftrightarrow> x \<in> set xs \<and> fst x \<noteq> k"
  by (auto simp: task_order.drop_key_def)

text \<open>Taking a task out of the tree and changing it.\<close>

lemma removed_ok:
  fixes s :: "('c, 'e) scheduler" and k :: task_key
  assumes "sched_ok s"
  defines "s1 \<equiv> s\<lparr>sc_tree := fst (tree_delete compare_task_key k (sc_tree s))\<rparr>"
  shows "sched_ok s1" "pending s1 = task_order.drop_key k (pending s)"
proof -
  have t: "task_order.tree_ok (sc_tree s)" using assms(1) by (simp add: sched_ok_def)
  show p: "pending s1 = task_order.drop_key k (pending s)"
    using task_order.tree_delete_ok(2) [OF t] by (simp add: s1_def pending_def)
  have "task_order.tree_ok (sc_tree s1)" using task_order.tree_delete_ok(1) [OF t] by (simp add: s1_def)
  then show "sched_ok s1" using assms(1) p by (auto simp: sched_ok_def drop_key_set s1_def)
qed

lemma put_ok:
  assumes "sched_ok s" "\<And>k. (k, a) \<notin> set (pending s)"
  shows "sched_ok (sched_put a t s)"
  using assms by (auto simp: sched_ok_def pending_put) (auto simp: sched_put_def)

lemma insert_ok:
  fixes s :: "('c, 'e) scheduler" and a d t
  assumes "sched_ok s" "unat (sc_next_seqno s) + 1 < 2 ^ 64" "\<And>k. (k, a) \<notin> set (pending s)" "a < sc_next s"
    and "tk_key t = (d, sc_next_seqno s)" "tk_deadline t = d"
  defines "s1 \<equiv> sched_put a t (s\<lparr>sc_next_seqno := sc_next_seqno s + 1\<rparr>)"
  shows "sched_ok (s1\<lparr>sc_tree := tree_insert compare_task_key (d, sc_next_seqno s) a (sc_tree s1)\<rparr>)"
proof -
  have t: "task_order.tree_ok (sc_tree s)" using assms(1) by (simp add: sched_ok_def)
  have tr: "sc_tree s1 = sc_tree s" by (simp add: s1_def pending_put)
  have u: "unat (sc_next_seqno s + 1) = unat (sc_next_seqno s) + 1"
    using assms(2) by (simp add: unat_word_ariths)
  have new: "(k, b) \<in> set (pending s) \<Longrightarrow> k \<noteq> (d, sc_next_seqno s)" for k b
    using assms(1) by (auto simp: sched_ok_def)
  have sub: "set (task_order.put_key (d, sc_next_seqno s) a (pending s)) \<subseteq> insert ((d, sc_next_seqno s), a) (set (pending s))"
    using task_order.put_key_set [of "(d, sc_next_seqno s)" a "pending s"] new by fastforce
  have lt: "x < sc_next_seqno s \<Longrightarrow> x < sc_next_seqno s + 1" for x
    using u by (simp add: word_less_nat_alt)
  have self: "sc_next_seqno s < sc_next_seqno s + 1" using u by (simp add: word_less_nat_alt)
  show ?thesis
    using task_order.tree_insert_ok [OF t, of "(d, sc_next_seqno s)" a] sub assms(1, 3-6) lt self
    unfolding sched_ok_def pending_def tr by (auto simp: s1_def sched_put_def pending_def dest!: subsetD)
qed

lemma schedule_ok:
  assumes "sched_ok s" "unat (sc_next_seqno s) + 1 < 2 ^ 64"
  shows "sched_ok (fst (sched_schedule d c s))"
proof -
  let ?s = "s\<lparr>sc_next := sc_next s + 1\<rparr>"
  have "sched_ok ?s" using assms(1) by (auto simp: sched_ok_def pending_def)
  moreover have "(k, sc_next s) \<notin> set (pending ?s)" for k
    using assms(1) by (auto simp: sched_ok_def pending_def)
  ultimately show ?thesis
    using insert_ok [of ?s "sc_next s" "\<lparr>tk_deadline = d, tk_seqno = sc_next_seqno s, tk_callback = c, tk_active = True, tk_key = (d, sc_next_seqno s)\<rparr>" d]
      assms(2)
    by (simp add: sched_schedule_def Let_def sched_put_def)
qed

lemma removed_gone: "sched_ok s \<Longrightarrow> (k, a) \<notin> set (task_order.drop_key (tk_key (sc_task s a)) (pending s))"
  by (auto simp: drop_key_set sched_ok_def)

lemma cancel_ok: "sched_ok s \<Longrightarrow> sched_ok (sched_cancel a s)"
  unfolding sched_cancel_def Let_def
  by (rule put_ok) (simp_all add: removed_ok removed_gone)

lemma reschedule_ok:
  assumes "sched_ok s" "unat (sc_next_seqno s) + 1 < 2 ^ 64" "a < sc_next s"
  shows "sched_ok (sched_reschedule a d s)"
proof -
  let ?s = "s\<lparr>sc_tree := fst (tree_delete compare_task_key (tk_key (sc_task s a)) (sc_tree s))\<rparr>"
  have "sched_ok ?s" "(k, a) \<notin> set (pending ?s)" for k
    using removed_ok [OF assms(1)] removed_gone [OF assms(1)] by simp_all
  then show ?thesis
    using insert_ok [of ?s a "(sc_task s a)\<lparr>tk_deadline := d, tk_seqno := sc_next_seqno s, tk_key := (d, sc_next_seqno s)\<rparr>" d] assms
    by (simp add: sched_reschedule_def Let_def)
qed

text \<open>The states that calls of the three operations reach; handles are those that \<open>Schedule\<close> returned.\<close>

datatype 'c sched_op = Schedule microsecond "'c option" | Cancel nat | Reschedule nat microsecond

fun sched_do :: "'c sched_op \<Rightarrow> ('c, 'e) scheduler \<Rightarrow> ('c, 'e) scheduler" where
  "sched_do (Schedule d c) s = fst (sched_schedule d c s)"
| "sched_do (Cancel a) s = (if a < sc_next s then sched_cancel a s else s)"
| "sched_do (Reschedule a d) s = (if a < sc_next s then sched_reschedule a d s else s)"

lemma sched_do_seqno:
  "sc_next_seqno (sched_do x s) \<in> {sc_next_seqno s, sc_next_seqno s + 1}"
  by (cases x) (auto simp: sched_schedule_def sched_cancel_def sched_reschedule_def sched_put_def Let_def)

lemma seqno_step: "b \<in> {a, a + 1} \<Longrightarrow> unat (b :: u64) \<le> unat a + 1"
  using word_le_nat_alt by (auto simp: unat_word_ariths intro: mod_less_eq_dividend)

lemma sched_reachable:
  assumes "length ops + 1 < 2 ^ 64"
  shows "sched_ok (fold sched_do ops (sched_new e)) \<and> unat (sc_next_seqno (fold sched_do ops (sched_new e))) \<le> length ops"
  using assms
proof (induction ops rule: rev_induct)
  case Nil
  then show ?case using sched_new_ok by (simp add: sched_new_def)
next
  case (snoc x ops)
  let ?s = "fold sched_do ops (sched_new e)"
  have ih: "sched_ok ?s" "unat (sc_next_seqno ?s) \<le> length ops" using snoc by simp_all
  have b: "unat (sc_next_seqno ?s) + 1 < 2 ^ 64" using ih(2) snoc.prems by simp
  have "sched_ok (sched_do x ?s)"
    using ih(1) schedule_ok [OF ih(1) b] cancel_ok [OF ih(1)] reschedule_ok [OF ih(1) b] by (cases x) auto
  moreover have "unat (sc_next_seqno (sched_do x ?s)) \<le> length ops + 1"
    using seqno_step [OF sched_do_seqno [of x ?s]] ih(2) by simp
  ultimately show ?case by simp
qed

subsection \<open>Earliest deadline first\<close>

text \<open>Callbacks that only touch the environment.\<close>

definition env_call :: "('c \<Rightarrow> 'e \<Rightarrow> 'e) \<Rightarrow> 'c task \<Rightarrow> 'e \<Rightarrow> 'e" where
  "env_call f t e = (case tk_callback t of None \<Rightarrow> e | Some c \<Rightarrow> f c e)"

definition env_after :: "('c \<Rightarrow> 'e \<Rightarrow> 'e) \<Rightarrow> ('c, 'e) scheduler \<Rightarrow> (task_key \<times> nat) list \<Rightarrow> 'e \<Rightarrow> 'e" where
  "env_after f s xs e = fold (\<lambda>x e. env_call f (sc_task s (snd x)) e) xs e"

definition env_run :: "('c \<Rightarrow> 'e \<Rightarrow> 'e) \<Rightarrow> 'c \<Rightarrow> ('c, 'e) scheduler \<Rightarrow> ('c, 'e) scheduler" where
  "env_run f c s = s\<lparr>sc_env := f c (sc_env s)\<rparr>"

lemma call_env_run: "call_task (env_run f) t s = s\<lparr>sc_env := env_call f t (sc_env s)\<rparr>"
  by (simp add: call_task_def env_run_def env_call_def split: option.split)

definition spun :: "('c \<Rightarrow> 'e \<Rightarrow> 'e) \<Rightarrow> ('e \<Rightarrow> microsecond) \<Rightarrow> microsecond \<Rightarrow> bool \<Rightarrow> ('c, 'e) scheduler \<Rightarrow> ('c, 'e) scheduler \<Rightarrow> nat \<Rightarrow> bool" where
  "spun f clock limit check_now s s' n \<longleftrightarrow> n \<le> length (pending s) \<and> pending s' = drop n (pending s)
    \<and> sc_env s' = env_after f s (take n (pending s)) (sc_env s)
    \<and> (\<forall>i < n. due check_now limit (clock (env_after f s (take i (pending s)) (sc_env s))) (fst (fst (pending s ! i))))
    \<and> (n < length (pending s) \<longrightarrow> \<not> due check_now limit (clock (sc_env s')) (fst (fst (pending s ! n))))"

lemma spin_loop_env:
  assumes "sched_ok s" "length (pending s) < fuel"
  shows "\<exists>s' res' n. spin_loop (env_run f) clock limit check_now fuel s res = Some (s', res')
    \<and> spun f clock limit check_now s s' n"
  using assms
proof (induction fuel arbitrary: s res)
  case (Suc fuel)
  show ?case
  proof (cases "pending s")
    case Nil
    then have "tree_first (sc_tree s) = None" by (simp add: task_order.tree_first_hd pending_def)
    then have "spin_loop (env_run f) clock limit check_now (Suc fuel) s res = Some (s, res)" by simp
    moreover have "spun f clock limit check_now s s 0" using Nil by (simp add: spun_def env_after_def)
    ultimately show ?thesis by blast
  next
    case (Cons x xs)
    obtain k a where x: "x = (k, a)" by fastforce
    have first: "tree_first (sc_tree s) = Some (k, a)" using Cons x by (simp add: task_order.tree_first_hd pending_def)
    have ta: "tk_key (sc_task s a) = k" "tk_deadline (sc_task s a) = fst k"
      using Suc.prems(1) Cons x by (auto simp: sched_ok_def)
    show ?thesis
    proof (cases "due check_now limit (clock (sc_env s)) (fst k)")
      case False
      then obtain res' where "spin_loop (env_run f) clock limit check_now (Suc fuel) s res = Some (s, res')"
        using first ta by (auto simp: Let_def)
      moreover have "spun f clock limit check_now s s 0" using False Cons x by (simp add: spun_def env_after_def)
      ultimately show ?thesis by blast
    next
      case True
      define s1 where "s1 = s\<lparr>sc_tree := fst (tree_delete compare_task_key k (sc_tree s))\<rparr>"
      define s2 where "s2 = s1\<lparr>sc_env := env_call f (sc_task s a) (sc_env s1)\<rparr>"
      note r = removed_ok [OF Suc.prems(1), of k, folded s1_def]
      have "task_order.sorted_keys (pending s)" using Suc.prems(1) by (simp add: sched_ok_def task_order.tree_ok_def pending_def)
      then have "task_order.drop_key k (pending s) = xs"
        unfolding Cons x by (auto simp: task_order.sorted_Cons task_order.drop_key_def filter_id_conv dest: task_order.cmp_less_ne(1))
      then have p2: "pending s2 = xs" using r(2) by (simp add: s2_def pending_def)
      have ok2: "sched_ok s2" using r(1) by (auto simp: sched_ok_def s2_def pending_def)
      have e2: "sc_env s2 = env_call f (sc_task s a) (sc_env s)" "sc_task s2 = sc_task s" by (simp_all add: s2_def s1_def)
      obtain res1 where step: "spin_loop (env_run f) clock limit check_now (Suc fuel) s res
          = spin_loop (env_run f) clock limit check_now fuel s2 res1"
        using first ta True by (auto simp: Let_def call_env_run s2_def s1_def)
      have "length (pending s2) < fuel" using Suc.prems(2) p2 Cons by simp
      from Suc.IH [OF ok2 this, of res1] obtain s' res' n where
        ih: "spin_loop (env_run f) clock limit check_now fuel s2 res1 = Some (s', res')" "spun f clock limit check_now s2 s' n"
        by blast
      have ea: "env_after f s ((k, a) # ys) (sc_env s) = env_after f s2 ys (sc_env s2)" for ys
        by (simp add: env_after_def e2)
      have "spun f clock limit check_now s s' (Suc n)"
        unfolding spun_def
      proof (intro conjI allI impI)
        fix i assume i: "i < Suc n"
        show "due check_now limit (clock (env_after f s (take i (pending s)) (sc_env s))) (fst (fst (pending s ! i)))"
        proof (cases i)
          case 0
          then show ?thesis using True Cons x by (simp add: env_after_def)
        next
          case (Suc j)
          then show ?thesis using ih(2) i p2 Cons x ea by (simp add: spun_def)
        qed
      qed (use ih(2) p2 Cons x ea in \<open>auto simp: spun_def\<close>)
      with step ih(1) show ?thesis by auto
    qed
  qed
qed simp



text \<open>
  Cancelling a task twice is not harmless: the first call resets the key of the task to zeros, and the second one
  deletes whatever task has this key, the first one ever scheduled if its deadline is 0.
\<close>

lemma double_cancel_removes_other:
  "pending (fold sched_do [Schedule 0 (Some ''x''), Schedule 5 None, Cancel 1, Cancel 1] (sched_new ())) = []"
  "pending (fold sched_do [Schedule 0 (Some ''x''), Schedule 5 None, Cancel 1] (sched_new ())) = [((0, 0), 0)]"
  by code_simp+

end
