(* ===== verification/CyReliable.thy ===== *)
theory CyReliable
  imports CyGossip
begin

text \<open>
  Publishers (\<open>cy/publisher.go\<close>), reliable delivery on their side (\<open>ReliableDelivery\<close> of \<open>cy/reliable.go\<close>) and the
  futures of publications (\<open>cy/future.go\<close>). The futures are found by the tag of their message, as long as the application
  may hold them. A task given to the scheduler is logged with its time; the calls of a future's callback are logged with what
  the callback finds. The state is the instance and the publisher.
\<close>

subsection \<open>Futures\<close>

record publication_future =
  pf_done :: bool
  pf_err :: cy_error
  pf_has_callback :: bool
  pf_destroyed :: bool
  pf_tag :: u64
  pf_total :: nat
  pf_acked :: nat
  pf_acknowledged :: bool
  pf_calls :: "(bool \<times> cy_error) list"

definition new_publication_future :: "u64 \<Rightarrow> nat \<Rightarrow> publication_future" where
  "new_publication_future tag total_count =
    \<lparr>pf_done = False, pf_err = OK, pf_has_callback = False, pf_destroyed = False, pf_tag = tag, pf_total = total_count, pf_acked = 0,
     pf_acknowledged = False, pf_calls = []\<rparr>"

text \<open>The call of the callback, if there is one.\<close>

definition future_notify :: "publication_future \<Rightarrow> publication_future" where
  "future_notify f =
    (if pf_has_callback f \<and> \<not> pf_destroyed f then f\<lparr>pf_calls := pf_calls f @ [(pf_done f, pf_err f)]\<rparr> else f)"

definition future_complete :: "cy_error \<Rightarrow> publication_future \<Rightarrow> publication_future" where
  "future_complete e f = (if pf_done f then f else future_notify (f\<lparr>pf_done := True, pf_err := e\<rparr>))"

definition future_update_error :: "cy_error \<Rightarrow> publication_future \<Rightarrow> publication_future" where
  "future_update_error e f = (if pf_done f then f else future_notify (f\<lparr>pf_err := e\<rparr>))"

definition future_set_callback :: "publication_future \<Rightarrow> publication_future" where
  "future_set_callback f =
    (let f = f\<lparr>pf_has_callback := True\<rparr>
     in if pf_done f then f\<lparr>pf_calls := pf_calls f @ [(pf_done f, pf_err f)]\<rparr> else f)"

definition future_destroy :: "publication_future \<Rightarrow> publication_future" where
  "future_destroy f = (if pf_destroyed f then f else f\<lparr>pf_destroyed := True, pf_has_callback := False\<rparr>)"

definition new_failed_publication_future :: "cy_error \<Rightarrow> publication_future" where
  "new_failed_publication_future e = future_complete e (new_publication_future 0 0)"

definition future_ack :: "publication_future \<Rightarrow> publication_future" where
  "future_ack f =
    (if pf_done f then f
     else
       let f = f\<lparr>pf_acked := pf_acked f + 1, pf_acknowledged := True\<rparr>;
           should = (pf_acknowledged f \<and> pf_acked f \<ge> pf_total f)
       in if should then future_complete OK f else f)"

definition future_acknowledge :: "publication_future \<Rightarrow> publication_future" where
  "future_acknowledge f =
    (if pf_done f then f
     else
       let f = f\<lparr>pf_acknowledged := True\<rparr>;
           should = (pf_acknowledged f \<and> pf_acked f \<ge> pf_total f)
       in if should then future_complete OK f else f)"

subsection \<open>Publishers\<close>

record association =
  as_remote_id :: u64
  as_last_ack_tag :: u64
  as_last_nack_tag :: u64
  as_last_activity :: microsecond

record reliable_message =
  rm_tag :: u64
  rm_wire :: bytes
  rm_deadline :: microsecond
  rm_ack_timeout :: microsecond
  rm_sent_at :: microsecond
  rm_retry_count :: nat
  rm_remaining :: "u64 list"
  rm_acknowledged :: bool

datatype pub_task = HandleTimeout u64 | Materialize u64

record publisher =
  pb_topic :: nat
  pb_priority :: u8
  pb_ack_timeout :: microsecond
  pb_response_extent :: int
  pb_tag_baseline :: u64
  pb_seqno :: u64
  pb_destroyed :: bool
  pb_associations :: "(u64 \<times> association) list"
  pb_pending :: "(u64 \<times> reliable_message) list"
  pb_rd_timeout :: microsecond
  pb_future :: "u64 \<rightharpoonup> publication_future"
  pb_tasks :: "(microsecond \<times> pub_task) list"

record 'e pub_platform = "'e cy_platform" +
  pp_new_writer :: "u32 \<Rightarrow> 'e \<Rightarrow> 'e \<times> cy_error option"
  pp_destroy_writer :: "u32 \<Rightarrow> 'e \<Rightarrow> 'e"
  pp_unicast :: "u64 \<Rightarrow> u8 \<Rightarrow> microsecond \<Rightarrow> bytes \<Rightarrow> 'e \<Rightarrow> 'e \<times> cy_error option"

definition ack_baseline_default_timeout :: microsecond where "ack_baseline_default_timeout = 16 * 1000"

definition new_publisher :: "nat \<Rightarrow> u64 \<Rightarrow> publisher" where
  "new_publisher topic topic_hash =
    \<lparr>pb_topic = topic, pb_priority = 4, pb_ack_timeout = ack_baseline_default_timeout, pb_response_extent = 0,
     pb_tag_baseline = topic_hash OR 1, pb_seqno = 0, pb_destroyed = False, pb_associations = [], pb_pending = [],
     pb_rd_timeout = ack_baseline_default_timeout, pb_future = Map.empty, pb_tasks = []\<rparr>"

definition set_future :: "(publication_future \<Rightarrow> publication_future) \<Rightarrow> u64 \<Rightarrow> publisher \<Rightarrow> publisher" where
  "set_future g tag pb = pb\<lparr>pb_future := (pb_future pb)(tag := map_option g (pb_future pb tag))\<rparr>"

definition add_task :: "microsecond \<Rightarrow> pub_task \<Rightarrow> publisher \<Rightarrow> publisher" where
  "add_task at t pb = pb\<lparr>pb_tasks := pb_tasks pb @ [(at, t)]\<rparr>"

definition build_wire :: "('e, 'x) pub_platform_scheme \<Rightarrow> bytes \<Rightarrow> header_type \<Rightarrow> 'e cy \<Rightarrow> publisher \<Rightarrow> publisher \<times> (u64 \<times> bytes) cy_result" where
  "build_wire p data htype s pb =
    (if pb_destroyed pb then (pb, Inl ErrArgument)
     else
       let pb = pb\<lparr>pb_seqno := pb_seqno pb + 1\<rparr>;
           tag = pb_tag_baseline pb + pb_seqno pb;
           t = cy_topic s (pb_topic pb);
           header = new_header (type_byte htype) (word_of_int (topic_lage t (cp_now p (cy_env s)))) (t_evictions t) (t_hash t) tag
       in (pb, Inr (tag, prepend_header header data)))"

definition send_wire :: "('e, 'x) pub_platform_scheme \<Rightarrow> microsecond \<Rightarrow> bytes \<Rightarrow> publisher \<Rightarrow> 'e cy \<Rightarrow> 'e cy \<times> cy_error option" where
  "send_wire p deadline wire pb s =
    (let sid = t_sid (cy_topic s (pb_topic pb));
         (e, err) = pp_new_writer p sid (cy_env s)
     in case err of
          Some x \<Rightarrow> (s\<lparr>cy_env := e\<rparr>, Some x)
        | None \<Rightarrow>
            let (e, err) = cp_send p sid deadline (pb_priority pb) wire e
            in (s\<lparr>cy_env := pp_destroy_writer p sid e\<rparr>, err))"

definition pub_publish :: "('e, 'x) pub_platform_scheme \<Rightarrow> microsecond \<Rightarrow> bytes \<Rightarrow> 'e cy \<times> publisher \<Rightarrow> ('e cy \<times> publisher) \<times> cy_error option" where
  "pub_publish p deadline data st =
    (let (s, pb) = st
     in case build_wire p data HeaderTypeMsgBE s pb of
          (pb, Inl e) \<Rightarrow> ((s, pb), Some e)
        | (pb, Inr (tag, wire)) \<Rightarrow> let (s, err) = send_wire p deadline wire pb s in ((s, pb), err))"

subsection \<open>Reliable delivery\<close>

text \<open>Unicast to the only remote that is awaited, multicast otherwise.\<close>

definition rd_send :: "('e, 'x) pub_platform_scheme \<Rightarrow> reliable_message \<Rightarrow> publisher \<Rightarrow> 'e cy \<Rightarrow> 'e cy \<times> cy_error option" where
  "rd_send p rm pb s =
    (if length (rm_remaining rm) = 1
     then (let (e, err) = pp_unicast p (hd (rm_remaining rm)) (pb_priority pb) (rm_deadline rm) (rm_wire rm) (cy_env s)
           in (s\<lparr>cy_env := e\<rparr>, err))
     else send_wire p (rm_deadline rm) (rm_wire rm) pb s)"

definition rd_arm_timeout :: "('e, 'x) pub_platform_scheme \<Rightarrow> reliable_message \<Rightarrow> 'e cy \<Rightarrow> publisher \<Rightarrow> publisher" where
  "rd_arm_timeout p rm s pb =
    (let nxt = cp_now p (cy_env s) + rm_ack_timeout rm;
         nxt = (if rm_deadline rm <s nxt then rm_deadline rm else nxt)
     in add_task nxt (HandleTimeout (rm_tag rm)) pb)"

text \<open>The result is the tag of the message, or the error of a future that has failed.\<close>

definition rd_publish :: "('e, 'x) pub_platform_scheme \<Rightarrow> microsecond \<Rightarrow> bytes \<Rightarrow> 'e cy \<times> publisher \<Rightarrow> ('e cy \<times> publisher) \<times> (cy_error + u64)" where
  "rd_publish p deadline data st =
    (let (s, pb) = st
     in case build_wire p data HeaderTypeMsgRel s pb of
          (pb, Inl e) \<Rightarrow> ((s, pb), Inl e)
        | (pb, Inr (tag, wire)) \<Rightarrow>
            let remaining = map fst (pb_associations pb);
                rm = \<lparr>rm_tag = tag, rm_wire = wire, rm_deadline = deadline, rm_ack_timeout = pb_rd_timeout pb,
                      rm_sent_at = cp_now p (cy_env s), rm_retry_count = 0, rm_remaining = remaining, rm_acknowledged = False\<rparr>;
                (s, err) = rd_send p rm pb s
            in (case err of
                  Some e \<Rightarrow> ((s, pb\<lparr>pb_pending := AList.delete tag (pb_pending pb)\<rparr>), Inl e)
                | None \<Rightarrow>
                    let pb = pb\<lparr>pb_pending := AList.update tag rm (pb_pending pb),
                           pb_future := (pb_future pb)(tag \<mapsto> new_publication_future tag (length remaining))\<rparr>;
                        pb = rd_arm_timeout p rm s pb;
                        pb = add_task deadline (Materialize tag) pb
                    in ((s, pb), Inr tag)))"

definition publish_reliable :: "('e, 'x) pub_platform_scheme \<Rightarrow> microsecond \<Rightarrow> bytes \<Rightarrow> 'e cy \<times> publisher
    \<Rightarrow> ('e cy \<times> publisher) \<times> (cy_error + u64) option" where
  "publish_reliable p deadline data st =
    (if pb_destroyed (snd st) then (st, None) else (let (st, r) = rd_publish p deadline data st in (st, Some r)))"

definition rd_handle_timeout :: "('e, 'x) pub_platform_scheme \<Rightarrow> u64 \<Rightarrow> 'e cy \<times> publisher \<Rightarrow> 'e cy \<times> publisher" where
  "rd_handle_timeout p tag st =
    (let (s, pb) = st
     in case map_of (pb_pending pb) tag of
          None \<Rightarrow> (s, pb)
        | Some rm \<Rightarrow>
            if rm_deadline rm \<le>s cp_now p (cy_env s) then (s, pb)
            else
              let rm = rm\<lparr>rm_ack_timeout := rm_ack_timeout rm * 2, rm_retry_count := rm_retry_count rm + 1, rm_sent_at := cp_now p (cy_env s)\<rparr>;
                  pb = set_future (future_update_error ErrLag) tag (pb\<lparr>pb_pending := AList.update tag rm (pb_pending pb)\<rparr>);
                  (s, err) = rd_send p rm pb s
              in (case err of Some e \<Rightarrow> (s, pb) | None \<Rightarrow> (s, rd_arm_timeout p rm s pb)))"

definition rd_materialize :: "u64 \<Rightarrow> publisher \<Rightarrow> publisher" where
  "rd_materialize tag pb =
    (case map_of (pb_pending pb) tag of
       None \<Rightarrow> pb
     | Some rm \<Rightarrow>
         let pb = pb\<lparr>pb_pending := AList.delete tag (pb_pending pb)\<rparr>
         in if rm_acknowledged rm \<and> length (rm_remaining rm) = 0 then set_future (future_complete OK) tag pb
            else set_future (future_complete ErrDelivery) tag pb)"

definition rd_handle_ack :: "u64 \<Rightarrow> u64 \<Rightarrow> publisher \<Rightarrow> publisher" where
  "rd_handle_ack remote_id tag pb =
    (case map_of (pb_pending pb) tag of
       None \<Rightarrow> pb
     | Some rm \<Rightarrow>
         let known = (remote_id \<in> set (rm_remaining rm));
             rm = rm\<lparr>rm_acknowledged := True, rm_remaining := removeAll remote_id (rm_remaining rm)\<rparr>;
             pb = pb\<lparr>pb_pending := AList.update tag rm (pb_pending pb)\<rparr>
         in if known then set_future future_ack tag pb else set_future future_acknowledge tag pb)"

definition rd_handle_nack :: "u64 \<Rightarrow> u64 \<Rightarrow> publisher \<Rightarrow> publisher" where
  "rd_handle_nack remote_id tag pb = pb"

definition rd_add_association :: "u64 \<Rightarrow> microsecond \<Rightarrow> publisher \<Rightarrow> publisher" where
  "rd_add_association remote_id now pb =
    (case map_of (pb_associations pb) remote_id of
       Some _ \<Rightarrow> pb
     | None \<Rightarrow> pb\<lparr>pb_associations := AList.update remote_id
         \<lparr>as_remote_id = remote_id, as_last_ack_tag = 0, as_last_nack_tag = 0, as_last_activity = now\<rparr> (pb_associations pb)\<rparr>)"

definition rd_remove_association :: "u64 \<Rightarrow> publisher \<Rightarrow> publisher" where
  "rd_remove_association remote_id pb = pb\<lparr>pb_associations := AList.delete remote_id (pb_associations pb)\<rparr>"

definition rd_cleanup :: "microsecond \<Rightarrow> publisher \<Rightarrow> publisher" where
  "rd_cleanup now pb =
    pb\<lparr>pb_associations := filter (\<lambda>(r, assoc). \<not> session_lifetime <s now - as_last_activity assoc) (pb_associations pb)\<rparr>"

definition rd_cancel :: "publisher \<Rightarrow> publisher" where
  "rd_cancel pb =
    (let pb = fold (\<lambda>(tag, rm) pb. (set_future (future_complete ErrNACK) tag pb)) (pb_pending pb) pb
     in pb\<lparr>pb_pending := [], pb_associations := []\<rparr>)"

definition pub_destroy :: "publisher \<Rightarrow> publisher" where
  "pub_destroy pb = (if pb_destroyed pb then pb else rd_cancel (pb\<lparr>pb_destroyed := True\<rparr>))"

subsection \<open>The outcome of a publication\<close>

text \<open>What may happen to a publisher after a publication.\<close>

datatype pub_event = Acked u64 u64 | Nacked u64 u64 | TimedOut u64 | Materialized u64 | AddAssociation u64 | RemoveAssociation u64
  | CleanedUp | PublishReliable microsecond bytes | PublishPlain microsecond bytes

fun pub_step :: "('e, 'x) pub_platform_scheme \<Rightarrow> pub_event \<Rightarrow> 'e cy \<times> publisher \<Rightarrow> 'e cy \<times> publisher" where
  "pub_step p (Acked r tag) (s, pb) = (s, rd_handle_ack r tag pb)"
| "pub_step p (Nacked r tag) (s, pb) = (s, rd_handle_nack r tag pb)"
| "pub_step p (TimedOut tag) (s, pb) = rd_handle_timeout p tag (s, pb)"
| "pub_step p (Materialized tag) (s, pb) = (s, rd_materialize tag pb)"
| "pub_step p (AddAssociation r) (s, pb) = (s, rd_add_association r (cp_now p (cy_env s)) pb)"
| "pub_step p (RemoveAssociation r) (s, pb) = (s, rd_remove_association r pb)"
| "pub_step p CleanedUp (s, pb) = (s, rd_cleanup (cp_now p (cy_env s)) pb)"
| "pub_step p (PublishReliable d data) (s, pb) = fst (rd_publish p d data (s, pb))"
| "pub_step p (PublishPlain d data) (s, pb) = fst (pub_publish p d data (s, pb))"

definition pub_run :: "('e, 'x) pub_platform_scheme \<Rightarrow> pub_event list \<Rightarrow> 'e cy \<times> publisher \<Rightarrow> 'e cy \<times> publisher" where
  "pub_run p evs st = fold (pub_step p) evs st"

text \<open>The remotes that acknowledged a tag, and when that is enough.\<close>

definition ackers :: "u64 \<Rightarrow> pub_event list \<Rightarrow> u64 set" where
  "ackers tag evs = {r. Acked r tag \<in> set evs}"

definition enough :: "u64 set \<Rightarrow> u64 set \<Rightarrow> bool" where
  "enough known acked \<longleftrightarrow> acked \<noteq> {} \<and> known \<subseteq> acked"

text \<open>The state of a message and of its future, for the remotes known at its publication and those that acknowledged.\<close>

definition tracks :: "u64 \<Rightarrow> u64 set \<Rightarrow> u64 set \<Rightarrow> publisher \<Rightarrow> bool" where
  "tracks tag known acked pb \<longleftrightarrow> (\<exists>rm f. map_of (pb_pending pb) tag = Some rm \<and> pb_future pb tag = Some f
     \<and> distinct (rm_remaining rm) \<and> set (rm_remaining rm) = known - acked \<and> (rm_acknowledged rm \<longleftrightarrow> acked \<noteq> {})
     \<and> (pf_done f \<longleftrightarrow> enough known acked) \<and> (pf_done f \<longrightarrow> pf_err f = OK)
     \<and> (\<not> pf_done f \<longrightarrow> pf_total f = card known \<and> pf_acked f = card (known \<inter> acked)))"

lemma notify_fields [simp]:
  "pf_done (future_notify f) = pf_done f" "pf_err (future_notify f) = pf_err f" "pf_total (future_notify f) = pf_total f"
  "pf_acked (future_notify f) = pf_acked f" "pf_acknowledged (future_notify f) = pf_acknowledged f"
  by (simp_all add: future_notify_def)

lemma enough_iff:
  assumes "finite known" "acked \<noteq> {}"
  shows "enough known acked \<longleftrightarrow> card known \<le> card (known \<inter> acked)"
proof -
  have "known \<inter> acked = known" if "card known \<le> card (known \<inter> acked)"
    using that assms(1) by (metis card_seteq inf_le1)
  then show ?thesis using assms by (auto simp: enough_def inf_absorb1)
qed

lemma tracks_ack:
  assumes "tracks tag known acked pb" "finite known"
  shows "tracks tag known (insert r acked) (rd_handle_ack r tag pb)"
proof -
  obtain rm f where t: "map_of (pb_pending pb) tag = Some rm" "pb_future pb tag = Some f" "distinct (rm_remaining rm)"
      "set (rm_remaining rm) = known - acked" "pf_done f \<longleftrightarrow> enough known acked" "pf_done f \<longrightarrow> pf_err f = OK"
      "\<not> pf_done f \<longrightarrow> pf_total f = card known \<and> pf_acked f = card (known \<inter> acked)"
    using assms(1) by (auto simp: tracks_def)
  have mono: "enough known acked \<Longrightarrow> enough known (insert r acked)" by (auto simp: enough_def)
  have e: "enough known (insert r acked) \<longleftrightarrow> card known \<le> card (known \<inter> insert r acked)"
    using assms(2) by (rule enough_iff) simp
  show ?thesis
  proof (cases "r \<in> known - acked")
    case True
    then have c: "card (known \<inter> insert r acked) = card (known \<inter> acked) + 1" using assms(2) by (simp add: Int_insert_right)
    show ?thesis using True t mono e c
      by (auto simp: tracks_def rd_handle_ack_def set_future_def Let_def future_ack_def future_complete_def update_conv' distinct_removeAll)
  next
    case False
    then have c: "known \<inter> insert r acked = known \<inter> acked" by auto
    show ?thesis using False t mono e c
      by (auto simp: tracks_def rd_handle_ack_def set_future_def Let_def future_acknowledge_def future_complete_def update_conv' distinct_removeAll)
  qed
qed

lemma tracks_cong:
  assumes "tracks tag known acked pb" "map_of (pb_pending pb') tag = map_of (pb_pending pb) tag" "pb_future pb' tag = pb_future pb tag"
  shows "tracks tag known acked pb'"
  using assms by (simp add: tracks_def)

lemma ack_other: "t \<noteq> tag \<Longrightarrow> map_of (pb_pending (rd_handle_ack r t pb)) tag = map_of (pb_pending pb) tag
    \<and> pb_future (rd_handle_ack r t pb) tag = pb_future pb tag"
  by (auto simp: rd_handle_ack_def set_future_def Let_def update_conv' split: option.split)

lemma materialize_other: "t \<noteq> tag \<Longrightarrow> map_of (pb_pending (rd_materialize t pb)) tag = map_of (pb_pending pb) tag
    \<and> pb_future (rd_materialize t pb) tag = pb_future pb tag"
  by (auto simp: rd_materialize_def set_future_def Let_def delete_conv' split: option.split)

lemma timeout_other: "t \<noteq> tag \<Longrightarrow> map_of (pb_pending (snd (rd_handle_timeout p t (s, pb)))) tag = map_of (pb_pending pb) tag
    \<and> pb_future (snd (rd_handle_timeout p t (s, pb))) tag = pb_future pb tag"
  by (auto simp: rd_handle_timeout_def set_future_def Let_def update_conv' rd_arm_timeout_def add_task_def split: option.split prod.split)

lemma tracks_timeout:
  assumes "tracks tag known acked pb"
  shows "tracks tag known acked (snd (rd_handle_timeout p tag (s, pb)))"
  using assms
  by (auto simp: tracks_def rd_handle_timeout_def set_future_def Let_def update_conv' rd_arm_timeout_def add_task_def
      future_update_error_def split: option.split prod.split)

text \<open>Another publication uses another tag while the sequence numbers do not wrap.\<close>

lemma publish_seqno:
  "pb_seqno (snd (fst (rd_publish p d data (s, pb)))) \<in> {pb_seqno pb, pb_seqno pb + 1}"
  "pb_tag_baseline (snd (fst (rd_publish p d data (s, pb)))) = pb_tag_baseline pb"
  by (auto simp: rd_publish_def build_wire_def rd_arm_timeout_def add_task_def Let_def split: prod.splits option.splits)

lemma publish_other:
  assumes "tag \<noteq> pb_tag_baseline pb + (pb_seqno pb + 1)"
  shows "map_of (pb_pending (snd (fst (rd_publish p d data (s, pb))))) tag = map_of (pb_pending pb) tag
    \<and> pb_future (snd (fst (rd_publish p d data (s, pb)))) tag = pb_future pb tag"
  using assms
  by (auto simp: rd_publish_def build_wire_def rd_arm_timeout_def add_task_def Let_def delete_conv' update_conv' split: prod.splits option.splits)

lemma plain_publish_fields:
  "pb_pending (snd (fst (pub_publish p d data (s, pb)))) = pb_pending pb"
  "pb_future (snd (fst (pub_publish p d data (s, pb)))) = pb_future pb"
  "pb_tag_baseline (snd (fst (pub_publish p d data (s, pb)))) = pb_tag_baseline pb"
  "pb_seqno (snd (fst (pub_publish p d data (s, pb)))) \<in> {pb_seqno pb, pb_seqno pb + 1}"
  by (auto simp: pub_publish_def build_wire_def Let_def split: prod.splits)

lemma step_seqno:
  "pb_seqno (snd (pub_step p ev (s, pb))) \<in> {pb_seqno pb, pb_seqno pb + 1}
   \<and> pb_tag_baseline (snd (pub_step p ev (s, pb))) = pb_tag_baseline pb"
proof (cases ev)
  case (PublishReliable d data)
  then show ?thesis using publish_seqno [of p d data s pb] by simp
next
  case (PublishPlain d data)
  then show ?thesis using plain_publish_fields [of p d data s pb] by simp
qed (auto simp: rd_handle_ack_def rd_handle_nack_def rd_handle_timeout_def rd_materialize_def rd_add_association_def
    rd_remove_association_def rd_cleanup_def set_future_def rd_arm_timeout_def add_task_def Let_def split: option.splits prod.splits)

lemma step_tracks:
  assumes "tracks tag known acked pb" "finite known" "ev \<noteq> Materialized tag"
    and "tag \<noteq> pb_tag_baseline pb + (pb_seqno pb + 1)"
  shows "tracks tag known (acked \<union> ackers tag [ev]) (snd (pub_step p ev (s, pb)))"
proof (cases ev)
  case (Acked r t)
  show ?thesis
  proof (cases "t = tag")
    case True
    then have "ackers tag [ev] = {r}" by (auto simp: ackers_def Acked)
    then show ?thesis using tracks_ack [OF assms(1, 2), of r] by (simp add: Acked True)
  next
    case False
    then have "ackers tag [ev] = {}" by (auto simp: ackers_def Acked)
    then show ?thesis using tracks_cong [OF assms(1)] ack_other [OF False] by (simp add: Acked)
  qed
next
  case (TimedOut t)
  then show ?thesis
    using tracks_timeout [OF assms(1), of p s] tracks_cong [OF assms(1)] timeout_other [of t tag p s pb]
    by (cases "t = tag") (simp_all add: ackers_def)
next
  case (Materialized t)
  then show ?thesis using assms(3) tracks_cong [OF assms(1)] materialize_other [of t tag pb] by (simp add: ackers_def)
next
  case (PublishReliable d data)
  then show ?thesis using tracks_cong [OF assms(1)] publish_other [OF assms(4), of p d data s] by (simp add: ackers_def)
next
  case (PublishPlain d data)
  then show ?thesis using tracks_cong [OF assms(1)] plain_publish_fields [of p d data s pb] by (simp add: ackers_def)
qed (use tracks_cong [OF assms(1)] in \<open>simp_all add: ackers_def rd_handle_nack_def rd_add_association_def rd_remove_association_def
      rd_cleanup_def split: option.split\<close>)

lemma run_tracks:
  assumes "tracks tag known acked pb" "finite known" "Materialized tag \<notin> set evs"
    and "tag = pb_tag_baseline pb + k" "unat k \<le> unat (pb_seqno pb)" "unat (pb_seqno pb) + length evs < 2 ^ 64"
  shows "tracks tag known (acked \<union> ackers tag evs) (snd (pub_run p evs (s, pb)))"
  using assms
proof (induction evs arbitrary: acked s pb)
  case (Cons ev evs)
  obtain s1 pb1 where st: "pub_step p ev (s, pb) = (s1, pb1)" by fastforce
  note q = step_seqno [of p ev s pb, unfolded st]
  have u: "unat (pb_seqno pb + 1) = unat (pb_seqno pb) + 1"
    using Cons.prems(6) by (simp add: unat_word_ariths)
  have "k \<noteq> pb_seqno pb + 1" using Cons.prems(5) u by auto
  then have ne: "tag \<noteq> pb_tag_baseline pb + (pb_seqno pb + 1)" using Cons.prems(4) by simp
  have t1: "tracks tag known (acked \<union> ackers tag [ev]) pb1"
    using step_tracks [OF Cons.prems(1, 2) _ ne, of ev p s] Cons.prems(3) st by auto
  have b: "unat (pb_seqno pb1) \<in> {unat (pb_seqno pb), unat (pb_seqno pb) + 1}" using q u by auto
  have t2: "tag = pb_tag_baseline pb1 + k" "unat k \<le> unat (pb_seqno pb1)" "unat (pb_seqno pb1) + length evs < 2 ^ 64"
    using Cons.prems(4, 5, 6) q b by auto
  have "ackers tag (ev # evs) = ackers tag [ev] \<union> ackers tag evs" by (auto simp: ackers_def)
  then show ?case
    using Cons.IH [OF t1 Cons.prems(2) _ t2, of s1] Cons.prems(3) st by (simp add: pub_run_def Un_assoc)
qed (simp add: pub_run_def ackers_def)

lemma publish_tracks:
  assumes "rd_publish p d data (s, pb) = ((s1, pb1), Inr tag)" "distinct (map fst (pb_associations pb))"
  shows "tracks tag (set (map fst (pb_associations pb))) {} pb1" "tag = pb_tag_baseline pb1 + pb_seqno pb1"
proof -
  have c: "length (pb_associations pb) = card (fst ` set (pb_associations pb))" using distinct_card [OF assms(2)] by simp
  show "tracks tag (set (map fst (pb_associations pb))) {} pb1" "tag = pb_tag_baseline pb1 + pb_seqno pb1"
    using assms c
    by (auto simp: rd_publish_def build_wire_def rd_arm_timeout_def add_task_def Let_def tracks_def update_conv' new_publication_future_def
        enough_def split: prod.splits option.splits if_splits)
qed


text \<open>A publisher with one associated remote, 9.\<close>

definition demo_platform :: "unit pub_platform" where
  "demo_platform = \<lparr>cp_now = (\<lambda>_. 7), cp_new_reader = (\<lambda>_ _ e. (e, True)), cp_destroy_reader = (\<lambda>_ e. e),
     cp_send = (\<lambda>_ _ _ _ e. (e, None)), pp_new_writer = (\<lambda>_ e. (e, None)), pp_destroy_writer = (\<lambda>_ e. e),
     pp_unicast = (\<lambda>_ _ _ _ e. (e, None))\<rparr>"

definition demo_publisher :: publisher where
  "demo_publisher = rd_add_association 9 7 (new_publisher 0 4)"

lemma demo_published:
  "\<exists>pb1. rd_publish demo_platform 1000 [1] (contention, demo_publisher) = ((contention, pb1), Inr 6) \<and> pb_seqno pb1 = 1"
  by (simp add: rd_publish_def build_wire_def demo_publisher_def rd_add_association_def new_publisher_def rd_send_def demo_platform_def
      contention_def rd_arm_timeout_def add_task_def Let_def)


text \<open>
  A message stays pending after it was acknowledged by all: its timeouts go on retransmitting it, by multicast, until
  its deadline.
\<close>

lemma acknowledged_still_retransmitted:
  assumes "tracks tag known acked pb" "known \<subseteq> acked" "acked \<noteq> {}"
    and "map_of (pb_pending pb) tag = Some rm" "\<not> rm_deadline rm \<le>s cp_now p (cy_env s)"
  shows "fst (rd_handle_timeout p tag (s, pb)) = fst (send_wire p (rm_deadline rm) (rm_wire rm) pb s)"
proof -
  have "set (rm_remaining rm) = {}" using assms(1, 2, 4) unfolding tracks_def by (metis Diff_eq_empty_iff option.inject)
  then have "rm_remaining rm = []" by simp
  then show ?thesis using assms(4, 5)
    by (simp add: rd_handle_timeout_def rd_send_def Let_def send_wire_def set_future_def split: prod.split option.split)
qed

end
