(* ===== verification/CyUdpWire.thy ===== *)
theory CyUdpWire
  imports CyHeader
begin

text \<open>
  The wire format of \<open>cy/udp/platform.go\<close>: the CRC-32C with its table, the 32-byte frame header with its
  own checksum, and the network addresses with their encoding in the context of a lane. Shown here: the
  table is the bit-serial division by the Castagnoli polynomial, a buffer followed by its checksum
  has the fixed residue the receiver looks for, and a datagram is parsed to the header and payload it was made of.
\<close>

subsection \<open>CRC-32C\<close>

definition crc32c_residue :: u32 where "crc32c_residue = 0xB798B438 XOR 0xFFFFFFFF"

definition crc32c_table :: "u32 list" where
  "crc32c_table =
   [0x00000000, 0xF26B8303, 0xE13B70F7, 0x1350F3F4, 0xC79A971F, 0x35F1141C, 0x26A1E7E8, 0xD4CA64EB,
    0x8AD958CF, 0x78B2DBCC, 0x6BE22838, 0x9989AB3B, 0x4D43CFD0, 0xBF284CD3, 0xAC78BF27, 0x5E133C24,
    0x105EC76F, 0xE235446C, 0xF165B798, 0x030E349B, 0xD7C45070, 0x25AFD373, 0x36FF2087, 0xC494A384,
    0x9A879FA0, 0x68EC1CA3, 0x7BBCEF57, 0x89D76C54, 0x5D1D08BF, 0xAF768BBC, 0xBC267848, 0x4E4DFB4B,
    0x20BD8EDE, 0xD2D60DDD, 0xC186FE29, 0x33ED7D2A, 0xE72719C1, 0x154C9AC2, 0x061C6936, 0xF477EA35,
    0xAA64D611, 0x580F5512, 0x4B5FA6E6, 0xB93425E5, 0x6DFE410E, 0x9F95C20D, 0x8CC531F9, 0x7EAEB2FA,
    0x30E349B1, 0xC288CAB2, 0xD1D83946, 0x23B3BA45, 0xF779DEAE, 0x05125DAD, 0x1642AE59, 0xE4292D5A,
    0xBA3A117E, 0x4851927D, 0x5B016189, 0xA96AE28A, 0x7DA08661, 0x8FCB0562, 0x9C9BF696, 0x6EF07595,
    0x417B1DBC, 0xB3109EBF, 0xA0406D4B, 0x522BEE48, 0x86E18AA3, 0x748A09A0, 0x67DAFA54, 0x95B17957,
    0xCBA24573, 0x39C9C670, 0x2A993584, 0xD8F2B687, 0x0C38D26C, 0xFE53516F, 0xED03A29B, 0x1F682198,
    0x5125DAD3, 0xA34E59D0, 0xB01EAA24, 0x42752927, 0x96BF4DCC, 0x64D4CECF, 0x77843D3B, 0x85EFBE38,
    0xDBFC821C, 0x2997011F, 0x3AC7F2EB, 0xC8AC71E8, 0x1C661503, 0xEE0D9600, 0xFD5D65F4, 0x0F36E6F7,
    0x61C69362, 0x93AD1061, 0x80FDE395, 0x72966096, 0xA65C047D, 0x5437877E, 0x4767748A, 0xB50CF789,
    0xEB1FCBAD, 0x197448AE, 0x0A24BB5A, 0xF84F3859, 0x2C855CB2, 0xDEEEDFB1, 0xCDBE2C45, 0x3FD5AF46,
    0x7198540D, 0x83F3D70E, 0x90A324FA, 0x62C8A7F9, 0xB602C312, 0x44694011, 0x5739B3E5, 0xA55230E6,
    0xFB410CC2, 0x092A8FC1, 0x1A7A7C35, 0xE811FF36, 0x3CDB9BDD, 0xCEB018DE, 0xDDE0EB2A, 0x2F8B6829,
    0x82F63B78, 0x709DB87B, 0x63CD4B8F, 0x91A6C88C, 0x456CAC67, 0xB7072F64, 0xA457DC90, 0x563C5F93,
    0x082F63B7, 0xFA44E0B4, 0xE9141340, 0x1B7F9043, 0xCFB5F4A8, 0x3DDE77AB, 0x2E8E845F, 0xDCE5075C,
    0x92A8FC17, 0x60C37F14, 0x73938CE0, 0x81F80FE3, 0x55326B08, 0xA759E80B, 0xB4091BFF, 0x466298FC,
    0x1871A4D8, 0xEA1A27DB, 0xF94AD42F, 0x0B21572C, 0xDFEB33C7, 0x2D80B0C4, 0x3ED04330, 0xCCBBC033,
    0xA24BB5A6, 0x502036A5, 0x4370C551, 0xB11B4652, 0x65D122B9, 0x97BAA1BA, 0x84EA524E, 0x7681D14D,
    0x2892ED69, 0xDAF96E6A, 0xC9A99D9E, 0x3BC21E9D, 0xEF087A76, 0x1D63F975, 0x0E330A81, 0xFC588982,
    0xB21572C9, 0x407EF1CA, 0x532E023E, 0xA145813D, 0x758FE5D6, 0x87E466D5, 0x94B49521, 0x66DF1622,
    0x38CC2A06, 0xCAA7A905, 0xD9F75AF1, 0x2B9CD9F2, 0xFF56BD19, 0x0D3D3E1A, 0x1E6DCDEE, 0xEC064EED,
    0xC38D26C4, 0x31E6A5C7, 0x22B65633, 0xD0DDD530, 0x0417B1DB, 0xF67C32D8, 0xE52CC12C, 0x1747422F,
    0x49547E0B, 0xBB3FFD08, 0xA86F0EFC, 0x5A048DFF, 0x8ECEE914, 0x7CA56A17, 0x6FF599E3, 0x9D9E1AE0,
    0xD3D3E1AB, 0x21B862A8, 0x32E8915C, 0xC083125F, 0x144976B4, 0xE622F5B7, 0xF5720643, 0x07198540,
    0x590AB964, 0xAB613A67, 0xB831C993, 0x4A5A4A90, 0x9E902E7B, 0x6CFBAD78, 0x7FAB5E8C, 0x8DC0DD8F,
    0xE330A81A, 0x115B2B19, 0x020BD8ED, 0xF0605BEE, 0x24AA3F05, 0xD6C1BC06, 0xC5914FF2, 0x37FACCF1,
    0x69E9F0D5, 0x9B8273D6, 0x88D28022, 0x7AB90321, 0xAE7367CA, 0x5C18E4C9, 0x4F48173D, 0xBD23943E,
    0xF36E6F75, 0x0105EC76, 0x12551F82, 0xE03E9C81, 0x34F4F86A, 0xC69F7B69, 0xD5CF889D, 0x27A40B9E,
    0x79B737BA, 0x8BDCB4B9, 0x988C474D, 0x6AE7C44E, 0xBE2DA0A5, 0x4C4623A6, 0x5F16D052, 0xAD7D5351]"

definition crc32c_step :: "byte \<Rightarrow> u32 \<Rightarrow> u32" where
  "crc32c_step b crc = drop_bit 8 crc XOR crc32c_table ! unat ((b XOR ucast crc) AND 0xFF)"

definition crc32c :: "bytes \<Rightarrow> u32" where
  "crc32c data = fold crc32c_step data 0xFFFFFFFF XOR 0xFFFFFFFF"

text \<open>One bit of the reflected division.\<close>

definition crc32c_shift :: "u32 \<Rightarrow> u32" where
  "crc32c_shift c = (if bit c 0 then drop_bit 1 c XOR 0x82F63B78 else drop_bit 1 c)"

text \<open>The table is checked against its eight generators: the entry of a sum of powers of two is the sum of theirs.\<close>

definition crc32c_double :: "u32 \<Rightarrow> u32 list \<Rightarrow> u32 list" where
  "crc32c_double p xs = xs @ map ((XOR) p) xs"

lemma crc32c_table_doubling:
  "crc32c_table = fold crc32c_double [0xF26B8303, 0xE13B70F7, 0xC79A971F, 0x8AD958CF, 0x105EC76F, 0x20BD8EDE, 0x417B1DBC, 0x82F63B78] [0]"
  by (simp add: crc32c_table_def crc32c_double_def)

lemma crc32c_generators:
  "(crc32c_shift ^^ 8) 1 = 0xF26B8303" "(crc32c_shift ^^ 8) 2 = 0xE13B70F7" "(crc32c_shift ^^ 8) 4 = 0xC79A971F"
  "(crc32c_shift ^^ 8) 8 = 0x8AD958CF" "(crc32c_shift ^^ 8) 16 = 0x105EC76F" "(crc32c_shift ^^ 8) 32 = 0x20BD8EDE"
  "(crc32c_shift ^^ 8) 64 = 0x417B1DBC" "(crc32c_shift ^^ 8) 128 = 0x82F63B78"
  by code_simp+

lemma crc32c_shift_xor: "crc32c_shift (a XOR b) = crc32c_shift a XOR crc32c_shift b"
  by (cases "bit a 0"; cases "bit b 0")
    (simp_all add: crc32c_shift_def bit_xor_iff drop_bit_xor xor.assoc xor.left_commute xor.commute)

lemma crc32c_shift_pow_xor: "(crc32c_shift ^^ n) (a XOR b) = (crc32c_shift ^^ n) a XOR (crc32c_shift ^^ n) b"
  by (induction n) (simp_all add: crc32c_shift_xor)

lemma crc32c_shift_0 [simp]: "(crc32c_shift ^^ n) 0 = 0"
  by (induction n) (simp_all add: crc32c_shift_def)

definition crc32c_entries :: "nat \<Rightarrow> u32 list" where
  "crc32c_entries n = map (\<lambda>i. (crc32c_shift ^^ 8) (of_nat i)) [0..<n]"

lemma of_nat_add_power:
  assumes "i < 2 ^ k" shows "(of_nat (2 ^ k + i) :: u32) = of_nat (2 ^ k) XOR of_nat i"
proof -
  have "of_nat (2 ^ k + i) = (of_nat (2 ^ k) + of_nat i :: u32)" by simp
  also have "\<dots> = of_nat (2 ^ k) OR of_nat i"
    using assms by (intro disjunctive_add) (auto simp: bit_simps bit_nat_def dest: less_imp_not_eq)
  also have "\<dots> = of_nat (2 ^ k) XOR of_nat i"
    using assms by (intro bit_word_eqI) (auto simp: bit_simps bit_nat_def)
  finally show ?thesis .
qed

lemma crc32c_double_entries: "crc32c_double ((crc32c_shift ^^ 8) (of_nat (2 ^ k))) (crc32c_entries (2 ^ k)) = crc32c_entries (2 ^ Suc k)"
proof -
  have "map ((XOR) ((crc32c_shift ^^ 8) (of_nat (2 ^ k)))) (crc32c_entries (2 ^ k))
      = map (\<lambda>i. (crc32c_shift ^^ 8) (of_nat (2 ^ k + i))) [0..<2 ^ k]"
    unfolding crc32c_entries_def by (simp add: of_nat_add_power crc32c_shift_pow_xor del: of_nat_add)
  also have "\<dots> = map (\<lambda>i. (crc32c_shift ^^ 8) (of_nat i)) [2 ^ k..<2 ^ k + 2 ^ k]"
    by (intro nth_equalityI) (simp_all del: of_nat_add)
  finally show ?thesis
    by (simp add: crc32c_double_def crc32c_entries_def upt_add_eq_append [of 0, simplified] mult_2)
qed

lemma crc32c_table_eq: "crc32c_table = crc32c_entries 256"
proof -
  have "crc32c_entries 1 = [0]" by (simp add: crc32c_entries_def)
  then show ?thesis
    unfolding crc32c_table_doubling crc32c_generators [symmetric]
    using crc32c_double_entries [of 0] crc32c_double_entries [of 1] crc32c_double_entries [of 2] crc32c_double_entries [of 3]
      crc32c_double_entries [of 4] crc32c_double_entries [of 5] crc32c_double_entries [of 6] crc32c_double_entries [of 7]
    by simp
qed

text \<open>Bits above the low ones are shifted down without a reduction.\<close>

lemma crc32c_shift_high:
  assumes "\<And>j. 32 - n \<le> j \<Longrightarrow> \<not> bit (y :: u32) j" "n \<le> 32"
  shows "(crc32c_shift ^^ n) (push_bit n y) = y"
  using assms
proof (induction n)
  case (Suc n)
  have "drop_bit 1 (push_bit (Suc n) y) = push_bit n y"
  proof (rule bit_word_eqI)
    fix j assume j: "j < LENGTH(32)"
    show "bit (drop_bit 1 (push_bit (Suc n) y)) j = bit (push_bit n y) j"
      using Suc.prems(1) [of "j - n"] Suc.prems(2) j by (cases "j = 31") (auto simp: bit_simps simp del: push_bit_Suc)
  qed
  moreover have "\<not> bit (push_bit (Suc n) y) 0" by (simp only: bit_push_bit_iff) simp
  ultimately have "crc32c_shift (push_bit (Suc n) y) = push_bit n y" by (simp add: crc32c_shift_def)
  with Suc show ?case by (simp add: funpow_Suc_right del: funpow.simps)
qed simp

lemma crc32c_step_serial: "crc32c_step b crc = (crc32c_shift ^^ 8) (crc XOR ucast b)"
proof -
  let ?i = "(b XOR ucast crc) AND (0xFF :: byte)"
  have i: "unat ?i < 256" using unsigned_less [of ?i] by simp
  have ff: "(0xFF :: byte) = mask 8" by (simp add: mask_eq_exp_minus_1)
  have "crc XOR ucast b = push_bit 8 (drop_bit 8 crc) XOR ucast ?i"
    by (rule bit_word_eqI) (auto simp: ff bit_simps dest: bit_imp_le_length)
  then have "(crc32c_shift ^^ 8) (crc XOR ucast b) = (crc32c_shift ^^ 8) (push_bit 8 (drop_bit 8 crc)) XOR (crc32c_shift ^^ 8) (ucast ?i)"
    by (simp only: crc32c_shift_pow_xor)
  also have "(crc32c_shift ^^ 8) (push_bit 8 (drop_bit 8 crc)) = drop_bit 8 crc"
    by (rule crc32c_shift_high) (auto simp: bit_simps dest: bit_imp_le_length)
  also have "(crc32c_shift ^^ 8) (ucast ?i) = crc32c_table ! unat ?i"
    using i by (simp add: crc32c_table_eq crc32c_entries_def)
  finally show ?thesis by (simp add: crc32c_step_def)
qed

lemma crc32c_serial: "crc32c data = fold (\<lambda>b c. (crc32c_shift ^^ 8) (c XOR ucast b)) data 0xFFFFFFFF XOR 0xFFFFFFFF"
  by (simp add: crc32c_def crc32c_step_serial [abs_def])

lemma crc32c_fold_word:
  "n \<le> 4 \<Longrightarrow> fold crc32c_step (le_bytes n w) c = (crc32c_shift ^^ (8 * n)) (c XOR take_bit (8 * n) (w :: u32))"
proof (induction n arbitrary: w c)
  case 0
  then show ?case by (simp add: le_bytes_def)
next
  case (Suc n)
  let ?r = "take_bit (8 * n) (drop_bit 8 w)"
  have r: "(crc32c_shift ^^ 8) (push_bit 8 ?r) = ?r"
    using Suc.prems by (intro crc32c_shift_high) (auto simp: bit_simps)
  have w: "ucast (ucast w :: byte) XOR push_bit 8 ?r = take_bit (8 * Suc n) w"
    using Suc.prems by (intro bit_word_eqI) (auto simp: bit_simps)
  have "fold crc32c_step (le_bytes (Suc n) w) c = (crc32c_shift ^^ (8 * n)) ((crc32c_shift ^^ 8) (c XOR ucast (ucast w :: byte)) XOR ?r)"
    using Suc.IH [of "drop_bit 8 w"] Suc.prems by (simp add: le_bytes_Suc) (simp add: crc32c_step_serial)
  also have "\<dots> = (crc32c_shift ^^ (8 * n)) ((crc32c_shift ^^ 8) (c XOR ucast (ucast w :: byte) XOR push_bit 8 ?r))"
    by (simp add: crc32c_shift_pow_xor r xor.assoc)
  also have "\<dots> = (crc32c_shift ^^ (8 * n + 8)) (c XOR take_bit (8 * Suc n) w)"
    by (simp only: funpow_add o_apply xor.assoc w)
  finally show ?case by (simp add: add.commute)
qed

lemma crc32c_ones:
  "(crc32c_shift ^^ 8) 0xFFFFFFFF = 0xAD82ACAE" "(crc32c_shift ^^ 8) 0xAD82ACAE = 0x0E9E882D"
  "(crc32c_shift ^^ 8) 0x0E9E882D = 0x9F9B5C85" "(crc32c_shift ^^ 8) 0x9F9B5C85 = 0xB798B438"
  by code_simp+

lemma crc32c_residue_value: "(crc32c_shift ^^ 32) 0xFFFFFFFF = crc32c_residue XOR 0xFFFFFFFF"
proof -
  have "(crc32c_shift ^^ 32) 0xFFFFFFFF = (crc32c_shift ^^ 8) ((crc32c_shift ^^ 8) ((crc32c_shift ^^ 8) ((crc32c_shift ^^ 8) 0xFFFFFFFF)))"
    by (simp only: funpow_add [symmetric, THEN fun_cong, unfolded o_apply]) simp
  then show ?thesis by (simp only: crc32c_ones) (simp add: crc32c_residue_def)
qed

text \<open>A buffer followed by its checksum has the residue the receiver compares with.\<close>

lemma crc32c_appended: "crc32c (data @ put_u32 (crc32c data)) = crc32c_residue"
proof -
  let ?c = "fold crc32c_step data 0xFFFFFFFF"
  have "?c XOR take_bit 32 (crc32c data) = 0xFFFFFFFF"
    by (simp add: crc32c_def take_bit_word_eq_self)
  then show ?thesis
    using crc32c_fold_word [of 4 "crc32c data" ?c] crc32c_residue_value
    by (simp add: crc32c_def [of "data @ put_u32 (crc32c data)"] xor.assoc)
qed

subsection \<open>The frame header\<close>

definition udp_header_size :: nat where "udp_header_size = 32"
definition udp_header_version :: byte where "udp_header_version = 2"
definition udp_crc_size :: nat where "udp_crc_size = 4"

record udp_header =
  uh_priority :: u8
  uh_transfer_id :: u64
  uh_sender_uid :: u64
  uh_offset :: u32
  uh_transfer_size :: u32
  uh_prefix_crc :: u32

text \<open>The six bytes of the transfer identifier are written as eight, of which the sender overwrites two.\<close>

definition serialize_header :: "udp_header \<Rightarrow> u32 \<Rightarrow> bytes" where
  "serialize_header h prefix_crc =
    (let buf = replicate udp_header_size 0;
         buf = buf[0 := udp_header_version OR push_bit 5 (uh_priority h)];
         buf = buf[1 := 0];
         buf = put_at 2 (put_u64 (uh_transfer_id h AND 0xFFFFFFFFFFFF)) buf;
         buf = put_at 8 (put_u64 (uh_sender_uid h)) buf;
         buf = put_at 16 (put_u32 (uh_offset h)) buf;
         buf = put_at 20 (put_u32 (uh_transfer_size h)) buf;
         buf = put_at 24 (put_u32 prefix_crc) buf
     in put_at 28 (put_u32 (crc32c (slice 0 (udp_header_size - udp_crc_size) buf))) buf)"

definition deserialize_header :: "bytes \<Rightarrow> (udp_header \<times> bytes) option" where
  "deserialize_header data =
    (if length data < udp_header_size then None
     else if crc32c (slice 0 udp_header_size data) \<noteq> crc32c_residue then None
     else
       let head = data ! 0
       in if head AND 0x1F \<noteq> udp_header_version then None
          else if drop_bit 5 (data ! 1) \<noteq> 0 then None
          else
            let h = \<lparr>uh_priority = drop_bit 5 head AND 0x07,
                  uh_transfer_id = le_word (slice 2 10 data) AND 0xFFFFFFFFFFFF,
                  uh_sender_uid = le_word (slice 8 16 data),
                  uh_offset = le_word (slice 16 20 data),
                  uh_transfer_size = le_word (slice 20 24 data),
                  uh_prefix_crc = le_word (slice 24 28 data)\<rparr>;
                payload = drop udp_header_size data
            in if (ucast (uh_offset h) :: u64) + of_nat (length payload) > ucast (uh_transfer_size h) then None
               else if uh_offset h = 0 \<and> crc32c payload \<noteq> uh_prefix_crc h then None
               else Some (h, payload))"

lemma serialize_layout:
  "serialize_header h prefix =
    (let body = [udp_header_version OR push_bit 5 (uh_priority h), 0] @ le_bytes 6 (uh_transfer_id h)
        @ put_u64 (uh_sender_uid h) @ put_u32 (uh_offset h) @ put_u32 (uh_transfer_size h) @ put_u32 prefix
     in body @ put_u32 (crc32c body))"
proof -
  let ?m = "uh_transfer_id h AND 0xFFFFFFFFFFFF"
  have ff: "(0xFFFFFFFFFFFF :: u64) = mask 48" by (simp add: mask_eq_exp_minus_1)
  have "le_bytes 6 ?m = le_bytes 6 (uh_transfer_id h)"
    unfolding le_bytes_def by (intro map_cong refl bit_word_eqI) (auto simp: ff bit_simps)
  moreover have "put_u64 ?m = le_bytes 6 ?m @ [ucast (drop_bit 48 ?m), ucast (drop_bit 56 ?m)]"
    by (simp add: le_bytes_def upt_rec)
  ultimately have t: "put_u64 ?m = le_bytes 6 (uh_transfer_id h) @ [ucast (drop_bit 48 ?m), ucast (drop_bit 56 ?m)]" by simp
  show ?thesis
    unfolding serialize_header_def t Let_def
    by (simp add: udp_header_size_def udp_crc_size_def put_at_def slice_def le_bytes_def upt_rec numeral_eq_Suc)
qed

lemma length_serialize_header [simp]: "length (serialize_header h prefix) = udp_header_size"
  by (simp add: serialize_layout Let_def udp_header_size_def)

lemma le_word_append: "le_word (a @ b) = le_word a OR push_bit (8 * length a) (le_word b :: 'a::len word)"
  by (induction a) (simp_all add: push_bit_or or.assoc push_bit_push_bit add.commute)

lemma and_mask_small:
  assumes "unat (x :: 'a::len word) < 2 ^ n" shows "x AND mask n = x"
proof -
  have "unat (take_bit n x) = unat x" using assms by (simp add: unsigned_take_bit_eq take_bit_nat_eq_self)
  then have "take_bit n x = x" by (rule unsigned_word_eqI)
  then show ?thesis by (simp add: take_bit_eq_mask)
qed

text \<open>
  A datagram is parsed to what it was made of, when its fragment lies within the transfer and, for the first fragment,
  the prefix checksum is that of its payload.
\<close>

lemma deserialize_serialize:
  assumes prio: "uh_priority h \<le> 7"
    and room: "unat (uh_offset h) + length p \<le> unat (uh_transfer_size h)"
    and first: "uh_offset h = 0 \<Longrightarrow> crc32c p = prefix"
  shows "deserialize_header (serialize_header h prefix @ p)
    = Some (h\<lparr>uh_transfer_id := uh_transfer_id h AND 0xFFFFFFFFFFFF, uh_prefix_crc := prefix\<rparr>, p)"
proof -
  let ?a = "[udp_header_version OR push_bit 5 (uh_priority h), 0]" and ?t = "le_bytes 6 (uh_transfer_id h)"
    and ?u = "put_u64 (uh_sender_uid h)" and ?o = "put_u32 (uh_offset h)" and ?z = "put_u32 (uh_transfer_size h)"
    and ?x = "put_u32 prefix"
  define body where "body = ?a @ ?t @ ?u @ ?o @ ?z @ ?x"
  let ?c = "put_u32 (crc32c body)"
  let ?d = "?a @ ?t @ ?u @ ?o @ ?z @ ?x @ ?c @ p"
  have d: "serialize_header h prefix @ p = ?d" by (simp add: serialize_layout body_def Let_def)
  have crc: "slice 0 udp_header_size ?d = body @ ?c" by (simp add: slice_def body_def udp_header_size_def)
  have head: "(udp_header_version OR push_bit 5 (uh_priority h)) AND 0x1F = udp_header_version"
    "drop_bit 5 (udp_header_version OR push_bit 5 (uh_priority h)) AND 0x07 = uh_priority h"
  proof -
    have m: "(0x1F :: byte) = mask 5" "(0x07 :: byte) = mask 3" by (simp_all add: mask_eq_exp_minus_1)
    have v: "udp_header_version AND mask 5 = udp_header_version" "drop_bit 5 udp_header_version = 0"
      by (simp_all add: udp_header_version_def flip: m)
    have p: "uh_priority h AND mask 3 = uh_priority h"
      using prio by (intro and_mask_small) (simp add: word_le_nat_alt)
    show "(udp_header_version OR push_bit 5 (uh_priority h)) AND 0x1F = udp_header_version"
    proof -
      have "push_bit 5 (uh_priority h) AND mask 5 = 0" by (rule bit_word_eqI) (auto simp: bit_simps)
      then show ?thesis by (simp add: m bit.conj_disj_distrib2 v)
    qed
    have "drop_bit 5 (push_bit 5 (uh_priority h)) = uh_priority h AND mask 3"
      by (rule bit_word_eqI) (auto simp: bit_simps)
    then show "drop_bit 5 (udp_header_version OR push_bit 5 (uh_priority h)) AND 0x07 = uh_priority h"
      by (simp add: m v p bit.conj_disj_distrib2 drop_bit_or and.assoc)
  qed
  have tid: "le_word (slice 2 10 ?d) AND (0xFFFFFFFFFFFF :: u64) = uh_transfer_id h AND 0xFFFFFFFFFFFF"
  proof -
    obtain u1 u2 where u: "?u = u1 @ u2" "length u1 = 2"
      using append_take_drop_id [of 2 ?u] by (metis length_le_bytes length_take min.absorb2 numeral_le_iff semiring_norm(68,69,71))
    have "slice 2 10 (?a @ (?t @ u1) @ u2 @ ?o @ ?z @ ?x @ ?c @ p) = ?t @ u1" using u(2) by (intro slice_append) simp_all
    then have "slice 2 10 ?d = ?t @ u1" by (simp add: u)
    moreover have "(0xFFFFFFFFFFFF :: u64) = mask 48" by (simp add: mask_eq_exp_minus_1)
    moreover have "push_bit 48 (le_word u1) AND (mask 48 :: u64) = 0"
      by (rule bit_word_eqI) (auto simp: bit_simps)
    ultimately show ?thesis
      by (simp add: le_word_append le_word_le_bytes bit.conj_disj_distrib2 take_bit_eq_mask and.assoc)
  qed
  have "slice 8 16 ((?a @ ?t) @ ?u @ ?o @ ?z @ ?x @ ?c @ p) = ?u" by (rule slice_append) simp_all
  moreover have "slice 16 20 ((?a @ ?t @ ?u) @ ?o @ ?z @ ?x @ ?c @ p) = ?o" by (rule slice_append) simp_all
  moreover have "slice 20 24 ((?a @ ?t @ ?u @ ?o) @ ?z @ ?x @ ?c @ p) = ?z" by (rule slice_append) simp_all
  moreover have "slice 24 28 ((?a @ ?t @ ?u @ ?o @ ?z) @ ?x @ ?c @ p) = ?x" by (rule slice_append) simp_all
  ultimately have fields: "slice 8 16 ?d = ?u" "slice 16 20 ?d = ?o" "slice 20 24 ?d = ?z" "slice 24 28 ?d = ?x"
    by simp_all
  have payload: "drop udp_header_size ?d = p" by (simp add: udp_header_size_def)
  have fits: "\<not> (ucast (uh_offset h) :: u64) + of_nat (length p) > ucast (uh_transfer_size h)"
  proof -
    have "unat (uh_transfer_size h) < 2 ^ 32" by (rule order_less_le_trans [OF unsigned_less]) simp
    with room have l: "length p < 2 ^ 32" by linarith
    have "unat (of_nat (length p) :: u64) = length p" using l by (simp add: unat_of_nat_small)
    moreover have "unat (ucast (uh_offset h) :: u64) = unat (uh_offset h)" by (simp add: unat_ucast_up)
    moreover have "unat (uh_offset h) < 2 ^ 32" by (rule order_less_le_trans [OF unsigned_less]) simp
    ultimately have "unat ((ucast (uh_offset h) :: u64) + of_nat (length p)) = unat (uh_offset h) + length p"
      using l by (simp add: unat_word_ariths)
    with room show ?thesis by (simp add: word_less_nat_alt unat_ucast_up)
  qed
  have two: "?d ! 0 = udp_header_version OR push_bit 5 (uh_priority h)" "?d ! 1 = 0" by simp_all
  show ?thesis
    unfolding d deserialize_header_def Let_def crc two fields payload tid crc32c_appended head
    using fits first by (simp add: udp_header_size_def) 
qed

subsection \<open>Endpoints\<close>

definition udp_port :: u16 where "udp_port = 9382"
definition ipv4_mcast_prefix :: u32 where "ipv4_mcast_prefix = 0xEF000000"
definition iface_count_max :: nat where "iface_count_max = 3"
definition ipv4_subject_id_max :: u32 where "ipv4_subject_id_max = 0x7FFFFF"

record endpoint =
  ep_ip :: u32
  ep_port :: u16

definition endpoint_valid :: "endpoint \<Rightarrow> bool" where
  "endpoint_valid e \<longleftrightarrow> ep_ip e \<noteq> 0 \<and> ep_port e \<noteq> 0"

definition subject_endpoint :: "u32 \<Rightarrow> endpoint" where
  "subject_endpoint subject_id = \<lparr>ep_ip = ipv4_mcast_prefix OR (subject_id AND ipv4_subject_id_max), ep_port = udp_port\<rparr>"

definition encode_endpoints :: "endpoint \<Rightarrow> int \<Rightarrow> bytes" where
  "encode_endpoints src ifindex =
    (if ifindex < 0 \<or> ifindex \<ge> int iface_count_max then replicate 24 0
     else
       let off = nat ifindex * 6
       in put_at (off + 4) (le_bytes 2 (ep_port src)) (put_at off (put_u32 (ep_ip src)) (replicate 24 0)))"

definition decode_endpoints :: "bytes \<Rightarrow> endpoint list" where
  "decode_endpoints ctx =
    map (\<lambda>i. \<lparr>ep_ip = le_word (slice (i * 6) (i * 6 + 4) ctx), ep_port = le_word (slice (i * 6 + 4) (i * 6 + 6) ctx)\<rparr>)
      [0..<iface_count_max]"

text \<open>The endpoint comes back at its interface, and the others are invalid.\<close>

lemma le_word_put_u16 [simp]: "le_word (le_bytes 2 v) = (v :: u16)"
  using le_word_le_bytes [of 2 v] by (simp add: take_bit_word_eq_self)

lemma decode_encode_endpoints:
  assumes "i < iface_count_max"
  shows "decode_endpoints (encode_endpoints src (int i)) = (replicate iface_count_max \<lparr>ep_ip = 0, ep_port = 0\<rparr>)[i := src]"
proof -
  have w: "le_word (le_bytes (Suc (Suc (Suc (Suc 0)))) v) = (v :: u32)" "le_word (le_bytes (Suc (Suc 0)) q) = (q :: u16)" for v q
    using le_word_put_u32 [of v] le_word_put_u16 [of q] by (simp_all add: numeral_eq_Suc)
  consider "i = 0" | "i = 1" | "i = 2" using assms by (fastforce simp: iface_count_max_def)
  then show ?thesis
    by cases (simp_all add: decode_endpoints_def encode_endpoints_def iface_count_max_def Let_def put_at_def slice_def
        upt_rec numeral_eq_Suc w)
qed

lemma subject_endpoints_distinct:
  assumes "a \<le> ipv4_subject_id_max" "b \<le> ipv4_subject_id_max" "subject_endpoint a = subject_endpoint b"
  shows "a = b"
proof -
  have m: "ipv4_subject_id_max = mask 23" by (simp add: ipv4_subject_id_max_def mask_eq_exp_minus_1)
  have low: "(ipv4_mcast_prefix OR (x AND mask 23)) AND mask 23 = x AND mask 23" for x :: u32
  proof -
    have "ipv4_mcast_prefix AND mask 23 = 0" by (simp add: ipv4_mcast_prefix_def mask_eq_exp_minus_1)
    then show ?thesis by (simp add: bit.conj_disj_distrib2 and.assoc)
  qed
  have "ipv4_mcast_prefix OR (a AND mask 23) = ipv4_mcast_prefix OR (b AND mask 23)"
    using assms(3) unfolding subject_endpoint_def m by (rule endpoint.ext_inject [THEN iffD1, THEN conjunct1])
  then have "a AND mask 23 = b AND mask 23" using low [of a] low [of b] by argo
  moreover have "unat a < 2 ^ 23" "unat b < 2 ^ 23"
    using assms(1, 2) by (simp_all add: ipv4_subject_id_max_def word_le_nat_alt)
  ultimately show ?thesis using and_mask_small [of a 23] and_mask_small [of b 23] by argo
qed

end
