(* ===== verification/CyUdp.thy ===== *)
theory CyUdp
  imports CyUdpWire CyNode
begin

unbundle bit_operations_syntax

text \<open>
  The Cyphal/UDP platform of \<open>cy/udp/platform.go\<close>: the ports that reassemble and deduplicate what is received,
  readers and writers of subjects, the fragmentation of what is sent, and the dispatch of received
  datagrams. Ports and writers are objects in a heap, sockets are handles; the operating system (joined groups, opened
  sockets, the clock, the generator of random numbers) is a parameter, and the datagrams handed to the sockets
  and the messages handed to \<open>OnMessage\<close> are logged in the state.
\<close>

subsection \<open>Reassembly\<close>

record udp_slot =
  us_tid :: u64
  us_total :: u64
  us_received :: u64
  us_frags :: "(u32 \<times> bytes) list"

record udp_session =
  un_inited :: bool
  un_last_tid :: u64
  un_slot :: "udp_slot option"

record udp_rx_port =
  up_stateful :: bool
  up_extent :: int
  up_history :: "u64 \<times> u64"
  up_sessions :: "u64 \<Rightarrow> udp_session option"

definition new_rx_port :: "bool \<Rightarrow> int \<Rightarrow> udp_rx_port" where
  "new_rx_port stateful extent = \<lparr>up_stateful = stateful, up_extent = extent, up_history = (0, 0), up_sessions = (\<lambda>_. None)\<rparr>"

definition tid_greater :: "u64 \<Rightarrow> u64 \<Rightarrow> bool" where
  "tid_greater a b = (let diff = (a - b) AND 0xFFFFFFFFFFFF in diff \<noteq> 0 \<and> diff < push_bit 47 1)"

text \<open>
  The insertion sort of \<open>reassemble\<close>: the inner loop moves an offset down past the greater ones; the sorted
  part is kept reversed.
\<close>

fun sift :: "u32 \<Rightarrow> u32 list \<Rightarrow> u32 list" where
  "sift x [] = [x]"
| "sift x (y # ys) = (if y > x then y # sift x ys else x # y # ys)"

definition sort_offsets :: "u32 list \<Rightarrow> u32 list" where
  "sort_offsets offsets = rev (fold sift offsets [])"

definition reassemble :: "(u32 \<times> bytes) list \<Rightarrow> bytes" where
  "reassemble frags = concat (map (\<lambda>off. the (map_of frags off)) (sort_offsets (map fst frags)))"

text \<open>Both return what is handed to \<open>deliver\<close>, if anything.\<close>

definition accept_stateless :: "udp_header \<Rightarrow> bytes \<Rightarrow> udp_rx_port \<Rightarrow> udp_rx_port \<times> bytes option" where
  "accept_stateless h payload p =
    (let fp = uh_transfer_id h XOR uh_sender_uid h
     in if fp = fst (up_history p) \<or> fp = snd (up_history p) then (p, None)
        else
          let p = p\<lparr>up_history := (fp, fst (up_history p))\<rparr>;
              required = up_extent p;
              required = (if uint (uh_transfer_size h) < required then uint (uh_transfer_size h) else required);
              full = (uh_offset h = 0 \<and> int (length payload) \<ge> required)
          in if \<not> full then (p, None) else (p, Some payload))"

definition put_session :: "u64 \<Rightarrow> udp_session \<Rightarrow> udp_rx_port \<Rightarrow> udp_rx_port" where
  "put_session uid s p = p\<lparr>up_sessions := (up_sessions p)(uid \<mapsto> s)\<rparr>"

definition slot_add :: "udp_header \<Rightarrow> bytes \<Rightarrow> udp_slot \<Rightarrow> udp_slot" where
  "slot_add h payload slot =
    (if map_of (us_frags slot) (uh_offset h) = None
     then slot\<lparr>us_frags := us_frags slot @ [(uh_offset h, payload)], us_received := us_received slot + of_nat (length payload)\<rparr>
     else slot)"

definition accept_stateful :: "udp_header \<Rightarrow> bytes \<Rightarrow> udp_rx_port \<Rightarrow> udp_rx_port \<times> bytes option" where
  "accept_stateful h payload p =
    (let uid = uh_sender_uid h;
         tid = uh_transfer_id h;
         session = (case up_sessions p uid of
             None \<Rightarrow> \<lparr>un_inited = False, un_last_tid = 0, un_slot = None\<rparr>
           | Some s \<Rightarrow> s);
         session = (if \<not> un_inited session then session\<lparr>un_inited := True, un_last_tid := tid - 1\<rparr> else session);
         fresh = (case un_slot session of None \<Rightarrow> True | Some sl \<Rightarrow> us_tid sl \<noteq> tid)
     in if fresh \<and> \<not> tid_greater tid (un_last_tid session) then (put_session uid session p, None)
        else
          let slot = (if fresh
                then \<lparr>us_tid = tid, us_total = ucast (uh_transfer_size h), us_received = 0, us_frags = []\<rparr>
                else the (un_slot session));
              slot = slot_add h payload slot
          in if us_received slot \<ge> us_total slot
             then (put_session uid (session\<lparr>un_last_tid := tid, un_slot := None\<rparr>) p, Some (reassemble (us_frags slot)))
             else (put_session uid (session\<lparr>un_slot := Some slot\<rparr>) p, None))"

definition port_accept :: "udp_header \<Rightarrow> bytes \<Rightarrow> udp_rx_port \<Rightarrow> udp_rx_port \<times> bytes option" where
  "port_accept h payload p = (if up_stateful p then accept_stateful h payload p else accept_stateless h payload p)"

subsection \<open>The platform\<close>

record udp_writer =
  uw_subject_id :: u32
  uw_next_transfer_id :: u64

record rx_conn =
  rc_conn :: "nat option"
  rc_port :: nat
  rc_subject :: "u32 option"
  rc_ifindex :: int

record udp_reader =
  ur_subject_id :: u32
  ur_port :: nat
  ur_conns :: "rx_conn list"

record 'r udp_platform =
  pl_uid :: u64
  pl_rng :: 'r
  pl_closed :: bool
  pl_modulus :: u32
  pl_ifaces :: "u32 list"
  pl_local_ips :: "u32 list"
  pl_tx_socks :: "nat option list"
  pl_rx_conns :: "rx_conn list"
  pl_readers :: "u32 \<Rightarrow> udp_reader option"
  pl_writers :: "u32 \<Rightarrow> nat option"
  pl_unicast :: nat
  pl_unicast_tid :: u64
  pl_port :: "nat \<Rightarrow> udp_rx_port"
  pl_next_port :: nat
  pl_writer :: "nat \<Rightarrow> udp_writer"
  pl_next_writer :: nat
  pl_sent :: "(nat \<times> endpoint \<times> bytes) list"
  pl_shut :: "nat list"
  pl_arrivals :: "(lane \<times> u32 option \<times> message_ts) list"

definition mtu_default :: nat where "mtu_default = 1400"

definition subject_id_modulus_23 :: u32 where "subject_id_modulus_23 = 8378431"

text \<open>
  \<open>newPlatform\<close>: one socket per interface, or one for all. What the operating system gives is \<open>listen\<close> (the handle
  of the socket of an interface, or a failure), \<open>fresh_uid\<close> and the seed of the generator. A failure
  closes what was opened, and there is no platform.
\<close>

fun open_socks :: "(nat \<Rightarrow> nat option) \<Rightarrow> nat list \<Rightarrow> 'r udp_platform \<Rightarrow> 'r udp_platform option" where
  "open_socks listen [] p = Some p"
| "open_socks listen (i # is) p =
    (case listen i of
       None \<Rightarrow> None
     | Some c \<Rightarrow> open_socks listen is
         (p\<lparr>pl_tx_socks := pl_tx_socks p @ [Some c],
            pl_rx_conns := pl_rx_conns p @ [\<lparr>rc_conn = Some c, rc_port = pl_unicast p, rc_subject = None, rc_ifindex = int i\<rparr>]\<rparr>))"

definition new_udp_platform :: "u64 \<Rightarrow> u32 list \<Rightarrow> u32 list \<Rightarrow> u64 \<Rightarrow> 'r \<Rightarrow> (nat \<Rightarrow> nat option) \<Rightarrow> 'r udp_platform option" where
  "new_udp_platform uid ifaces local_ips fresh_uid seed listen =
    (let ifaces = (if length ifaces > iface_count_max then take iface_count_max ifaces else ifaces);
         p = \<lparr>pl_uid = (if uid = 0 then fresh_uid else uid), pl_rng = seed, pl_closed = False, pl_modulus = subject_id_modulus_23,
               pl_ifaces = ifaces, pl_local_ips = local_ips, pl_tx_socks = [], pl_rx_conns = [],
               pl_readers = (\<lambda>_. None), pl_writers = (\<lambda>_. None), pl_unicast = 0, pl_unicast_tid = 0,
               pl_port = (\<lambda>_. new_rx_port True (int mtu_default)), pl_next_port = 1,
               pl_writer = (\<lambda>_. \<lparr>uw_subject_id = 0, uw_next_transfer_id = 0\<rparr>), pl_next_writer = 0,
               pl_sent = [], pl_shut = [], pl_arrivals = []\<rparr>;
         n = length ifaces;
         n = (if n = 0 then 1 else n)
     in open_socks listen [0..<n] p)"

definition somes :: "'a option list \<Rightarrow> 'a list" where
  "somes xs = map the (filter (\<lambda>x. x \<noteq> None) xs)"

definition udp_destroy :: "'r udp_platform \<Rightarrow> 'r udp_platform" where
  "udp_destroy p =
    (if pl_closed p then p
     else
       let tx_socks = pl_tx_socks p; rx_conns = pl_rx_conns p
       in p\<lparr>pl_closed := True, pl_tx_socks := [], pl_rx_conns := [], pl_readers := (\<lambda>_. None), pl_writers := (\<lambda>_. None),
            pl_shut := pl_shut p @ somes tx_socks @ somes (map rc_conn rx_conns)\<rparr>)"

subsection \<open>Reception\<close>

definition is_self :: "(nat \<Rightarrow> endpoint) \<Rightarrow> endpoint \<Rightarrow> 'r udp_platform \<Rightarrow> bool" where
  "is_self local_addr src p =
    (\<exists>c \<in> set (somes (pl_tx_socks p)). ep_port (local_addr c) = ep_port src \<and> ep_ip (local_addr c) \<in> set (pl_local_ips p))"

definition udp_deliver :: "microsecond \<Rightarrow> udp_header \<Rightarrow> bytes \<Rightarrow> endpoint \<Rightarrow> int \<Rightarrow> u32 option \<Rightarrow> 'r udp_platform \<Rightarrow> 'r udp_platform" where
  "udp_deliver now h payload src ifindex subject p =
    (let lane = \<lparr>lane_id = uh_sender_uid h, lane_priority = uh_priority h, lane_ctx = encode_endpoints src ifindex\<rparr>;
         msg = \<lparr>mts_timestamp = now, mts_content = Some (new_message payload)\<rparr>
     in p\<lparr>pl_arrivals := pl_arrivals p @ [(lane, subject, msg)]\<rparr>)"

definition handle_datagram :: "(nat \<Rightarrow> endpoint) \<Rightarrow> microsecond \<Rightarrow> bytes \<Rightarrow> endpoint \<Rightarrow> rx_conn \<Rightarrow> 'r udp_platform \<Rightarrow> 'r udp_platform" where
  "handle_datagram local_addr now data src rc p =
    (case deserialize_header data of
       None \<Rightarrow> p
     | Some (h, payload) \<Rightarrow>
         if is_self local_addr src p then p
         else
           let (port, out) = port_accept h payload (pl_port p (rc_port rc));
               p = p\<lparr>pl_port := (pl_port p)(rc_port rc := port)\<rparr>
           in (case out of None \<Rightarrow> p | Some payload \<Rightarrow> udp_deliver now h payload src (rc_ifindex rc) (rc_subject rc) p))"

text \<open>
  One round of \<open>rxLoop\<close> over a snapshot of the connections; \<open>recv\<close> is what the operating system has for each, and
  the round tells whether there was anything.
\<close>

definition rx_round :: "(nat \<Rightarrow> endpoint) \<Rightarrow> microsecond \<Rightarrow> (nat \<Rightarrow> (bytes \<times> endpoint) option) \<Rightarrow> 'r udp_platform \<Rightarrow> 'r udp_platform \<times> bool" where
  "rx_round local_addr now recv p =
    fold (\<lambda>rc (p, got). case rc_conn rc of
        None \<Rightarrow> (p, got)
      | Some c \<Rightarrow> (case recv c of
          None \<Rightarrow> (p, got)
        | Some (data, addr) \<Rightarrow>
            if length data > 0 then (handle_datagram local_addr now data addr rc p, True) else (p, got)))
      (pl_rx_conns p) (p, False)"

subsection \<open>Transmission\<close>

text \<open>The datagrams of a transfer in the order of the loop of \<open>sendTransfer\<close>.\<close>

function transfer_loop :: "udp_header \<Rightarrow> bytes \<Rightarrow> nat \<Rightarrow> bytes list" where
  "transfer_loop meta data offset =
    (if offset < length data
     then
       let chunk = length data - offset;
           chunk = (if chunk > mtu_default then mtu_default else chunk);
           prefix = crc32c (slice 0 (offset + chunk) data);
           frame = meta\<lparr>uh_offset := of_nat offset\<rparr>;
           datagram = serialize_header frame prefix @ slice offset (offset + chunk) data
       in datagram # transfer_loop meta data (offset + chunk)
     else [])"
  by auto
termination
  by (relation "measure (\<lambda>(meta, data, offset). length data - offset)") (auto simp: mtu_default_def)

declare transfer_loop.simps [simp del]

definition send_transfer :: "udp_header \<Rightarrow> bytes \<Rightarrow> endpoint \<Rightarrow> nat option list \<Rightarrow> 'r udp_platform \<Rightarrow> 'r udp_platform" where
  "send_transfer meta data dst socks p =
    p\<lparr>pl_sent := pl_sent p @ concat (map (\<lambda>datagram. map (\<lambda>sock. (sock, dst, datagram)) (somes socks)) (transfer_loop meta data 0))\<rparr>"

definition udp_new_writer :: "('r \<Rightarrow> 'r \<times> u64) \<Rightarrow> u32 \<Rightarrow> 'r udp_platform \<Rightarrow> 'r udp_platform \<times> nat cy_result" where
  "udp_new_writer random subject_id p =
    (if pl_closed p then (p, Inl ErrArgument)
     else case pl_writers p subject_id of
       Some w \<Rightarrow> (p, Inr w)
     | None \<Rightarrow>
         let (rng, seed) = random (pl_rng p);
             w = pl_next_writer p
         in (p\<lparr>pl_rng := rng, pl_writers := (pl_writers p)(subject_id \<mapsto> w), pl_next_writer := w + 1,
               pl_writer := (pl_writer p)(w := \<lparr>uw_subject_id = subject_id, uw_next_transfer_id = seed\<rparr>)\<rparr>, Inr w))"

definition udp_destroy_writer :: "nat \<Rightarrow> 'r udp_platform \<Rightarrow> 'r udp_platform" where
  "udp_destroy_writer w p = p\<lparr>pl_writers := (pl_writers p)(uw_subject_id (pl_writer p w) := None)\<rparr>"

definition udp_writer_send :: "nat \<Rightarrow> u8 \<Rightarrow> bytes \<Rightarrow> 'r udp_platform \<Rightarrow> 'r udp_platform \<times> cy_error" where
  "udp_writer_send w priority data p =
    (if pl_closed p then (p, ErrArgument)
     else
       let wr = pl_writer p w;
           p = p\<lparr>pl_writer := (pl_writer p)(w := wr\<lparr>uw_next_transfer_id := uw_next_transfer_id wr + 1\<rparr>)\<rparr>;
           meta = \<lparr>uh_priority = priority AND 7, uh_transfer_id = uw_next_transfer_id wr, uh_sender_uid = pl_uid p,
                   uh_offset = 0, uh_transfer_size = of_nat (length data), uh_prefix_crc = 0\<rparr>
       in (send_transfer meta data (subject_endpoint (uw_subject_id wr)) (pl_tx_socks p) p, OK))"

definition udp_unicast :: "lane \<Rightarrow> bytes \<Rightarrow> 'r udp_platform \<Rightarrow> 'r udp_platform \<times> cy_error" where
  "udp_unicast lane data p =
    (if pl_closed p then (p, ErrArgument)
     else
       let meta = \<lparr>uh_priority = lane_priority lane AND 7, uh_transfer_id = pl_unicast_tid p, uh_sender_uid = pl_uid p,
                   uh_offset = 0, uh_transfer_size = of_nat (length data), uh_prefix_crc = 0\<rparr>;
           p = p\<lparr>pl_unicast_tid := pl_unicast_tid p + 1\<rparr>;
           eps = decode_endpoints (lane_ctx lane)
       in (fold (\<lambda>i p. if \<not> endpoint_valid (eps ! i) then p
                  else if pl_tx_socks p ! i \<noteq> None then send_transfer meta data (eps ! i) [pl_tx_socks p ! i] p else p)
             [0..<min iface_count_max (length (pl_tx_socks p))] p, OK))"

subsection \<open>Readers\<close>

definition set_extent :: "int \<Rightarrow> nat \<Rightarrow> 'r udp_platform \<Rightarrow> 'r udp_platform" where
  "set_extent extent a p = p\<lparr>pl_port := (pl_port p)(a := (pl_port p a)\<lparr>up_extent := extent\<rparr>)\<rparr>"

text \<open>\<open>join\<close> opens the socket of an interface for the group of a subject, or fails.\<close>

definition join_groups :: "(u32 \<Rightarrow> nat \<Rightarrow> nat option) \<Rightarrow> u32 \<Rightarrow> nat \<Rightarrow> nat \<Rightarrow> rx_conn list" where
  "join_groups join subject_id port n =
    map (\<lambda>i. \<lparr>rc_conn = join subject_id i, rc_port = port, rc_subject = Some subject_id, rc_ifindex = int i\<rparr>)
      (filter (\<lambda>i. join subject_id i \<noteq> None) [0..<n])"

definition udp_new_reader :: "(u32 \<Rightarrow> nat \<Rightarrow> nat option) \<Rightarrow> u32 \<Rightarrow> int \<Rightarrow> 'r udp_platform \<Rightarrow> 'r udp_platform \<times> udp_reader cy_result" where
  "udp_new_reader join subject_id extent p =
    (if pl_closed p then (p, Inl ErrArgument)
     else case pl_readers p subject_id of
       Some r \<Rightarrow> (set_extent extent (ur_port r) p, Inr r)
     | None \<Rightarrow>
         let stateful = (subject_id \<le> pl_modulus p);
             a = pl_next_port p;
             conns = join_groups join subject_id a (length (pl_tx_socks p));
             r = \<lparr>ur_subject_id = subject_id, ur_port = a, ur_conns = conns\<rparr>
         in (p\<lparr>pl_port := (pl_port p)(a := new_rx_port stateful extent), pl_next_port := a + 1,
               pl_rx_conns := pl_rx_conns p @ conns, pl_readers := (pl_readers p)(subject_id \<mapsto> r)\<rparr>, Inr r))"

definition udp_destroy_reader :: "udp_reader \<Rightarrow> 'r udp_platform \<Rightarrow> 'r udp_platform" where
  "udp_destroy_reader r p =
    p\<lparr>pl_readers := (pl_readers p)(ur_subject_id r := None),
      pl_shut := pl_shut p @ somes (map rc_conn (filter (\<lambda>rc. rc_port rc = ur_port r) (pl_rx_conns p))),
      pl_rx_conns := filter (\<lambda>rc. rc_port rc \<noteq> ur_port r) (pl_rx_conns p)\<rparr>"

definition udp_set_reader_extent :: "udp_reader \<Rightarrow> int \<Rightarrow> 'r udp_platform \<Rightarrow> 'r udp_platform" where
  "udp_set_reader_extent r extent p = set_extent extent (ur_port r) p"

definition udp_set_unicast_extent :: "int \<Rightarrow> 'r udp_platform \<Rightarrow> 'r udp_platform" where
  "udp_set_unicast_extent extent p = set_extent extent (pl_unicast p) p"

end
