(* ===== verification/CyUdpSpec.thy ===== *)
theory CyUdpSpec
  imports CyUdp "HOL-Library.Multiset"
begin

text \<open>
  What Cyphal/UDP promises: the datagrams of a transfer, received in any order and any number of times each, on
  any of the redundant interfaces, are delivered as one message with the payload that was sent. The limits are
  shown as well: an empty payload sends nothing, and a peer with the port number of a local socket is not heard.
\<close>

subsection \<open>The fragments of a transfer\<close>

function fragments :: "nat \<Rightarrow> bytes \<Rightarrow> (nat \<times> bytes) list" where
  "fragments off data =
    (if data = [] then [] else (off, take mtu_default data) # fragments (off + length (take mtu_default data)) (drop mtu_default data))"
  by auto
termination
  by (relation "measure (\<lambda>(off, data). length data)") (auto simp: mtu_default_def)

declare fragments.simps [simp del]

lemma fragments_Nil [simp]: "fragments off [] = []"
  by (simp add: fragments.simps)

lemma concat_fragments: "concat (map snd (fragments off data)) = data"
  by (induction off data rule: fragments.induct) (subst fragments.simps, auto)

lemma fragments_lengths: "sum_list (map (length \<circ> snd) (fragments off data)) = length data"
  using concat_fragments [of off data] by (metis length_concat map_map)

lemma fragments_nonempty: "f \<in> set (fragments off data) \<Longrightarrow> snd f \<noteq> []"
proof (induction off data rule: fragments.induct)
  case (1 off data)
  then show ?case by (subst (asm) (2) fragments.simps) (auto simp: mtu_default_def split: if_splits)
qed

lemma fragments_bounds:
  "f \<in> set (fragments off data) \<Longrightarrow> off \<le> fst f \<and> fst f + length (snd f) \<le> off + length data"
proof (induction off data rule: fragments.induct)
  case (1 off data)
  then show ?case by (subst (asm) (2) fragments.simps) (fastforce simp: mtu_default_def min_def split: if_splits)
qed

lemma fragments_tail:
  assumes "data \<noteq> []" "g \<in> set (fragments (off + length (take mtu_default data)) (drop mtu_default data))"
  shows "off < fst g"
proof -
  have "0 < length (take mtu_default data)" using assms(1) by (simp add: mtu_default_def)
  with fragments_bounds [OF assms(2)] show ?thesis by linarith
qed

lemma fragments_sorted: "sorted_wrt (<) (map fst (fragments off data))"
proof (induction off data rule: fragments.induct)
  case (1 off data)
  then show ?case by (subst fragments.simps) (auto simp del: length_take dest: fragments_tail)
qed

lemma fragments_first: "f \<in> set (fragments off data) \<Longrightarrow> fst f = off \<Longrightarrow> snd f = take mtu_default data"
  by (cases f, subst (asm) fragments.simps) (auto simp del: length_take dest: fragments_tail split: if_splits)

text \<open>The loop sends one datagram per fragment, with the checksum of the payload up to its end.\<close>

definition frag_datagram :: "udp_header \<Rightarrow> bytes \<Rightarrow> nat \<times> bytes \<Rightarrow> bytes" where
  "frag_datagram meta data f =
    serialize_header (meta\<lparr>uh_offset := of_nat (fst f)\<rparr>) (crc32c (take (fst f + length (snd f)) data)) @ snd f"

lemma transfer_loop_eq:
  assumes "off \<le> length data"
  shows "transfer_loop meta data off = map (frag_datagram meta data) (fragments off (drop off data))"
  using assms
proof (induction meta data off rule: transfer_loop.induct)
  case (1 meta data off)
  define c where "c = min mtu_default (length data - off)"
  show ?case
  proof (cases "off < length data")
    case True
    have c: "(if length data - off > mtu_default then mtu_default else length data - off) = c" "0 < c" "off + c \<le> length data"
      using True by (auto simp: c_def mtu_default_def)
    have t: "take mtu_default (drop off data) = take c (drop off data)" "drop mtu_default (drop off data) = drop (off + c) data"
      by (auto simp: c_def min_def add.commute)
    have "length (take c (drop off data)) = c" using c by simp
    have ih: "transfer_loop meta data (off + c) = map (frag_datagram meta data) (fragments (off + c) (drop (off + c) data))"
      using 1(1) [OF True refl refl refl refl refl] c by simp
    have "transfer_loop meta data off = frag_datagram meta data (off, take c (drop off data)) # transfer_loop meta data (off + c)"
      using True c by (subst transfer_loop.simps) (simp add: Let_def frag_datagram_def slice_def)
    then show ?thesis
      using True c ih by (subst fragments.simps) (simp add: t del: drop_drop)
  next
    case False
    then show ?thesis by (simp add: transfer_loop.simps)
  qed
qed

lemma send_nothing: "transfer_loop meta [] 0 = []"
  by (simp add: transfer_loop.simps)

subsection \<open>Reassembly\<close>

lemma sift_set: "set (sift x ys) = insert x (set ys)" "length (sift x ys) = Suc (length ys)"
  by (induction ys) auto

lemma sift_sorted: "sorted (rev ys) \<Longrightarrow> sorted (rev (sift x ys))"
  by (induction ys) (auto simp: sorted_append sift_set)

lemma sift_mset: "mset (sift x ys) = add_mset x (mset ys)"
  by (induction ys) auto

lemma sort_offsets_sort: "sort_offsets xs = sort xs"
proof -
  have "sorted (rev (fold sift xs ys)) \<and> mset (fold sift xs ys) = mset xs + mset ys" if "sorted (rev ys)" for ys
    using that by (induction xs arbitrary: ys) (auto simp: sift_sorted sift_mset)
  from this [of "[]"] show ?thesis
    unfolding sort_offsets_def by (intro properties_for_sort [symmetric]) simp_all
qed

text \<open>Fragments collected in any order come out in the order of their offsets.\<close>

lemma reassemble_eq:
  assumes "distinct (map fst frags)" "set frags = set fs" "sorted_wrt (<) (map fst fs)"
  shows "reassemble frags = concat (map snd fs)"
proof -
  have d: "distinct (map fst fs)" "sorted (map fst fs)"
    using assms(3) by (auto simp: strict_sorted_iff)
  have "set (map fst frags) = set (map fst fs)" using assms(2) by simp
  then have "sort (map fst frags) = map fst fs"
    using assms(1) d by (metis distinct_sort set_sort sorted_distinct_set_unique sorted_sort)
  moreover have "the (map_of frags (fst f)) = snd f" if "f \<in> set fs" for f
    using that assms(1, 2) by (metis eq_key_imp_eq_value map_of_SomeD map_of_is_SomeI option.sel prod.collapse)
  ultimately show ?thesis
    by (simp add: reassemble_def sort_offsets_sort o_def cong: map_cong)
qed

text \<open>
  A transfer \<open>T\<close> on its way into a session: the slot holds some of its fragments, each once, and the count of their bytes.
\<close>

definition frag32 :: "(nat \<times> bytes) list \<Rightarrow> (u32 \<times> bytes) list" where
  "frag32 fs = map (\<lambda>f. (of_nat (fst f), snd f)) fs"

definition collecting :: "u64 \<Rightarrow> nat \<Rightarrow> (u32 \<times> bytes) set \<Rightarrow> udp_slot \<Rightarrow> bool" where
  "collecting tid n seen sl \<longleftrightarrow> us_tid sl = tid \<and> us_total sl = of_nat n \<and> set (us_frags sl) = seen
    \<and> distinct (map fst (us_frags sl)) \<and> us_received sl = of_nat (sum_list (map (length \<circ> snd) (us_frags sl)))"

lemma slot_add_collecting:
  assumes "collecting tid n seen sl" "uh_offset h = off" "inj_on fst (insert (off, p) seen)"
  shows "collecting tid n (insert (off, p) seen) (slot_add h p sl)"
proof (cases "map_of (us_frags sl) off")
  case None
  then have "off \<notin> fst ` set (us_frags sl)" by (simp add: map_of_eq_None_iff)
  with assms None show ?thesis by (auto simp: collecting_def slot_add_def)
next
  case (Some q)
  then have "(off, q) \<in> seen" using assms(1) by (auto simp: collecting_def dest: map_of_SomeD)
  with assms(3) have "q = p" by (auto simp: inj_on_def)
  with \<open>(off, q) \<in> seen\<close> assms(1, 2) Some show ?thesis by (simp add: slot_add_def insert_absorb)
qed

lemma collected_bytes:
  assumes "distinct (map fst frags)" "set frags \<subseteq> set fs" "distinct fs"
  shows "sum_list (map (length \<circ> snd) frags) \<le> sum_list (map (length \<circ> snd) fs)"
    and "(\<forall>f \<in> set fs. snd f \<noteq> []) \<Longrightarrow> sum_list (map (length \<circ> snd) frags) = sum_list (map (length \<circ> snd) fs) \<Longrightarrow> set frags = set fs"
proof -
  have d: "distinct frags" using assms(1) by (simp add: distinct_map)
  have s: "sum_list (map (length \<circ> snd) xs) = (\<Sum>x\<in>set xs. length (snd x))" if "distinct xs" for xs :: "('a \<times> 'b list) list"
    using sum.distinct_set_conv_list [OF that, of "\<lambda>x. length (snd x)"] by (simp add: o_def)
  show "sum_list (map (length \<circ> snd) frags) \<le> sum_list (map (length \<circ> snd) fs)"
    using assms(2) by (simp add: s [OF d] s [OF assms(3)] sum_mono2)
  assume n: "\<forall>f \<in> set fs. snd f \<noteq> []" and eq: "sum_list (map (length \<circ> snd) frags) = sum_list (map (length \<circ> snd) fs)"
  show "set frags = set fs"
  proof (rule ccontr)
    assume "set frags \<noteq> set fs"
    then obtain f where f: "f \<in> set fs" "f \<notin> set frags" using assms(2) by blast
    have "(\<Sum>x\<in>set frags. length (snd x)) < (\<Sum>x\<in>set fs. length (snd x))"
      using assms(2) f n by (intro sum_strict_mono2 [of _ _ f]) auto
    then show False using eq by (simp add: s [OF d] s [OF assms(3)])
  qed
qed

text \<open>The session of a sender between transfers, ready for one with a newer identifier.\<close>

definition ready_for :: "u64 \<Rightarrow> udp_session option \<Rightarrow> bool" where
  "ready_for tid so \<longleftrightarrow>
    (case so of None \<Rightarrow> True
     | Some s \<Rightarrow> un_inited s \<and> tid_greater tid (un_last_tid s) \<and> (\<forall>sl. un_slot s = Some sl \<longrightarrow> us_tid sl \<noteq> tid))"

definition midway :: "u64 \<Rightarrow> nat \<Rightarrow> (u32 \<times> bytes) set \<Rightarrow> udp_session option \<Rightarrow> bool" where
  "midway tid n seen so \<longleftrightarrow>
    (\<exists>s sl. so = Some s \<and> un_inited s \<and> un_slot s = Some sl \<and> collecting tid n seen sl)"

definition finished :: "u64 \<Rightarrow> udp_session option \<Rightarrow> bool" where
  "finished tid so \<longleftrightarrow> (\<exists>s. so = Some s \<and> un_inited s \<and> un_last_tid s = tid \<and> un_slot s = None)"

lemma tid_not_greater_self: "\<not> tid_greater tid tid"
  by (simp add: tid_greater_def)

lemma tid_greater_pred: "tid_greater tid (tid - 1)"
  by (simp add: tid_greater_def)

lemma finished_drops:
  assumes "finished (uh_transfer_id h) (up_sessions p (uh_sender_uid h))"
  shows "accept_stateful h payload p = (p, None)"
  using assms by (auto simp: finished_def accept_stateful_def put_session_def Let_def tid_not_greater_self fun_upd_idem)

text \<open>One more fragment, whether it is the first or not.\<close>

lemma accept_fragment:
  assumes state: "seen = {} \<and> ready_for tid (up_sessions p uid) \<or> midway tid n seen (up_sessions p uid)"
    and h: "uh_transfer_id h = tid" "uh_sender_uid h = uid" "uh_transfer_size h = of_nat n" "n < 2 ^ 32"
    and inj: "inj_on fst (insert (uh_offset h, payload) seen)"
  shows "\<exists>sl s. collecting tid n (insert (uh_offset h, payload) seen) sl \<and> un_inited s \<and>
    accept_stateful h payload p =
      (if us_received sl \<ge> of_nat n
       then (put_session uid (s\<lparr>un_last_tid := tid, un_slot := None\<rparr>) p, Some (reassemble (us_frags sl)))
       else (put_session uid (s\<lparr>un_slot := Some sl\<rparr>) p, None))"
proof -
  have size: "ucast (uh_transfer_size h) = (of_nat n :: u64)"
  proof (rule unsigned_word_eqI)
    show "unat (ucast (uh_transfer_size h) :: u64) = unat (of_nat n :: u64)"
      using h(4) by (simp add: h(3) unat_ucast_up unat_of_nat_small)
  qed
  define empty where "empty = \<lparr>us_tid = tid, us_total = of_nat n, us_received = 0, us_frags = []\<rparr>"
  have e: "collecting tid n {} empty" by (simp add: collecting_def empty_def)
  from state show ?thesis
  proof
    assume "seen = {} \<and> ready_for tid (up_sessions p uid)"
    then have ready: "seen = {}" "ready_for tid (up_sessions p uid)" by auto
    let ?sl = "slot_add h payload empty"
    have c: "collecting tid n (insert (uh_offset h, payload) seen) ?sl"
      using slot_add_collecting [OF e refl] inj ready(1) by simp
    define s where "s = (case up_sessions p uid of None \<Rightarrow> \<lparr>un_inited = True, un_last_tid = tid - 1, un_slot = None\<rparr> | Some s \<Rightarrow> s)"
    have s: "un_inited s" using ready(2) by (auto simp: s_def ready_for_def split: option.splits)
    have total: "us_total ?sl = of_nat n" using c by (simp add: collecting_def)
    have "accept_stateful h payload p =
      (if us_received ?sl \<ge> of_nat n
       then (put_session uid (s\<lparr>un_last_tid := tid, un_slot := None\<rparr>) p, Some (reassemble (us_frags ?sl)))
       else (put_session uid (s\<lparr>un_slot := Some ?sl\<rparr>) p, None))"
      using ready(2) h total size unfolding s_def
      by (auto simp: accept_stateful_def Let_def ready_for_def tid_greater_pred empty_def split: option.splits)
    with c s show ?thesis by blast
  next
    assume "midway tid n seen (up_sessions p uid)"
    then obtain s sl where m: "up_sessions p uid = Some s" "un_inited s" "un_slot s = Some sl" "collecting tid n seen sl"
      by (auto simp: midway_def)
    let ?sl = "slot_add h payload sl"
    have c: "collecting tid n (insert (uh_offset h, payload) seen) ?sl"
      using slot_add_collecting [OF m(4) refl] inj by simp
    have "us_tid sl = tid" using m(4) by (simp add: collecting_def)
    moreover have "us_total ?sl = of_nat n" using c by (simp add: collecting_def)
    ultimately have "accept_stateful h payload p =
      (if us_received ?sl \<ge> of_nat n
       then (put_session uid (s\<lparr>un_last_tid := tid, un_slot := None\<rparr>) p, Some (reassemble (us_frags ?sl)))
       else (put_session uid (s\<lparr>un_slot := Some ?sl\<rparr>) p, None))"
      using m h by (simp add: accept_stateful_def Let_def)
    with c m(2) show ?thesis by blast
  qed
qed

subsection \<open>From the writer to the reader\<close>

text \<open>What the operating system hands to a platform: the datagrams with their time, source and connection.\<close>

type_synonym reception = "microsecond \<times> bytes \<times> endpoint \<times> rx_conn"

definition udp_receive :: "(nat \<Rightarrow> endpoint) \<Rightarrow> reception list \<Rightarrow> 'r udp_platform \<Rightarrow> 'r udp_platform" where
  "udp_receive local_addr = fold (\<lambda>(now, data, src, rc). handle_datagram local_addr now data src rc)"

lemma is_self_cong: "pl_tx_socks p = pl_tx_socks q \<Longrightarrow> pl_local_ips p = pl_local_ips q \<Longrightarrow> is_self la src p = is_self la src q"
  by (simp add: is_self_def)

lemma parse_fragment:
  assumes "f \<in> set (fragments 0 data)" "length data < 2 ^ 32" "uh_priority meta \<le> 7" "uh_transfer_size meta = of_nat (length data)"
  shows "\<exists>h. deserialize_header (frag_datagram meta data f) = Some (h, snd f) \<and> uh_transfer_id h = uh_transfer_id meta AND 0xFFFFFFFFFFFF
    \<and> uh_sender_uid h = uh_sender_uid meta \<and> uh_transfer_size h = of_nat (length data) \<and> uh_offset h = of_nat (fst f)
    \<and> uh_priority h = uh_priority meta"
proof -
  have b: "fst f + length (snd f) \<le> length data" using fragments_bounds [OF assms(1)] by simp
  then have o: "unat (of_nat (fst f) :: u32) = fst f" using assms(2) by (simp add: unat_of_nat_small)
  let ?h = "meta\<lparr>uh_offset := of_nat (fst f)\<rparr>" and ?x = "crc32c (take (fst f + length (snd f)) data)"
  have "deserialize_header (serialize_header ?h ?x @ snd f)
    = Some (?h\<lparr>uh_transfer_id := uh_transfer_id ?h AND 0xFFFFFFFFFFFF, uh_prefix_crc := ?x\<rparr>, snd f)"
  proof (rule deserialize_serialize)
    show "uh_priority ?h \<le> 7" using assms(3) by simp
    show "unat (uh_offset ?h) + length (snd f) \<le> unat (uh_transfer_size ?h)"
      using b assms(2) by (simp add: o assms(4) unat_of_nat_small)
    assume "uh_offset ?h = 0"
    then have "unat (of_nat (fst f) :: u32) = 0" by simp
    then have "fst f = 0" by (simp only: o)
    then show "crc32c (snd f) = ?x" using fragments_first [OF assms(1)] by (simp add: min_def)
  qed
  then show ?thesis by (simp add: frag_datagram_def assms(4))
qed

lemma receive_step:
  assumes "deserialize_header d = Some (h, payload)" "\<not> is_self la src p" "up_stateful (pl_port p (rc_port rc))"
    and "accept_stateful h payload (pl_port p (rc_port rc)) = (port, out)"
  shows "handle_datagram la now d src rc p =
    (let p = p\<lparr>pl_port := (pl_port p)(rc_port rc := port)\<rparr>
     in case out of None \<Rightarrow> p | Some m \<Rightarrow> udp_deliver now h m src (rc_ifindex rc) (rc_subject rc) p)"
  using assms by (simp add: handle_datagram_def port_accept_def)

text \<open>
  The state of the receiver after some of the datagrams of a transfer: nothing is delivered while a fragment is missing,
  and exactly one message once there is none.
\<close>

definition arrived :: "u64 \<Rightarrow> u8 \<Rightarrow> bytes \<Rightarrow> reception list \<Rightarrow> (lane \<times> u32 option \<times> message_ts) \<Rightarrow> bool" where
  "arrived uid prio data rs a \<longleftrightarrow>
    (\<exists>(now, d, src, rc) \<in> set rs.
       a = (\<lparr>lane_id = uid, lane_priority = prio, lane_ctx = encode_endpoints src (rc_ifindex rc)\<rparr>, rc_subject rc,
            \<lparr>mts_timestamp = now, mts_content = Some (new_message data)\<rparr>))"

lemma frag32_sorted:
  assumes "length data < 2 ^ 32"
  shows "sorted_wrt (<) (map fst (frag32 (fragments 0 data)))"
proof -
  have "(of_nat x :: u32) < of_nat y" if "x \<in> set (map fst (fragments 0 data))" "y \<in> set (map fst (fragments 0 data))" "x < y" for x y
  proof -
    have "z < 2 ^ 32" if "z \<in> set (map fst (fragments 0 data))" for z
      using that assms fragments_bounds [of _ 0 data] by fastforce
    with that show ?thesis by (simp add: word_less_nat_alt unat_of_nat_small)
  qed
  with fragments_sorted [of 0 data] show ?thesis
    unfolding frag32_def by (simp add: sorted_wrt_map) (rule sorted_wrt_mono_rel, auto)
qed

lemma frag32_payload: "concat (map snd (frag32 fs)) = concat (map snd fs)" "map (length \<circ> snd) (frag32 fs) = map (length \<circ> snd) fs"
  by (simp_all add: frag32_def o_def)

text \<open>The bytes collected are all bytes exactly when all fragments are there; then the message is the payload.\<close>

lemma collecting_complete:
  assumes "collecting tid (length data) seen sl" "seen \<subseteq> set (frag32 (fragments 0 data))" "length data < 2 ^ 32"
  shows "us_received sl \<ge> of_nat (length data) \<longleftrightarrow> seen = set (frag32 (fragments 0 data))"
    and "seen = set (frag32 (fragments 0 data)) \<Longrightarrow> reassemble (us_frags sl) = data"
proof -
  let ?fs = "frag32 (fragments 0 data)"
  have sorted: "sorted_wrt (<) (map fst ?fs)" by (rule frag32_sorted [OF assms(3)])
  then have d: "distinct ?fs" by (auto simp: strict_sorted_iff distinct_map)
  have c: "set (us_frags sl) = seen" "distinct (map fst (us_frags sl))"
    "us_received sl = of_nat (sum_list (map (length \<circ> snd) (us_frags sl)))"
    using assms(1) by (simp_all add: collecting_def)
  have total: "sum_list (map (length \<circ> snd) ?fs) = length data" by (simp add: frag32_payload fragments_lengths)
  have le: "sum_list (map (length \<circ> snd) (us_frags sl)) \<le> length data"
    using collected_bytes(1) [of "us_frags sl" ?fs] c assms(2) d total by simp
  have ne: "\<forall>f \<in> set ?fs. snd f \<noteq> []" using fragments_nonempty by (fastforce simp: frag32_def)
  have "us_received sl \<ge> of_nat (length data) \<longleftrightarrow> sum_list (map (length \<circ> snd) (us_frags sl)) = length data"
    using le assms(3) by (auto simp: c(3) word_le_nat_alt unat_of_nat_small)
  also have "\<dots> \<longleftrightarrow> seen = set ?fs"
  proof
    assume "sum_list (map (length \<circ> snd) (us_frags sl)) = length data"
    then show "seen = set ?fs" using collected_bytes(2) [of "us_frags sl" ?fs] c assms(2) d ne total by simp
  next
    assume "seen = set ?fs"
    moreover have "distinct (us_frags sl)" using c(2) by (simp add: distinct_map)
    ultimately have "mset (us_frags sl) = mset ?fs" using c(1) d by (simp add: set_eq_iff_mset_eq_distinct)
    then have "mset (map (length \<circ> snd) (us_frags sl)) = mset (map (length \<circ> snd) ?fs)" by simp
    then show "sum_list (map (length \<circ> snd) (us_frags sl)) = length data" using total by (metis sum_mset_sum_list)
  qed
  finally show "us_received sl \<ge> of_nat (length data) \<longleftrightarrow> seen = set ?fs" .
  assume "seen = set ?fs"
  then show "reassemble (us_frags sl) = data"
    using reassemble_eq [OF c(2) _ sorted] c(1) by (simp add: frag32_payload concat_fragments)
qed

definition progress :: "udp_header \<Rightarrow> bytes \<Rightarrow> nat \<Rightarrow> 'r udp_platform \<Rightarrow> reception list \<Rightarrow> 'r udp_platform \<Rightarrow> bool" where
  "progress meta data a p0 rs p \<longleftrightarrow>
    (let uid = uh_sender_uid meta; tid = uh_transfer_id meta AND 0xFFFFFFFFFFFF; fs = fragments 0 data;
         session = up_sessions (pl_port p a) uid
     in pl_tx_socks p = pl_tx_socks p0 \<and> pl_local_ips p = pl_local_ips p0 \<and> up_stateful (pl_port p a) \<and>
        (\<exists>seen \<subseteq> set (frag32 fs).
          (\<forall>f \<in> set fs. frag_datagram meta data f \<in> (fst \<circ> snd) ` set rs \<longrightarrow> (of_nat (fst f), snd f) \<in> seen) \<and>
          (if seen = set (frag32 fs)
           then finished tid session \<and> (\<exists>m. arrived uid (uh_priority meta) data rs m \<and> pl_arrivals p = pl_arrivals p0 @ [m])
           else pl_arrivals p = pl_arrivals p0 \<and> (seen = {} \<and> ready_for tid session \<or> midway tid (length data) seen session))))"

lemma progressE:
  assumes "progress meta data a p0 rs p"
  obtains seen where "seen \<subseteq> set (frag32 (fragments 0 data))"
    "\<forall>f \<in> set (fragments 0 data). frag_datagram meta data f \<in> (fst \<circ> snd) ` set rs \<longrightarrow> (of_nat (fst f), snd f) \<in> seen"
    "seen = set (frag32 (fragments 0 data)) \<longrightarrow>
      finished (uh_transfer_id meta AND 0xFFFFFFFFFFFF) (up_sessions (pl_port p a) (uh_sender_uid meta))
      \<and> (\<exists>m. arrived (uh_sender_uid meta) (uh_priority meta) data rs m \<and> pl_arrivals p = pl_arrivals p0 @ [m])"
proof -
  have "\<exists>seen \<subseteq> set (frag32 (fragments 0 data)).
    (\<forall>f \<in> set (fragments 0 data). frag_datagram meta data f \<in> (fst \<circ> snd) ` set rs \<longrightarrow> (of_nat (fst f), snd f) \<in> seen) \<and>
    (seen = set (frag32 (fragments 0 data)) \<longrightarrow>
      finished (uh_transfer_id meta AND 0xFFFFFFFFFFFF) (up_sessions (pl_port p a) (uh_sender_uid meta))
      \<and> (\<exists>m. arrived (uh_sender_uid meta) (uh_priority meta) data rs m \<and> pl_arrivals p = pl_arrivals p0 @ [m]))"
    using assms unfolding progress_def Let_def by (elim conjE exE) (rule exI, erule conjI, metis (no_types, lifting))
  with that show thesis by blast
qed

lemma arrived_mono: "arrived uid prio data rs m \<Longrightarrow> set rs \<subseteq> set rs' \<Longrightarrow> arrived uid prio data rs' m"
  unfolding arrived_def by blast

lemma progress_step:
  assumes p: "progress meta data a p0 rs p" and data: "length data < 2 ^ 32"
    and meta: "uh_priority meta \<le> 7" "uh_transfer_size meta = of_nat (length data)"
    and f: "f \<in> set (fragments 0 data)" and rc: "rc_port rc = a" and self: "\<not> is_self la src p0"
  shows "progress meta data a p0 (rs @ [(now, frag_datagram meta data f, src, rc)])
    (handle_datagram la now (frag_datagram meta data f) src rc p)"
proof -
  let ?fs = "fragments 0 data" and ?tid = "uh_transfer_id meta AND 0xFFFFFFFFFFFF" and ?uid = "uh_sender_uid meta"
  let ?r = "(now, frag_datagram meta data f, src, rc)" and ?x = "(of_nat (fst f) :: u32, snd f)"
  let ?p' = "handle_datagram la now (frag_datagram meta data f) src rc p"
  obtain h where h: "deserialize_header (frag_datagram meta data f) = Some (h, snd f)" "uh_transfer_id h = ?tid"
      "uh_sender_uid h = ?uid" "uh_transfer_size h = of_nat (length data)" "uh_offset h = of_nat (fst f)"
      "uh_priority h = uh_priority meta"
    using parse_fragment [OF f data meta] by blast
  obtain seen where seen: "seen \<subseteq> set (frag32 ?fs)"
      "\<forall>g \<in> set ?fs. frag_datagram meta data g \<in> (fst \<circ> snd) ` set rs \<longrightarrow> (of_nat (fst g), snd g) \<in> seen"
      "if seen = set (frag32 ?fs)
       then finished ?tid (up_sessions (pl_port p a) ?uid) \<and> (\<exists>m. arrived ?uid (uh_priority meta) data rs m \<and> pl_arrivals p = pl_arrivals p0 @ [m])
       else pl_arrivals p = pl_arrivals p0
         \<and> (seen = {} \<and> ready_for ?tid (up_sessions (pl_port p a) ?uid) \<or> midway ?tid (length data) seen (up_sessions (pl_port p a) ?uid))"
    and frame: "pl_tx_socks p = pl_tx_socks p0" "pl_local_ips p = pl_local_ips p0" "up_stateful (pl_port p a)"
    using p unfolding progress_def Let_def by blast
  have "\<not> is_self la src p" using self is_self_cong [of p p0] frame by simp
  note step = receive_step [OF h(1) this, of rc, unfolded rc, OF frame(3)]
  have x: "?x \<in> set (frag32 ?fs)" using f by (auto simp: frag32_def)
  have grow: "\<forall>g \<in> set ?fs. frag_datagram meta data g \<in> (fst \<circ> snd) ` set (rs @ [?r]) \<longrightarrow> (of_nat (fst g), snd g) \<in> insert ?x seen"
  proof (intro ballI impI)
    fix g assume g: "g \<in> set ?fs" "frag_datagram meta data g \<in> (fst \<circ> snd) ` set (rs @ [?r])"
    show "(of_nat (fst g), snd g) \<in> insert ?x seen"
    proof (cases "frag_datagram meta data g = frag_datagram meta data f")
      case True
      then show ?thesis using parse_fragment [OF g(1) data meta] h(1, 5) by auto
    next
      case False
      with g seen(2) show ?thesis by auto
    qed
  qed
  have sub: "insert ?x seen \<subseteq> set (frag32 ?fs)" using x seen(1) by simp
  have inj: "inj_on fst (insert ?x seen)"
    by (rule inj_on_subset [OF _ sub]) (use frag32_sorted [OF data] in \<open>simp add: strict_sorted_iff distinct_map\<close>)
  show ?thesis
  proof (cases "seen = set (frag32 ?fs)")
    case True
    then obtain m where fin: "finished ?tid (up_sessions (pl_port p a) ?uid)"
      and m0: "arrived ?uid (uh_priority meta) data rs m" "pl_arrivals p = pl_arrivals p0 @ [m]"
      using seen(3) by auto
    have m: "arrived ?uid (uh_priority meta) data (rs @ [?r]) m" by (rule arrived_mono [OF m0(1)]) auto
    have "accept_stateful h (snd f) (pl_port p a) = (pl_port p a, None)"
      using fin h by (intro finished_drops) simp
    from step [OF this] have p': "?p' = p" by (simp add: Let_def)
    have "insert ?x seen = set (frag32 ?fs)" using True x by auto
    then show ?thesis
      unfolding p' progress_def Let_def using frame fin m m0(2) grow
      by (cases m, intro conjI exI [of _ "set (frag32 ?fs)"]) auto
  next
    case False
    then have old: "pl_arrivals p = pl_arrivals p0"
        "seen = {} \<and> ready_for ?tid (up_sessions (pl_port p a) ?uid) \<or> midway ?tid (length data) seen (up_sessions (pl_port p a) ?uid)"
      using seen(3) by auto
    obtain sl s where acc: "collecting ?tid (length data) (insert ?x seen) sl" "un_inited s"
      "accept_stateful h (snd f) (pl_port p a) =
        (if us_received sl \<ge> of_nat (length data)
         then (put_session ?uid (s\<lparr>un_last_tid := ?tid, un_slot := None\<rparr>) (pl_port p a), Some (reassemble (us_frags sl)))
         else (put_session ?uid (s\<lparr>un_slot := Some sl\<rparr>) (pl_port p a), None))"
      using accept_fragment [OF old(2) h(2, 3, 4) data, of "snd f"] inj unfolding h(5) by blast
    note complete = collecting_complete [OF acc(1) sub data]
    show ?thesis
    proof (cases "insert ?x seen = set (frag32 ?fs)")
      case True
      then have "accept_stateful h (snd f) (pl_port p a)
          = (put_session ?uid (s\<lparr>un_last_tid := ?tid, un_slot := None\<rparr>) (pl_port p a), Some data)"
        using acc(3) complete by simp
      from step [OF this] show ?thesis
        unfolding progress_def Let_def using frame grow True acc(2) h(3, 6) old(1)
        by (intro conjI exI [of _ "set (frag32 ?fs)"])
          (auto simp: udp_deliver_def put_session_def finished_def arrived_def rc intro: exI)
    next
      case no: False
      then have "accept_stateful h (snd f) (pl_port p a) = (put_session ?uid (s\<lparr>un_slot := Some sl\<rparr>) (pl_port p a), None)"
        using acc(3) complete by simp
      from step [OF this] show ?thesis
        unfolding progress_def Let_def using frame grow no acc(1, 2) old(1) sub
        by (intro conjI exI [of _ "insert ?x seen"]) (auto simp: put_session_def midway_def)
    qed
  qed
qed

lemma progress_run:
  assumes "progress meta data a p0 rs p" "length data < 2 ^ 32" "uh_priority meta \<le> 7" "uh_transfer_size meta = of_nat (length data)"
    and "\<forall>(now, d, src, rc) \<in> set rs'. d \<in> frag_datagram meta data ` set (fragments 0 data) \<and> rc_port rc = a \<and> \<not> is_self la src p0"
  shows "progress meta data a p0 (rs @ rs') (udp_receive la rs' p)"
  using assms
proof (induction rs' arbitrary: rs p)
  case (Cons r rs')
  obtain now d src rc where r: "r = (now, d, src, rc)" by (cases r)
  then obtain f where f: "f \<in> set (fragments 0 data)" "d = frag_datagram meta data f" using Cons.prems(5) by auto
  have "progress meta data a p0 (rs @ [r]) (handle_datagram la now d src rc p)"
    using progress_step [OF Cons.prems(1-4) f(1), of rc la src now] Cons.prems(5) r f(2) by simp
  from Cons.IH [OF this Cons.prems(2-4)] show ?case using Cons.prems(5) r by (simp add: udp_receive_def)
qed (simp add: udp_receive_def)

lemma sent_datagrams:
  assumes "\<not> pl_closed s" "somes (pl_tx_socks s) \<noteq> []"
    and "meta = \<lparr>uh_priority = prio AND 7, uh_transfer_id = uw_next_transfer_id (pl_writer s w), uh_sender_uid = pl_uid s,
                 uh_offset = 0, uh_transfer_size = of_nat (length data), uh_prefix_crc = 0\<rparr>"
  shows "(snd \<circ> snd) ` set (drop (length (pl_sent s)) (pl_sent (fst (udp_writer_send w prio data s))))
    = frag_datagram meta data ` set (fragments 0 data)"
proof -
  have img: "(snd \<circ> snd) ` set (concat (map (\<lambda>d. map (\<lambda>sock. (sock, dst, d)) socks) ds)) = set ds"
    if "socks \<noteq> []" for socks :: "nat list" and dst :: endpoint and ds :: "bytes list"
    using that by (induction ds) (simp_all add: image_Un image_image image_constant_conv)
  have eq: "drop (length (pl_sent s)) (pl_sent (fst (udp_writer_send w prio data s)))
    = concat (map (\<lambda>d. map (\<lambda>sock. (sock, subject_endpoint (uw_subject_id (pl_writer s w)), d)) (somes (pl_tx_socks s)))
        (map (frag_datagram meta data) (fragments 0 data)))"
    using assms(1) by (simp add: udp_writer_send_def send_transfer_def Let_def transfer_loop_eq assms(3))
  show ?thesis unfolding eq img [OF assms(2)] set_map by (rule refl)
qed

text \<open>C5: the datagrams that a writer sends for a payload, received by another platform on connections of one stateful port
  in any order, each of them at least once and as often as the network likes, are delivered as exactly one
  message with that payload, the identity of the sender and its priority. What is required of the receiver is that the session
  of the sender is past no newer transfer, and that it does not take the datagrams for its own. After
  that the session remembers the transfer as the last one.\<close>

theorem udp_transfer_delivered:
  assumes open_writer: "\<not> pl_closed s" "somes (pl_tx_socks s) \<noteq> []"
    and payload: "data \<noteq> []" "length data < 2 ^ 32"
    and sent: "sent = drop (length (pl_sent s)) (pl_sent (fst (udp_writer_send w prio data s)))"
    and tid: "tid = uw_next_transfer_id (pl_writer s w) AND 0xFFFFFFFFFFFF"
    and received: "(fst \<circ> snd) ` set rs = (snd \<circ> snd) ` set sent"
    and conns: "\<forall>(now, d, src, rc) \<in> set rs. rc_port rc = a \<and> \<not> is_self la src p"
    and port: "up_stateful (pl_port p a)" "ready_for tid (up_sessions (pl_port p a) (pl_uid s))"
  shows "(\<exists>m. arrived (pl_uid s) (prio AND 7) data rs m \<and> pl_arrivals (udp_receive la rs p) = pl_arrivals p @ [m])
    \<and> finished tid (up_sessions (pl_port (udp_receive la rs p) a) (pl_uid s))"
proof -
  define meta where "meta = \<lparr>uh_priority = prio AND 7, uh_transfer_id = uw_next_transfer_id (pl_writer s w), uh_sender_uid = pl_uid s,
                 uh_offset = 0, uh_transfer_size = of_nat (length data), uh_prefix_crc = 0\<rparr>"
  let ?fs = "fragments 0 data"
  have ds: "(fst \<circ> snd) ` set rs = frag_datagram meta data ` set ?fs"
    using sent_datagrams [OF open_writer meta_def] received sent by simp
  have meta: "uh_priority meta \<le> 7" "uh_transfer_size meta = of_nat (length data)"
    using word_and_le1 [of prio 7] by (simp_all add: meta_def and.commute)
  have "fragments 0 data \<noteq> []" using payload(1) by (simp add: fragments.simps)
  then have start: "progress meta data a p [] p"
    unfolding progress_def Let_def using port tid
    by (intro conjI exI [of _ "{}"]) (auto simp: meta_def frag32_def)
  have "\<forall>(now, d, src, rc) \<in> set rs. d \<in> frag_datagram meta data ` set ?fs \<and> rc_port rc = a \<and> \<not> is_self la src p"
  proof (intro ballI, clarify)
    fix now d src rc assume r: "(now, d, src, rc) \<in> set rs"
    then have "d \<in> (fst \<circ> snd) ` set rs" by force
    with ds have "d \<in> frag_datagram meta data ` set ?fs" by simp
    with conns r show "d \<in> frag_datagram meta data ` set ?fs \<and> rc_port rc = a \<and> \<not> is_self la src p" by auto
  qed
  from progress_run [OF start payload(2) meta this]
  have "progress meta data a p rs (udp_receive la rs p)" by simp
  then obtain seen where seen: "seen \<subseteq> set (frag32 ?fs)"
      "\<forall>f \<in> set ?fs. frag_datagram meta data f \<in> (fst \<circ> snd) ` set rs \<longrightarrow> (of_nat (fst f), snd f) \<in> seen"
      "seen = set (frag32 ?fs) \<longrightarrow> finished (uh_transfer_id meta AND 0xFFFFFFFFFFFF) (up_sessions (pl_port (udp_receive la rs p) a) (uh_sender_uid meta))
        \<and> (\<exists>m. arrived (uh_sender_uid meta) (uh_priority meta) data rs m \<and> pl_arrivals (udp_receive la rs p) = pl_arrivals p @ [m])"
    by (rule progressE)
  have "x \<in> seen" if x: "x \<in> set (frag32 ?fs)" for x
  proof -
    from x obtain f where "f \<in> set ?fs" "x = (of_nat (fst f), snd f)" by (auto simp: frag32_def)
    with seen(2) ds show ?thesis by simp
  qed
  then have "seen = set (frag32 ?fs)" using seen(1) by blast
  with seen(3) show ?thesis by (simp add: meta_def tid)
qed

definition demo_udp :: "u64 \<Rightarrow> unit udp_platform" where
  "demo_udp uid = the (new_udp_platform uid [] [] 0 () (\<lambda>i. Some i))"

definition demo_address :: "nat \<Rightarrow> endpoint" where "demo_address _ = \<lparr>ep_ip = 0, ep_port = 9\<rparr>"

definition demo_conn :: rx_conn where "demo_conn = \<lparr>rc_conn = Some 0, rc_port = 0, rc_subject = None, rc_ifindex = 0\<rparr>"

text \<open>Two fragments, the last one first, and each of them twice.\<close>

definition demo_receptions :: "reception list" where
  "demo_receptions =
    (let ds = map (\<lambda>(_, _, d). (0, d, \<lparr>ep_ip = 1, ep_port = 2\<rparr>, demo_conn))
        (drop (length (pl_sent (demo_udp 5))) (pl_sent (fst (udp_writer_send 0 4 (replicate 2000 7) (demo_udp 5)))))
     in rev ds @ ds)"

theorem udp_transfer_delivered_witness:
  "\<exists>m. arrived 5 4 (replicate 2000 7) demo_receptions m
    \<and> pl_arrivals (udp_receive demo_address demo_receptions (demo_udp 6)) = [m]"
proof -
  have d: "\<not> pl_closed (demo_udp 5)" "somes (pl_tx_socks (demo_udp 5)) \<noteq> []" "pl_arrivals (demo_udp 6) = []"
    "pl_uid (demo_udp 5) = 5" "pl_local_ips (demo_udp 6) = []" "pl_port (demo_udp 6) 0 = new_rx_port True 1400"
    by (simp_all add: demo_udp_def new_udp_platform_def somes_def iface_count_max_def mtu_default_def)
  have "(\<exists>m. arrived (pl_uid (demo_udp 5)) (4 AND 7) (replicate 2000 7) demo_receptions m
      \<and> pl_arrivals (udp_receive demo_address demo_receptions (demo_udp 6)) = pl_arrivals (demo_udp 6) @ [m])
    \<and> finished (uw_next_transfer_id (pl_writer (demo_udp 5) 0) AND 0xFFFFFFFFFFFF)
        (up_sessions (pl_port (udp_receive demo_address demo_receptions (demo_udp 6)) 0) (pl_uid (demo_udp 5)))"
    by (rule udp_transfer_delivered [OF d(1, 2) _ _ refl refl])
      (auto simp: d is_self_def new_rx_port_def ready_for_def image_image image_Un case_prod_beta demo_receptions_def demo_conn_def Let_def)
  then show ?thesis by (simp add: d)
qed

subsection \<open>Limits\<close>

text \<open>A peer is taken for the platform itself because of its port number alone, whatever its address.\<close>

lemma is_self_ignores_address: "ep_port src = ep_port src' \<Longrightarrow> is_self la src p = is_self la src' p"
  by (simp add: is_self_def)

text \<open>An empty payload is reported as sent, but there is no datagram.\<close>

lemma empty_payload_not_sent:
  assumes "\<not> pl_closed p"
  shows "snd (udp_writer_send w prio [] p) = OK" "pl_sent (fst (udp_writer_send w prio [] p)) = pl_sent p"
  using assms by (simp_all add: udp_writer_send_def send_transfer_def Let_def send_nothing)

text \<open>
  Only the first fragment is checked against its checksum, and the size of later frames is not compared with that of
  the first: a frame that overlaps it completes a transfer of the right length with the wrong bytes.
\<close>

lemma overlap_accepted:
  assumes "ready_for tid (up_sessions p uid)"
    and h: "uh_transfer_id h = tid" "uh_sender_uid h = uid" "uh_transfer_size h = 4" "uh_offset h = 0"
    and k: "k = h\<lparr>uh_offset := 1\<rparr>"
  shows "snd (accept_stateful k [9, 9] (fst (accept_stateful h [1, 2] p))) = Some [1, 2, 9, 9]"
proof -
  let ?sl = "\<lparr>us_tid = tid, us_total = 4, us_received = 2, us_frags = [(0, [1, 2])]\<rparr>"
  have "\<exists>s. un_inited s \<and> accept_stateful h [1, 2] p = (put_session uid (s\<lparr>un_slot := Some ?sl\<rparr>) p, None)"
  proof (cases "up_sessions p uid")
    case None
    then show ?thesis
      using h by (intro exI [of _ "\<lparr>un_inited = True, un_last_tid = tid - 1, un_slot = None\<rparr>"])
        (simp add: accept_stateful_def slot_add_def tid_greater_pred)
  next
    case (Some s)
    then have "un_inited s" "tid_greater tid (un_last_tid s)" "\<forall>sl. un_slot s = Some sl \<longrightarrow> us_tid sl \<noteq> tid"
      using assms(1) by (simp_all add: ready_for_def)
    then show ?thesis
      using h Some by (intro exI [of _ s]) (simp add: accept_stateful_def slot_add_def split: option.split)
  qed
  then obtain s where "un_inited s" "accept_stateful h [1, 2] p = (put_session uid (s\<lparr>un_slot := Some ?sl\<rparr>) p, None)" by blast
  then show ?thesis
    using h unfolding k by (simp add: accept_stateful_def put_session_def slot_add_def reassemble_def sort_offsets_def)
qed

text \<open>The first fragment of a transfer to a stateless port is dropped when another fragment was seen before it.\<close>

lemma stateless_order_matters:
  assumes "fst (up_history p) \<noteq> uh_transfer_id h XOR uh_sender_uid h" "snd (up_history p) \<noteq> uh_transfer_id h XOR uh_sender_uid h"
    and "uh_offset h \<noteq> 0"
  shows "snd (accept_stateless (h\<lparr>uh_offset := 0\<rparr>) q (fst (accept_stateless h payload p))) = None"
  using assms by (simp add: accept_stateless_def Let_def)

end
