(* ===== verification/CyCan.thy ===== *)
theory CyCan
  imports CanLink CyNameSpec CyNode
begin

unbundle bit_operations_syntax

text \<open>
  The Cyphal/CAN platform of \<open>cy/can/platform.go\<close>, which puts the session layer on top of the transport: messages
  of the session layer with their 24-byte header go out as CAN transfers, a pinned best-effort message
  without its header on a 13-bit subject; received transfers are queued and handed to the
  session layer at the end of a spin. The driver below (\<open>transmit\<close>) and the hash function are parameters; the calls of
  \<open>OnMessage\<close> are logged. A subscription of the transport is an address, as in \<open>CanNode\<close>; the closure that the
  code registers with it is a value of \<open>can_handler\<close>.
\<close>

definition unicast_service_id :: u16 where "unicast_service_id = 511"
definition can_header_bytes :: nat where "can_header_bytes = 24"
definition default_transfer_id_timeout_us :: int where "default_transfer_id_timeout_us = 2000000"

text \<open>A frame of the driver package: eight bytes of data, of which the length says how many count.\<close>

record go_can_frame =
  cf_id :: u32
  cf_length :: u8
  cf_data :: bytes
  cf_remote :: bool
  cf_extended :: bool

record subject_reader =
  sr_subject_id :: u32
  sr_extent :: int

record reader_ctx =
  rd_subject_id :: u32
  rd_pinned :: bool
  rd_phony :: bytes
  rd_phony_tag :: u64

datatype can_handler = OnSubject nat | OnHeaderless nat | OnUnicast

record 'e can_node =
  cn_canard :: canard
  cn_env :: 'e
  cn_handler :: "nat \<Rightarrow> can_handler option"
  cn_next_sub :: nat
  cn_ctx :: "nat \<Rightarrow> reader_ctx"
  cn_next_ctx :: nat
  cn_rx_ch :: "go_can_frame list"
  cn_closed :: bool
  cn_pending :: "(lane \<times> u32 option \<times> message_ts) list"
  cn_writers :: "(u32 \<Rightarrow> bool) option"
  cn_readers :: "(u32 \<Rightarrow> nat option) option"
  cn_reader :: "nat \<Rightarrow> subject_reader"
  cn_next_reader :: nat
  cn_unicast_tid :: "u8 list"
  cn_unicast_sub :: nat
  cn_unicast_extent :: int
  cn_rand_state :: u64
  cn_arrivals :: "(lane \<times> u32 option \<times> message_ts) list"

subsection \<open>Frames\<close>

definition can_frame_of :: "tx_request \<Rightarrow> go_can_frame" where
  "can_frame_of rq =
    \<lparr>cf_id = rq_can_id rq, cf_length = of_nat (length (rq_data rq)), cf_data = go_copy (replicate 8 0) (rq_data rq),
     cf_remote = False, cf_extended = True\<rparr>"

definition can_tx :: "(go_can_frame \<Rightarrow> 'e \<Rightarrow> bool \<times> 'e) \<Rightarrow> tx_request \<Rightarrow> 'e \<Rightarrow> bool \<times> 'e" where
  "can_tx transmit rq env = transmit (can_frame_of rq) env"

definition can_functions :: "('e \<Rightarrow> int \<times> 'e) \<Rightarrow> (go_can_frame \<Rightarrow> 'e \<Rightarrow> bool \<times> 'e) \<Rightarrow> 'e platform" where
  "can_functions now transmit = \<lparr>p_now = now, p_tx = can_tx transmit, p_filter = (\<lambda>filters env. (True, env))\<rparr>"

definition rx_ch_capacity :: nat where "rx_ch_capacity = 1024"

text \<open>One turn of \<open>recvLoop\<close>: a frame is dropped when the channel is full.\<close>

definition recv_frame :: "go_can_frame \<Rightarrow> 'e can_node \<Rightarrow> 'e can_node" where
  "recv_frame f n = (if length (cn_rx_ch n) < rx_ch_capacity then n\<lparr>cn_rx_ch := cn_rx_ch n @ [f]\<rparr> else n)"

subsection \<open>Received transfers\<close>

definition can_lane :: "u8 \<Rightarrow> u8 \<Rightarrow> lane" where
  "can_lane src prio = \<lparr>lane_id = ucast src, lane_priority = prio, lane_ctx = (replicate 24 0)[0 := src]\<rparr>"

definition can_message :: "int \<Rightarrow> bytes \<Rightarrow> message_ts" where
  "can_message ts buf = \<lparr>mts_timestamp = word_of_int ts, mts_content = Some (new_message buf)\<rparr>"

definition can_enqueue :: "u32 \<Rightarrow> u8 \<Rightarrow> u8 \<Rightarrow> int \<Rightarrow> bytes \<Rightarrow> 'e can_node \<Rightarrow> 'e can_node" where
  "can_enqueue subject_id src prio ts buf n =
    n\<lparr>cn_pending := cn_pending n @ [(can_lane src prio, Some subject_id, can_message ts buf)]\<rparr>"

definition can_enqueue_unicast :: "u8 \<Rightarrow> u8 \<Rightarrow> int \<Rightarrow> bytes \<Rightarrow> 'e can_node \<Rightarrow> 'e can_node" where
  "can_enqueue_unicast src prio ts buf n =
    n\<lparr>cn_pending := cn_pending n @ [(can_lane src prio, None, can_message ts buf)]\<rparr>"

text \<open>The header that a transfer without one is given: the fixed part, and the running tag.\<close>

definition headerless_message :: "bytes \<Rightarrow> u64 \<Rightarrow> bytes \<Rightarrow> bytes" where
  "headerless_message phony tag payload =
    (let buf = replicate (can_header_bytes + length payload) 0;
         buf = go_copy (take can_header_bytes buf) phony @ drop can_header_bytes buf;
         buf = put_at 16 (put_u64 tag) buf
     in take can_header_bytes buf @ go_copy (drop can_header_bytes buf) payload)"

definition can_on_message :: "delivery \<Rightarrow> 'e can_node \<Rightarrow> 'e can_node" where
  "can_on_message dv n =
    (case cn_handler n (dv_subscription dv) of
       None \<Rightarrow> n
     | Some OnUnicast \<Rightarrow> can_enqueue_unicast (dv_source dv) (dv_priority dv) (dv_timestamp dv) (dv_payload dv) n
     | Some (OnSubject c) \<Rightarrow>
         can_enqueue (rd_subject_id (cn_ctx n c)) (dv_source dv) (dv_priority dv) (dv_timestamp dv) (dv_payload dv) n
     | Some (OnHeaderless c) \<Rightarrow>
         let ctx = (cn_ctx n c)\<lparr>rd_phony_tag := rd_phony_tag (cn_ctx n c) + 1\<rparr>;
             n = n\<lparr>cn_ctx := (cn_ctx n)(c := ctx)\<rparr>;
             buf = headerless_message (rd_phony ctx) (rd_phony_tag ctx) (dv_payload dv)
         in can_enqueue (rd_subject_id ctx) (dv_source dv) (dv_priority dv) (dv_timestamp dv) buf n)"

text \<open>The deliveries that the transport makes while it takes a frame in are passed to their handlers.\<close>

definition can_ingest :: "int \<Rightarrow> go_can_frame \<Rightarrow> 'e can_node \<Rightarrow> go_panic + 'e can_node" where
  "can_ingest ts f n =
    and_then (go_slice (cf_data f) 0 (uint (cf_length f))) (\<lambda>data.
    and_then (ingest_frame (cn_canard n) ts 0 (cf_id f) data) (\<lambda>(c, _).
      Inr (fold can_on_message (drop (length (rx_deliveries (cn_canard n))) (rx_deliveries c)) (n\<lparr>cn_canard := c\<rparr>))))"

subsection \<open>Construction\<close>

definition new_can_platform :: "int \<Rightarrow> int \<Rightarrow> u64 \<Rightarrow> u64 \<Rightarrow> 'e \<Rightarrow> 'e can_node option" where
  "new_can_platform capacity filter_count seed address env =
    (let capacity = (if capacity \<le> 0 then 256 else capacity);
         filter_count = (if filter_count \<le> 0 then 0 else filter_count)
     in case canard_init True True True iface_bitmap_all capacity seed filter_count address of
          None \<Rightarrow> None
        | Some c \<Rightarrow>
            let c = set_classic_can c True;
                ue = 256;
                (c, sub) = subscribe_request c 0 unicast_service_id ue default_transfer_id_timeout_us True
            in case sub of
                 None \<Rightarrow> None
               | Some _ \<Rightarrow>
                   Some \<lparr>cn_canard = c, cn_env = env, cn_handler = (\<lambda>_. None)(0 \<mapsto> OnUnicast), cn_next_sub = 1,
                         cn_ctx = (\<lambda>_. \<lparr>rd_subject_id = 0, rd_pinned = False, rd_phony = replicate can_header_bytes 0, rd_phony_tag = 0\<rparr>),
                         cn_next_ctx = 0, cn_rx_ch = [], cn_closed = False, cn_pending = [],
                         cn_writers = Some (\<lambda>_. False), cn_readers = Some (\<lambda>_. None),
                         cn_reader = (\<lambda>_. \<lparr>sr_subject_id = 0, sr_extent = 0\<rparr>), cn_next_reader = 0,
                         cn_unicast_tid = replicate (unat node_id_max + 1) 0, cn_unicast_sub = 0, cn_unicast_extent = 0,
                         cn_rand_state = seed, cn_arrivals = []\<rparr>)"

definition can_destroy :: "'e can_node \<Rightarrow> 'e can_node" where
  "can_destroy n = (if cn_closed n then n else n\<lparr>cn_closed := True, cn_writers := None, cn_readers := None\<rparr>)"

subsection \<open>Writers\<close>

text \<open>A writer is its subject.\<close>

definition can_new_writer :: "u32 \<Rightarrow> 'e can_node \<Rightarrow> 'e can_node \<times> u32 cy_result" where
  "can_new_writer subject_id n =
    (case cn_writers n of
       None \<Rightarrow> (n, Inl ErrArgument)
     | Some ws \<Rightarrow> if ws subject_id then (n, Inr subject_id) else (n\<lparr>cn_writers := Some (ws(subject_id := True))\<rparr>, Inr subject_id))"

definition can_destroy_writer :: "u32 \<Rightarrow> 'e can_node \<Rightarrow> 'e can_node" where
  "can_destroy_writer w n =
    (case cn_writers n of None \<Rightarrow> n | Some ws \<Rightarrow> n\<lparr>cn_writers := Some (ws(w := False))\<rparr>)"

definition compat_topic_hash :: "(bytes \<Rightarrow> u64) \<Rightarrow> u32 \<Rightarrow> u64" where
  "compat_topic_hash rapidhash sid = rapidhash (bytes_of_string (dec (unat sid)))"

definition topic_is_compat_named :: "(bytes \<Rightarrow> u64) \<Rightarrow> u32 \<Rightarrow> bytes \<Rightarrow> bool" where
  "topic_is_compat_named rapidhash sid hdr =
    (let want = compat_topic_hash rapidhash sid;
         got = ucast (hdr ! 8) OR push_bit 8 (ucast (hdr ! 9)) OR push_bit 16 (ucast (hdr ! 10))
           OR push_bit 24 (ucast (hdr ! 11)) OR push_bit 32 (ucast (hdr ! 12)) OR push_bit 40 (ucast (hdr ! 13))
           OR push_bit 48 (ucast (hdr ! 14)) OR push_bit 56 (ucast (hdr ! 15))
     in got = want)"

definition use_13b :: "(bytes \<Rightarrow> u64) \<Rightarrow> u32 \<Rightarrow> bytes \<Rightarrow> bool" where
  "use_13b rapidhash sid data \<longleftrightarrow> sid \<le> subject_id_pinned_max \<and> data ! 0 = 0 \<and> topic_is_compat_named rapidhash sid data"

definition can_writer_send :: "(bytes \<Rightarrow> u64) \<Rightarrow> 'e platform \<Rightarrow> u32 \<Rightarrow> microsecond \<Rightarrow> u8 \<Rightarrow> bytes \<Rightarrow> 'e can_node \<Rightarrow> 'e can_node \<times> cy_error" where
  "can_writer_send rapidhash pf w deadline priority data n =
    (if length data < can_header_bytes then (n, ErrArgument)
     else
       let sid = (ucast w :: u16);
           (c, env, ok) =
             (if use_13b rapidhash w data
              then publish_13b pf (cn_canard n) (cn_env n) (sint deadline) iface_bitmap_all priority sid 0 (drop can_header_bytes data) 0
              else publish_16b pf (cn_canard n) (cn_env n) (sint deadline) iface_bitmap_all priority sid 0 data 0)
       in (n\<lparr>cn_canard := c, cn_env := env\<rparr>, if ok then OK else ErrMemory))"

subsection \<open>Readers\<close>

definition build_phony_header :: "(bytes \<Rightarrow> u64) \<Rightarrow> u32 \<Rightarrow> bytes" where
  "build_phony_header rapidhash sid =
    (let out = replicate can_header_bytes 0;
         out = out[3 := 0xFF];
         ev = NOT 0 - sid;
         out = out[4 := ucast ev];
         out = out[5 := ucast (drop_bit 8 ev)];
         out = out[6 := ucast (drop_bit 16 ev)];
         out = out[7 := ucast (drop_bit 24 ev)];
         h = compat_topic_hash rapidhash sid
     in fold (\<lambda>i out. out[8 + i := ucast (drop_bit (8 * i) h)]) [0..<8] out)"

definition can_new_reader :: "(bytes \<Rightarrow> u64) \<Rightarrow> u32 \<Rightarrow> int \<Rightarrow> 'e can_node \<Rightarrow> 'e can_node \<times> nat cy_result" where
  "can_new_reader rapidhash subject_id extent n =
    (case cn_readers n of
       None \<Rightarrow> (n, Inl ErrArgument)
     | Some rs \<Rightarrow> (case rs subject_id of
         Some r \<Rightarrow> (n, Inr r)
       | None \<Rightarrow>
           let sid = (ucast subject_id :: u16);
               pinned = (subject_id \<le> subject_id_pinned_max);
               ctx = \<lparr>rd_subject_id = subject_id, rd_pinned = pinned,
                      rd_phony = (if pinned then build_phony_header rapidhash subject_id else replicate can_header_bytes 0),
                      rd_phony_tag = 0\<rparr>;
               k = cn_next_ctx n;
               b = cn_next_sub n;
               (c, r16) = subscribe_16b (cn_canard n) b sid extent default_transfer_id_timeout_us True;
               n = n\<lparr>cn_canard := c, cn_ctx := (cn_ctx n)(k := ctx), cn_next_ctx := k + 1,
                     cn_handler := (cn_handler n)(b \<mapsto> OnSubject k), cn_next_sub := b + 1\<rparr>
           in if r16 = None then (n, Inl ErrArgument)
              else
                let b13 = cn_next_sub n;
                    extent13 = (if extent > int can_header_bytes then extent - int can_header_bytes else extent);
                    (n, ok) =
                      (if pinned
                       then (let (c, r13) = subscribe_13b (cn_canard n) b13 sid extent13 default_transfer_id_timeout_us True
                             in (n\<lparr>cn_canard := c, cn_handler := (cn_handler n)(b13 \<mapsto> OnHeaderless k), cn_next_sub := b13 + 1\<rparr>,
                                 r13 \<noteq> None))
                       else (n, True))
                in if \<not> ok then (n, Inl ErrArgument)
                   else
                     let r = cn_next_reader n
                     in (n\<lparr>cn_reader := (cn_reader n)(r := \<lparr>sr_subject_id = subject_id, sr_extent = extent\<rparr>), cn_next_reader := r + 1,
                           cn_readers := Some (rs(subject_id \<mapsto> r))\<rparr>, Inr r)))"

definition can_destroy_reader :: "nat \<Rightarrow> 'e can_node \<Rightarrow> 'e can_node" where
  "can_destroy_reader r n =
    (case cn_readers n of None \<Rightarrow> n
     | Some rs \<Rightarrow> n\<lparr>cn_readers := Some (rs(sr_subject_id (cn_reader n r) := None))\<rparr>)"

definition can_set_reader_extent :: "nat \<Rightarrow> int \<Rightarrow> 'e can_node \<Rightarrow> 'e can_node" where
  "can_set_reader_extent r extent n = n\<lparr>cn_reader := (cn_reader n)(r := (cn_reader n r)\<lparr>sr_extent := extent\<rparr>)\<rparr>"

subsection \<open>Unicast\<close>

definition can_unicast :: "'e platform \<Rightarrow> lane \<Rightarrow> microsecond \<Rightarrow> bytes \<Rightarrow> 'e can_node \<Rightarrow> 'e can_node \<times> cy_error" where
  "can_unicast pf lane deadline data n =
    (let remote = lane_id lane
     in if remote > ucast node_id_max \<or> remote = 0 then (n, ErrArgument)
        else
          let tid = cn_unicast_tid n ! unat remote;
              n = n\<lparr>cn_unicast_tid := (cn_unicast_tid n)[unat remote := ucast (((ucast tid :: u32) + 1) mod 32)]\<rparr>;
              (c, env, ok) = request_service pf (cn_canard n) (cn_env n) (sint deadline) (lane_priority lane) unicast_service_id
                (ucast remote) tid data 0
          in (n\<lparr>cn_canard := c, cn_env := env\<rparr>, if ok then OK else ErrMemory))"

definition can_set_unicast_extent :: "int \<Rightarrow> 'e can_node \<Rightarrow> 'e can_node" where
  "can_set_unicast_extent extent n =
    (if extent \<le> cn_unicast_extent n then n
     else
       let n = n\<lparr>cn_unicast_extent := extent\<rparr>;
           (c, _) = subscribe_request (cn_canard n) (cn_unicast_sub n) unicast_service_id extent default_transfer_id_timeout_us True
       in n\<lparr>cn_canard := c\<rparr>)"

subsection \<open>The event loop\<close>

text \<open>
  \<open>Spin\<close> up to its deadline: what is in the channel, and what the receive loop puts there meanwhile, is ingested, each
  frame at the time the clock shows then; at the end the transport is polled and what is pending is handed over.
\<close>

fun spin_ingest :: "(int \<times> go_can_frame) list \<Rightarrow> 'e can_node \<Rightarrow> go_panic + 'e can_node" where
  "spin_ingest [] n = Inr n"
| "spin_ingest ((ts, f) # fs) n = and_then (can_ingest ts f n) (spin_ingest fs)"

definition can_drain :: "'e platform \<Rightarrow> 'e can_node \<Rightarrow> go_panic + 'e can_node" where
  "can_drain pf n =
    and_then (canard_poll pf iface_bitmap_all (cn_canard n) (cn_env n)) (\<lambda>(c, env).
      let n = n\<lparr>cn_canard := c, cn_env := env\<rparr>;
          pending = cn_pending n;
          n = n\<lparr>cn_pending := []\<rparr>
      in Inr (n\<lparr>cn_arrivals := cn_arrivals n @ pending\<rparr>))"

definition can_spin :: "'e platform \<Rightarrow> int list \<Rightarrow> (int \<times> go_can_frame) list \<Rightarrow> 'e can_node \<Rightarrow> go_panic + 'e can_node" where
  "can_spin pf clock arriving n =
    (let buffered = cn_rx_ch n
     in and_then (spin_ingest (zip clock buffered @ arriving) (n\<lparr>cn_rx_ch := []\<rparr>)) (can_drain pf))"

definition can_random :: "'e can_node \<Rightarrow> 'e can_node \<times> u64" where
  "can_random n =
    (let prev = cn_rand_state n; new = prev * 6364136223846793005 + 1442695040888963407
     in (n\<lparr>cn_rand_state := new\<rparr>, new))"

end
