(* ===== verification/CyCanSpec.thy ===== *)
theory CyCanSpec
  imports CyCan
begin

unbundle bit_operations_syntax

text \<open>
  The session layer over CAN. A message that one platform sends arrives at a reader of the subject on another one: with its
  header on a 16-bit subject, and with a header that is made up again on a 13-bit one. Every transfer is
  sent with the transfer identifier zero, though, so that the receiver takes a second message for a repetition of the first.
\<close>

subsection \<open>The made-up header\<close>

lemma phony_layout:
  "build_phony_header rapidhash sid = [0, 0, 0, 0xFF] @ put_u32 (NOT sid) @ put_u64 (compat_topic_hash rapidhash sid) @ replicate 8 0"
proof -
  have "NOT 0 - sid = NOT sid" by (simp add: not_eq_complement)
  then show ?thesis
    by (simp add: build_phony_header_def can_header_bytes_def Let_def le_bytes_def upt_rec numeral_eq_Suc)
qed

lemma headerless_layout:
  assumes "length phony = 24"
  shows "headerless_message phony tag payload = take 16 phony @ put_u64 tag @ payload"
  using assms by (simp add: headerless_message_def can_header_bytes_def go_copy_def put_at_def Let_def)

text \<open>The header that the session layer parses from a headerless message.\<close>

lemma headerless_header:
  "headerless_message (build_phony_header rapidhash sid) tag payload =
    marshal_binary \<lparr>h_type = 0, h_incompat = 0, h_reserved = 0, h_lage = 0xFF, h_evictions = NOT sid,
      h_hash = compat_topic_hash rapidhash sid, h_tag = tag\<rparr> @ payload"
  by (simp add: headerless_layout phony_layout marshal_binary_layout)

lemma compat_named_hash:
  "topic_is_compat_named rapidhash sid (marshal_binary h @ payload) \<longleftrightarrow> h_hash h = compat_topic_hash rapidhash sid"
proof -
  have b: "(marshal_binary h @ payload) ! (8 + i) = put_u64 (h_hash h) ! i" if "i < 8" for i
    using that by (simp add: marshal_binary_layout nth_append)
  have "ucast (put_u64 v ! 0) OR push_bit 8 (ucast (put_u64 v ! 1)) OR push_bit 16 (ucast (put_u64 v ! 2))
      OR push_bit 24 (ucast (put_u64 v ! 3)) OR push_bit 32 (ucast (put_u64 v ! 4)) OR push_bit 40 (ucast (put_u64 v ! 5))
      OR push_bit 48 (ucast (put_u64 v ! 6)) OR push_bit 56 (ucast (put_u64 v ! 7)) = v" for v :: u64
  proof -
    have "(le_word (put_u64 v) :: u64) = ucast (put_u64 v ! 0) OR push_bit 8 (ucast (put_u64 v ! 1)) OR push_bit 16 (ucast (put_u64 v ! 2))
      OR push_bit 24 (ucast (put_u64 v ! 3)) OR push_bit 32 (ucast (put_u64 v ! 4)) OR push_bit 40 (ucast (put_u64 v ! 5))
      OR push_bit 48 (ucast (put_u64 v ! 6)) OR push_bit 56 (ucast (put_u64 v ! 7))"
      by (simp add: le_bytes_def upt_rec push_bit_or or.assoc)
    then show ?thesis by simp
  qed
  with b [of 0] b [of 1] b [of 2] b [of 3] b [of 4] b [of 5] b [of 6] b [of 7] show ?thesis
    by (simp add: topic_is_compat_named_def Let_def)
qed

subsection \<open>Deliveries\<close>

definition grows :: "canard \<Rightarrow> canard \<Rightarrow> bool" where
  "grows a b \<longleftrightarrow> (\<exists>ds. rx_deliveries b = rx_deliveries a @ ds)"

lemma grows_refl [simp]: "grows a a" by (simp add: grows_def)

lemma grows_same: "rx_deliveries b = rx_deliveries a \<Longrightarrow> grows a b" by (simp add: grows_def)

lemma grows_trans: "grows a b \<Longrightarrow> grows b c \<Longrightarrow> grows a c" by (auto simp: grows_def)

lemma set_session_deliveries [simp]: "rx_deliveries (set_session self s x) = rx_deliveries self"
  by (simp add: set_session_def)

lemma set_sub_deliveries [simp]: "rx_deliveries (set_sub self b x) = rx_deliveries self"
  by (simp add: set_sub_def)

lemma deliver_grows: "grows self (deliver self b ts fr payload)"
  by (simp add: grows_def deliver_def)

lemma complete_slot_grows: "rx_session_complete_slot self s fr = Inr self' \<Longrightarrow> grows self self'"
  by (auto simp: rx_session_complete_slot_def Let_def and_then_Inr_iff grows_def deliver_def split: option.splits)

lemma accept_grows:
  assumes "rx_session_accept self s ts fr = Inr self'" shows "grows self self'"
proof -
  obtain sl where sl: "slot_at (rx_sessions self s) (fr_priority fr) = Inr sl"
    using assms by (auto simp: rx_session_accept_def Let_def and_then_Inr_iff)
  show ?thesis
  proof (cases sl)
    case None
    with assms sl show ?thesis
      by (auto simp: rx_session_accept_def Let_def rx_session_complete_single_frame_def deliver_grows)
  next
    case (Some x)
    obtain v where "(if fr_end fr then rx_session_complete_slot (set_session self s v) s fr else Inr (set_session self s v)) = Inr self'"
      using assms sl Some by (auto simp: rx_session_accept_def Let_def split: if_splits)
    then show ?thesis
      using grows_trans [OF grows_same [OF set_session_deliveries] complete_slot_grows] by (auto split: if_splits intro: grows_same)
  qed
qed

lemma cleanup_deliveries: "rx_deliveries (fst (rx_session_cleanup self s now)) = rx_deliveries self"
  by (simp add: rx_session_cleanup_def Let_def split: prod.split)

lemma step_grows:
  assumes "rx_session_step self b s ts frame iface = Inr self'" shows "grows self self'"
proof -
  obtain admit where a: "rx_session_solve_admission (rx_subs self (ses_owner (rx_sessions self s))) (rx_sessions self s) ts (fr_priority frame)
      (fr_start frame) (fr_toggle frame) (fr_transfer_id frame) iface = Inr admit"
    using assms by (auto simp: rx_session_step_def Let_def and_then_Inr_iff)
  consider "\<not> admit" | "admit" "fr_start frame" | "admit" "\<not> fr_start frame" by blast
  then show ?thesis
  proof cases
    case 1
    with assms a show ?thesis by (simp add: rx_session_step_def Let_def)
  next
    case 3
    with assms a show ?thesis by (intro accept_grows) (simp add: rx_session_step_def Let_def)
  next
    case 2
    let ?p = "fr_priority frame" and ?ses = "rx_sessions self s"
    let ?c = "set_session (self\<lparr>rx_sessions_by_animation := remove1 s (rx_sessions_by_animation self) @ [s]\<rparr>) s (put_slot ?ses ?p None)"
    let ?acc = "\<lambda>self. rx_session_accept (set_session self s (rx_session_record_admission (rx_sessions self s) ?p (fr_transfer_id frame) ts iface)) s ts frame"
    let ?start = "if fr_end frame then Inr ?c
      else let (self, _) = rx_session_cleanup ?c s ts in
        and_then (rx_slot_new (rx_subs self b) ts (fr_transfer_id frame) iface) (\<lambda>slot.
          Inr (set_session self s (put_slot (rx_sessions self s) ?p (Some slot))))"
    obtain old where "slot_at ?ses ?p = Inr old" "and_then ?start ?acc = Inr self'"
      using assms a 2 unfolding rx_session_step_def Let_def by (auto simp: and_then_Inr_iff simp del: if_split)
    then obtain mid where mid: "?start = Inr mid" "?acc mid = Inr self'" unfolding and_then_Inr_iff by blast
    have "rx_deliveries mid = rx_deliveries self"
    proof (cases "fr_end frame")
      case True
      with mid(1) show ?thesis by auto
    next
      case False
      obtain c n where cl: "rx_session_cleanup ?c s ts = (c, n)" by fastforce
      then have "rx_deliveries c = rx_deliveries self" using cleanup_deliveries [of ?c s ts] by simp
      with mid(1) False cl show ?thesis by (auto simp: and_then_Inr_iff)
    qed
    then show ?thesis using accept_grows [OF mid(2)] by (simp add: grows_def)
  qed
qed

lemma update_grows:
  assumes "rx_session_update self b ts frame iface = Inr self'" shows "grows self self'"
proof (cases "fr_src frame = node_id_anonymous")
  case True
  with assms show ?thesis by (auto simp: rx_session_update_def rx_session_complete_single_frame_def deliver_grows)
next
  case False
  obtain mid so where l: "rx_session_lookup self b frame iface = (mid, so)" by fastforce
  then have "rx_deliveries mid = rx_deliveries self"
    by (auto simp: rx_session_lookup_def Let_def rx_session_factory_def split: prod.splits if_splits)
  with assms False l show ?thesis
    by (auto simp: rx_session_update_def split: option.splits intro: grows_same grows_trans [OF grows_same step_grows])
qed

lemma ingest_grows:
  assumes "ingest_frame self ts iface can_id data = Inr (self', ok)" shows "grows self self'"
proof -
  have p: "grows c c'" if h: "ingest_parsed c ts iface f = Inr c'" for c c' f
  proof -
    obtain d where d: "(if fr_start f then node_id_occupancy_update c (fr_src f) else Inr c) = Inr d"
      and r: "(case rx_route d f of None \<Rightarrow> Inr d | Some b \<Rightarrow> rx_session_update d b ts f iface) = Inr c'"
      using h unfolding ingest_parsed_def and_then_Inr_iff by blast
    have "rx_deliveries d = rx_deliveries c"
      using d rx_store_update [of c "fr_src f" d] by (auto simp: rx_store_def split: if_splits)
    then show ?thesis
      using r by (auto split: option.splits intro: grows_same grows_trans [OF grows_same update_grows])
  qed
  obtain mask v0 v1 where parse: "rx_parse can_id data = (mask, v0, v1)" by (metis prod_cases3)
  show ?thesis
  proof (cases "ts \<ge> 0 \<and> unat iface < iface_count \<and> can_id \<le> can_ext_id_mask")
    case False
    with assms show ?thesis by (simp add: ingest_frame_def Let_def)
  next
    case True
    let ?c = "if mask = 0 then self\<lparr>err_rx_frame := err_rx_frame self + 1\<rparr> else self"
    have c: "grows self ?c" by (simp add: grows_def)
    have "and_then (if mask AND 1 \<noteq> 0 then ingest_parsed ?c ts iface v0 else Inr ?c) (\<lambda>d.
        and_then (if mask AND 2 \<noteq> 0 then ingest_parsed d ts iface v1 else Inr d) (\<lambda>d. Inr (d, True))) = Inr (self', ok)"
      using assms True unfolding ingest_frame_def parse Let_def by (simp only: if_True prod.case simp_thms)
    then obtain m where m: "(if mask AND 1 \<noteq> 0 then ingest_parsed ?c ts iface v0 else Inr ?c) = Inr m"
      and n: "(if mask AND 2 \<noteq> 0 then ingest_parsed m ts iface v1 else Inr m) = Inr self'"
      unfolding and_then_Inr_iff by blast
    have "grows ?c m" using m p by (auto split: if_splits)
    moreover have "grows m self'" using n p by (auto split: if_splits)
    ultimately show ?thesis using c grows_trans by blast
  qed
qed

lemma ingest_frames_grows: "ingest_frames self fs = Inr self' \<Longrightarrow> grows self self'"
proof (induction fs arbitrary: self)
  case (Cons f fs)
  obtain ts iface can_id data where f: "f = (ts, iface, can_id, data)" by (metis prod_cases4)
  with Cons.prems obtain mid ok where "ingest_frame self ts iface can_id data = Inr (mid, ok)" "ingest_frames mid fs = Inr self'"
    by (auto simp: and_then_Inr_iff)
  with Cons.IH show ?case using ingest_grows grows_trans by blast
qed simp

text \<open>Spinning passes every delivery of the transport to its handler, in order.\<close>

lemma can_on_message_canard: "can_on_message dv (n\<lparr>cn_canard := c\<rparr>) = (can_on_message dv n)\<lparr>cn_canard := c\<rparr>"
  by (simp add: can_on_message_def can_enqueue_def can_enqueue_unicast_def Let_def split: option.split can_handler.split)

lemma fold_on_message_canard: "fold can_on_message ds (n\<lparr>cn_canard := c\<rparr>) = (fold can_on_message ds n)\<lparr>cn_canard := c\<rparr>"
  by (induction ds arbitrary: n) (simp_all add: can_on_message_canard)

definition wire_frame :: "int \<times> go_can_frame \<Rightarrow> int \<times> u8 \<times> u32 \<times> bytes" where
  "wire_frame = (\<lambda>(ts, f). (ts, 0, cf_id f, take (unat (cf_length f)) (cf_data f)))"

lemma spin_ingest_run:
  assumes "ingest_frames (cn_canard n) (map wire_frame fs) = Inr c" "\<forall>(ts, f) \<in> set fs. unat (cf_length f) \<le> length (cf_data f)"
  shows "spin_ingest fs n = Inr ((fold can_on_message (drop (length (rx_deliveries (cn_canard n))) (rx_deliveries c)) n)\<lparr>cn_canard := c\<rparr>)"
  using assms
proof (induction fs arbitrary: n)
  case (Cons tf fs)
  obtain ts f where tf: "tf = (ts, f)" by (cases tf)
  let ?d = "take (unat (cf_length f)) (cf_data f)"
  obtain mid ok where mid: "ingest_frame (cn_canard n) ts 0 (cf_id f) ?d = Inr (mid, ok)" "ingest_frames mid (map wire_frame fs) = Inr c"
    using Cons.prems(1) tf by (auto simp: wire_frame_def and_then_Inr_iff)
  obtain ds es where g: "rx_deliveries mid = rx_deliveries (cn_canard n) @ ds" "rx_deliveries c = rx_deliveries mid @ es"
    using ingest_grows [OF mid(1)] ingest_frames_grows [OF mid(2)] by (auto simp: grows_def)
  have "go_slice (cf_data f) 0 (uint (cf_length f)) = Inr ?d"
  proof -
    have "uint (cf_length f) = int (unat (cf_length f))" by simp
    moreover have "unat (cf_length f) \<le> length (cf_data f)" using Cons.prems(2) tf by simp
    ultimately show ?thesis unfolding go_slice_def by (simp only: nat_int of_nat_0_le_iff of_nat_le_iff nat_0 simp_thms if_True drop0 diff_zero) simp
  qed
  then have "can_ingest ts f n = Inr ((fold can_on_message ds n)\<lparr>cn_canard := mid\<rparr>)"
    using mid(1) g(1) by (simp add: can_ingest_def fold_on_message_canard)
  moreover have "spin_ingest fs ((fold can_on_message ds n)\<lparr>cn_canard := mid\<rparr>) = Inr ((fold can_on_message es (fold can_on_message ds n))\<lparr>cn_canard := c\<rparr>)"
    using Cons.IH [of "(fold can_on_message ds n)\<lparr>cn_canard := mid\<rparr>"] Cons.prems(2) mid(2) g(2) by (simp add: fold_on_message_canard)
  ultimately show ?case using tf g by simp
qed simp

subsection \<open>A message from writer to reader\<close>

lemma frame_of_request:
  assumes "length (rq_data rq) \<le> 8"
  shows "wire_frame (ts, can_frame_of rq) = (ts, 0, rq_can_id rq, rq_data rq)" "unat (cf_length (can_frame_of rq)) \<le> length (cf_data (can_frame_of rq))"
  using assms by (simp_all add: wire_frame_def can_frame_of_def go_copy_def unat_of_nat_small)

lemma sent_frames:
  assumes "tx_inv (cn_canard n)" "tx_agewise (cn_canard n) = []" "tx_seqno (cn_canard n) < - 1" "iface_bitmap (cn_canard n) = 1"
    and "can_writer_send rapidhash pf w deadline prio data n = (n', OK)"
  shows "prio_valid prio" "use_13b rapidhash w data \<Longrightarrow> (ucast w :: u16) \<le> 8191"
    and "waiting (cn_canard n') = requests 0 (sint deadline) (tx_fd (cn_canard n))
      (wire_id (if use_13b rapidhash w data then id_publish_13b prio (ucast w) else id_publish_16b prio (ucast w)) (node_id (cn_canard n)))
      (transfer_frames crc_initial (tx_fd (cn_canard n)) 0 (if use_13b rapidhash w data then drop 24 data else data))"
proof -
  let ?id = "if use_13b rapidhash w data then id_publish_13b prio (ucast w) else id_publish_16b prio (ucast w)"
  let ?payload = "if use_13b rapidhash w data then drop 24 data else data"
  obtain mid t where new: "tx_transfer_new (cn_canard n) (sint deadline) ?id (tx_fd (cn_canard n)) 0 = (mid, t)" by fastforce
  have "prio_valid prio \<and> (use_13b rapidhash w data \<longrightarrow> (ucast w :: u16) \<le> ucast subject_id_max_13b) \<and>
    (\<exists>env. tx_push pf mid (cn_env n) t False iface_bitmap_all 0 ?payload crc_initial = (cn_canard n', env, True))"
    using assms(5) new
    by (auto simp: can_writer_send_def Let_def publish_16b_def publish_13b_def can_header_bytes_def split: if_splits prod.splits)
  then obtain env where v: "prio_valid prio" "use_13b rapidhash w data \<Longrightarrow> (ucast w :: u16) \<le> ucast subject_id_max_13b"
    and push: "tx_push pf mid (cn_env n) t False iface_bitmap_all 0 ?payload crc_initial = (cn_canard n', env, True)" by blast
  show "prio_valid prio" by (rule v(1))
  show "use_13b rapidhash w data \<Longrightarrow> (ucast w :: u16) \<le> 8191" using v(2) by (simp add: subject_id_max_13b_def)
  have "iface_bitmap_all AND iface_bitmap (cn_canard n) = 1" by (simp add: assms(4) iface_bitmap_all_def iface_count_def)
  from push_waiting [OF assms(1-3) new _ this push]
  show "waiting (cn_canard n') = requests 0 (sint deadline) (tx_fd (cn_canard n)) (wire_id ?id (node_id (cn_canard n)))
      (transfer_frames crc_initial (tx_fd (cn_canard n)) 0 ?payload)" by (simp add: wire_frames_def)
qed


subsection \<open>An example\<close>

text \<open>A pinned best-effort message of three bytes on the subject 1234: it travels in one frame, without its header.\<close>

definition demo_header :: cy_header where
  "demo_header = \<lparr>h_type = 0, h_incompat = 0, h_reserved = 0, h_lage = 5, h_evictions = 77, h_hash = 9, h_tag = 1\<rparr>"

definition demo_can :: "canard \<Rightarrow> nat can_node" where
  "demo_can c =
    \<lparr>cn_canard = c, cn_env = 2, cn_handler = (\<lambda>_. None)(0 \<mapsto> OnHeaderless 0), cn_next_sub = 1,
     cn_ctx = (\<lambda>_. \<lparr>rd_subject_id = 1234, rd_pinned = True, rd_phony = build_phony_header (\<lambda>_. 9) 1234, rd_phony_tag = 6\<rparr>),
     cn_next_ctx = 1, cn_rx_ch = [], cn_closed = False, cn_pending = [], cn_writers = None, cn_readers = None,
     cn_reader = (\<lambda>_. \<lparr>sr_subject_id = 0, sr_extent = 0\<rparr>), cn_next_reader = 0, cn_unicast_tid = [], cn_unicast_sub = 0,
     cn_unicast_extent = 0, cn_rand_state = 0, cn_arrivals = []\<rparr>"

definition demo_sent :: "nat can_node \<times> cy_error" where
  "demo_sent = can_writer_send (\<lambda>_. 9) CanTxSpec.demo_platform 1234 100 4 (marshal_binary demo_header @ [1, 2, 3])
     (demo_can CanTxSpec.demo_node)"

definition demo_pinned :: canard where
  "demo_pinned = fst (subscribe_13b (canard_zero\<lparr>occupancy := [1, 0], node_id := 7\<rparr>) 0 1234 64 1000000 True)"

lemma demo_pinned_eq:
  "rx_subscriptions demo_pinned = (\<lambda>k. CLeaf)(KindMessage13b := mk CLeaf 0 CLeaf)"
  "rx_subs demo_pinned 0 = \<lparr>sub_transfer_id_timeout = 1000000, sub_extent = 64, sub_port_id = 1234,
     sub_crc_seed = crc_initial, sub_kind = KindMessage13b, sub_sessions = CLeaf\<rparr>"
  "node_id demo_pinned = 7" "occupancy demo_pinned = [1, 0]" "rx_deliveries demo_pinned = []"
  by (simp_all add: demo_pinned_def subscribe_13b_def rx_subscribe_def canard_zero_def set_sub_def subject_id_max_13b_def
      index_find_or_insert_def Let_def mk_def)

lemma demo_pinned_inv: "rx_inv room demo_pinned" "occupancy_inv demo_pinned" "no_legacy demo_pinned"
proof -
  let ?z = "canard_zero\<lparr>occupancy := [1, 0], node_id := 7\<rparr>"
  have z: "rx_inv room ?z" by (rule empty_rx_inv) (simp_all add: canard_zero_def)
  have u: "unregistered ?z 0" by (simp add: unregistered_def registered_def canard_zero_def)
  have "fst (rx_subscribe ?z 0 KindMessage13b 1234 crc_initial 64 1000000 True) = demo_pinned"
    by (simp add: demo_pinned_def subscribe_13b_def subject_id_max_13b_def)
  then obtain r where r: "rx_subscribe ?z 0 KindMessage13b 1234 crc_initial 64 1000000 True = (demo_pinned, r)"
    by (metis prod.collapse)
  from rx_subscribe_inv [OF z u _ r] show "rx_inv room demo_pinned" by simp
  show "occupancy_inv demo_pinned"
    by (simp add: occupancy_inv_def occupied_def demo_pinned_eq bitmap_bits_reset)
  show "no_legacy demo_pinned" by (simp add: no_legacy_def demo_pinned_eq kind_version_def)
qed

lemma demo_headerless: "use_13b (\<lambda>_. 9) 1234 (marshal_binary demo_header @ [1, 2, 3])"
  unfolding use_13b_def compat_named_hash
  by (simp add: subject_id_pinned_max_def demo_header_def marshal_binary_layout compat_topic_hash_def)

lemma demo_single: "transfer_frames crc_initial False 0 [1, 2, 3] = [[1, 2, 3, 0xE0]]"
  by code_simp

lemma demo_sent_ok: "snd demo_sent = OK"
proof -
  let ?n = "CanTxSpec.demo_node"
  obtain mid t where new: "tx_transfer_new ?n 100 (id_publish_13b 4 1234) False 0 = (mid, t)" by fastforce
  note s = tx_transfer_new_sel [OF new]
  have v: "tx_agewise mid = []" "tx_deadline mid = CLeaf" "tx_queue_size mid = 0" "tx_queue_capacity mid = 8"
    "iface_bitmap mid = 1" "tr_fd (tx_transfers mid t) = False" by (simp_all add: s CanTxSpec.demo_node_def canard_zero_def)
  have e: "tx_expire mid 2 = mid" by (simp add: tx_expire_def v)
  have "tx_ensure_queue_space (set_multi mid t False) 1 = (set_multi mid t False, True)"
    by (simp add: tx_ensure_queue_space_def tx_sacrifice.simps v)
  then have "snd (snd (tx_push CanTxSpec.demo_platform mid 2 t False iface_bitmap_all 0 [1, 2, 3] crc_initial))"
    using tx_push_unfold [of iface_bitmap_all mid CanTxSpec.demo_platform 2 2 2 t False False "[[1, 2, 3, 0xE0]]" crc_initial 0 "[1, 2, 3]"]
    by (simp add: v e CanTxSpec.demo_platform_def wire_frames_def Let_def demo_single iface_bitmap_all_def iface_count_def)
  moreover have "tx_fd ?n = False" by (simp add: CanTxSpec.demo_node_def canard_zero_def)
  moreover have "drop 24 (marshal_binary demo_header @ [1, 2, 3]) = [1, 2, 3]" by (simp add: header_size_def)
  ultimately show ?thesis
    using demo_headerless
    by (simp add: demo_sent_def can_writer_send_def demo_can_def publish_13b_def new prio_valid_def prio_count_def ifaces_valid_def
        can_header_bytes_def header_size_def subject_id_max_13b_def split: prod.split)
      (auto simp: iface_bitmap_all_def iface_count_def)
qed


subsection \<open>The transfer identifier\<close>

lemma tail_frames_ids: "d \<in> set (tail_frames k sot tog tid xs) \<Longrightarrow> last d AND 31 = tid AND 31"
proof (induction k sot tog tid xs rule: tail_frames.induct)
  case (1 k sot tog tid xs)
  show ?case
  proof (cases "k = 0 \<or> length xs \<le> k")
    case True
    with 1 show ?thesis by (subst (asm) (2) tail_frames.simps) (auto simp: tail_byte_bits)
  next
    case False
    with "1.prems" have "d \<in> set (tail_frames k False (\<not> tog) tid (drop k xs)) \<or> d = take k xs @ [tx_make_tail_byte sot False tog tid]"
      by (subst (asm) tail_frames.simps) auto
    with "1.IH" False show ?thesis by (auto simp: tail_byte_bits)
  qed
qed

lemma transfer_frames_ids: "d \<in> set (transfer_frames seed fd tid payload) \<Longrightarrow> last d AND 31 = tid AND 31"
  by (auto simp: transfer_frames_def Let_def tail_byte_bits dest: tail_frames_ids split: if_splits)

lemma rx_run_refused:
  assumes "\<forall>(ts, fr) \<in> set frs. rx_session_step self b s ts fr iface = Inr self"
  shows "rx_run self b s iface frs = Inr self"
  using assms by (induction frs) auto

text \<open>C38: a second message of the same priority is lost. Every transfer is sent with the transfer identifier zero, so that a
  receiving session whose last admitted transfer had the same priority takes all frames of the next one for
  a repetition, unless the transfer-ID timeout has passed since: the run of the frames leaves the receiver as it was.\<close>

theorem next_message_refused:
  assumes sender: "tx_inv (cn_canard na)" "tx_agewise (cn_canard na) = []" "tx_seqno (cn_canard na) < - 1"
      "iface_bitmap (cn_canard na) = 1"
    and sent: "can_writer_send rapidhash pf w deadline prio data na = (na', OK)"
    and session: "ses_last_transfer_id (rx_sessions self s) = 0" "ses_last_priority (rx_sessions self s) = prio"
      "slot_at (rx_sessions self s) prio = Inr None"
    and early: "ts - sub_transfer_id_timeout (rx_subs self (ses_owner (rx_sessions self s))) \<le> ses_last_admission_ts (rx_sessions self s)"
    and hdr: "fr_priority hdr = prio"
  shows "rx_run self b s iface (zip (ts # tss) (map (\<lambda>rq. frame_of hdr (rq_data rq)) (waiting (cn_canard na')))) = Inr self"
proof -
  let ?p = "if use_13b rapidhash w data then drop 24 data else data"
  let ?fs = "transfer_frames crc_initial (tx_fd (cn_canard na)) 0 ?p"
  have fs: "map (\<lambda>rq. frame_of hdr (rq_data rq)) (waiting (cn_canard na')) = map (frame_of hdr) ?fs"
    unfolding sent_frames(3) [OF sender sent] by (simp add: requests_def)
  obtain d ds where d: "?fs = d # ds" "\<forall>e \<in> set ds. \<not> bit (last e) 7" using transfer_frames_parsable by metis
  have "last d AND 31 = 0" using transfer_frames_ids [of d crc_initial "tx_fd (cn_canard na)" 0 ?p] d(1) by simp
  then have "rx_session_step self b s ts (frame_of hdr d) iface = Inr self"
    using session early by (simp add: rx_session_step_def rx_session_solve_admission_def hdr Let_def)
  moreover have "rx_session_step self b s t (frame_of hdr e) iface = Inr self" if "e \<in> set ds" for t e
    using session d(2) that by (simp add: rx_session_step_def rx_session_solve_admission_def hdr Let_def)
  ultimately show ?thesis
    unfolding fs d(1) by (intro rx_run_refused) (auto dest!: set_zip_rightD)
qed

definition demo_session :: canard where
  "demo_session = canard_zero\<lparr>rx_sessions := (\<lambda>_. rx_session_zero\<lparr>ses_slots := replicate 8 None, ses_last_admission_ts := 5,
     ses_last_transfer_id := 0, ses_last_priority := 4\<rparr>),
     rx_subs := (\<lambda>_. subscription_zero\<lparr>sub_transfer_id_timeout := 2000000\<rparr>)\<rparr>"

theorem next_message_refused_witness:
  "rx_run demo_session 0 0 0 (zip [10] (map (\<lambda>rq. frame_of (header 4 KindMessage13b 1234 node_id_anonymous 42) (rq_data rq))
     (waiting (cn_canard (fst demo_sent))))) = Inr demo_session"
proof -
  let ?na = "demo_can CanTxSpec.demo_node"
  have n: "tx_inv (cn_canard ?na)" "tx_agewise (cn_canard ?na) = []" "tx_seqno (cn_canard ?na) < - 1"
      "iface_bitmap (cn_canard ?na) = 1"
    using CanTxSpec.demo_node_inv by (simp_all add: demo_can_def CanTxSpec.demo_node_def canard_zero_def word_gt_0)
  obtain na where sent: "can_writer_send (\<lambda>_. 9) CanTxSpec.demo_platform 1234 100 4 (marshal_binary demo_header @ [1, 2, 3]) ?na = (na, OK)"
    using demo_sent_ok by (metis demo_sent_def prod.collapse)
  then have na: "fst demo_sent = na" by (simp add: demo_sent_def)
  show ?thesis
    unfolding na by (rule next_message_refused [OF n sent])
      (simp_all add: demo_session_def slot_at_def header_def subscription_zero_def rx_session_zero_def canard_zero_def)
qed

end
