(* ===== verification/CyRpc.thy ===== *)
theory CyRpc
  imports CyNode CyReliable
begin

unbundle bit_operations_syntax

text \<open>
  Requests and responses (\<open>cy/rpc.go\<close>, and the request and response futures of \<open>cy/future.go\<close>). Futures, breadcrumbs and
  streams are objects in heaps, addressed by numbers. A timer of the scheduler is an entry of a list, with its
  deadline and the closure that it runs, which is a value of \<open>rpc_timer\<close>; the scheduler itself is in \<open>CyOlga\<close>.
  Calls of the handlers of services and of the callbacks of futures are logged.
\<close>

subsection \<open>The record of acknowledged responses\<close>

datatype response_rx = ResponseAck | ResponseNack | ResponseSilent

definition request_future_history :: nat where "request_future_history = 192"
definition request_ack_retention :: microsecond where "request_ack_retention = 60000000"
definition response_ack_timeout :: microsecond where "response_ack_timeout = 1000000"

definition bitmap_words :: "nat \<Rightarrow> nat" where "bitmap_words bits = (bits + 63) div 64"

definition ack_bit_set :: "nat \<Rightarrow> u64 list \<Rightarrow> u64 list" where
  "ack_bit_set n b = b[n div 64 := b ! (n div 64) OR push_bit (n mod 64) 1]"

definition ack_bit_test :: "u64 list \<Rightarrow> nat \<Rightarrow> bool" where
  "ack_bit_test b n \<longleftrightarrow> b ! (n div 64) AND push_bit (n mod 64) 1 \<noteq> 0"

definition ack_bit_test_bounded :: "u64 list \<Rightarrow> nat \<Rightarrow> nat \<Rightarrow> bool" where
  "ack_bit_test_bounded b bit_count n \<longleftrightarrow> n < bit_count \<and> ack_bit_test b n"

definition shift_word_loop :: "nat \<Rightarrow> u64 list \<Rightarrow> u64 list" where
  "shift_word_loop whole b = fold (\<lambda>i b. b[i := if i \<ge> whole then b ! (i - whole) else 0]) (rev [0..<length b]) b"

definition shift_carry_loop :: "nat \<Rightarrow> u64 list \<Rightarrow> u64 list" where
  "shift_carry_loop part b =
    fold (\<lambda>i b. b[i := push_bit part (b ! i) OR (if i > 0 then drop_bit (64 - part) (b ! (i - 1)) else 0)]) (rev [0..<length b]) b"

definition bitmap_shift_left :: "u64 list \<Rightarrow> nat \<Rightarrow> u64 list" where
  "bitmap_shift_left b shift =
    (if shift = 0 then b
     else if shift \<ge> request_future_history then replicate (length b) 0
     else
       let whole = shift div 64;
           part = shift mod 64;
           b = (if whole > 0 then shift_word_loop whole b else b)
       in if part > 0 then shift_carry_loop part b else b)"

record ack_remote =
  ar_remote_id :: u64
  ar_seqno_top :: u64
  ar_seqno_acked :: "u64 list"

record request_ack =
  ra_tag :: u64
  ra_dead_at :: microsecond
  ra_solo :: bool
  ra_solo_remote :: u64
  ra_tree :: "(u64 \<times> ack_remote) list option"

definition new_request_ack :: "u64 \<Rightarrow> request_ack" where
  "new_request_ack tag = \<lparr>ra_tag = tag, ra_dead_at = 0, ra_solo = False, ra_solo_remote = 0, ra_tree = None\<rparr>"

text \<open>A lookup in the map, which may be nil.\<close>

definition tree_at :: "request_ack \<Rightarrow> u64 \<Rightarrow> ack_remote option" where
  "tree_at a remote_id = (case ra_tree a of None \<Rightarrow> None | Some t \<Rightarrow> map_of t remote_id)"

definition ack_test :: "request_ack \<Rightarrow> u64 \<Rightarrow> u64 \<Rightarrow> bool" where
  "ack_test a remote_id seqno \<longleftrightarrow>
    (if ra_solo a then ra_solo_remote a = remote_id \<and> seqno = 0
     else case tree_at a remote_id of
         None \<Rightarrow> False
       | Some remote \<Rightarrow> seqno \<le> ar_seqno_top remote \<and>
           ack_bit_test_bounded (ar_seqno_acked remote) request_future_history (unat (ar_seqno_top remote - seqno)))"

definition new_ack_remote :: "u64 \<Rightarrow> ack_remote" where
  "new_ack_remote remote_id =
    \<lparr>ar_remote_id = remote_id, ar_seqno_top = 0, ar_seqno_acked = replicate (bitmap_words request_future_history) 0\<rparr>"

definition put_remote :: "ack_remote \<Rightarrow> u64 \<Rightarrow> request_ack \<Rightarrow> request_ack" where
  "put_remote remote remote_id a = a\<lparr>ra_tree := Some (AList.update remote_id remote (case ra_tree a of None \<Rightarrow> [] | Some t \<Rightarrow> t))\<rparr>"

text \<open>The general path of \<open>admit\<close>; the results are the record, whether the response is new, and the verdict.\<close>

definition admit_remote :: "request_ack \<Rightarrow> u64 \<Rightarrow> u64 \<Rightarrow> request_ack \<times> bool \<times> response_rx" where
  "admit_remote a remote_id seqno =
    (let remote = (case tree_at a remote_id of None \<Rightarrow> new_ack_remote remote_id | Some r \<Rightarrow> r);
         a = put_remote remote remote_id a
     in if seqno > ar_seqno_top remote then
          let acked = ack_bit_set 0 (bitmap_shift_left (ar_seqno_acked remote) (unat (seqno - ar_seqno_top remote)))
          in (put_remote (remote\<lparr>ar_seqno_acked := acked, ar_seqno_top := seqno\<rparr>) remote_id a, True, ResponseAck)
        else
          let dist = ar_seqno_top remote - seqno
          in if dist \<ge> of_nat request_future_history then (a, False, ResponseNack)
             else if ack_bit_test (ar_seqno_acked remote) (unat dist) then (a, False, ResponseAck)
             else (put_remote (remote\<lparr>ar_seqno_acked := ack_bit_set (unat dist) (ar_seqno_acked remote)\<rparr>) remote_id a,
                   True, ResponseAck))"

definition ack_admit :: "request_ack \<Rightarrow> u64 \<Rightarrow> u64 \<Rightarrow> request_ack \<times> bool \<times> response_rx" where
  "ack_admit a remote_id seqno =
    (if ra_solo a then
       (if ra_solo_remote a = remote_id \<and> seqno = 0 then (a, False, ResponseAck)
        else
          let solo = new_ack_remote (ra_solo_remote a);
              solo = solo\<lparr>ar_seqno_acked := ack_bit_set 0 (ar_seqno_acked solo)\<rparr>
          in admit_remote ((put_remote solo (ra_solo_remote a) a)\<lparr>ra_solo := False\<rparr>) remote_id seqno)
     else if ra_tree a = None \<and> seqno = 0 then (a\<lparr>ra_solo := True, ra_solo_remote := remote_id\<rparr>, True, ResponseAck)
     else admit_remote a remote_id seqno)"

subsection \<open>The state\<close>

record response =
  rs_remote_id :: u64
  rs_seqno :: u64
  rs_timestamp :: microsecond
  rs_message :: message_ts

record request_future =
  rf_tag :: u64
  rf_callback :: bool
  rf_destroyed :: bool
  rf_responses :: "response list"
  rf_count :: u64
  rf_err :: cy_error
  rf_liveness_timeout :: microsecond
  rf_liveness_task :: "nat option"
  rf_liveness_expired :: bool
  rf_ack :: "request_ack option"

record breadcrumb =
  bc_priority :: u8
  bc_remote_id :: u64
  bc_topic_hash :: u64
  bc_message_tag :: u64
  bc_seqno :: u64
  bc_ctx :: bytes

record respond_future =
  sf_done :: bool
  sf_err :: cy_error
  sf_callback :: bool
  sf_destroyed :: bool
  sf_breadcrumb :: nat
  sf_tag :: byte
  sf_seqno :: u64
  sf_hash :: u64
  sf_data :: bytes
  sf_priority :: u8
  sf_ctx :: bytes
  sf_ack_timeout :: microsecond
  sf_retransmit :: "nat option"

record responder =
  rsp_breadcrumb :: "nat option"
  rsp_tag :: byte
  rsp_remote_id :: u64
  rsp_request_id :: u32
  rsp_hash :: u64
  rsp_seqno :: u64

record streaming =
  st_request_tag :: u64
  st_remote_id :: u64
  st_seqno :: u64
  st_active :: bool

datatype rpc_timer = ResponseTimeout u64 nat | LivenessTimeout nat | RetransmitTick nat

record 'e rpc_platform =
  rpx_now :: "'e \<Rightarrow> microsecond"
  rpx_unicast :: "lane \<Rightarrow> microsecond \<Rightarrow> bytes \<Rightarrow> 'e \<Rightarrow> 'e \<times> cy_error option"

record 'e rpc =
  rp_env :: 'e
  rp_requests :: "u64 \<Rightarrow> nat option"
  rp_next_tag :: u64
  rp_services :: "u32 \<Rightarrow> nat option"
  rp_streams :: "u64 \<Rightarrow> nat option"
  rp_respond_futures :: "u64 \<Rightarrow> nat option"
  rp_request_acks :: "u64 \<Rightarrow> request_ack option"
  rp_ack_expiry :: "u64 list"
  rp_future :: "nat \<Rightarrow> request_future"
  rp_next_future :: nat
  rp_respond :: "nat \<Rightarrow> respond_future"
  rp_next_respond :: nat
  rp_breadcrumb :: "nat \<Rightarrow> breadcrumb"
  rp_next_breadcrumb :: nat
  rp_stream :: "nat \<Rightarrow> streaming"
  rp_next_stream :: nat
  rp_timers :: "(nat \<times> microsecond \<times> rpc_timer) list"
  rp_next_timer :: nat
  rp_notified :: "nat list"
  rp_handled :: "(nat \<times> bytes \<times> responder) list"

definition upd_future :: "nat \<Rightarrow> (request_future \<Rightarrow> request_future) \<Rightarrow> 'e rpc \<Rightarrow> 'e rpc" where
  "upd_future f g r = r\<lparr>rp_future := (rp_future r)(f := g (rp_future r f))\<rparr>"

definition upd_respond :: "nat \<Rightarrow> (respond_future \<Rightarrow> respond_future) \<Rightarrow> 'e rpc \<Rightarrow> 'e rpc" where
  "upd_respond f g r = r\<lparr>rp_respond := (rp_respond r)(f := g (rp_respond r f))\<rparr>"

text \<open>\<open>olga.Schedule\<close> and \<open>olga.Cancel\<close>.\<close>

definition rpc_schedule :: "microsecond \<Rightarrow> rpc_timer \<Rightarrow> 'e rpc \<Rightarrow> 'e rpc \<times> nat" where
  "rpc_schedule deadline t r =
    (r\<lparr>rp_timers := rp_timers r @ [(rp_next_timer r, deadline, t)], rp_next_timer := rp_next_timer r + 1\<rparr>, rp_next_timer r)"

definition rpc_cancel_timer :: "nat \<Rightarrow> 'e rpc \<Rightarrow> 'e rpc" where
  "rpc_cancel_timer i r = r\<lparr>rp_timers := filter (\<lambda>t. fst t \<noteq> i) (rp_timers r)\<rparr>"

definition cancel_opt :: "nat option \<Rightarrow> 'e rpc \<Rightarrow> 'e rpc" where
  "cancel_opt t r = (case t of None \<Rightarrow> r | Some i \<Rightarrow> rpc_cancel_timer i r)"

definition rpc_unicast :: "'e rpc_platform \<Rightarrow> lane \<Rightarrow> microsecond \<Rightarrow> bytes \<Rightarrow> 'e rpc \<Rightarrow> 'e rpc \<times> cy_error option" where
  "rpc_unicast p lane deadline data r =
    (let (e, err) = rpx_unicast p lane deadline data (rp_env r) in (r\<lparr>rp_env := e\<rparr>, err))"

definition rpc_now :: "'e rpc_platform \<Rightarrow> 'e rpc \<Rightarrow> microsecond" where "rpc_now p r = rpx_now p (rp_env r)"

subsection \<open>Request futures\<close>

definition notify_callback :: "nat \<Rightarrow> 'e rpc \<Rightarrow> 'e rpc" where
  "notify_callback f r =
    (if rf_callback (rp_future r f) \<and> \<not> rf_destroyed (rp_future r f) then r\<lparr>rp_notified := rp_notified r @ [f]\<rparr> else r)"

definition new_request_future :: "u64 \<Rightarrow> request_future" where
  "new_request_future tag =
    \<lparr>rf_tag = tag, rf_callback = False, rf_destroyed = False, rf_responses = [], rf_count = 0, rf_err = OK,
     rf_liveness_timeout = 0, rf_liveness_task = None, rf_liveness_expired = False, rf_ack = None\<rparr>"

definition future_done :: "request_future \<Rightarrow> bool" where
  "future_done f \<longleftrightarrow> rf_responses f \<noteq> [] \<or> rf_liveness_expired f"

definition request_set_callback :: "nat \<Rightarrow> 'e rpc \<Rightarrow> 'e rpc" where
  "request_set_callback f r =
    (let r = upd_future f (\<lambda>x. x\<lparr>rf_callback := True\<rparr>) r
     in if future_done (rp_future r f) then notify_callback f r else r)"

definition add_response :: "response \<Rightarrow> request_future \<Rightarrow> request_future" where
  "add_response rs f =
    (let f = f\<lparr>rf_responses := rf_responses f @ [rs], rf_count := rf_count f + 1\<rparr>
     in if length (rf_responses f) > 1 then f\<lparr>rf_responses := drop (length (rf_responses f) - 1) (rf_responses f)\<rparr> else f)"

definition rearm_liveness :: "nat \<Rightarrow> microsecond \<Rightarrow> 'e rpc \<Rightarrow> 'e rpc" where
  "rearm_liveness f deadline r =
    (let r = cancel_opt (rf_liveness_task (rp_future r f)) r;
         (r, i) = rpc_schedule deadline (LivenessTimeout f) r
     in upd_future f (\<lambda>x. x\<lparr>rf_liveness_expired := False, rf_liveness_task := Some i\<rparr>) r)"

definition deliver_response :: "nat \<Rightarrow> response \<Rightarrow> 'e rpc \<Rightarrow> 'e rpc" where
  "deliver_response f rs r =
    (let r = upd_future f (\<lambda>x. (add_response rs x)\<lparr>rf_err := OK\<rparr>) r
     in rearm_liveness f (rs_timestamp rs + rf_liveness_timeout (rp_future r f)) r)"

definition on_liveness_timeout :: "nat \<Rightarrow> 'e rpc \<Rightarrow> 'e rpc" where
  "on_liveness_timeout f r =
    (if rf_liveness_expired (rp_future r f) then r
     else notify_callback f
       (upd_future f (\<lambda>x. x\<lparr>rf_liveness_task := None, rf_liveness_expired := True, rf_err := ErrLiveness\<rparr>) r))"

definition request_cancel :: "nat \<Rightarrow> cy_error \<Rightarrow> 'e rpc \<Rightarrow> 'e rpc" where
  "request_cancel f err r =
    upd_future f (\<lambda>x. x\<lparr>rf_liveness_task := None, rf_liveness_expired := True, rf_err := err\<rparr>)
      (cancel_opt (rf_liveness_task (rp_future r f)) r)"

definition borrow_response :: "request_future \<Rightarrow> response option" where
  "borrow_response f = (if rf_responses f = [] then None else Some (last (rf_responses f)))"

definition move_response :: "request_future \<Rightarrow> request_future \<times> response option" where
  "move_response f =
    (if rf_responses f = [] then (f, None)
     else (f\<lparr>rf_responses := butlast (rf_responses f)\<rparr>, Some (last (rf_responses f))))"

subsection \<open>Retained records\<close>

definition retain_request_ack :: "request_ack \<Rightarrow> microsecond \<Rightarrow> 'e rpc \<Rightarrow> 'e rpc" where
  "retain_request_ack a now r =
    (let a = a\<lparr>ra_dead_at := now + request_ack_retention\<rparr>
     in r\<lparr>rp_request_acks := (rp_request_acks r)(ra_tag a \<mapsto> a), rp_ack_expiry := rp_ack_expiry r @ [ra_tag a]\<rparr>)"

fun sweep_loop :: "microsecond \<Rightarrow> u64 list \<Rightarrow> (u64 \<Rightarrow> request_ack option) \<Rightarrow> u64 list \<times> (u64 \<Rightarrow> request_ack option)" where
  "sweep_loop now [] acks = ([], acks)"
| "sweep_loop now (oldest # rest) acks =
    (case acks oldest of
       None \<Rightarrow> (oldest # rest, acks)
     | Some a \<Rightarrow> if now \<le>s ra_dead_at a then (oldest # rest, acks) else sweep_loop now rest (acks(oldest := None)))"

definition sweep_request_acks :: "microsecond \<Rightarrow> 'e rpc \<Rightarrow> 'e rpc" where
  "sweep_request_acks now r =
    (let (expiry, acks) = sweep_loop now (rp_ack_expiry r) (rp_request_acks r)
     in r\<lparr>rp_ack_expiry := expiry, rp_request_acks := acks\<rparr>)"

definition request_destroy :: "'e rpc_platform \<Rightarrow> nat \<Rightarrow> 'e rpc \<Rightarrow> 'e rpc" where
  "request_destroy p f r =
    (let x = rp_future r f;
         r = upd_future f (\<lambda>x. x\<lparr>rf_ack := None\<rparr>) r;
         r = r\<lparr>rp_requests := (rp_requests r)(rf_tag x := None)\<rparr>;
         r = (case rf_ack x of
                Some a \<Rightarrow> if ra_solo a \<or> (case ra_tree a of None \<Rightarrow> False | Some t \<Rightarrow> t \<noteq> [])
                          then retain_request_ack a (rpc_now p r) r else r
              | None \<Rightarrow> r);
         r = cancel_opt (rf_liveness_task x) r;
         r = upd_future f (\<lambda>x. x\<lparr>rf_liveness_task := None, rf_liveness_expired := True\<rparr>) r
     in if rf_destroyed x then r else upd_future f (\<lambda>x. x\<lparr>rf_destroyed := True, rf_callback := False\<rparr>) r)"

subsection \<open>Requests\<close>

text \<open>What a request uses of its publisher.\<close>

record request_publisher =
  qp_topic_hash :: u64
  qp_subject_id :: u32
  qp_priority :: u8
  qp_pending :: "u64 \<Rightarrow> nat option"

definition send_request_message ::
    "'e rpc_platform \<Rightarrow> request_publisher \<Rightarrow> u64 \<Rightarrow> microsecond \<Rightarrow> bytes \<Rightarrow> 'e rpc \<Rightarrow> 'e rpc" where
  "send_request_message p pub tag deadline data r =
    (let payload = put_u64 tag @ put_u32 (ucast tag) @ put_u32 (qp_subject_id pub) @ data;
         header = new_header (type_byte HeaderTypeMsgBE) 0 0 (qp_topic_hash pub) tag;
         headed = prepend_header header payload;
         lane = \<lparr>lane_id = 0, lane_priority = qp_priority pub, lane_ctx = replicate 24 0\<rparr>
     in fst (rpc_unicast p lane deadline headed r))"

definition rpc_request ::
    "'e rpc_platform \<Rightarrow> request_publisher option \<Rightarrow> microsecond \<Rightarrow> microsecond \<Rightarrow> bytes \<Rightarrow> 'e rpc
      \<Rightarrow> 'e rpc \<times> request_publisher option \<times> nat option" where
  "rpc_request p pub delivery_deadline response_timeout data r =
    (case pub of
       None \<Rightarrow> (r, None, None)
     | Some pb \<Rightarrow>
         let tag = rp_next_tag r;
             f = rp_next_future r;
             r = r\<lparr>rp_next_tag := rp_next_tag r + 1, rp_next_future := f + 1,
                   rp_future := (rp_future r)(f := (new_request_future tag)\<lparr>rf_liveness_timeout := response_timeout\<rparr>),
                   rp_requests := (rp_requests r)(tag \<mapsto> f)\<rparr>;
             pb = pb\<lparr>qp_pending := (qp_pending pb)(tag \<mapsto> f)\<rparr>;
             (r, _) = rpc_schedule (delivery_deadline + response_timeout) (ResponseTimeout tag f) r;
             r = send_request_message p pb tag delivery_deadline data r
         in (r, Some pb, Some f))"

definition handle_response_timeout :: "u64 \<Rightarrow> nat \<Rightarrow> 'e rpc \<Rightarrow> 'e rpc" where
  "handle_response_timeout tag f r = on_liveness_timeout f r"

definition cancel_request :: "u64 \<Rightarrow> 'e rpc \<Rightarrow> 'e rpc" where
  "cancel_request tag r =
    (case rp_requests r tag of
       None \<Rightarrow> r
     | Some f \<Rightarrow> notify_callback f (request_cancel f ErrNACK (r\<lparr>rp_requests := (rp_requests r)(tag := None)\<rparr>)))"

subsection \<open>Correlation of responses\<close>

definition correlate ::
    "u64 \<Rightarrow> u64 \<Rightarrow> u64 \<Rightarrow> bool \<Rightarrow> response \<Rightarrow> 'e rpc \<Rightarrow> 'e rpc \<times> nat option \<times> response_rx" where
  "correlate message_tag remote_id seqno reliable rs r =
    (case rp_requests r message_tag of
       None \<Rightarrow>
         if \<not> reliable then (r, None, ResponseSilent)
         else (r, None,
           case rp_request_acks r message_tag of
             Some a \<Rightarrow> if ack_test a remote_id seqno then ResponseAck else ResponseNack
           | None \<Rightarrow> ResponseNack)
     | Some f \<Rightarrow>
         if \<not> reliable then (deliver_response f rs r, Some f, ResponseSilent)
         else
           let a = (case rf_ack (rp_future r f) of None \<Rightarrow> new_request_ack message_tag | Some a \<Rightarrow> a);
               (a, fresh, verdict) = ack_admit a remote_id seqno;
               r = upd_future f (\<lambda>x. x\<lparr>rf_ack := Some a\<rparr>) r
           in if \<not> fresh then (r, None, verdict) else (deliver_response f rs r, Some f, ResponseAck))"

definition send_response_ack ::
    "'e rpc_platform \<Rightarrow> lane \<Rightarrow> u64 \<Rightarrow> u64 \<Rightarrow> byte \<Rightarrow> u64 \<Rightarrow> bool \<Rightarrow> 'e rpc \<Rightarrow> 'e rpc" where
  "send_response_ack p lane message_tag seqno tag hash positive r =
    (let header = marshal_rsp_ack_header positive tag seqno hash message_tag;
         reply = \<lparr>lane_id = lane_id lane, lane_priority = lane_priority lane, lane_ctx = lane_ctx lane\<rparr>
     in fst (rpc_unicast p reply (rpc_now p r + response_ack_timeout) header r))"

definition handle_response_message ::
    "'e rpc_platform \<Rightarrow> lane \<Rightarrow> u64 \<Rightarrow> u64 \<Rightarrow> byte \<Rightarrow> u64 \<Rightarrow> bool \<Rightarrow> response \<Rightarrow> 'e rpc \<Rightarrow> 'e rpc" where
  "handle_response_message p lane message_tag seqno tag hash reliable rs r =
    (let (r, fut, verdict) = correlate message_tag (rs_remote_id rs) seqno reliable rs r;
         r = sweep_request_acks (rpc_now p r) r;
         r = (case fut of None \<Rightarrow> r | Some f \<Rightarrow> notify_callback f r)
     in if reliable \<and> verdict \<noteq> ResponseSilent
        then send_response_ack p lane message_tag seqno tag hash (verdict = ResponseAck) r else r)"

definition handle_response :: "u64 \<Rightarrow> response \<Rightarrow> 'e rpc \<Rightarrow> 'e rpc" where
  "handle_response tag rs r =
    (case rp_requests r tag of None \<Rightarrow> r | Some f \<Rightarrow> notify_callback f (deliver_response f rs r))"

subsection \<open>Services\<close>

definition new_breadcrumb :: "u8 \<Rightarrow> u64 \<Rightarrow> u64 \<Rightarrow> u64 \<Rightarrow> breadcrumb" where
  "new_breadcrumb priority remote_id topic_hash message_tag =
    \<lparr>bc_priority = priority, bc_remote_id = remote_id, bc_topic_hash = topic_hash, bc_message_tag = message_tag,
     bc_seqno = 0, bc_ctx = replicate 24 0\<rparr>"

definition increment_seqno :: "nat \<Rightarrow> 'e rpc \<Rightarrow> 'e rpc \<times> u64" where
  "increment_seqno b r =
    (let bc = rp_breadcrumb r b; bc = bc\<lparr>bc_seqno := bc_seqno bc + 1\<rparr>
     in (r\<lparr>rp_breadcrumb := (rp_breadcrumb r)(b := bc)\<rparr>, bc_seqno bc))"

definition new_responder :: "u64 \<Rightarrow> u64 \<Rightarrow> u32 \<Rightarrow> u64 \<Rightarrow> nat option \<Rightarrow> responder" where
  "new_responder tag remote_id request_id hash b =
    \<lparr>rsp_breadcrumb = b, rsp_tag = ucast tag, rsp_remote_id = remote_id, rsp_request_id = request_id, rsp_hash = hash, rsp_seqno = 0\<rparr>"

definition handle_request :: "u64 \<Rightarrow> message_ts \<Rightarrow> 'e rpc \<Rightarrow> go_panic + 'e rpc" where
  "handle_request source m r =
    (case mts_content m of
       None \<Rightarrow> Inr r
     | Some content \<Rightarrow> and_then (message_payload content) (\<lambda>payload.
         if length payload < 16 then Inr r
         else
           let req_tag = le_word (slice 0 8 payload);
               req_id = le_word (slice 8 12 payload);
               service_id = le_word (slice 12 16 payload);
               request_data = drop 16 payload
           in Inr (case rp_services r service_id of
                None \<Rightarrow> r
              | Some handler \<Rightarrow>
                  let b = rp_next_breadcrumb r;
                      bc = new_breadcrumb nominal_priority source 0 req_tag;
                      responder = new_responder req_tag source req_id 0 (Some b)
                  in r\<lparr>rp_breadcrumb := (rp_breadcrumb r)(b := bc), rp_next_breadcrumb := b + 1,
                       rp_handled := rp_handled r @ [(handler, request_data, responder)]\<rparr>)))"

definition register_service :: "u32 \<Rightarrow> nat \<Rightarrow> 'e rpc \<Rightarrow> 'e rpc" where
  "register_service service_id handler r = r\<lparr>rp_services := (rp_services r)(service_id \<mapsto> handler)\<rparr>"

definition unregister_service :: "u32 \<Rightarrow> 'e rpc \<Rightarrow> 'e rpc" where
  "unregister_service service_id r = r\<lparr>rp_services := (rp_services r)(service_id := None)\<rparr>"

definition get_service :: "u32 \<Rightarrow> 'e rpc \<Rightarrow> nat option" where "get_service service_id r = rp_services r service_id"

subsection \<open>Responding\<close>

definition respond_key :: "u64 \<Rightarrow> u64 \<Rightarrow> u64 \<Rightarrow> u64 \<Rightarrow> byte \<Rightarrow> u64" where
  "respond_key remote_id message_tag hash seqno tag =
    remote_id XOR message_tag XOR hash XOR push_bit 16 seqno XOR push_bit 56 (ucast tag)"

definition send_response :: "'e rpc_platform \<Rightarrow> responder \<Rightarrow> bool \<Rightarrow> bytes \<Rightarrow> 'e rpc \<Rightarrow> 'e rpc \<times> u64 \<times> cy_error option" where
  "send_response p resp reliable data r =
    (case rsp_breadcrumb resp of
       None \<Rightarrow> (r, 0, Some ErrArgument)
     | Some b \<Rightarrow>
         let (r, n) = increment_seqno b r;
             seqno = n - 1;
             bc = rp_breadcrumb r b;
             tag = (if reliable then rsp_tag resp else 0xFF);
             header = marshal_rsp_header reliable tag seqno (bc_topic_hash bc) (bc_message_tag bc);
             lane = \<lparr>lane_id = bc_remote_id bc, lane_priority = bc_priority bc, lane_ctx = bc_ctx bc\<rparr>;
             (r, err) = rpc_unicast p lane (rpc_now p r + 100000) (header @ data) r
         in (r, seqno, err))"

definition respond :: "'e rpc_platform \<Rightarrow> nat \<Rightarrow> u64 \<Rightarrow> bytes \<Rightarrow> 'e rpc \<Rightarrow> 'e rpc \<times> cy_error option" where
  "respond p b seqno data r =
    (let bc = rp_breadcrumb r b;
         resp = new_responder 0 (bc_remote_id bc) 0 (bc_topic_hash bc) (Some b);
         r = (if seqno \<noteq> 0 then r\<lparr>rp_breadcrumb := (rp_breadcrumb r)(b := bc\<lparr>bc_seqno := seqno\<rparr>)\<rparr> else r);
         (r, _, err) = send_response p resp False data r
     in (r, err))"

definition arm_retransmit :: "'e rpc_platform \<Rightarrow> nat \<Rightarrow> 'e rpc \<Rightarrow> 'e rpc" where
  "arm_retransmit p f r =
    (let (r, i) = rpc_schedule (rpc_now p r + sf_ack_timeout (rp_respond r f)) (RetransmitTick f) r
     in upd_respond f (\<lambda>x. x\<lparr>sf_retransmit := Some i\<rparr>) r)"

text \<open>The search of a free key: the response has been sent with the first tag already.\<close>

function claim_key :: "(u64 \<Rightarrow> nat option) \<Rightarrow> breadcrumb \<Rightarrow> u64 \<Rightarrow> nat \<Rightarrow> byte \<Rightarrow> u64 \<Rightarrow> nat option" where
  "claim_key futures bc seqno f tag =
    (let key = respond_key (bc_remote_id bc) (bc_message_tag bc) (bc_topic_hash bc) seqno tag
     in if futures key = None then futures(key \<mapsto> f)
        else if tag = 0xFF then futures
        else claim_key futures bc seqno f (tag + 1))"
  by pat_completeness auto
termination
proof (relation "measure (\<lambda>(_, _, _, _, tag). 255 - unat tag)")
  fix futures :: "u64 \<Rightarrow> nat option" and bc seqno f and tag :: byte and key
  assume ne: "tag \<noteq> 0xFF"
  have "unat tag \<noteq> 255"
  proof
    assume "unat tag = 255"
    then have "tag = 0xFF" by (simp add: word_unat_eq_iff)
    with ne show False by simp
  qed
  moreover have "unat tag < 256" using unsigned_less [of tag] by simp
  ultimately show "((futures, bc, seqno, f, tag + 1), futures, bc, seqno, f, tag) \<in> measure (\<lambda>(_, _, _, _, tag). 255 - unat tag)"
    by (auto simp: unat_word_ariths)
qed simp

definition send_response_reliable :: "'e rpc_platform \<Rightarrow> responder \<Rightarrow> bytes \<Rightarrow> 'e rpc \<Rightarrow> 'e rpc \<times> nat option" where
  "send_response_reliable p resp data r =
    (case rsp_breadcrumb resp of
       None \<Rightarrow> (r, None)
     | Some b \<Rightarrow>
         let (r, seqno, err) = send_response p resp True data r
         in case err of
              Some _ \<Rightarrow> (r, None)
            | None \<Rightarrow>
                let bc = rp_breadcrumb r b;
                    f = rp_next_respond r;
                    fut = \<lparr>sf_done = False, sf_err = OK, sf_callback = False, sf_destroyed = False, sf_breadcrumb = b,
                           sf_tag = rsp_tag resp, sf_seqno = seqno, sf_hash = bc_topic_hash bc, sf_data = data,
                           sf_priority = bc_priority bc, sf_ctx = bc_ctx bc, sf_ack_timeout = response_ack_timeout, sf_retransmit = None\<rparr>;
                    r = r\<lparr>rp_respond := (rp_respond r)(f := fut), rp_next_respond := f + 1,
                          rp_respond_futures := claim_key (rp_respond_futures r) bc seqno f (rsp_tag resp)\<rparr>
                in (arm_retransmit p f r, Some f))"

definition respond_reliable :: "'e rpc_platform \<Rightarrow> nat \<Rightarrow> u64 \<Rightarrow> bytes \<Rightarrow> 'e rpc \<Rightarrow> 'e rpc \<times> nat option" where
  "respond_reliable p b seqno data r =
    (let bc = rp_breadcrumb r b
     in send_response_reliable p (new_responder 0 (bc_remote_id bc) 0 (bc_topic_hash bc) (Some b)) data r)"

definition on_retransmit_tick :: "'e rpc_platform \<Rightarrow> nat \<Rightarrow> 'e rpc \<Rightarrow> 'e rpc" where
  "on_retransmit_tick p f r =
    (let x = rp_respond r f
     in if sf_done x then r
        else
          let bc = rp_breadcrumb r (sf_breadcrumb x);
              header = marshal_rsp_header True (sf_tag x) (sf_seqno x) (sf_hash x) (bc_message_tag bc);
              lane = \<lparr>lane_id = bc_remote_id bc, lane_priority = sf_priority x, lane_ctx = sf_ctx x\<rparr>;
              (r, _) = rpc_unicast p lane (rpc_now p r + 100000) (header @ sf_data x) r
          in arm_retransmit p f r)"

definition respond_remove :: "nat \<Rightarrow> 'e rpc \<Rightarrow> 'e rpc" where
  "respond_remove f r =
    (let x = rp_respond r f;
         bc = rp_breadcrumb r (sf_breadcrumb x);
         key = respond_key (bc_remote_id bc) (bc_message_tag bc) (sf_hash x) (sf_seqno x) (sf_tag x)
     in if rp_respond_futures r key = Some f then r\<lparr>rp_respond_futures := (rp_respond_futures r)(key := None)\<rparr> else r)"

definition respond_on_ack :: "bool \<Rightarrow> nat \<Rightarrow> 'e rpc \<Rightarrow> 'e rpc" where
  "respond_on_ack positive f r =
    (if sf_done (rp_respond r f) then r
     else
       let r = cancel_opt (sf_retransmit (rp_respond r f)) r;
           r = upd_respond f (\<lambda>x. x\<lparr>sf_retransmit := None\<rparr>) r;
           r = respond_remove f r
       in upd_respond f (\<lambda>x. x\<lparr>sf_done := True, sf_err := (if positive then OK else ErrNACK)\<rparr>) r)"

definition handle_response_ack_message :: "lane \<Rightarrow> bytes \<Rightarrow> 'e rpc \<Rightarrow> 'e rpc" where
  "handle_response_ack_message lane hdr r =
    (case parse_response_header hdr of
       Inl _ \<Rightarrow> r
     | Inr parsed \<Rightarrow>
         let positive = (pr_type parsed = type_byte HeaderTypeRspAck);
             key = respond_key (lane_id lane) (pr_message_tag parsed) (pr_hash parsed) (pr_seqno parsed) (pr_tag parsed)
         in case rp_respond_futures r key of
              None \<Rightarrow> r
            | Some f \<Rightarrow>
                let x = rp_respond r f; bc = rp_breadcrumb r (sf_breadcrumb x)
                in if bc_remote_id bc \<noteq> lane_id lane \<or> bc_message_tag bc \<noteq> pr_message_tag parsed \<or> sf_hash x \<noteq> pr_hash parsed
                     \<or> sf_seqno x \<noteq> pr_seqno parsed \<or> sf_tag x \<noteq> pr_tag parsed
                   then r else respond_on_ack positive f r)"

text \<open>A received response frame.\<close>

definition handle_response_frame :: "'e rpc_platform \<Rightarrow> lane \<Rightarrow> bytes \<Rightarrow> message_ts \<Rightarrow> 'e rpc \<Rightarrow> 'e rpc" where
  "handle_response_frame p lane hdr message r =
    (case parse_response_header hdr of
       Inl _ \<Rightarrow> r
     | Inr parsed \<Rightarrow>
         handle_response_message p lane (pr_message_tag parsed) (pr_seqno parsed) (pr_tag parsed) (pr_hash parsed) (pr_reliable parsed)
           \<lparr>rs_remote_id = lane_id lane, rs_seqno = pr_seqno parsed, rs_timestamp = rpc_now p r, rs_message = message\<rparr> r)"

subsection \<open>Responders and streams\<close>

definition responder_send :: "'e rpc_platform \<Rightarrow> responder \<Rightarrow> bytes \<Rightarrow> 'e rpc \<Rightarrow> 'e rpc \<times> cy_error option" where
  "responder_send p resp data r = (let (r, _, err) = send_response p resp False data r in (r, err))"

definition responder_send_error :: "'e rpc_platform \<Rightarrow> responder \<Rightarrow> byte \<Rightarrow> bytes \<Rightarrow> 'e rpc \<Rightarrow> 'e rpc \<times> cy_error option" where
  "responder_send_error p resp code data r = (let (r, _, err) = send_response p resp False (code # data) r in (r, err))"

definition new_streaming :: "u64 \<Rightarrow> u64 \<Rightarrow> streaming" where
  "new_streaming request_tag remote_id = \<lparr>st_request_tag = request_tag, st_remote_id = remote_id, st_seqno = 0, st_active = True\<rparr>"

definition start_stream :: "responder \<Rightarrow> 'e rpc \<Rightarrow> 'e rpc \<times> nat" where
  "start_stream resp r =
    (let k = rp_next_stream r
     in (r\<lparr>rp_stream := (rp_stream r)(k := new_streaming (ucast (rsp_tag resp)) (rsp_remote_id resp)), rp_next_stream := k + 1,
           rp_streams := (rp_streams r)(ucast (rsp_tag resp) \<mapsto> k)\<rparr>, k))"

definition stream_send :: "bytes \<Rightarrow> streaming \<Rightarrow> streaming \<times> cy_error" where
  "stream_send data s = (if \<not> st_active s then (s, ErrLiveness) else (s\<lparr>st_seqno := st_seqno s + 1\<rparr>, OK))"

definition stream_close :: "streaming \<Rightarrow> streaming" where
  "stream_close s = (if st_active s then s\<lparr>st_active := False\<rparr> else s)"

definition new_rpc :: "'e \<Rightarrow> 'e rpc" where
  "new_rpc env =
    \<lparr>rp_env = env, rp_requests = (\<lambda>_. None), rp_next_tag = 0, rp_services = (\<lambda>_. None), rp_streams = (\<lambda>_. None),
     rp_respond_futures = (\<lambda>_. None), rp_request_acks = (\<lambda>_. None), rp_ack_expiry = [],
     rp_future = (\<lambda>_. new_request_future 0), rp_next_future = 0,
     rp_respond = (\<lambda>_. \<lparr>sf_done = False, sf_err = OK, sf_callback = False, sf_destroyed = False, sf_breadcrumb = 0, sf_tag = 0,
       sf_seqno = 0, sf_hash = 0, sf_data = [], sf_priority = 0, sf_ctx = [], sf_ack_timeout = 0, sf_retransmit = None\<rparr>),
     rp_next_respond = 0, rp_breadcrumb = (\<lambda>_. new_breadcrumb 0 0 0 0), rp_next_breadcrumb = 0,
     rp_stream = (\<lambda>_. new_streaming 0 0), rp_next_stream = 0, rp_timers = [], rp_next_timer = 0, rp_notified = [], rp_handled = []\<rparr>"

text \<open>The scheduler runs one of the timers.\<close>

definition fire_timer :: "'e rpc_platform \<Rightarrow> nat \<Rightarrow> 'e rpc \<Rightarrow> 'e rpc" where
  "fire_timer p i r =
    (case map_of (map (\<lambda>(i, d, t). (i, t)) (rp_timers r)) i of
       None \<Rightarrow> r
     | Some t \<Rightarrow>
         let r = rpc_cancel_timer i r
         in case t of ResponseTimeout tag f \<Rightarrow> handle_response_timeout tag f r
            | LivenessTimeout f \<Rightarrow> on_liveness_timeout f r
            | RetransmitTick f \<Rightarrow> on_retransmit_tick p f r)"

end
