(* ===== verification/CyRpcSpec.thy ===== *)
theory CyRpcSpec
  imports CyRpc
begin

unbundle bit_operations_syntax

text \<open>
  What requests and responses promise: a reliable response reaches the application once however often it is
  retransmitted, and is acknowledged also after the request was disposed of; a response that is acknowledged completes
  its future. The initial timer of a request is never cancelled, and a reliable response is retransmitted without end.
\<close>

subsection \<open>Bitmaps\<close>

lemma shift_loops:
  "shift_word_loop whole b = shift_words_up (length b) whole b" "shift_carry_loop part b = shift_bits_up (length b) part b"
  by (simp_all add: shift_word_loop_def shift_words_up_def shift_carry_loop_def shift_bits_up_def)

lemma ack_bit_test_bm: "n < 64 * length b \<Longrightarrow> ack_bit_test b n \<longleftrightarrow> bm b n"
  using bit_and_push [of "b ! (n div 64)" "n mod 64"] by (simp add: ack_bit_test_def bm_def less_mult_imp_div_less mult.commute)

lemma ack_bit_set_bm: "n < 64 * length b \<Longrightarrow> bm (ack_bit_set n b) m \<longleftrightarrow> m = n \<or> bm b m"
  using bm_set [of n b m] by (simp add: ack_bit_set_def)

lemma length_ack_bit_set [simp]: "length (ack_bit_set n b) = length b" by (simp add: ack_bit_set_def)

lemma bitmap_shift_left_bm:
  assumes "length b = 3"
  shows "length (bitmap_shift_left b k) = 3" "n < 192 \<Longrightarrow> bm (bitmap_shift_left b k) n \<longleftrightarrow> k \<le> n \<and> bm b (n - k)"
proof -
  show "length (bitmap_shift_left b k) = 3" using assms by (simp add: bitmap_shift_left_def shift_loops Let_def)
  assume n: "n < 192"
  show "bm (bitmap_shift_left b k) n \<longleftrightarrow> k \<le> n \<and> bm b (n - k)"
  proof (cases "k \<ge> 192")
    case True
    then show ?thesis using n by (simp add: bitmap_shift_left_def request_future_history_def bm_def)
  next
    case False
    let ?w = "k div 64" and ?p = "k mod 64"
    define c where "c = (if ?w > 0 then shift_words_up (length b) ?w b else b)"
    have lc: "length c = 3" using assms by (simp add: c_def)
    have c: "bm c m \<longleftrightarrow> 64 * ?w \<le> m \<and> bm b (m - 64 * ?w)" if "m < 192" for m
      using bm_words_up [OF refl, of b ?w m] that assms by (simp add: c_def)
    have "bitmap_shift_left b k = (if ?p > 0 then shift_bits_up (length c) ?p c else c)"
      using False lc assms by (simp add: bitmap_shift_left_def request_future_history_def shift_loops Let_def c_def)
    then have "bm (bitmap_shift_left b k) n \<longleftrightarrow> ?p \<le> n \<and> bm c (n - ?p)"
      using bm_bits_up [OF refl, of ?p c n] n lc by simp
    also have "\<dots> \<longleftrightarrow> ?p + 64 * ?w \<le> n \<and> bm b (n - (?p + 64 * ?w))"
    proof -
      have "p \<le> n \<and> w \<le> n - p \<longleftrightarrow> p + w \<le> n" for p w :: nat by arith
      from this [of ?p "64 * ?w"] show ?thesis using c [of "n - ?p"] n by (simp only: diff_diff_left) auto
    qed
    also have "?p + 64 * ?w = k" by simp
    finally show ?thesis .
  qed
qed

subsection \<open>The record as a set of accepted responses\<close>

text \<open>The window of one remote represents the set of accepted sequence numbers.\<close>

definition window :: "ack_remote \<Rightarrow> u64 set \<Rightarrow> bool" where
  "window x S \<longleftrightarrow> length (ar_seqno_acked x) = 3 \<and> (\<forall>s \<in> S. s \<le> ar_seqno_top x) \<and>
    (if S = {} then ar_seqno_top x = 0 else ar_seqno_top x \<in> S) \<and>
    (\<forall>s \<le> ar_seqno_top x. unat (ar_seqno_top x - s) < 192 \<longrightarrow> (bm (ar_seqno_acked x) (unat (ar_seqno_top x - s)) \<longleftrightarrow> s \<in> S))"

lemma window_new: "window (new_ack_remote r) S \<longleftrightarrow> S = {}"
  by (auto simp: window_def new_ack_remote_def bitmap_words_def request_future_history_def bm_def)

text \<open>A number is outdated when another one that is at least 192 larger was accepted.\<close>

definition outdated :: "u64 set \<Rightarrow> u64 \<Rightarrow> bool" where
  "outdated S s \<longleftrightarrow> (\<exists>t \<in> S. unat s + 192 \<le> unat t)"

lemma window_outdated:
  assumes "window x S" "s \<le> ar_seqno_top x"
  shows "outdated S s \<longleftrightarrow> 192 \<le> unat (ar_seqno_top x - s)"
proof -
  have d: "unat (ar_seqno_top x - s) = unat (ar_seqno_top x) - unat s" using assms(2) by (simp add: unat_sub)
  show ?thesis
  proof
    assume "outdated S s"
    then obtain t where "t \<in> S" "unat s + 192 \<le> unat t" by (auto simp: outdated_def)
    moreover from this have "unat t \<le> unat (ar_seqno_top x)" using assms(1) by (auto simp: window_def word_le_nat_alt)
    ultimately show "192 \<le> unat (ar_seqno_top x - s)" using d by simp
  next
    assume a: "192 \<le> unat (ar_seqno_top x - s)"
    then have "ar_seqno_top x \<noteq> 0" using d by (metis diff_is_0_eq le_zero_eq not_numeral_le_zero unat_0 le0)
    then have "ar_seqno_top x \<in> S" using assms(1) by (auto simp: window_def split: if_splits)
    then show "outdated S s" using a d unfolding outdated_def by (intro bexI) auto
  qed
qed

lemma window_advance:
  assumes w: "window x S" and s: "ar_seqno_top x < s"
  shows "window (x\<lparr>ar_seqno_acked := ack_bit_set 0 (bitmap_shift_left (ar_seqno_acked x) (unat (s - ar_seqno_top x))), ar_seqno_top := s\<rparr>) (insert s S)"
proof -
  let ?t = "ar_seqno_top x" and ?b = "ar_seqno_acked x"
  have len: "length ?b = 3" using w by (simp add: window_def)
  have up: "unat (s - ?t) = unat s - unat ?t" "unat ?t < unat s" using s by (simp_all add: unat_sub less_imp_le word_less_nat_alt [symmetric])
  have bits: "bm (ack_bit_set 0 (bitmap_shift_left ?b (unat (s - ?t)))) (unat (s - u)) \<longleftrightarrow> u \<in> insert s S"
    if u: "u \<le> s" "unat (s - u) < 192" for u
  proof -
    have su: "unat (s - u) = unat s - unat u" "unat u \<le> unat s" using u by (simp_all add: unat_sub word_le_nat_alt)
    have "bm (ack_bit_set 0 (bitmap_shift_left ?b (unat (s - ?t)))) (unat (s - u)) \<longleftrightarrow>
        unat (s - u) = 0 \<or> (unat (s - ?t) \<le> unat (s - u) \<and> bm ?b (unat (s - u) - unat (s - ?t)))"
      using ack_bit_set_bm [of 0 "bitmap_shift_left ?b (unat (s - ?t))"] bitmap_shift_left_bm [OF len] u(2) by simp
    also have "\<dots> \<longleftrightarrow> u = s \<or> (u \<le> ?t \<and> bm ?b (unat (?t - u)))"
    proof -
      have "unat (s - u) = 0 \<longleftrightarrow> u = s" using su by (auto simp: word_unat_eq_iff)
      moreover have "unat (s - ?t) \<le> unat (s - u) \<longleftrightarrow> u \<le> ?t" using su up by (auto simp: word_le_nat_alt)
      moreover have "unat (s - u) - unat (s - ?t) = unat (?t - u)" if "u \<le> ?t"
        using that su up by (simp add: unat_sub word_le_nat_alt)
      ultimately show ?thesis by auto
    qed
    also have "\<dots> \<longleftrightarrow> u \<in> insert s S"
    proof (cases "u \<le> ?t")
      case True
      then have "unat (?t - u) < 192" using su up u(2) by (simp add: unat_sub)
      then show ?thesis using w True s by (auto simp: window_def)
    next
      case False
      then show ?thesis using w by (auto simp: window_def)
    qed
    finally show ?thesis .
  qed
  show ?thesis
    using w s bits bitmap_shift_left_bm(1) [OF len] by (auto simp: window_def)
qed

lemma window_fill:
  assumes w: "window x S" and s: "s \<le> ar_seqno_top x" "unat (ar_seqno_top x - s) < 192"
  shows "window (x\<lparr>ar_seqno_acked := ack_bit_set (unat (ar_seqno_top x - s)) (ar_seqno_acked x)\<rparr>) (insert s S)"
proof -
  let ?t = "ar_seqno_top x"
  have len: "length (ar_seqno_acked x) = 3" using w by (simp add: window_def)
  have "unat (?t - u) = unat (?t - s) \<longleftrightarrow> u = s" for u
    unfolding word_unat_eq_iff [symmetric] by (metis diff_diff_eq2 add_diff_cancel_left')
  then have "bm (ack_bit_set (unat (?t - s)) (ar_seqno_acked x)) (unat (?t - u)) \<longleftrightarrow> u \<in> insert s S"
    if "u \<le> ?t" "unat (?t - u) < 192" for u
    using w that ack_bit_set_bm [of "unat (?t - s)" "ar_seqno_acked x"] len s(2) by (simp add: window_def)
  moreover have "ar_seqno_top x \<in> insert s S" if "S = {}" using w s that by (auto simp: window_def)
  ultimately show ?thesis using w s len by (auto simp: window_def split: if_splits)
qed


text \<open>The whole record represents the set of accepted pairs of a remote and a sequence number.\<close>

definition of_remote :: "(u64 \<times> u64) set \<Rightarrow> u64 \<Rightarrow> u64 set" where "of_remote A q = {s. (q, s) \<in> A}"

lemma of_remote_insert: "of_remote (insert (q, s) A) q' = (if q' = q then insert s (of_remote A q) else of_remote A q')"
  by (auto simp: of_remote_def)

definition remote_at :: "request_ack \<Rightarrow> u64 \<Rightarrow> ack_remote" where
  "remote_at a q = (case tree_at a q of None \<Rightarrow> new_ack_remote q | Some x \<Rightarrow> x)"

definition records :: "request_ack \<Rightarrow> (u64 \<times> u64) set \<Rightarrow> bool" where
  "records a A \<longleftrightarrow>
    (if ra_solo a then ra_tree a = None \<and> A = {(ra_solo_remote a, 0)}
     else \<forall>q. window (remote_at a q) (of_remote A q))"

lemma records_new: "records (new_request_ack tag) {}"
  by (simp add: records_def new_request_ack_def remote_at_def tree_at_def of_remote_def window_new)

lemma tree_at_put [simp]: "tree_at (put_remote x q a) q' = (if q' = q then Some x else tree_at a q')"
  by (simp add: tree_at_def put_remote_def update_conv' split: option.split)

lemma ra_solo_put [simp]: "ra_solo (put_remote x q a) = ra_solo a" by (simp add: put_remote_def)

lemma remote_at_put [simp]: "remote_at (put_remote x q a) q' = (if q' = q then x else remote_at a q')"
  by (simp add: remote_at_def)

theorem records_test:
  assumes "records a A"
  shows "ack_test a q s \<longleftrightarrow> (q, s) \<in> A \<and> \<not> outdated (of_remote A q) s"
proof (cases "ra_solo a")
  case True
  then show ?thesis using assms by (auto simp: records_def ack_test_def of_remote_def outdated_def)
next
  case False
  let ?S = "of_remote A q"
  have w: "window (remote_at a q) ?S" using assms False by (simp add: records_def)
  have m: "(q, s) \<in> A \<longleftrightarrow> s \<in> ?S" by (simp add: of_remote_def)
  show ?thesis
  proof (cases "tree_at a q")
    case None
    then have "?S = {}" using w by (simp add: remote_at_def window_new)
    then show ?thesis using None False m by (simp add: ack_test_def)
  next
    case (Some x)
    then have x: "window x ?S" using w by (simp add: remote_at_def)
    show ?thesis
    proof (cases "s \<le> ar_seqno_top x")
      case True
      then show ?thesis
        using x Some False window_outdated [OF x True] unfolding m
        by (auto simp: ack_test_def ack_bit_test_bounded_def request_future_history_def ack_bit_test_bm window_def)
    next
      case F: False
      then have "s \<notin> ?S" using x by (auto simp: window_def)
      then show ?thesis using F Some False unfolding m by (simp add: ack_test_def)
    qed
  qed
qed

definition fresh_for :: "(u64 \<times> u64) set \<Rightarrow> u64 \<Rightarrow> u64 \<Rightarrow> bool" where
  "fresh_for A q s \<longleftrightarrow> (q, s) \<notin> A \<and> \<not> outdated (of_remote A q) s"

lemma admit_remote_records:
  assumes "records a A" "\<not> ra_solo a" "ra_tree a \<noteq> None \<or> s \<noteq> 0"
  shows "\<exists>a'. admit_remote a q s = (a', fresh_for A q s, if outdated (of_remote A q) s then ResponseNack else ResponseAck) \<and>
    records a' (if fresh_for A q s then insert (q, s) A else A)"
proof -
  let ?S = "of_remote A q"
  obtain x where x: "(case tree_at a q of None \<Rightarrow> new_ack_remote q | Some r \<Rightarrow> r) = x" by blast
  then have w: "window x ?S" using assms by (auto simp: records_def remote_at_def [of a q, symmetric])
  have m: "(q, s) \<in> A \<longleftrightarrow> s \<in> ?S" by (simp add: of_remote_def)
  have upd: "records (put_remote y q a') (insert (q, s) A)"
    if "window y (insert s ?S)" "a' = a \<or> a' = put_remote x q a" for y a'
    using assms that by (auto simp: records_def of_remote_insert)
  show ?thesis
  proof (cases "s \<le> ar_seqno_top x")
    case False
    then have s: "ar_seqno_top x < s" by simp
    then have "s \<notin> ?S" "\<not> outdated ?S s" using w by (auto simp: window_def outdated_def word_less_nat_alt word_le_nat_alt)
    moreover note upd [OF window_advance [OF w s]]
    ultimately show ?thesis
      using s unfolding admit_remote_def x Let_def by (simp add: fresh_for_def m)
  next
    case True
    note o = window_outdated [OF w True]
    have h: "of_nat request_future_history \<le> ar_seqno_top x - s \<longleftrightarrow> 192 \<le> unat (ar_seqno_top x - s)"
      by (simp add: request_future_history_def word_le_nat_alt)
    show ?thesis
    proof (cases "192 \<le> unat (ar_seqno_top x - s)")
      case old: True
      have "records (put_remote x q a) A" using assms(1, 2) w by (auto simp: records_def)
      then show ?thesis using True old o unfolding admit_remote_def x Let_def by (simp add: h fresh_for_def linorder_not_le [symmetric])
    next
      case recent: False
      then have b: "ack_bit_test (ar_seqno_acked x) (unat (ar_seqno_top x - s)) \<longleftrightarrow> s \<in> ?S"
        using w True by (simp add: window_def ack_bit_test_bm)
      have "records (put_remote x q a) A" using assms(1, 2) w by (auto simp: records_def)
      moreover have "s \<notin> ?S \<Longrightarrow> records (put_remote (x\<lparr>ar_seqno_acked := ack_bit_set (unat (ar_seqno_top x - s)) (ar_seqno_acked x)\<rparr>) q
          (put_remote x q a)) (insert (q, s) A)"
        using window_fill [OF w True] recent by (intro upd) auto
      ultimately show ?thesis
        using True recent o b unfolding admit_remote_def x Let_def by (simp add: h fresh_for_def m linorder_not_le [symmetric])
    qed
  qed
qed


theorem admit_records:
  assumes "records a A"
  shows "\<exists>a'. ack_admit a q s = (a', fresh_for A q s, if outdated (of_remote A q) s then ResponseNack else ResponseAck) \<and>
    records a' (if fresh_for A q s then insert (q, s) A else A)"
proof (cases "ra_solo a")
  case solo: True
  then have a: "ra_tree a = None" "A = {(ra_solo_remote a, 0)}" using assms by (simp_all add: records_def)
  have no: "\<not> outdated (of_remote A q) s" by (auto simp: a(2) outdated_def of_remote_def)
  show ?thesis
  proof (cases "ra_solo_remote a = q \<and> s = 0")
    case True
    then show ?thesis using solo assms no by (auto simp: ack_admit_def fresh_for_def a(2))
  next
    case False
    let ?n = "new_ack_remote (ra_solo_remote a)"
    let ?x = "?n\<lparr>ar_seqno_acked := ack_bit_set 0 (ar_seqno_acked ?n)\<rparr>"
    let ?a = "(put_remote ?x (ra_solo_remote a) a)\<lparr>ra_solo := False\<rparr>"
    have t: "ar_seqno_top ?n = 0" by (simp add: new_ack_remote_def)
    have x: "window ?x {0}" using window_fill [of ?n "{}" 0] by (simp add: window_new t)
    have "remote_at ?a r = (if r = ra_solo_remote a then ?x else new_ack_remote r)" for r
      by (simp add: remote_at_def tree_at_def put_remote_def a(1) update_conv')
    moreover have "of_remote A r = (if r = ra_solo_remote a then {0} else {})" for r by (auto simp: of_remote_def a(2))
    ultimately have rec: "records ?a A" using x by (simp add: records_def window_new)
    have "ack_admit a q s = admit_remote ?a q s" using solo False by (auto simp: ack_admit_def Let_def)
    moreover have "ra_tree ?a \<noteq> None" by (simp add: put_remote_def)
    ultimately show ?thesis using admit_remote_records [OF rec, of s q] by simp
  qed
next
  case tree: False
  show ?thesis
  proof (cases "ra_tree a = None \<and> s = 0")
    case False
    then have "ack_admit a q s = admit_remote a q s" using tree by (auto simp: ack_admit_def)
    with False show ?thesis using admit_remote_records [OF assms tree, of s q] by simp
  next
    case True
    have "window (new_ack_remote r) (of_remote A r)" for r
      using assms tree True by (simp add: records_def remote_at_def tree_at_def)
    then have A: "A = {}" by (auto simp: window_new of_remote_def)
    show ?thesis
      using tree True by (simp add: ack_admit_def records_def A fresh_for_def outdated_def of_remote_def)
  qed
qed

subsection \<open>Responses to a live request\<close>

text \<open>The reliable responses to one request as they arrive, and the pairs that reach the application.\<close>

definition response_of :: "u64 \<times> u64 \<times> microsecond \<times> message_ts \<Rightarrow> response" where
  "response_of = (\<lambda>(q, s, ts, m). \<lparr>rs_remote_id = q, rs_seqno = s, rs_timestamp = ts, rs_message = m\<rparr>)"

fun responses_run ::
    "u64 \<Rightarrow> (u64 \<times> u64 \<times> microsecond \<times> message_ts) list \<Rightarrow> 'e rpc \<Rightarrow> 'e rpc \<times> (u64 \<times> u64) list" where
  "responses_run tag [] r = (r, [])"
| "responses_run tag (x # xs) r =
    (let (r, fut, _) = correlate tag (fst x) (fst (snd x)) True (response_of x) r;
         (r, ds) = responses_run tag xs r
     in (r, if fut = None then ds else (fst x, fst (snd x)) # ds))"

lemma upd_future_sel [simp]:
  "rp_future (upd_future f g r) f' = (if f' = f then g (rp_future r f) else rp_future r f')"
  "rp_requests (upd_future f g r) = rp_requests r" "rp_timers (upd_future f g r) = rp_timers r"
  "rp_request_acks (upd_future f g r) = rp_request_acks r" "rp_next_timer (upd_future f g r) = rp_next_timer r"
  "rp_notified (upd_future f g r) = rp_notified r" "rp_env (upd_future f g r) = rp_env r"
  "rp_ack_expiry (upd_future f g r) = rp_ack_expiry r" "rp_respond_futures (upd_future f g r) = rp_respond_futures r"
  "rp_respond (upd_future f g r) = rp_respond r" "rp_breadcrumb (upd_future f g r) = rp_breadcrumb r"
  by (simp_all add: upd_future_def)

lemma cancel_opt_sel [simp]:
  "rp_future (cancel_opt t r) = rp_future r" "rp_requests (cancel_opt t r) = rp_requests r"
  "rp_request_acks (cancel_opt t r) = rp_request_acks r" "rp_next_timer (cancel_opt t r) = rp_next_timer r"
  "rp_notified (cancel_opt t r) = rp_notified r" "rp_env (cancel_opt t r) = rp_env r"
  "rp_ack_expiry (cancel_opt t r) = rp_ack_expiry r" "rp_respond_futures (cancel_opt t r) = rp_respond_futures r"
  "rp_respond (cancel_opt t r) = rp_respond r" "rp_breadcrumb (cancel_opt t r) = rp_breadcrumb r"
  by (simp_all add: cancel_opt_def rpc_cancel_timer_def split: option.split)

lemma rearm_liveness_sel [simp]:
  "rp_requests (rearm_liveness f d r) = rp_requests r" "rp_request_acks (rearm_liveness f d r) = rp_request_acks r"
  "rf_ack (rp_future (rearm_liveness f d r) f') = rf_ack (rp_future r f')"
  "rf_tag (rp_future (rearm_liveness f d r) f') = rf_tag (rp_future r f')"
  "rf_count (rp_future (rearm_liveness f d r) f') = rf_count (rp_future r f')"
  "rf_responses (rp_future (rearm_liveness f d r) f') = rf_responses (rp_future r f')"
  "rf_err (rp_future (rearm_liveness f d r) f') = rf_err (rp_future r f')"
  "rp_env (rearm_liveness f d r) = rp_env r" "rp_notified (rearm_liveness f d r) = rp_notified r"
  "rp_ack_expiry (rearm_liveness f d r) = rp_ack_expiry r" "rp_respond_futures (rearm_liveness f d r) = rp_respond_futures r"
  by (simp_all add: rearm_liveness_def rpc_schedule_def Let_def)

lemma add_response_sel [simp]:
  "rf_ack (add_response rs x) = rf_ack x" "rf_tag (add_response rs x) = rf_tag x" "rf_count (add_response rs x) = rf_count x + 1"
  by (simp_all add: add_response_def Let_def)

lemma deliver_response_sel [simp]:
  "rp_requests (deliver_response f rs r) = rp_requests r" "rp_request_acks (deliver_response f rs r) = rp_request_acks r"
  "rf_ack (rp_future (deliver_response f rs r) f') = rf_ack (rp_future r f')"
  "rf_tag (rp_future (deliver_response f rs r) f') = rf_tag (rp_future r f')"
  "rf_count (rp_future (deliver_response f rs r) f) = rf_count (rp_future r f) + 1"
  by (simp_all add: deliver_response_def Let_def)

definition accepted :: "nat \<Rightarrow> (u64 \<times> u64) set \<Rightarrow> 'e rpc \<Rightarrow> bool" where
  "accepted f A r \<longleftrightarrow> (case rf_ack (rp_future r f) of None \<Rightarrow> A = {} | Some a \<Rightarrow> records a A \<and> ra_tag a = rf_tag (rp_future r f))"


lemma correlate_step:
  assumes "rp_requests r tag = Some f" "rf_tag (rp_future r f) = tag" "accepted f A r"
    and "correlate tag q s True rs r = (r', fut, v)"
  shows "fut = (if fresh_for A q s then Some f else None)" "v = (if outdated (of_remote A q) s then ResponseNack else ResponseAck)"
    and "accepted f (if fresh_for A q s then insert (q, s) A else A) r'"
    and "rp_requests r' = rp_requests r" "rf_tag (rp_future r' f) = tag" "rp_request_acks r' = rp_request_acks r"
    and "rf_count (rp_future r' f) = rf_count (rp_future r f) + (if fresh_for A q s then 1 else 0)"
proof -
  let ?a = "case rf_ack (rp_future r f) of None \<Rightarrow> new_request_ack tag | Some a \<Rightarrow> a"
  have rec: "records ?a A" "ra_tag ?a = tag"
    using assms(2, 3) records_new by (auto simp: accepted_def new_request_ack_def split: option.splits)
  obtain a' where a': "ack_admit ?a q s = (a', fresh_for A q s, if outdated (of_remote A q) s then ResponseNack else ResponseAck)"
    "records a' (if fresh_for A q s then insert (q, s) A else A)" using admit_records [OF rec(1)] by blast
  have "ra_tag a' = ra_tag ?a"
    using a'(1) by (auto simp: ack_admit_def admit_remote_def put_remote_def Let_def split: if_splits option.splits)
  then have t: "ra_tag a' = tag" using rec by simp
  let ?r = "upd_future f (\<lambda>x. x\<lparr>rf_ack := Some a'\<rparr>) r"
  have n: "\<not> outdated (of_remote A q) s" if "fresh_for A q s" using that by (simp add: fresh_for_def)
  have c: "(r', fut, v) = (if fresh_for A q s then (deliver_response f rs ?r, Some f, ResponseAck)
      else (?r, None, if outdated (of_remote A q) s then ResponseNack else ResponseAck))"
    using assms(4) by (cases "fresh_for A q s") (simp_all add: correlate_def assms(1) a'(1) Let_def)
  show "fut = (if fresh_for A q s then Some f else None)" "v = (if outdated (of_remote A q) s then ResponseNack else ResponseAck)"
    "accepted f (if fresh_for A q s then insert (q, s) A else A) r'"
    "rp_requests r' = rp_requests r" "rf_tag (rp_future r' f) = tag" "rp_request_acks r' = rp_request_acks r"
    "rf_count (rp_future r' f) = rf_count (rp_future r f) + (if fresh_for A q s then 1 else 0)"
    using c a'(2) t assms(2) n by (auto simp: accepted_def split: if_splits)
qed

definition pairs :: "(u64 \<times> u64 \<times> microsecond \<times> message_ts) list \<Rightarrow> (u64 \<times> u64) set" where
  "pairs xs = (\<lambda>x. (fst x, fst (snd x))) ` set xs"

lemma outdated_mono: "outdated (of_remote A q) s \<Longrightarrow> A \<subseteq> B \<Longrightarrow> outdated (of_remote B q) s"
  by (auto simp: outdated_def of_remote_def)

lemma responses_run_spec:
  assumes "rp_requests r tag = Some f" "rf_tag (rp_future r f) = tag" "accepted f A r" "responses_run tag xs r = (r', ds)"
  shows "distinct ds \<and> set ds \<inter> A = {} \<and> set ds \<subseteq> pairs xs \<and> accepted f (A \<union> set ds) r' \<and>
    (\<forall>(q, s) \<in> pairs xs. (q, s) \<in> A \<union> set ds \<or> outdated (of_remote (A \<union> set ds) q) s) \<and>
    rf_count (rp_future r' f) = rf_count (rp_future r f) + of_nat (length ds) \<and>
    rp_requests r' = rp_requests r \<and> rf_tag (rp_future r' f) = tag \<and> rp_request_acks r' = rp_request_acks r"
  using assms
proof (induction xs arbitrary: r A ds)
  case (Cons x xs)
  obtain q s y where x: "x = (q, s, y)" by (metis prod.collapse)
  obtain mid fut v where c: "correlate tag q s True (response_of x) r = (mid, fut, v)" by (metis prod_cases3)
  obtain es where e: "responses_run tag xs mid = (r', es)" "ds = (if fut = None then es else (q, s) # es)"
    using Cons.prems(4) c by (auto simp: x split: prod.splits)
  note st = correlate_step [OF Cons.prems(1-3) c]
  let ?A = "if fresh_for A q s then insert (q, s) A else A"
  have ih: "distinct es \<and> set es \<inter> ?A = {} \<and> set es \<subseteq> pairs xs \<and> accepted f (?A \<union> set es) r' \<and>
    (\<forall>(q, s) \<in> pairs xs. (q, s) \<in> ?A \<union> set es \<or> outdated (of_remote (?A \<union> set es) q) s) \<and>
    rf_count (rp_future r' f) = rf_count (rp_future mid f) + of_nat (length es) \<and>
    rp_requests r' = rp_requests mid \<and> rf_tag (rp_future r' f) = tag \<and> rp_request_acks r' = rp_request_acks mid"
    using Cons.prems(1) st by (intro Cons.IH [OF _ _ _ e(1)]) simp_all
  have ps: "pairs (x # xs) = insert (q, s) (pairs xs)" by (simp add: pairs_def x)
  have same: "?A \<union> set es = A \<union> set ds" using st(1) by (simp add: e(2))
  have here: "(q, s) \<in> A \<union> set ds \<or> outdated (of_remote (A \<union> set ds) q) s"
    using outdated_mono [of A q s "A \<union> set ds"] st(1) by (auto simp: e(2) fresh_for_def)
  have "distinct ds \<and> set ds \<inter> A = {} \<and> set ds \<subseteq> pairs (x # xs)"
    using ih st(1) by (auto simp: e(2) ps fresh_for_def split: if_splits)
  moreover have "rf_count (rp_future r' f) = rf_count (rp_future r f) + of_nat (length ds)"
    using ih st(1, 7) by (simp add: e(2))
  ultimately show ?case using ih st(4, 6) here unfolding ps same by simp
qed (simp add: pairs_def)

text \<open>After the request was disposed of, the retained record answers.\<close>

lemma destroyed_answers:
  assumes "rf_tag (rp_future r f) = tag" "accepted f A r" "rp_request_acks r tag = None"
  shows "correlate tag q s True rs (request_destroy p f r) =
    (request_destroy p f r, None, if (q, s) \<in> A \<and> \<not> outdated (of_remote A q) s then ResponseAck else ResponseNack)"
proof -
  have gone: "rp_requests (request_destroy p f r) tag = None"
    by (simp add: request_destroy_def assms(1) retain_request_ack_def Let_def split: option.split)
  show ?thesis
  proof (cases "rf_ack (rp_future r f)")
    case None
    then have "rp_request_acks (request_destroy p f r) tag = None" "A = {}"
      using assms by (simp_all add: request_destroy_def Let_def accepted_def)
    then show ?thesis using gone by (simp add: correlate_def)
  next
    case (Some a)
    then have rec: "records a A" "ra_tag a = tag" using assms by (simp_all add: accepted_def)
    let ?keep = "ra_solo a \<or> (case ra_tree a of None \<Rightarrow> False | Some t \<Rightarrow> t \<noteq> [])"
    show ?thesis
    proof (cases ?keep)
      case True
      then have "rp_request_acks (request_destroy p f r) tag = Some (a\<lparr>ra_dead_at := rpc_now p r + request_ack_retention\<rparr>)"
        using Some rec by (simp add: request_destroy_def Let_def retain_request_ack_def rpc_now_def)
      moreover have "ack_test (a\<lparr>ra_dead_at := d\<rparr>) q s = ack_test a q s" for d by (simp add: ack_test_def tree_at_def)
      ultimately show ?thesis using gone by (simp add: correlate_def records_test [OF rec(1)])
    next
      case False
      then have "window (new_ack_remote q) (of_remote A q)" for q
        using rec by (auto simp: records_def remote_at_def tree_at_def split: option.splits dest: spec [of _ q])
      then have "A = {}" by (auto simp: window_new of_remote_def)
      moreover have "rp_request_acks (request_destroy p f r) tag = None"
        using False Some assms(3) by (simp add: request_destroy_def Let_def)
      ultimately show ?thesis using gone by (simp add: correlate_def)
    qed
  qed
qed

text \<open>C7: a reliable response reaches the application exactly once, however often and in whatever order the responders
  transmit. While the request lives, the responses of any run that are passed on are pairwise different in their
  remote and sequence number; every response of the run is passed on or is outdated, by another one of the same
  remote that was passed on and is at least 192 ahead; the count of the future goes up by as many. After the request
  was disposed of, exactly the retransmissions of responses that were passed on and are not outdated are acknowledged,
  and nothing is passed on any more.\<close>

theorem response_delivered_once:
  assumes "rp_requests r tag = Some f" and "rf_tag (rp_future r f) = tag" and "rf_ack (rp_future r f) = None"
    and "rp_request_acks r tag = None" and "responses_run tag xs r = (r', ds)"
  shows "distinct ds \<and> set ds \<subseteq> pairs xs \<and>
    (\<forall>(q, s) \<in> pairs xs. (q, s) \<in> set ds \<or> outdated (of_remote (set ds) q) s) \<and>
    rf_count (rp_future r' f) = rf_count (rp_future r f) + of_nat (length ds) \<and>
    (\<forall>q s rs. correlate tag q s True rs (request_destroy p f r') = (request_destroy p f r', None,
       if (q, s) \<in> set ds \<and> \<not> outdated (of_remote (set ds) q) s then ResponseAck else ResponseNack))"
proof -
  have "accepted f {} r" using assms(3) by (simp add: accepted_def)
  note run = responses_run_spec [OF assms(1, 2) this assms(5)]
  then have "rp_request_acks r' tag = None" "rf_tag (rp_future r' f) = tag" "accepted f (set ds) r'" using assms(4) by simp_all
  from destroyed_answers [OF this(2, 3, 1)] run show ?thesis by simp
qed


subsection \<open>The timer of a request\<close>

text \<open>The identifiers of the pending timers are in the past.\<close>

definition timers_ok :: "'e rpc \<Rightarrow> bool" where
  "timers_ok r \<longleftrightarrow> (\<forall>t \<in> set (rp_timers r). fst t < rp_next_timer r)"

lemma unicast_sel [simp]:
  "rp_future (fst (rpc_unicast p l d x r)) = rp_future r" "rp_timers (fst (rpc_unicast p l d x r)) = rp_timers r"
  "rp_next_timer (fst (rpc_unicast p l d x r)) = rp_next_timer r" "rp_requests (fst (rpc_unicast p l d x r)) = rp_requests r"
  by (simp_all add: rpc_unicast_def split: prod.split)

text \<open>C39: a request is declared dead while it is being answered. The timer that a request starts with is not stored in
  its future, so that a response, which opens a new window and arms a new timer for its end, cannot cancel it: when it
  expires the future fails with the liveness error, although the window of the response is still open and its own timer is pending.\<close>

theorem first_timer_ends_request:
  assumes "rpc_request p (Some pb) deadline timeout data r = (r1, pb', Some f)" and "timers_ok r"
    and "r2 = deliver_response f rs r1" and "r3 = fire_timer p (rp_next_timer r) r2"
  shows "rf_err (rp_future r2 f) = OK \<and> \<not> rf_liveness_expired (rp_future r2 f) \<and>
    rf_err (rp_future r3 f) = ErrLiveness \<and> rf_liveness_expired (rp_future r3 f) \<and>
    (rp_next_timer r + 1, rs_timestamp rs + timeout, LivenessTimeout f) \<in> set (rp_timers r3)"
proof -
  let ?i = "rp_next_timer r"
  have r1: "rp_future r1 f = (new_request_future (rp_next_tag r))\<lparr>rf_liveness_timeout := timeout\<rparr>"
    "rp_timers r1 = rp_timers r @ [(?i, deadline + timeout, ResponseTimeout (rp_next_tag r) f)]" "rp_next_timer r1 = ?i + 1"
    using assms(1) by (auto simp: rpc_request_def rpc_schedule_def send_request_message_def Let_def)
  have r2: "rp_future r2 f = (add_response rs (rp_future r1 f))\<lparr>rf_err := OK, rf_liveness_expired := False, rf_liveness_task := Some (?i + 1)\<rparr>"
    "rp_timers r2 = rp_timers r1 @ [(?i + 1, rs_timestamp rs + timeout, LivenessTimeout f)]"
    by (simp_all add: assms(3) deliver_response_def rearm_liveness_def rpc_schedule_def Let_def r1 add_response_def
        new_request_future_def cancel_opt_def)
  have no: "map_of (map (\<lambda>(i, d, t). (i, t)) (rp_timers r)) ?i = None"
    using assms(2) by (auto simp: timers_ok_def map_of_eq_None_iff)
  have "fire_timer p ?i r2 = on_liveness_timeout f (rpc_cancel_timer ?i r2)"
    by (simp add: fire_timer_def r2 r1 no handle_response_timeout_def map_add_def)
  moreover have "rp_future (rpc_cancel_timer ?i r2) = rp_future r2" by (simp add: rpc_cancel_timer_def)
  ultimately show ?thesis
    by (simp add: assms(4) on_liveness_timeout_def r2 r1 notify_callback_def rpc_cancel_timer_def)
qed

text \<open>A reliable response is sent again at every expiration of its timer, and is never given up.\<close>

theorem response_never_given_up:
  assumes "\<not> sf_done (rp_respond r f)" and "sf_retransmit (rp_respond r f) \<noteq> None"
  shows "\<not> sf_done (rp_respond ((on_retransmit_tick p f ^^ n) r) f) \<and> sf_retransmit (rp_respond ((on_retransmit_tick p f ^^ n) r) f) \<noteq> None"
proof (induction n)
  case (Suc n)
  have "rp_respond (fst (rpc_unicast p l d x r)) = rp_respond r" for l d x r by (simp add: rpc_unicast_def split: prod.split)
  with Suc show ?case
    by (simp add: on_retransmit_tick_def arm_retransmit_def upd_respond_def rpc_schedule_def Let_def case_prod_beta)
qed (use assms in simp)

subsection \<open>A reliable response from end to end\<close>

text \<open>A platform that logs what is sent.\<close>

definition log_platform :: "microsecond \<Rightarrow> (lane \<times> microsecond \<times> bytes) list rpc_platform" where
  "log_platform now = \<lparr>rpx_now = (\<lambda>_. now), rpx_unicast = (\<lambda>lane d data log. (log @ [(lane, d, data)], None))\<rparr>"

lemma claim_key_free:
  "futures (respond_key (bc_remote_id bc) (bc_message_tag bc) (bc_topic_hash bc) seqno tag) = None \<Longrightarrow>
    claim_key futures bc seqno f tag = futures(respond_key (bc_remote_id bc) (bc_message_tag bc) (bc_topic_hash bc) seqno tag \<mapsto> f)"
  by (subst claim_key.simps) simp


subsection \<open>An example\<close>

definition demo_rpc :: "unit rpc" where
  "demo_rpc = (new_rpc ())\<lparr>rp_requests := (\<lambda>_. None)(5 \<mapsto> 0), rp_future := (\<lambda>_. new_request_future 5), rp_next_future := 1\<rparr>"

definition demo_rpc_message :: message_ts where "demo_rpc_message = \<lparr>mts_timestamp = 0, mts_content = None\<rparr>"

definition demo_responses :: "(u64 \<times> u64 \<times> microsecond \<times> message_ts) list" where
  "demo_responses = [(7, 0, 1, demo_rpc_message), (7, 1, 2, demo_rpc_message), (7, 0, 3, demo_rpc_message), (8, 0, 4, demo_rpc_message)]"

definition demo_rpc_platform :: "unit rpc_platform" where
  "demo_rpc_platform = \<lparr>rpx_now = (\<lambda>_. 9), rpx_unicast = (\<lambda>_ _ _ e. (e, None))\<rparr>"

lemma demo_passed_on: "snd (responses_run 5 demo_responses demo_rpc) = [(7, 0), (7, 1), (8, 0)]"
  by code_simp

theorem response_delivered_once_witness:
  "rf_count (rp_future (fst (responses_run 5 demo_responses demo_rpc)) 0) = 3 \<and>
   (let r = request_destroy demo_rpc_platform 0 (fst (responses_run 5 demo_responses demo_rpc))
    in correlate 5 7 0 True \<lparr>rs_remote_id = 7, rs_seqno = 0, rs_timestamp = 5, rs_message = demo_rpc_message\<rparr> r = (r, None, ResponseAck) \<and>
       correlate 5 8 1 True \<lparr>rs_remote_id = 8, rs_seqno = 1, rs_timestamp = 5, rs_message = demo_rpc_message\<rparr> r = (r, None, ResponseNack))"
proof -
  have d: "rp_requests demo_rpc 5 = Some 0" "rf_tag (rp_future demo_rpc 0) = 5" "rf_ack (rp_future demo_rpc 0) = None"
    "rp_request_acks demo_rpc 5 = None" "rf_count (rp_future demo_rpc 0) = 0"
    by (simp_all add: demo_rpc_def new_rpc_def new_request_future_def)
  obtain r ds where run: "responses_run 5 demo_responses demo_rpc = (r, ds)" by fastforce
  then have "ds = [(7, 0), (7, 1), (8, 0)]" using demo_passed_on by simp
  with response_delivered_once [OF d(1-4) run, of demo_rpc_platform] d(5) show ?thesis
    unfolding run by (auto simp: Let_def outdated_def of_remote_def)
qed

theorem first_timer_ends_request_witness:
  "let pub = \<lparr>qp_topic_hash = 9, qp_subject_id = 1, qp_priority = 4, qp_pending = (\<lambda>_. None)\<rparr>;
       r1 = fst (rpc_request demo_rpc_platform (Some pub) 1000 500 [1] (new_rpc ()));
       r2 = deliver_response 0 \<lparr>rs_remote_id = 7, rs_seqno = 0, rs_timestamp = 1400, rs_message = demo_rpc_message\<rparr> r1;
       r3 = fire_timer demo_rpc_platform 0 r2
   in rf_err (rp_future r3 0) = ErrLiveness \<and> (1, 1900, LivenessTimeout 0) \<in> set (rp_timers r3)"
proof -
  let ?pub = "\<lparr>qp_topic_hash = 9, qp_subject_id = 1, qp_priority = 4, qp_pending = (\<lambda>_. None)\<rparr>"
  obtain r1 pb f where r: "rpc_request demo_rpc_platform (Some ?pub) 1000 500 [1] (new_rpc ()) = (r1, pb, f)" by (metis prod_cases3)
  then have f: "f = Some 0" by (simp add: rpc_request_def new_rpc_def Let_def split: prod.splits)
  have t: "timers_ok (new_rpc ())" "rp_next_timer (new_rpc ()) = 0" by (simp_all add: timers_ok_def new_rpc_def)
  from first_timer_ends_request [OF r [unfolded f] t(1) refl refl, of "\<lparr>rs_remote_id = 7, rs_seqno = 0, rs_timestamp = 1400, rs_message = demo_rpc_message\<rparr>"]
  show ?thesis by (simp add: r t(2) Let_def)
qed

definition demo_bc :: breadcrumb where
  "demo_bc = \<lparr>bc_priority = 4, bc_remote_id = 7, bc_topic_hash = 9, bc_message_tag = 5, bc_seqno = 0, bc_ctx = []\<rparr>"

definition demo_end :: "(lane \<times> microsecond \<times> bytes) list rpc" where
  "demo_end = (new_rpc [])\<lparr>rp_breadcrumb := (\<lambda>_. demo_bc), rp_requests := (\<lambda>_. None)(5 \<mapsto> 0), rp_future := (\<lambda>_. new_request_future 5),
     rp_next_future := 1\<rparr>"

lemma demo_end_facts:
  "rp_breadcrumb demo_end 0 = demo_bc" "bc_seqno demo_bc < 2 ^ 48"
  "rp_respond_futures demo_end (respond_key (bc_remote_id demo_bc) (bc_message_tag demo_bc) (bc_topic_hash demo_bc) (bc_seqno demo_bc) 0) = None"
  "timers_ok demo_end" "\<forall>t \<in> set (rp_timers demo_end). snd (snd t) \<noteq> RetransmitTick (rp_next_respond demo_end)"
  "rp_requests demo_end (bc_message_tag demo_bc) = Some 0" "rf_tag (rp_future demo_end 0) = bc_message_tag demo_bc"
  "rf_ack (rp_future demo_end 0) = None" "rp_env demo_end = []" "rp_next_respond demo_end = 0"
  by (simp_all add: demo_end_def demo_bc_def new_rpc_def new_request_future_def timers_ok_def)

lemma demo_end_sent: "snd (respond_reliable (log_platform 100) 0 0 [1, 2] demo_end) = Some 0"
  by (simp add: respond_reliable_def send_response_reliable_def new_responder_def send_response_def log_platform_def
        rpc_unicast_def increment_seqno_def demo_end_facts Let_def)


end
