(* ===== verification/CyInstance.thy ===== *)
theory CyInstance
  imports CyDelivery CyRpc
begin

unbundle bit_operations_syntax

text \<open>
  The whole instance of \<open>cy/cy.go\<close>: construction with the remapping configuration, the dispatch of unicast and
  multicast messages, advertising, the subject-ID modulus, destruction and spinning. It puts the node, the
  publishers and the requests together; they share the environment of the platform, which is the one of the node
  and is handed to the requests for the time of an operation. The messages that a spin of the platform delivers are a list.
\<close>

record 'e cy_instance =
  in_node :: "'e node"
  in_rpc :: "'e rpc"
  in_pub :: "nat \<Rightarrow> publisher option"
  in_retired :: "publisher list"
  in_home :: string
  in_ns :: string
  in_remap :: "string \<rightharpoonup> string"
  in_unicast_extent :: int
  in_started_at :: microsecond
  in_attached :: bool

record 'e instance_platform = "'e pub_platform" +
  ip_unicast :: "lane \<Rightarrow> microsecond \<Rightarrow> bytes \<Rightarrow> 'e \<Rightarrow> 'e \<times> cy_error option"
  ip_modulus :: "'e \<Rightarrow> u32"
  ip_set_unicast_extent :: "int \<Rightarrow> 'e \<Rightarrow> 'e"
  ip_spin :: "microsecond \<Rightarrow> 'e \<Rightarrow> 'e \<times> (lane \<times> u32 option \<times> message_ts) list \<times> cy_error option"

definition rpc_side :: "('e, 'x) instance_platform_scheme \<Rightarrow> 'e rpc_platform" where
  "rpc_side p = \<lparr>rpx_now = cp_now p, rpx_unicast = ip_unicast p\<rparr>"

definition cy_side :: "('e, 'x) instance_platform_scheme \<Rightarrow> 'e cy_platform" where
  "cy_side p = \<lparr>cp_now = cp_now p, cp_new_reader = cp_new_reader p, cp_destroy_reader = cp_destroy_reader p, cp_send = cp_send p\<rparr>"

definition env_of :: "'e cy_instance \<Rightarrow> 'e" where "env_of i = cy_env (nd_cy (in_node i))"

definition set_env :: "'e \<Rightarrow> 'e cy_instance \<Rightarrow> 'e cy_instance" where
  "set_env e i = i\<lparr>in_node := with_cy (\<lambda>s. s\<lparr>cy_env := e\<rparr>) (in_node i)\<rparr>"

definition with_rpc :: "('e rpc \<Rightarrow> 'e rpc) \<Rightarrow> 'e cy_instance \<Rightarrow> 'e cy_instance" where
  "with_rpc f i = (let r = f ((in_rpc i)\<lparr>rp_env := env_of i\<rparr>) in set_env (rp_env r) (i\<lparr>in_rpc := r\<rparr>))"

definition with_state :: "('e cy \<Rightarrow> 'e cy) \<Rightarrow> 'e cy_instance \<Rightarrow> 'e cy_instance" where
  "with_state f i = i\<lparr>in_node := with_cy f (in_node i)\<rparr>"

subsection \<open>Configuration\<close>

text \<open>\<open>strings.Fields\<close> on ASCII text.\<close>

definition is_space :: "char \<Rightarrow> bool" where
  "is_space c \<longleftrightarrow> c = CHR '' '' \<or> (9 \<le> (of_char c :: nat) \<and> (of_char c :: nat) \<le> 13)"

fun go_fields_loop :: "string \<Rightarrow> string \<Rightarrow> string list" where
  "go_fields_loop [] w = (if w = [] then [] else [w])"
| "go_fields_loop (c # cs) w =
    (if is_space c then (if w = [] then go_fields_loop cs [] else w # go_fields_loop cs []) else go_fields_loop cs (w @ [c]))"

definition go_fields :: "string \<Rightarrow> string list" where "go_fields s = go_fields_loop s []"

definition split_pair :: "string \<Rightarrow> (string \<times> string) option" where
  "split_pair tok =
    (let eq = takeWhile (\<lambda>c. c \<noteq> CHR ''='') tok
     in if length eq = length tok then None else Some (eq, drop (length eq + 1) tok))"

definition parse_remap_config :: "string \<Rightarrow> string \<times> (string \<times> string) list" where
  "parse_remap_config cfg =
    (case go_fields cfg of
       [] \<Rightarrow> ([], [])
     | f # fs \<Rightarrow>
         let (ns, fields) = (if f \<noteq> [] \<and> hd f = CHR ''='' then (tl f, fs) else ([], f # fs))
         in (ns, List.map_filter split_pair fields))"

definition apply_remap :: "string \<times> string \<Rightarrow> 'e cy_instance \<Rightarrow> 'e cy_instance" where
  "apply_remap pair i =
    (case remap_rule (in_remap i) (fst pair) (snd pair) of Inl _ \<Rightarrow> i | Inr t \<Rightarrow> i\<lparr>in_remap := t\<rparr>)"

definition gossip_urgent_delay_max :: microsecond where "gossip_urgent_delay_max = 10 * KILO"
definition gossip_broadcast_ratio :: u8 where "gossip_broadcast_ratio = 10"

definition init_broadcast_subject :: "('e, 'x) pub_platform_scheme \<Rightarrow> 'e cy \<Rightarrow> 'e cy \<times> cy_error option" where
  "init_broadcast_subject p s =
    (let s = (case cy_broad_writer s of
                None \<Rightarrow> s
              | Some w \<Rightarrow> s\<lparr>cy_env := pp_destroy_writer p w (cy_env s), cy_broad_writer := None\<rparr>);
         (e, err) = pp_new_writer p (cy_broadcast s) (cy_env s);
         s = s\<lparr>cy_env := e\<rparr>
     in case err of Some x \<Rightarrow> (s, Some x) | None \<Rightarrow> (s\<lparr>cy_broad_writer := Some (cy_broadcast s)\<rparr>, None))"

definition new_cy_state :: "u32 \<Rightarrow> 'e \<Rightarrow> 'e cy" where
  "new_cy_state modulus env =
    \<lparr>cy_topic = (\<lambda>_. \<lparr>t_name = [], t_hash = 0, t_sid = 0, t_pinned = False, t_pinned_sid = 0, t_ts_origin = 0, t_log_age = 0,
       t_evictions = 0, t_reader = None, t_gossip_counter = 0, t_extent = 0, t_refcount = 0, t_dedup = Map.empty\<rparr>),
     cy_next = 0, cy_by_name = [], cy_by_hash = Map.empty, cy_by_sid = Map.empty, cy_modulus = modulus,
     cy_broadcast = broadcast_subject_id modulus, cy_broad_writer = None, cy_broadcast_ratio = gossip_broadcast_ratio,
     cy_shard_count = 0, cy_pending = [], cy_gossip_period = gossip_period * 1000,
     cy_urgent_delay_max = gossip_urgent_delay_max * 1000, cy_tasks = [], cy_crdt = new_crdt modulus, cy_patterns = [],
     cy_reallocated = [], cy_env = env\<rparr>"

definition new_instance ::
    "('e, 'x) instance_platform_scheme \<Rightarrow> string \<Rightarrow> string \<Rightarrow> string \<Rightarrow> 'e \<Rightarrow> 'e \<times> 'e cy_instance cy_result" where
  "new_instance p home name_space remap_config env =
    (let (cfg_ns, pairs) = parse_remap_config remap_config;
         name_space = (if name_space = [] \<and> cfg_ns \<noteq> [] then cfg_ns else name_space);
         modulus = ip_modulus p env;
         modulus = (if modulus = 0 \<or> \<not> is_valid_subject_id_modulus modulus then subject_id_modulus_16bit else modulus);
         started = cp_now p env;
         env = ip_set_unicast_extent p (int header_size + 100) env;
         i = \<lparr>in_node = \<lparr>nd_cy = new_cy_state modulus env, nd_sub = (\<lambda>_. new_pattern_subscriber [] 0), nd_next_sub = 0,
                nd_topic_subs = (\<lambda>_. []), nd_scouting = [], nd_unicast = []\<rparr>,
              in_rpc = new_rpc env, in_pub = (\<lambda>_. None), in_retired = [], in_home = home, in_ns = name_space, in_remap = Map.empty,
              in_unicast_extent = int header_size + 100, in_started_at = started, in_attached = True\<rparr>;
         i = fold apply_remap pairs i;
         (s, err) = init_broadcast_subject p (nd_cy (in_node i));
         i = with_state (\<lambda>_. s) i
     in case err of
          Some e \<Rightarrow> (env_of i, Inl e)
        | None \<Rightarrow> (env_of i, Inr (with_state (\<lambda>s. s\<lparr>cy_shard_count := gossip_shard_count modulus\<rparr>) i)))"

definition set_subject_id_modulus :: "('e, 'x) pub_platform_scheme \<Rightarrow> u32 \<Rightarrow> 'e cy \<Rightarrow> 'e cy \<times> cy_error option" where
  "set_subject_id_modulus p modulus s =
    (if \<not> is_valid_subject_id_modulus modulus then (s, Some ErrArgument)
     else
       let s = s\<lparr>cy_modulus := modulus, cy_crdt := crdt_set_modulus (cy_crdt s) modulus, cy_broadcast := broadcast_subject_id modulus\<rparr>;
           (s, err) = init_broadcast_subject p s
       in case err of Some e \<Rightarrow> (s, Some e) | None \<Rightarrow> (s\<lparr>cy_shard_count := gossip_shard_count modulus\<rparr>, None))"

definition set_unicast_extent :: "('e, 'x) instance_platform_scheme \<Rightarrow> int \<Rightarrow> 'e cy_instance \<Rightarrow> 'e cy_instance" where
  "set_unicast_extent p extent i =
    set_env (ip_set_unicast_extent p extent (env_of i)) (i\<lparr>in_unicast_extent := extent\<rparr>)"

definition uptime :: "('e, 'x) instance_platform_scheme \<Rightarrow> 'e cy_instance \<Rightarrow> microsecond" where
  "uptime p i = cp_now p (env_of i) - in_started_at i"

subsection \<open>Advertising\<close>

definition instance_subscribe ::
    "(string \<Rightarrow> u64) \<Rightarrow> ('e, 'x) instance_platform_scheme \<Rightarrow> string \<Rightarrow> int \<Rightarrow> microsecond \<Rightarrow> 'e cy_instance
      \<Rightarrow> go_panic + ('e cy_instance \<times> nat) cy_result" where
  "instance_subscribe h p name extent window i =
    and_then (subscribe_locked h (cy_side p) (name_resolve (in_remap i) name (in_ns i) (in_home i)) extent window (in_node i))
      (\<lambda>res. Inr (case res of Inl e \<Rightarrow> Inl e | Inr (nd, sub) \<Rightarrow> Inr (i\<lparr>in_node := nd\<rparr>, sub)))"

definition advertise ::
    "(string \<Rightarrow> u64) \<Rightarrow> ('e, 'x) instance_platform_scheme \<Rightarrow> string \<Rightarrow> 'e cy_instance \<Rightarrow> go_panic + ('e cy_instance \<times> nat) cy_result" where
  "advertise h p name i =
    and_then (find_or_create_topic h (cy_side p) (in_remap i) (in_ns i) (in_home i) name default_topic_extent (nd_cy (in_node i)))
      (\<lambda>res. case res of
         Inl e \<Rightarrow> Inr (Inl e)
       | Inr (s, a) \<Rightarrow>
           let i = with_state (\<lambda>_. s) i
           in Inr (Inr (case in_pub i a of
                Some _ \<Rightarrow> (i, a)
              | None \<Rightarrow> (i\<lparr>in_pub := (in_pub i)(a \<mapsto> new_publisher a (t_hash (cy_topic s a)))\<rparr>, a))))"

definition find_topic :: "string \<Rightarrow> 'e cy_instance \<Rightarrow> nat option" where
  "find_topic name i =
    (let r = name_resolve (in_remap i) name (in_ns i) (in_home i)
     in if \<not> res_ok r then None else map_of (cy_by_name (nd_cy (in_node i))) (res_name r))"

definition find_topic_by_hash :: "u64 \<Rightarrow> 'e cy_instance \<Rightarrow> nat option" where
  "find_topic_by_hash hash i = cy_by_hash (nd_cy (in_node i)) hash"

definition find_topic_by_subject_id :: "u32 \<Rightarrow> 'e cy_instance \<Rightarrow> nat option" where
  "find_topic_by_subject_id sid i = cy_by_sid (nd_cy (in_node i)) sid"

subsection \<open>Unicast messages\<close>

definition handle_ack_message :: "lane \<Rightarrow> u64 \<Rightarrow> u64 \<Rightarrow> bool \<Rightarrow> 'e cy_instance \<Rightarrow> 'e cy_instance" where
  "handle_ack_message lane topic_hash tag positive i =
    (case cy_by_hash (nd_cy (in_node i)) topic_hash of
       None \<Rightarrow> i
     | Some a \<Rightarrow> (case in_pub i a of
         None \<Rightarrow> i
       | Some pb \<Rightarrow>
           i\<lparr>in_pub := (in_pub i)(a \<mapsto> (if positive then rd_handle_ack (lane_id lane) tag pb else rd_handle_nack (lane_id lane) tag pb))\<rparr>))"

definition handle_unicast ::
    "(string \<Rightarrow> u64) \<Rightarrow> ('e, 'x) instance_platform_scheme \<Rightarrow> lane \<Rightarrow> message_ts \<Rightarrow> 'e cy_instance \<Rightarrow> go_panic + 'e cy_instance" where
  "handle_unicast h p lane message i =
    (case mts_content message of
       None \<Rightarrow> Inr i
     | Some content \<Rightarrow>
         if message_size content < int header_size then Inr i
         else and_then (message_read content 0 (int header_size) (replicate header_size 0))
           (\<lambda>(n, hdr).
              if n \<noteq> int header_size then Inr i
              else
                let msg_type = hdr ! 0;
                    topic_hash = le_word (slice 8 16 hdr);
                    tag = le_word (slice 16 24 hdr);
                    content = message_skip content (int header_size);
                    message = message\<lparr>mts_content := Some content\<rparr>
                in if msg_type = type_byte HeaderTypeMsgAck \<or> msg_type = type_byte HeaderTypeMsgNack
                   then Inr (handle_ack_message lane topic_hash tag (msg_type = type_byte HeaderTypeMsgAck) i)
                   else if msg_type = type_byte HeaderTypeRspBE \<or> msg_type = type_byte HeaderTypeRspRel
                   then Inr (with_rpc (handle_response_frame (rpc_side p) lane hdr message) i)
                   else if msg_type = type_byte HeaderTypeRspAck \<or> msg_type = type_byte HeaderTypeRspNack
                   then Inr (with_rpc (handle_response_ack_message lane hdr) i)
                   else if msg_type = type_byte HeaderTypeGossip
                   then and_then (message_payload content)
                     (\<lambda>name. and_then
                        (process_gossip h (cy_side p) (sint (hdr ! 3)) (le_word (slice 8 16 hdr)) (ucast (le_word (slice 16 20 hdr) :: u32))
                           (string_of_bytes name) GossipUnicast (mts_timestamp message) (nd_cy (in_node i)))
                        (\<lambda>s. Inr (with_state (\<lambda>_. s) i)))
                   else Inr i))"

text \<open>The unicast frames that the node has logged during an operation go out.\<close>

definition flush_unicast :: "('e, 'x) instance_platform_scheme \<Rightarrow> nat \<Rightarrow> 'e cy_instance \<Rightarrow> 'e cy_instance" where
  "flush_unicast p n i =
    fold (\<lambda>(lane, d, data) i. set_env (fst (ip_unicast p lane d data (env_of i))) i) (drop n (nd_unicast (in_node i))) i"

definition handle_message ::
    "(string \<Rightarrow> u64) \<Rightarrow> ('e, 'x) instance_platform_scheme \<Rightarrow> lane \<Rightarrow> u32 option \<Rightarrow> message_ts \<Rightarrow> 'e cy_instance \<Rightarrow> go_panic + 'e cy_instance" where
  "handle_message h p lane subject_id message i =
    (case subject_id of
       Some sid \<Rightarrow> and_then (handle_multicast h (cy_side p) lane sid message (in_node i)) 
         (\<lambda>nd. Inr (flush_unicast p (length (nd_unicast (in_node i))) (i\<lparr>in_node := nd\<rparr>)))
     | None \<Rightarrow> handle_unicast h p lane message i)"

subsection \<open>The event loop\<close>

fun handle_arrivals ::
    "(string \<Rightarrow> u64) \<Rightarrow> ('e, 'x) instance_platform_scheme \<Rightarrow> (lane \<times> u32 option \<times> message_ts) list \<Rightarrow> 'e cy_instance \<Rightarrow> go_panic + 'e cy_instance" where
  "handle_arrivals h p [] i = Inr i"
| "handle_arrivals h p ((lane, sid, m) # ms) i = and_then (handle_message h p lane sid m i) (handle_arrivals h p ms)"

text \<open>The last argument runs the tasks of the scheduler that are due.\<close>

definition spin_until ::
    "(string \<Rightarrow> u64) \<Rightarrow> ('e, 'x) instance_platform_scheme \<Rightarrow> microsecond \<Rightarrow> ('e cy_instance \<Rightarrow> go_panic + 'e cy_instance) \<Rightarrow> 'e cy_instance
      \<Rightarrow> go_panic + 'e cy_instance \<times> cy_error" where
  "spin_until h p deadline run_due i =
    (let i = i\<lparr>in_node := send_pending_scouts (cy_side p) (in_node i)\<rparr>;
         (e, ms, err) = ip_spin p deadline (env_of i)
     in and_then (handle_arrivals h p ms (set_env e i))
       (\<lambda>i. case err of
          Some x \<Rightarrow> if x \<noteq> OK then Inr (i, x) else and_then (run_due i) (\<lambda>i. Inr (i, OK))
        | None \<Rightarrow> and_then (run_due i) (\<lambda>i. Inr (i, OK))))"

subsection \<open>Destruction\<close>

definition destroy_topic :: "nat \<Rightarrow> 'e cy_instance \<Rightarrow> 'e cy_instance" where
  "destroy_topic a i =
    (let s = nd_cy (in_node i);
         t = cy_topic s a;
         s = s\<lparr>cy_by_name := AList.delete (t_name t) (cy_by_name s), cy_by_hash := (cy_by_hash s)(t_hash t := None)\<rparr>;
         s = (if \<not> t_pinned t then s\<lparr>cy_by_sid := (cy_by_sid s)(t_sid t := None)\<rparr> else s);
         i = with_state (\<lambda>_. s) i;
         i = (case in_pub i a of None \<Rightarrow> i | Some pb \<Rightarrow> i\<lparr>in_retired := in_retired i @ [pub_destroy pb], in_pub := (in_pub i)(a := None)\<rparr>);
         nd = fold sub_teardown (nd_topic_subs (in_node i) a) (in_node i)
     in i\<lparr>in_node := nd\<lparr>nd_topic_subs := (nd_topic_subs nd)(a := [])\<rparr>\<rparr>)"

definition destroy_instance :: "('e, 'x) instance_platform_scheme \<Rightarrow> 'e cy_instance \<Rightarrow> 'e cy_instance" where
  "destroy_instance p i =
    (let i = fold destroy_topic (map snd (cy_by_name (nd_cy (in_node i)))) i;
         i = with_state (\<lambda>s. s\<lparr>cy_by_name := [], cy_by_hash := Map.empty, cy_by_sid := Map.empty\<rparr>) i;
         i = i\<lparr>in_pub := (\<lambda>_. None), in_node := (in_node i)\<lparr>nd_topic_subs := (\<lambda>_. [])\<rparr>\<rparr>;
         i = with_state (\<lambda>s. case cy_broad_writer s of
                None \<Rightarrow> s
              | Some w \<Rightarrow> s\<lparr>cy_env := pp_destroy_writer p w (cy_env s), cy_broad_writer := None\<rparr>) i
     in i\<lparr>in_attached := False\<rparr>)"

end
