(* ===== verification/CyInstanceSpec.thy ===== *)
theory CyInstanceSpec
  imports CyInstance CyRpcSpec
begin

unbundle bit_operations_syntax

text \<open>
  The instance under any input: the state stays sound and no received message makes the code panic. The acknowledgement of a
  message, sent by one instance, completes the publication on the other one.
\<close>

subsection \<open>Soundness of the topics\<close>

definition cy_ok :: "'e cy \<Rightarrow> bool" where
  "cy_ok s \<longleftrightarrow> is_valid_subject_id_modulus (cy_modulus s) \<and> idx_sound s \<and> ran (cy_by_sid s) \<subseteq> {..<cy_next s} \<and>
    ran (cy_by_hash s) \<subseteq> {..<cy_next s} \<and> snd ` set (cy_by_name s) \<subseteq> {..<cy_next s} \<and>
    (\<forall>hash a. cy_by_hash s hash = Some a \<longrightarrow> t_hash (cy_topic s a) = hash)"

lemma cy_ok_keeps:
  assumes "cy_ok s" "keeps s s'" "idx_sound s'" "ran (cy_by_sid s') \<subseteq> {..<cy_next s}"
  shows "cy_ok s'"
  using assms by (simp add: cy_ok_def keeps_def same_identity_def)

lemma cy_ok_quiet: "quiet a s s' \<Longrightarrow> cy_ok s \<Longrightarrow> cy_ok s'"
  using cy_ok_keeps [of s s'] quiet_keeps [of a s s'] quiet_idx_sound [of a s s'] by (simp add: cy_ok_def) (simp add: quiet_def)

lemma quiet_next: "quiet a s s' \<Longrightarrow> cy_next s' = cy_next s"
  by (simp add: quiet_def)

lemma next_quiet [simp]:
  "cy_next (schedule_periodic p a b s) = cy_next s" "cy_next (schedule_urgent p a s) = cy_next s"
  "cy_next (resync_topic_reader p a s) = cy_next s" "cy_next (drop_reader p a s) = cy_next s"
  by (rule quiet_next, rule quiet_schedule_periodic quiet_schedule_urgent quiet_resync quiet_drop_reader)+

lemma cy_ok_fields:
  assumes "cy_ok s" "cy_by_sid s' = cy_by_sid s" "cy_by_hash s' = cy_by_hash s" "cy_by_name s' = cy_by_name s" "cy_modulus s' = cy_modulus s"
    "cy_next s' = cy_next s" "\<And>b. alloc_fields (cy_topic s' b) = alloc_fields (cy_topic s b)" "\<And>b. t_hash (cy_topic s' b) = t_hash (cy_topic s b)"
  shows "cy_ok s'"
proof -
  have "t_sid (cy_topic s' b) = t_sid (cy_topic s b) \<and> t_evictions (cy_topic s' b) = t_evictions (cy_topic s b) \<and>
      t_pinned (cy_topic s' b) = t_pinned (cy_topic s b)" for b using alloc_fieldsD [OF assms(7)] by simp
  then show ?thesis using assms(1-6, 8) by (simp add: cy_ok_def idx_sound_def)
qed

lemma cy_ok_upd:
  "cy_ok s \<Longrightarrow> (\<And>t. alloc_fields (f t) = alloc_fields t) \<Longrightarrow> (\<And>t. t_hash (f t) = t_hash t) \<Longrightarrow> cy_ok (upd_topic a f s)"
  by (rule cy_ok_fields [of s]) (simp_all add: upd_topic_def)

lemma cy_ok_merge: "cy_ok s \<Longrightarrow> cy_ok (upd_topic a (\<lambda>_. merge_lage_at (cy_topic s a) now l) s)"
  by (rule cy_ok_fields [of s]) (simp_all add: upd_topic_def alloc_fields_def)

lemma ran_upd_subset: "ran (m(k := v)) \<subseteq> ran m \<union> set_option v"
  by (auto simp: ran_def split: if_splits)

lemma ran_unindex: "ran (cy_by_sid (unindex a s)) \<subseteq> ran (cy_by_sid s)"
  using unindex_sub by (force simp: ran_def)

lemma allocate_addresses:
  "topic_allocate p a ev now s = Inr s' \<Longrightarrow> ran (cy_by_sid s') \<subseteq> insert a (ran (cy_by_sid s))"
proof (induction p a ev now s arbitrary: s' rule: topic_allocate.induct)
  case (1 p a ev now s0)
  let ?s = "unindex a s0"
  have claimed: "ran (cy_by_sid (allocate_claim p a ev sid that ?s)) \<subseteq> insert a (ran (cy_by_sid s0))" for sid that
  proof -
    have "cy_by_sid (allocate_claim p a ev sid that ?s) = (cy_by_sid ?s)(sid \<mapsto> a)"
      using claim_effect [where a = a and ev = ev and sid = sid and s = ?s and p = p and that = that] unfolding quiet_def by (simp add: upd_topic_def)
    then show ?thesis using ran_upd_subset [of "cy_by_sid ?s" sid "Some a"] ran_unindex [of a s0] by auto
  qed
  show ?case
  proof (cases "is_pinned ev")
    case True
    have "cy_by_sid (allocate_pinned p a ev ?s) = cy_by_sid ?s"
      using pinned_effect [where a = a and ev = ev and s = ?s and p = p] by (simp add: quiet_def upd_topic_def)
    with True "1.prems" show ?thesis using ran_unindex [of a s0] by (subst (asm) topic_allocate.simps) (auto simp: Let_def)
  next
    case False
    then obtain sid where sid: "compute_subject_id (t_hash (cy_topic ?s a)) ev (cy_modulus ?s) = Inr sid"
      using "1.prems" by (subst (asm) topic_allocate.simps) (auto simp: Let_def split: sum.splits)
    let ?that = "occupant ?s a sid"
    show ?thesis
    proof (cases "victory ?s a now ?that")
      case lost: False
      then have "topic_allocate p a (ev + 1) now ?s = Inr s'"
        using "1.prems" False sid by (subst (asm) topic_allocate.simps) (simp add: Let_def)
      from "1.IH"(2) [OF refl False sid refl lost this] show ?thesis using ran_unindex [of a s0] by auto
    next
      case won: True
      show ?thesis
      proof (cases ?that)
        case None
        then show ?thesis using "1.prems" False sid won claimed by (subst (asm) topic_allocate.simps) (auto simp: Let_def)
      next
        case (Some b)
        let ?s1 = "allocate_claim p a ev sid ?that ?s"
        let ?s2 = "drop_reader p b ?s1"
        have "topic_allocate p b (t_evictions (cy_topic ?s2 b) + 1) now ?s2 = Inr s'"
          using "1.prems" False sid won Some by (subst (asm) topic_allocate.simps) (simp add: Let_def)
        from "1.IH"(1) [OF refl False sid refl won refl Some refl this]
        have "ran (cy_by_sid s') \<subseteq> insert b (ran (cy_by_sid ?s2))" .
        moreover have "cy_by_sid ?s2 = cy_by_sid ?s1" using quiet_drop_reader [of b ?s1 p] by (simp add: quiet_def)
        moreover have "b \<in> ran (cy_by_sid s0)"
          using occupant_ne [OF Some] unindex_sub by (force simp: ran_def)
        ultimately show ?thesis using claimed [of sid ?that] by auto
      qed
    qed
  qed
qed

lemma allocate_ok:
  assumes "cy_ok s" "a < cy_next s"
  obtains s' where "topic_allocate p a ev now s = Inr s'" "cy_ok s'" "cy_next s' = cy_next s"
proof -
  have v: "is_valid_subject_id_modulus (cy_modulus s)" "idx_sound s" using assms by (simp_all add: cy_ok_def)
  obtain s' where s': "topic_allocate p a ev now s = Inr s'" "alloc_post s a now s'" using allocate_spec [OF v, of p a ev now] by blast
  have "ran (cy_by_sid s') \<subseteq> {..<cy_next s}" using allocate_addresses [OF s'(1)] assms by (auto simp: cy_ok_def)
  with s' show thesis using that [OF s'(1)] cy_ok_keeps [OF assms(1)] by (simp add: alloc_post_def keeps_def)
qed

lemma compute_ok:
  assumes "cy_ok s" obtains sid where "compute_subject_id hash ev (cy_modulus s) = Inr sid"
  using assms compute_subject_id_probe by (metis cy_ok_def)


lemma known_ok:
  assumes "cy_ok s" "a < cy_next s"
  obtains s' where "on_gossip_known_topic p a ev l scope now s = Inr s'" "cy_ok s'" "cy_next s' = cy_next s"
proof -
  let ?u = "upd_topic a (\<lambda>_. merge_lage_at (cy_topic s a) now l) s"
  have eq: "upd_topic a (\<lambda>t. merge_lage_at t now l) s = ?u" by (simp add: upd_topic_def)
  have u: "cy_ok ?u" "cy_next ?u = cy_next s" using cy_ok_merge [OF assms(1)] by (simp_all add: upd_topic_def)
  obtain m where m: "(if t_evictions (cy_topic s a) \<noteq> ev then
         let (t, merged, win) = update_state (cy_topic s a) now l ev;
             s = upd_topic a (\<lambda>_. t) s
         in if win then Inr (schedule_urgent p a s)
            else and_then (topic_allocate p a ev now s)
              (\<lambda>s. Inr (if t_evictions (cy_topic s a) = ev then schedule_periodic p a True s else s))
       else
         let s = upd_topic a (\<lambda>t. merge_lage_at t now l) s;
             suppress = ((scope = GossipBroadcast \<or> scope = GossipSharded) \<and> topic_lage (cy_topic s a) now = l)
         in Inr (if suppress then schedule_periodic p a True s else s)) = Inr m" "cy_ok m" "cy_next m = cy_next s"
  proof (cases "t_evictions (cy_topic s a) = ev")
    case True
    define sup where "sup = ((scope = GossipBroadcast \<or> scope = GossipSharded) \<and> topic_lage (cy_topic ?u a) now = l)"
    have r: "cy_ok (if sup then schedule_periodic p a True ?u else ?u)" "cy_next (if sup then schedule_periodic p a True ?u else ?u) = cy_next s"
      using u cy_ok_quiet [OF quiet_schedule_periodic u(1)] by auto
    show ?thesis by (rule that [OF _ r]) (use True in \<open>simp add: Let_def eq sup_def\<close>)
  next
    case False
    define win where "win = (topic_lage (cy_topic s a) now > l \<or> topic_lage (cy_topic s a) now = l \<and> t_evictions (cy_topic s a) > ev)"
    have us: "update_state (cy_topic s a) now l ev = (merge_lage_at (cy_topic s a) now l, True, win)"
      using False by (simp add: update_state_def win_def Let_def)
    show ?thesis
    proof (cases win)
      case True
      show ?thesis
        by (rule that [of "schedule_urgent p a ?u"])
          (use True False u cy_ok_quiet [OF quiet_schedule_urgent u(1)] in
            \<open>simp_all add: us Let_def\<close>)
    next
      case lost: False
      obtain s' where s': "topic_allocate p a ev now ?u = Inr s'" "cy_ok s'" "cy_next s' = cy_next ?u"
        using allocate_ok [OF u(1), of a p ev now] u(2) assms(2) by auto
      show ?thesis
        by (rule that [of "if t_evictions (cy_topic s' a) = ev then schedule_periodic p a True s' else s'"])
          (use lost False u s' cy_ok_quiet [OF quiet_schedule_periodic s'(2)] in
            \<open>simp_all add: us Let_def\<close>)
    qed
  qed
  show thesis
    by (rule that [OF _ cy_ok_quiet [OF quiet_resync m(2)]]) (simp_all only: on_gossip_known_topic_def m and_then.simps next_quiet)
qed

lemma unknown_ok:
  assumes "cy_ok s"
  obtains s' where "on_gossip_unknown_topic p hash ev l now s = Inr s'" "cy_ok s'" "cy_next s' = cy_next s"
proof -
  obtain sid where sid: "compute_subject_id hash ev (cy_modulus s) = Inr sid" using compute_ok [OF assms] .
  show thesis
  proof (cases "cy_by_sid s sid")
    case None
    then show thesis using that assms sid by (simp add: on_gossip_unknown_topic_def)
  next
    case (Some a)
    then have a: "a < cy_next s" using assms by (auto simp: cy_ok_def ran_def)
    show thesis
    proof (cases "left_wins (cy_topic s a) now l hash")
      case True
      show thesis
        by (rule that [of "schedule_urgent p a s"])
          (use True Some sid cy_ok_quiet [OF quiet_schedule_urgent assms] in
            \<open>simp_all add: on_gossip_unknown_topic_def\<close>)
    next
      case False
      obtain s' where "topic_allocate p a (t_evictions (cy_topic s a) + 1) now s = Inr s'" "cy_ok s'" "cy_next s' = cy_next s"
        using allocate_ok [OF assms a] .
      then show thesis using that False Some sid by (simp add: on_gossip_unknown_topic_def)
    qed
  qed
qed

text \<open>A new topic under its name and hash.\<close>

lemma new_topic_ok:
  assumes "is_valid_subject_id_modulus m"
  obtains r where "new_topic h name m pin = Inr r"
proof -
  show thesis
  proof (cases "normalize_name name")
    case None
    then show thesis using that by (simp add: new_topic_def)
  next
    case (Some n)
    obtain sid where "compute_subject_id (h n) 0 m = Inr sid" using compute_subject_id_probe [OF assms] by metis
    then show thesis using that Some by (cases "name = []"; cases "pin \<le> pinned_max16") (simp_all add: new_topic_def Let_def)
  qed
qed

lemma set_origin_hash [simp]: "t_hash (set_origin_at t now l ev) = t_hash t"
  by (simp add: set_origin_at_def Let_def)

lemma cy_ok_new:
  assumes "cy_ok s" "new_object t s = (a, s1)" "s2 = upd_topic a f (index_topic name a s1)" "\<And>t. t_hash (f t) = t_hash t"
  shows "cy_ok s2" "a < cy_next s2"
proof -
  have s1: "a = cy_next s" "s1 = s\<lparr>cy_topic := (cy_topic s)(cy_next s := t), cy_next := cy_next s + 1\<rparr>"
    using assms(2) by (auto simp: new_object_def)
  have old: "b < cy_next s" if "cy_by_sid s sid = Some b" for sid b using assms(1) that by (auto simp: cy_ok_def ran_def)
  moreover have "b < cy_next s" if "cy_by_hash s hash = Some b" for hash b using assms(1) that by (auto simp: cy_ok_def ran_def)
  then have "t_hash (cy_topic s2 b) = hash" if "cy_by_hash s2 hash = Some b" for hash b
    using that assms(1, 4) by (fastforce simp: assms(3) s1 cy_ok_def upd_topic_def index_topic_def split: if_splits)
  moreover from old have "idx_sound s2" using assms(1) by (fastforce simp: assms(3) s1 cy_ok_def idx_sound_def upd_topic_def index_topic_def)
  moreover have "snd ` set (AList.update name a xs) \<subseteq> insert a (snd ` set xs)" for xs :: "(string \<times> nat) list"
    by (induction xs) auto
  then have "snd ` set (AList.update name (cy_next s) (cy_by_name s)) \<subseteq> {..<Suc (cy_next s)}"
    using assms(1) s1(1) by (fastforce simp: cy_ok_def)
  moreover have "ran ((cy_by_hash s)(x \<mapsto> cy_next s)) \<subseteq> {..<Suc (cy_next s)}" for x
    using ran_upd_subset [of "cy_by_hash s" x "Some (cy_next s)"] assms(1) by (fastforce simp: cy_ok_def)
  moreover have "ran (cy_by_sid s) \<subseteq> {..<Suc (cy_next s)}" using assms(1) by (fastforce simp: cy_ok_def)
  ultimately show "cy_ok s2" "a < cy_next s2"
    using assms(1) by (simp_all add: assms(3) s1 cy_ok_def upd_topic_def index_topic_def)
qed

lemma subscribe_matching_ok:
  assumes "cy_ok s"
  obtains s' m where "topic_subscribe_if_matching h p name hash ev l now s = Inr (s', m)" "cy_ok s'" "\<And>a. m = Some a \<Longrightarrow> a < cy_next s'"
proof (cases "normalize_name name = None \<or> \<not> name_is_verbatim name \<or> matched_subscribers (cy_patterns s) name = []")
  case True
  show thesis by (rule that [of s None]) (use True assms in \<open>auto simp: topic_subscribe_if_matching_def\<close>)
next
  case go: False
  show thesis
  proof (cases "map_of (cy_by_name s) name")
    case (Some a)
    then have "a < cy_next s" using assms by (auto simp: cy_ok_def dest!: map_of_SomeD)
    then show thesis using that [of s "Some a"] go Some assms by (simp add: topic_subscribe_if_matching_def)
  next
    case None
    obtain r where r: "new_topic h name (cy_modulus s) PinNone = Inr r"
      using new_topic_ok assms by (metis cy_ok_def)
    show thesis
    proof (cases r)
      case (Inl e)
      show thesis by (rule that [of s None]) (use go None r Inl assms in \<open>simp_all add: topic_subscribe_if_matching_def\<close>)
    next
      case (Inr t)
      obtain a s1 where n: "new_object (t\<lparr>t_extent := default_topic_extent\<rparr>) s = (a, s1)" by fastforce
      define s2 where "s2 = upd_topic a (\<lambda>t. set_origin_at t now l ev) (index_topic name a s1)"
      define s3 where "s3 = s2\<lparr>cy_crdt := fst (crdt_add_topic (cy_crdt s2) name (t_hash t))\<rparr>"
      have s2: "cy_ok s2" "a < cy_next s2" using cy_ok_new [OF assms n s2_def] by simp_all
      then have s3: "cy_ok s3" "a < cy_next s3" by (simp_all add: s3_def cy_ok_def idx_sound_def)
      obtain s4 where s4: "topic_allocate p a ev now s3 = Inr s4" "cy_ok s4" "cy_next s4 = cy_next s3" using allocate_ok [OF s3] .
      have "topic_subscribe_if_matching h p name hash ev l now s = Inr (schedule_urgent p a s4, Some a)"
        using go None r Inr n s4(1) by (simp add: topic_subscribe_if_matching_def Let_def s2_def [symmetric] s3_def)
      moreover have "cy_ok (schedule_urgent p a s4)" using cy_ok_quiet [OF quiet_schedule_urgent s4(2)] .
      moreover have "a < cy_next (schedule_urgent p a s4)" using quiet_schedule_urgent [of a s4 p] s4(3) s3(2) by (simp add: quiet_def)
      ultimately show thesis using that by blast
    qed
  qed
qed

lemma process_gossip_ok:
  assumes "cy_ok s"
  obtains s' where "process_gossip h p l hash ev name scope now s = Inr s'" "cy_ok s'"
proof (cases "l < LAGEMin \<or> l > LAGEMax")
  case True
  then show thesis using that assms by (simp add: process_gossip_def)
next
  case False
  obtain s1 m where m: "(case cy_by_hash s hash of
         Some a \<Rightarrow> Inr (s, Some a)
       | None \<Rightarrow>
           if name \<noteq> [] \<and> (scope = GossipBroadcast \<or> scope = GossipUnicast)
           then topic_subscribe_if_matching h p name hash (ucast ev) l now s else Inr (s, None)) = Inr (s1, m)"
    "cy_ok s1" "\<And>a. m = Some a \<Longrightarrow> a < cy_next s1"
  proof (cases "cy_by_hash s hash")
    case (Some a)
    then have "a < cy_next s" using assms by (auto simp: cy_ok_def ran_def)
    then show thesis using that [of s "Some a"] Some assms by simp
  next
    case None
    obtain s' m' where "topic_subscribe_if_matching h p name hash (ucast ev) l now s = Inr (s', m')" "cy_ok s'"
      "\<And>a. m' = Some a \<Longrightarrow> a < cy_next s'" using subscribe_matching_ok [OF assms, of h p name hash "ucast ev" l now] by blast
    then show thesis using that [of s' m'] that [of s None] None assms
      by (cases "name \<noteq> [] \<and> (scope = GossipBroadcast \<or> scope = GossipUnicast)") auto
  qed
  have e: "process_gossip h p l hash ev name scope now s =
      (case m of Some a \<Rightarrow> on_gossip_known_topic p a (ucast ev) l scope now s1 | None \<Rightarrow> on_gossip_unknown_topic p hash (ucast ev) l now s1)"
    using False m(1) by (simp add: process_gossip_def on_gossip_def)
  show thesis
  proof (cases m)
    case None
    obtain s' where "on_gossip_unknown_topic p hash (ucast ev) l now s1 = Inr s'" "cy_ok s'" using unknown_ok [OF m(2)] .
    then show thesis using that e None by simp
  next
    case (Some a)
    obtain s' where "on_gossip_known_topic p a (ucast ev) l scope now s1 = Inr s'" "cy_ok s'"
      using known_ok [OF m(2) m(3) [OF Some]] .
    then show thesis using that e Some by simp
  qed
qed

subsection \<open>Topics of the application\<close>

lemma find_or_create_ok:
  assumes "cy_ok s"
  obtains r where "find_or_create_topic_resolved h p n extent s = Inr r" "\<And>s' a. r = Inr (s', a) \<Longrightarrow> cy_ok s' \<and> a < cy_next s'"
proof (cases "map_of (cy_by_name s) (res_name n)")
  case (Some a)
  then have "a < cy_next s" using assms by (auto simp: cy_ok_def dest!: map_of_SomeD)
  then show thesis using that [of "Inr (s, a)"] Some assms by (simp add: find_or_create_topic_resolved_def)
next
  case None
  obtain r where r: "new_topic h (res_name n) (cy_modulus s) (res_pin n) = Inr r" using new_topic_ok assms by (metis cy_ok_def)
  show thesis
  proof (cases r)
    case (Inl e)
    then show thesis using that [of "Inl e"] None r by (simp add: find_or_create_topic_resolved_def)
  next
    case (Inr t0)
    obtain c st where c: "crdt_add_topic (cy_crdt s) (res_name n) (t_hash (t0\<lparr>t_extent := extent\<rparr>)) = (c, st)" by fastforce
    define t1 where "t1 = (let t = t0\<lparr>t_extent := extent\<rparr> in if \<not> t_pinned t then t\<lparr>t_evictions := ts_evictions st\<rparr>
      else t\<lparr>t_evictions := NOT (t_pinned_sid t)\<rparr>)"
    define now where "now = cp_now p (cy_env s)"
    define t2 where "t2 = set_origin_at t1 now (ts_log_age st) (t_evictions t1)"
    obtain a s1 where n: "new_object t2 (s\<lparr>cy_crdt := c\<rparr>) = (a, s1)" by fastforce
    have "cy_ok (s\<lparr>cy_crdt := c\<rparr>)" using assms by (simp add: cy_ok_def idx_sound_def)
    from cy_ok_new [OF this n, of "index_topic (res_name n) a s1" "\<lambda>t. t" "res_name n"]
    have s2: "cy_ok (index_topic (res_name n) a s1)" "a < cy_next (index_topic (res_name n) a s1)" by (simp_all add: upd_topic_def)
    obtain s3 where s3: "topic_allocate p a (t_evictions t2) now (index_topic (res_name n) a s1) = Inr s3" "cy_ok s3"
      "cy_next s3 = cy_next (index_topic (res_name n) a s1)" using allocate_ok [OF s2] .
    have "find_or_create_topic_resolved h p n extent s = Inr (Inr (schedule_urgent p a s3, a))"
      using None r Inr c n s3(1) by (simp add: find_or_create_topic_resolved_def Let_def t1_def t2_def now_def)
    moreover have "cy_ok (schedule_urgent p a s3)" using cy_ok_quiet [OF quiet_schedule_urgent s3(2)] .
    ultimately show thesis using that s2(2) s3(3) by fastforce
  qed
qed

subsection \<open>Reading a message\<close>

lemma read_total: obtains r where "message_read m 0 siz dest = Inr r"
  by (cases "message_read m 0 siz dest") (auto simp: message_read_def go_slice_def Let_def split: if_splits)

lemma payload_total:
  assumes "int header_size \<le> message_size m"
  obtains b where "message_payload (message_skip m (int header_size)) = Inr b"
  using assms by (cases "message_payload (message_skip m (int header_size))")
    (auto simp: message_payload_def message_skip_def message_size_def go_slice_def Let_def split: if_splits)

subsection \<open>The node\<close>

lemma set_dedup_ok [simp]: "cy_ok (nd_cy nd) \<Longrightarrow> cy_ok (nd_cy (set_dedup a dm nd))"
  by (simp add: set_dedup_def with_cy_def cy_ok_upd alloc_fields_def)

lemma deliver_topic_ok:
  assumes "cy_ok (nd_cy nd)" shows "cy_ok (nd_cy (fst (deliver_topic a m lane tag reliable now nd)))"
  using assms by (auto simp: deliver_topic_def Let_def case_prod_unfold deliver_fold_cy split: option.split)

lemma fold_cy: "(\<And>x nd. nd_cy (f x nd) = nd_cy nd) \<Longrightarrow> nd_cy (fold f xs nd) = nd_cy nd"
  by (induction xs arbitrary: nd) auto

lemma on_scout_cy [simp]: "nd_cy (on_scout p pattern lane nd) = nd_cy nd"
  unfolding on_scout_def by (rule fold_cy) (simp add: send_gossip_unicast_def Let_def split: prod.split)

text \<open>A data frame is dropped, or handled by the topic of its hash, or compared with the topic that uses its subject.\<close>

lemma data_frame_cases:
  assumes "cy_ok (nd_cy nd)"
  shows "handle_data_frame p lane sid hdr m reliable nd = Inr nd \<or> handle_data_frame p lane sid hdr m reliable nd =
    (case cy_by_hash (nd_cy nd) (le_word (slice 8 16 hdr)) of
       Some topic \<Rightarrow>
         and_then (on_gossip_known_topic p topic (le_word (slice 4 8 hdr)) (sint (hdr ! 3)) GossipInline (mts_timestamp m) (nd_cy nd))
           (\<lambda>s. let (nd, k) = deliver_topic topic m lane (le_word (slice 16 24 hdr)) reliable (mts_timestamp m) (nd\<lparr>nd_cy := s\<rparr>)
              in Inr (if reliable \<and> k
                then send_ack lane (t_hash (cy_topic (nd_cy nd) topic)) (le_word (slice 16 24 hdr)) (mts_timestamp m) nd else nd))
     | None \<Rightarrow> and_then (on_gossip_unknown_topic p (le_word (slice 8 16 hdr)) (le_word (slice 4 8 hdr)) (sint (hdr ! 3)) (mts_timestamp m) (nd_cy nd))
         (\<lambda>s. Inr (nd\<lparr>nd_cy := s\<rparr>)))"
proof -
  obtain c where c: "compute_subject_id (le_word (slice 8 16 hdr)) (le_word (slice 4 8 hdr)) (cy_modulus (nd_cy nd)) = Inr c"
    using compute_ok [OF assms] .
  show ?thesis
  proof (cases "sid = cy_broadcast (nd_cy nd) \<or> sid \<le> cy_subject_id_max (cy_modulus (nd_cy nd)) \<and> c \<noteq> sid")
    case True
    then have "handle_data_frame p lane sid hdr m reliable nd = Inr nd" using c by (auto simp: handle_data_frame_def Let_def)
    then show ?thesis ..
  next
    case False
    then show ?thesis by (intro disjI2) (auto simp: handle_data_frame_def c Let_def split: option.split)
  qed
qed

lemma data_frame_ok:
  assumes "cy_ok (nd_cy nd)"
  obtains nd' where "handle_data_frame p lane sid hdr m reliable nd = Inr nd'" "cy_ok (nd_cy nd')"
proof -
  let ?hash = "le_word (slice 8 16 hdr) :: u64" and ?ev = "le_word (slice 4 8 hdr) :: u32"
  let ?now = "mts_timestamp m" and ?r = "handle_data_frame p lane sid hdr m reliable nd"
  have "\<exists>nd'. ?r = Inr nd' \<and> cy_ok (nd_cy nd')"
  proof (cases "?r = Inr nd")
    case True
    then show ?thesis using assms by simp
  next
    case False
    show ?thesis
    proof (cases "cy_by_hash (nd_cy nd) ?hash")
      case None
      obtain su where "on_gossip_unknown_topic p ?hash ?ev (sint (hdr ! 3)) ?now (nd_cy nd) = Inr su" "cy_ok su" using unknown_ok [OF assms] .
      with None show ?thesis using data_frame_cases [OF assms, of p lane sid hdr m reliable] False by simp
    next
      case (Some a)
      then have "a < cy_next (nd_cy nd)" using assms by (auto simp: cy_ok_def ran_def)
      then obtain s where s: "on_gossip_known_topic p a ?ev (sint (hdr ! 3)) GossipInline ?now (nd_cy nd) = Inr s" "cy_ok s"
        using known_ok [OF assms] by blast
      obtain nd' k where d: "deliver_topic a m lane (le_word (slice 16 24 hdr)) reliable ?now (nd\<lparr>nd_cy := s\<rparr>) = (nd', k)" by fastforce
      have "cy_ok (nd_cy nd')" using deliver_topic_ok [of "nd\<lparr>nd_cy := s\<rparr>" a m lane "le_word (slice 16 24 hdr)" reliable ?now] s(2) d by simp
      then show ?thesis using data_frame_cases [OF assms, of p lane sid hdr m reliable] False s(1) d Some
        by (simp add: send_ack_def Let_def)
    qed
  qed
  then show thesis using that by blast
qed

lemma gossip_frame_ok:
  assumes "cy_ok (nd_cy nd)" "message_payload content = Inr b"
  obtains nd' where "handle_gossip_frame h p sid hdr m content nd = Inr nd'" "cy_ok (nd_cy nd')"
proof -
  let ?scope = "if sid = cy_broadcast (nd_cy nd) then GossipBroadcast else GossipSharded"
  obtain s where s: "process_gossip h p (sint (hdr ! 3)) (le_word (slice 8 16 hdr)) (ucast (le_word (slice 16 20 hdr) :: u32)) (string_of_bytes b)
      ?scope (mts_timestamp m) (nd_cy nd) = Inr s" "cy_ok s" using process_gossip_ok [OF assms(1)] .
  show thesis
  proof (cases "sid \<noteq> cy_broadcast (nd_cy nd) \<and> sid \<le> cy_subject_id_max (cy_modulus (nd_cy nd))")
    case True
    then show thesis using that assms by (simp add: handle_gossip_frame_def)
  next
    case False
    then have "handle_gossip_frame h p sid hdr m content nd = Inr (nd\<lparr>nd_cy := s\<rparr>)"
      unfolding handle_gossip_frame_def Let_def using assms(2) s(1) by (simp only: if_False and_then.simps)
    then show thesis using that s(2) by simp
  qed
qed

lemma multicast_ok:
  assumes "cy_ok (nd_cy nd)"
  obtains nd' where "handle_multicast h p lane sid m nd = Inr nd'" "cy_ok (nd_cy nd')"
proof (cases "mts_content m")
  case None
  then show thesis using that assms by (simp add: handle_multicast_def)
next
  case (Some content)
  obtain n hdr where r: "message_read content 0 (int header_size) (replicate header_size 0) = Inr (n, hdr)"
    using read_total by (metis prod.exhaust)
  let ?c = "message_skip content (int header_size)"
  let ?m = "m\<lparr>mts_content := Some ?c\<rparr>"
  show thesis
  proof (cases "message_size content < int header_size \<or> n \<noteq> int header_size")
    case True
    then show thesis using that [of nd] Some r assms by (auto simp: handle_multicast_def)
  next
    case False
    then obtain b where b: "message_payload ?c = Inr b" using payload_total by (metis not_less)
    obtain n1 where n1: "handle_data_frame p lane sid hdr ?m (hdr ! 0 = type_byte HeaderTypeMsgRel) nd = Inr n1" "cy_ok (nd_cy n1)"
      using data_frame_ok [OF assms] .
    obtain n2 where n2: "handle_gossip_frame h p sid hdr ?m ?c nd = Inr n2" "cy_ok (nd_cy n2)" using gossip_frame_ok [OF assms b] .
    let ?t = "hdr ! 0"
    have e: "handle_multicast h p lane sid m nd =
        (if ?t = type_byte HeaderTypeMsgBE \<or> ?t = type_byte HeaderTypeMsgRel
         then handle_data_frame p lane sid hdr ?m (?t = type_byte HeaderTypeMsgRel) nd
         else if ?t = type_byte HeaderTypeGossip then handle_gossip_frame h p sid hdr ?m ?c nd
         else if ?t = type_byte HeaderTypeScout
         then Inr (if string_of_bytes b \<noteq> [] then on_scout p (string_of_bytes b) lane nd else nd) else Inr nd)"
      using False Some r b by (simp add: handle_multicast_def Let_def)
    have n3: "cy_ok (nd_cy (if string_of_bytes b \<noteq> [] then on_scout p (string_of_bytes b) lane nd else nd))" using assms by simp
    show thesis
      using that [of n1] that [of n2] that [OF _ n3] that [OF _ assms] n1 n2 e by metis
  qed
qed

subsection \<open>The instance\<close>

abbreviation in_cy :: "'e cy_instance \<Rightarrow> 'e cy" where "in_cy i \<equiv> nd_cy (in_node i)"

lemma cy_ok_env [simp]: "cy_ok (s\<lparr>cy_env := e\<rparr>) \<longleftrightarrow> cy_ok s"
  by (simp add: cy_ok_def idx_sound_def)

lemma cy_ok_patterns [simp]: "cy_ok (s\<lparr>cy_patterns := m\<rparr>) \<longleftrightarrow> cy_ok s"
  by (simp add: cy_ok_def idx_sound_def)

lemma set_env_ok [simp]: "cy_ok (in_cy (set_env e i)) \<longleftrightarrow> cy_ok (in_cy i)"
  by (simp add: set_env_def with_cy_def)

lemma with_rpc_ok [simp]: "cy_ok (in_cy (with_rpc f i)) \<longleftrightarrow> cy_ok (in_cy i)"
  by (simp add: with_rpc_def Let_def set_env_def with_cy_def)

lemma fold_keeps: "(\<And>x i. P (f x i) = P i) \<Longrightarrow> P (fold f xs i) = P i"
  by (induction xs arbitrary: i) simp_all

lemma flush_ok [simp]: "cy_ok (in_cy (flush_unicast p n i)) \<longleftrightarrow> cy_ok (in_cy i)"
  unfolding flush_unicast_def by (rule fold_keeps [where P = "\<lambda>i. cy_ok (in_cy i)"]) (simp add: case_prod_unfold)

lemma ack_message_ok [simp]: "cy_ok (in_cy (handle_ack_message lane hash tag positive i)) \<longleftrightarrow> cy_ok (in_cy i)"
  by (simp add: handle_ack_message_def split: option.split)

lemma unicast_ok:
  assumes "cy_ok (in_cy i)"
  obtains i' where "handle_unicast h p lane m i = Inr i'" "cy_ok (in_cy i')"
proof (cases "mts_content m")
  case None
  then show thesis using that assms by (simp add: handle_unicast_def)
next
  case (Some content)
  obtain n hdr where r: "message_read content 0 (int header_size) (replicate header_size 0) = Inr (n, hdr)"
    using read_total by (metis prod.exhaust)
  let ?c = "message_skip content (int header_size)"
  let ?m = "m\<lparr>mts_content := Some ?c\<rparr>"
  show thesis
  proof (cases "message_size content < int header_size \<or> n \<noteq> int header_size")
    case True
    then show thesis using that [of i] Some r assms by (auto simp: handle_unicast_def)
  next
    case False
    then obtain b where b: "message_payload ?c = Inr b" using payload_total by (metis not_less)
    obtain s where s: "process_gossip h (cy_side p) (sint (hdr ! 3)) (le_word (slice 8 16 hdr)) (ucast (le_word (slice 16 20 hdr) :: u32))
        (string_of_bytes b) GossipUnicast (mts_timestamp ?m) (in_cy i) = Inr s" "cy_ok s" using process_gossip_ok [OF assms] .
    have ws: "cy_ok (in_cy (with_state (\<lambda>_. s) i))" using s(2) by (simp add: with_state_def with_cy_def)
    let ?t = "hdr ! 0"
    have e: "handle_unicast h p lane m i =
        (if ?t = type_byte HeaderTypeMsgAck \<or> ?t = type_byte HeaderTypeMsgNack
         then Inr (handle_ack_message lane (le_word (slice 8 16 hdr)) (le_word (slice 16 24 hdr)) (?t = type_byte HeaderTypeMsgAck) i)
         else if ?t = type_byte HeaderTypeRspBE \<or> ?t = type_byte HeaderTypeRspRel
         then Inr (with_rpc (handle_response_frame (rpc_side p) lane hdr ?m) i)
         else if ?t = type_byte HeaderTypeRspAck \<or> ?t = type_byte HeaderTypeRspNack
         then Inr (with_rpc (handle_response_ack_message lane hdr) i)
         else if ?t = type_byte HeaderTypeGossip then Inr (with_state (\<lambda>_. s) i) else Inr i)"
      using False Some r b s(1) by (simp add: handle_unicast_def Let_def)
    show thesis
    proof (rule that)
      show "handle_unicast h p lane m i = Inr (projr (handle_unicast h p lane m i))" by (simp add: e)
      show "cy_ok (in_cy (projr (handle_unicast h p lane m i)))" using assms ws by (simp add: e)
    qed
  qed
qed

lemma message_ok:
  assumes "cy_ok (in_cy i)"
  obtains i' where "handle_message h p lane sid m i = Inr i'" "cy_ok (in_cy i')"
proof (cases sid)
  case None
  then show thesis using that unicast_ok [OF assms] by (metis handle_message_def option.case(1))
next
  case (Some x)
  obtain nd where "handle_multicast h (cy_side p) lane x m (in_node i) = Inr nd" "cy_ok (nd_cy nd)" using multicast_ok [OF assms] .
  then show thesis using that Some by (simp add: handle_message_def)
qed

lemma subscribe_ok:
  assumes "cy_ok (nd_cy nd)"
  obtains r where "subscribe_locked h p n extent win nd = Inr r" "\<And>nd' sub. r = Inr (nd', sub) \<Longrightarrow> cy_ok (nd_cy nd')"
proof -
  obtain r where r: "find_or_create_topic_resolved h p n extent (nd_cy nd) = Inr r" "\<And>s' a. r = Inr (s', a) \<Longrightarrow> cy_ok s'"
    using find_or_create_ok [OF assms] by metis
  have scout: "cy_ok (nd_cy (fst (send_scout p pattern nd)))" if "cy_ok (nd_cy nd)" for pattern nd
    using that by (simp add: send_scout_def Let_def with_cy_def split: option.split prod.split)
  show thesis
  proof (rule that)
    let ?x = "subscribe_locked h p n extent win nd"
    show "?x = Inr (projr ?x)"
      using r(1) by (cases r) (auto simp: subscribe_locked_def new_sub_object_def Let_def split: prod.split)
    show "cy_ok (nd_cy nd')" if "projr ?x = Inr (nd', sub)" for nd' sub
      using that r assms scout
      by (cases r) (auto simp: subscribe_locked_def new_sub_object_def with_cy_def Let_def split: if_splits)
  qed
qed

lemma apply_remap_node [simp]: "in_node (fold apply_remap rules i) = in_node i"
  by (rule fold_keeps [where P = in_node]) (simp add: apply_remap_def split: sum.split)

lemma init_broadcast_ok:
  "cy_ok s \<Longrightarrow> cy_ok (fst (init_broadcast_subject p s))"
proof -
  assume "cy_ok s"
  then have "cy_ok (s\<lparr>cy_broad_writer := w, cy_env := e\<rparr>)" for w e by (simp add: cy_ok_def idx_sound_def)
  then show ?thesis using \<open>cy_ok s\<close>
    by (auto simp: init_broadcast_subject_def cy_ok_def idx_sound_def Let_def split: prod.split option.split)
qed

lemma new_instance_ok:
  assumes "new_instance p home ns remap env = (e, Inr i)"
  shows "cy_ok (in_cy i)"
proof -
  let ?e = "ip_set_unicast_extent p (int header_size + 100) env"
  define m where "m = (let m = ip_modulus p env in if m = 0 \<or> \<not> is_valid_subject_id_modulus m then subject_id_modulus_16bit else m)"
  note m = m_def [unfolded Let_def, symmetric]
  have "is_valid_subject_id_modulus m" using default_modulus_valid by (simp add: m_def Let_def)
  then have n: "cy_ok (new_cy_state m e)" for e :: 'a by (simp add: cy_ok_def idx_sound_def new_cy_state_def)
  have i: "in_cy i = fst (init_broadcast_subject p (new_cy_state m ?e))\<lparr>cy_shard_count := gossip_shard_count m\<rparr>"
    using assms unfolding new_instance_def
    by (auto simp: Let_def m with_state_def with_cy_def split: prod.splits option.splits)
  have "cy_ok (fst (init_broadcast_subject p (new_cy_state m ?e)))" by (rule init_broadcast_ok [OF n])
  then show ?thesis by (simp add: i cy_ok_def idx_sound_def)
qed

subsection \<open>Any sequence of operations\<close>

text \<open>
  What may happen to an instance: a message arrives, the application advertises, subscribes or unsubscribes, a gossip that
  a divergence has made urgent is due, or the publishers, the requests and the environment change in any way.
\<close>

datatype 'e instance_op = Arrives lane "u32 option" message_ts | Advertises string | Subscribes string int microsecond
  | Unsubscribes nat | UrgentDue nat | Elsewhere "nat \<Rightarrow> publisher option" "'e rpc" 'e

fun instance_do :: "(string \<Rightarrow> u64) \<Rightarrow> ('e, 'x) instance_platform_scheme \<Rightarrow> 'e instance_op \<Rightarrow> 'e cy_instance \<Rightarrow> go_panic + 'e cy_instance" where
  "instance_do h p (Arrives lane sid m) i = handle_message h p lane sid m i"
| "instance_do h p (Advertises name) i =
    and_then (advertise h p name i) (\<lambda>r. Inr (case r of Inl _ \<Rightarrow> i | Inr (i, _) \<Rightarrow> i))"
| "instance_do h p (Subscribes name extent win) i =
    and_then (instance_subscribe h p name extent win i) (\<lambda>r. Inr (case r of Inl _ \<Rightarrow> i | Inr (i, _) \<Rightarrow> i))"
| "instance_do h p (Unsubscribes sub) i = Inr (i\<lparr>in_node := sub_destroy sub (in_node i)\<rparr>)"
| "instance_do h p (UrgentDue a) i =
    and_then (run_task (cy_side p) (UrgentGossip a) (nd_cy (in_node i))) (\<lambda>s. Inr (with_state (\<lambda>_. s) i))"
| "instance_do h p (Elsewhere pubs rpc e) i = Inr (set_env e (i\<lparr>in_pub := pubs, in_rpc := rpc\<rparr>))"

fun instance_run :: "(string \<Rightarrow> u64) \<Rightarrow> ('e, 'x) instance_platform_scheme \<Rightarrow> 'e instance_op list \<Rightarrow> 'e cy_instance \<Rightarrow> go_panic + 'e cy_instance" where
  "instance_run h p [] i = Inr i"
| "instance_run h p (op # ops) i = and_then (instance_do h p op i) (instance_run h p ops)"

lemma do_ok:
  assumes "cy_ok (in_cy i)"
  obtains i' where "instance_do h p op i = Inr i'" "cy_ok (in_cy i')"
proof (cases op)
  case (Arrives lane sid m)
  then show thesis using message_ok [OF assms] that by (metis instance_do.simps(1))
next
  case (Advertises name)
  obtain r where r: "find_or_create_topic_resolved h (cy_side p) (name_resolve (in_remap i) name (in_ns i) (in_home i)) default_topic_extent (in_cy i) = Inr r"
    "\<And>s' a. r = Inr (s', a) \<Longrightarrow> cy_ok s'" using find_or_create_ok [OF assms] by metis
  show thesis
  proof (rule that)
    show "instance_do h p op i = Inr (projr (instance_do h p op i))"
      using r(1) by (cases r) (auto simp: Advertises advertise_def find_or_create_topic_def Let_def)
    show "cy_ok (in_cy (projr (instance_do h p op i)))"
      using r assms by (cases r) (auto simp: Advertises advertise_def find_or_create_topic_def with_state_def with_cy_def Let_def split: option.split)
  qed
next
  case (Subscribes name extent win)
  obtain r where r: "subscribe_locked h (cy_side p) (name_resolve (in_remap i) name (in_ns i) (in_home i)) extent win (in_node i) = Inr r"
    "\<And>nd sub. r = Inr (nd, sub) \<Longrightarrow> cy_ok (nd_cy nd)" using subscribe_ok [OF assms] by metis
  show thesis
  proof (rule that)
    show "instance_do h p op i = Inr (projr (instance_do h p op i))" using r(1) by (simp add: Subscribes instance_subscribe_def)
    show "cy_ok (in_cy (projr (instance_do h p op i)))"
      using r assms by (cases r) (auto simp: Subscribes instance_subscribe_def)
  qed
next
  case (Unsubscribes sub)
  have "cy_ok (nd_cy (sub_destroy sub (in_node i)))"
    using assms by (simp add: sub_destroy_def sub_teardown_def with_cy_def Let_def split: option.split)
  then show thesis using that Unsubscribes by simp
next
  case (UrgentDue a)
  obtain s where s: "run_task (cy_side p) (UrgentGossip a) (in_cy i) = Inr s" "cy_ok s"
  proof -
    have "\<exists>s. run_task (cy_side p) (UrgentGossip a) (in_cy i) = Inr s \<and> cy_ok s"
      using assms by (auto simp: send_gossip_def gossip_writer_def Let_def split: option.split prod.split)
    then show thesis using that by blast
  qed
  then show thesis using that [of "with_state (\<lambda>_. s) i"] UrgentDue by (simp add: with_state_def with_cy_def)
next
  case (Elsewhere pubs rpc e)
  then show thesis using that assms by simp
qed

text \<open>
  Left out: the periodic gossips, of which the one of the first shard blocks the goroutine (\<open>periodic_gossip_deadlock\<close>), and
  \<open>SetSubjectIDModulus\<close>, which does not keep the invariant (\<open>modulus_breaks_index\<close> below).
\<close>

text \<open>C3: Whatever messages an instance of \<open>NewCy\<close> receives, in any order and with any content, and whatever the application
  advertises, subscribes to, drops, publishes and requests in between, no operation panics, and the topics stay sound: a valid modulus,
  every index entry a topic that exists, each found by its hash and by the subject identifier that its eviction counter gives.\<close>

theorem instance_never_panics:
  assumes "new_instance p home ns remap env = (e, Inr i0)"
  shows "\<exists>i. instance_run h p ops i0 = Inr i \<and> cy_ok (in_cy i)"
proof -
  have "\<exists>i'. instance_run h p ops i = Inr i' \<and> cy_ok (in_cy i')" if "cy_ok (in_cy i)" for i
    using that
  proof (induction ops arbitrary: i)
    case (Cons op ops)
    obtain i1 where i1: "instance_do h p op i = Inr i1" "cy_ok (in_cy i1)" using do_ok [OF Cons.prems] .
    show ?case using Cons.IH [OF i1(2)] i1(1) by simp
  qed simp
  then show ?thesis using new_instance_ok [OF assms] .
qed

subsection \<open>Changing the modulus\<close>

text \<open>The topics that exist keep the subject identifiers of the old modulus, so that the index is not sound any more.\<close>

lemma modulus_breaks_index:
  assumes "idx_sound s" "cy_by_sid s sid = Some a" "is_valid_subject_id_modulus m"
    and "compute_subject_id (t_hash (cy_topic s a)) (t_evictions (cy_topic s a)) m \<noteq> Inr sid"
  shows "\<not> idx_sound (fst (set_subject_id_modulus p m s)) \<and> t_sid (cy_topic (fst (set_subject_id_modulus p m s)) a) = sid"
proof -
  have i: "cy_by_sid (fst (init_broadcast_subject p u)) = cy_by_sid u \<and> cy_topic (fst (init_broadcast_subject p u)) = cy_topic u
      \<and> cy_modulus (fst (init_broadcast_subject p u)) = cy_modulus u" for u :: "'a cy"
    by (simp add: init_broadcast_subject_def Let_def split: prod.split option.split)
  let ?s' = "fst (set_subject_id_modulus p m s)"
  have "cy_by_sid ?s' = cy_by_sid s" "cy_topic ?s' = cy_topic s" "cy_modulus ?s' = m"
    using i assms(3) by (simp_all add: set_subject_id_modulus_def Let_def case_prod_unfold split: option.split)
  then show ?thesis using assms by (auto simp: idx_sound_def)
qed

subsection \<open>An example\<close>

definition demo_instance_platform :: "unit instance_platform" where
  "demo_instance_platform =
    \<lparr>cp_now = (\<lambda>_. 7), cp_new_reader = (\<lambda>_ _ e. (e, True)), cp_destroy_reader = (\<lambda>_ e. e), cp_send = (\<lambda>_ _ _ _ e. (e, None)),
     pp_new_writer = (\<lambda>_ e. (e, None)), pp_destroy_writer = (\<lambda>_ e. e), pp_unicast = (\<lambda>_ _ _ _ e. (e, None)),
     ip_unicast = (\<lambda>_ _ _ e. (e, None)), ip_modulus = (\<lambda>_. 0), ip_set_unicast_extent = (\<lambda>_ e. e), ip_spin = (\<lambda>_ e. (e, [], None))\<rparr>"

definition demo_instance :: "unit cy_instance" where
  "demo_instance = projr (snd (new_instance demo_instance_platform ''h'' ''ns'' ''a=b c=/d'' ()))"

lemma demo_instance_made: "new_instance demo_instance_platform ''h'' ''ns'' ''a=b c=/d'' () = ((), Inr demo_instance)"
  by (simp add: demo_instance_def new_instance_def init_broadcast_subject_def demo_instance_platform_def Let_def split: prod.split)

definition demo_operations :: "unit instance_op list" where
  "demo_operations =
    [Subscribes ''x/*'' 64 (-1), Advertises ''a'',
     Arrives \<lparr>lane_id = 9, lane_priority = 4, lane_ctx = []\<rparr> (Some (cy_broadcast (in_cy demo_instance)))
       \<lparr>mts_timestamp = 9, mts_content = Some (new_message (marshal_gossip_message 0 5 0 ''x/y''))\<rparr>,
     Arrives \<lparr>lane_id = 9, lane_priority = 4, lane_ctx = []\<rparr> None \<lparr>mts_timestamp = 10, mts_content = Some (new_message [8, 1, 2])\<rparr>,
     UrgentDue 0, Unsubscribes 0]"

theorem instance_never_panics_witness:
  "\<exists>i. instance_run (\<lambda>_. 5) demo_instance_platform demo_operations demo_instance = Inr i \<and> cy_ok (in_cy i)"
  using instance_never_panics [OF demo_instance_made] .

end
