(* ===== verification/CyAckSpec.thy ===== *)
theory CyAckSpec
  imports CyInstanceSpec CyUdpSpec
begin

unbundle bit_operations_syntax

text \<open>
  A reliable publication from end to end, through the frames: the message that the publisher's instance sends, the dispatch of the
  reader's instance, the acknowledgement it answers, and the dispatch of the publisher's instance, which completes the future.
\<close>

definition frame_message :: "microsecond \<Rightarrow> bytes \<Rightarrow> message_ts" where
  "frame_message ts data = \<lparr>mts_timestamp = ts, mts_content = Some (new_message data)\<rparr>"

lemma read_frame:
  "message_read (new_message (marshal_binary h @ data)) 0 (int header_size) (replicate header_size 0) = Inr (int header_size, marshal_binary h)"
  "message_size (new_message (marshal_binary h @ data)) = int header_size + int (length data)"
  by (simp_all add: message_read_def new_message_def message_size_def go_slice_def go_copy_def header_size_def Let_def)

lemma header_slices:
  "marshal_binary h ! 0 = h_type h" "le_word (slice 8 16 (marshal_binary h)) = h_hash h" "le_word (slice 16 24 (marshal_binary h)) = h_tag h"
  "le_word (slice 4 8 (marshal_binary h)) = h_evictions h"
proof -
  have "slice 8 16 (([h_type h, h_reserved h, h_incompat h, h_lage h] @ put_u32 (h_evictions h)) @ put_u64 (h_hash h) @ put_u64 (h_tag h)) = put_u64 (h_hash h)"
    by (rule slice_append) simp_all
  moreover have "slice 16 24 (([h_type h, h_reserved h, h_incompat h, h_lage h] @ put_u32 (h_evictions h) @ put_u64 (h_hash h)) @ put_u64 (h_tag h) @ []) = put_u64 (h_tag h)"
    by (rule slice_append) simp_all
  moreover have "slice 4 8 ([h_type h, h_reserved h, h_incompat h, h_lage h] @ put_u32 (h_evictions h) @ put_u64 (h_hash h) @ put_u64 (h_tag h)) = put_u32 (h_evictions h)"
    by (rule slice_append) simp_all
  ultimately show "marshal_binary h ! 0 = h_type h" "le_word (slice 8 16 (marshal_binary h)) = h_hash h"
    "le_word (slice 16 24 (marshal_binary h)) = h_tag h" "le_word (slice 4 8 (marshal_binary h)) = h_evictions h"
    by (simp_all add: marshal_binary_layout)
qed

subsection \<open>What the reader answers\<close>

lemma hash_quiet [simp]:
  "t_hash (cy_topic (schedule_periodic p a f s) b) = t_hash (cy_topic s b)" "t_hash (cy_topic (schedule_urgent p a s) b) = t_hash (cy_topic s b)"
  "t_hash (cy_topic (resync_topic_reader p a s) b) = t_hash (cy_topic s b)"
  using quiet_keeps [OF quiet_schedule_periodic [where p = p and a = a and b = f and s = s]] quiet_keeps [OF quiet_schedule_urgent [where p = p and a = a and s = s]]
    quiet_keeps [OF quiet_resync [where p = p and a = a and s = s]] by (simp_all add: keeps_def same_identity_def)

lemma allocate_hash:
  assumes "cy_ok s" "topic_allocate p a ev now s = Inr s'"
  shows "t_hash (cy_topic s' b) = t_hash (cy_topic s b)"
proof -
  have v: "is_valid_subject_id_modulus (cy_modulus s)" "idx_sound s" using assms by (simp_all add: cy_ok_def)
  have "alloc_post s a now s'" using allocate_spec [OF v, of p a ev now] assms(2) by auto
  then show ?thesis by (simp add: alloc_post_def keeps_def same_identity_def)
qed

lemma known_hash:
  assumes "cy_ok s" "on_gossip_known_topic p a ev l scope now s = Inr s'"
  shows "t_hash (cy_topic s' b) = t_hash (cy_topic s b)"
proof -
  let ?u = "upd_topic a (\<lambda>_. merge_lage_at (cy_topic s a) now l) s"
  have u: "cy_ok ?u" using cy_ok_merge [OF assms(1)] .
  have h: "t_hash (cy_topic ?u b) = t_hash (cy_topic s b)" by (simp add: upd_topic_def)
  show ?thesis using assms(2) h allocate_hash [OF u]
    by (auto simp: on_gossip_known_topic_def and_then_Inr_iff update_state_def Let_def upd_topic_def split: if_splits)
qed

lemma fold_unicast: "nd_unicast (fst (fold (deliver_to m lane tag th now) subs st)) = nd_unicast (fst st)"
  by (rule fold_keeps [where P = "\<lambda>st. nd_unicast (fst st)"]) (simp add: deliver_to_def case_prod_unfold Let_def)

lemma deliver_unicast: "nd_unicast (fst (deliver_topic a m lane tag reliable now nd)) = nd_unicast nd"
  by (simp add: deliver_topic_def Let_def case_prod_unfold fold_unicast set_dedup_def with_cy_def split: option.split)

lemma deliver_hash: "t_hash (cy_topic (nd_cy (fst (deliver_topic a m lane tag reliable now nd))) b) = t_hash (cy_topic (nd_cy nd) b)"
  by (simp add: deliver_topic_def Let_def case_prod_unfold deliver_fold_cy set_dedup_def with_cy_def upd_topic_def split: option.split)

lemma reader_answers:
  assumes "cy_ok (nd_cy nd)" "handle_data_frame p lane sid hdr m reliable nd = Inr nd'" "nd_unicast nd' \<noteq> nd_unicast nd"
  shows "\<exists>d. nd_unicast nd' = nd_unicast nd @ [(\<lparr>lane_id = lane_id lane, lane_priority = nominal_priority, lane_ctx = replicate 24 0\<rparr>, d,
    marshal_binary (new_ack_header True (le_word (slice 8 16 hdr)) (le_word (slice 16 24 hdr))))]"
proof -
  let ?hash = "le_word (slice 8 16 hdr) :: u64" and ?ev = "le_word (slice 4 8 hdr) :: u32"
  have other: "handle_data_frame p lane sid hdr m reliable nd \<noteq> Inr nd" using assms(2, 3) by auto
  obtain a s where a: "cy_by_hash (nd_cy nd) ?hash = Some a"
    "on_gossip_known_topic p a ?ev (sint (hdr ! 3)) GossipInline (mts_timestamp m) (nd_cy nd) = Inr s"
    "nd' = (let (nd, k) = deliver_topic a m lane (le_word (slice 16 24 hdr)) reliable (mts_timestamp m) (nd\<lparr>nd_cy := s\<rparr>)
      in if reliable \<and> k then send_ack lane (t_hash (cy_topic (nd_cy nd) a)) (le_word (slice 16 24 hdr)) (mts_timestamp m) nd else nd)"
  proof (cases "cy_by_hash (nd_cy nd) ?hash")
    case None
    then have "and_then (on_gossip_unknown_topic p ?hash ?ev (sint (hdr ! 3)) (mts_timestamp m) (nd_cy nd)) (\<lambda>s. Inr (nd\<lparr>nd_cy := s\<rparr>)) = Inr nd'"
      using data_frame_cases [OF assms(1), of p lane sid hdr m reliable] other assms(2) by simp
    with assms(3) show thesis by (auto simp: and_then_Inr_iff)
  next
    case (Some a)
    then have "and_then (on_gossip_known_topic p a ?ev (sint (hdr ! 3)) GossipInline (mts_timestamp m) (nd_cy nd))
       (\<lambda>s. let (nd, k) = deliver_topic a m lane (le_word (slice 16 24 hdr)) reliable (mts_timestamp m) (nd\<lparr>nd_cy := s\<rparr>)
          in Inr (if reliable \<and> k
            then send_ack lane (t_hash (cy_topic (nd_cy nd) a)) (le_word (slice 16 24 hdr)) (mts_timestamp m) nd else nd)) = Inr nd'"
      using data_frame_cases [OF assms(1), of p lane sid hdr m reliable] other assms(2) by simp
    then show thesis using that [OF Some] by (auto simp: and_then_Inr_iff case_prod_unfold Let_def)
  qed
  have "t_hash (cy_topic s a) = le_word (slice 8 16 hdr)" using known_hash [OF assms(1) a(2)] assms(1) a(1) by (simp add: cy_ok_def)
  then show ?thesis using a(3) assms(3)
    deliver_unicast [of a m lane "le_word (slice 16 24 hdr)" reliable "mts_timestamp m" "nd\<lparr>nd_cy := s\<rparr>"]
    deliver_hash [of a m lane "le_word (slice 16 24 hdr)" reliable "mts_timestamp m" "nd\<lparr>nd_cy := s\<rparr>" a]
    by (auto simp: send_ack_def Let_def case_prod_unfold split: if_splits)
qed

subsection \<open>What the publisher receives\<close>

lemma ack_dispatched:
  "handle_unicast h p lane (frame_message ts (marshal_binary (new_ack_header True hash tag))) i = Inr (handle_ack_message lane hash tag True i)"
proof -
  have t: "type_byte HeaderTypeMsgAck \<noteq> type_byte HeaderTypeMsgNack" by simp
  show ?thesis using read_frame [of "new_ack_header True hash tag" "[]"]
    by (simp add: handle_unicast_def frame_message_def header_slices new_ack_header_def new_header_def Let_def)
qed

lemma published_wire:
  assumes "rd_publish p dl data (s, pb) = ((s1, pb1), Inr tag)"
  obtains rm lage ev where "map_of (pb_pending pb1) tag = Some rm"
    "rm_wire rm = marshal_binary (new_header (type_byte HeaderTypeMsgRel) lage ev (t_hash (cy_topic s (pb_topic pb))) tag) @ data"
  using assms
  by (auto simp: rd_publish_def build_wire_def rd_arm_timeout_def add_task_def Let_def update_conv' prepend_header_eq
      split: prod.splits option.splits if_splits)

text \<open>C4: A reliable publication travels there and its acknowledgement back. The frame that the publisher has sent arrives at a node
  with sound topics on any subject: either the node sends nothing, or it sends exactly one frame, to the publisher; and
  when that frame arrives at the publisher's instance, the future of the publication is known, and is complete with OK if the node
  was the only remote associated, or none was.\<close>

theorem ack_completes_publication:
  assumes sent: "rd_publish p dl data (s, pb) = ((s1, pb1), Inr tag)" "distinct (map fst (pb_associations pb))"
    and frame: "map_of (pb_pending pb1) tag = Some rm"
    and reader: "cy_ok (nd_cy nd)" "handle_multicast h q lane sid (frame_message ts (rm_wire rm)) nd = Inr nd'"
    and answered: "nd_unicast nd' \<noteq> nd_unicast nd"
    and publisher: "cy_by_hash (in_cy i) (t_hash (cy_topic s (pb_topic pb))) = Some a" "in_pub i a = Some pb1"
  shows "\<exists>ack_lane d ack. nd_unicast nd' = nd_unicast nd @ [(ack_lane, d, ack)] \<and> lane_id ack_lane = lane_id lane \<and>
    (\<forall>from ts'. \<exists>i' pb2 f. handle_unicast h p' from (frame_message ts' ack) i = Inr i' \<and> in_pub i' a = Some pb2 \<and> pb_future pb2 tag = Some f \<and>
       (pf_done f \<longleftrightarrow> set (map fst (pb_associations pb)) \<subseteq> {lane_id from}) \<and> (pf_done f \<longrightarrow> pf_err f = OK))"
proof -
  let ?hash = "t_hash (cy_topic s (pb_topic pb))" and ?known = "set (map fst (pb_associations pb))"
  obtain lage ev where w: "rm_wire rm = marshal_binary (new_header (type_byte HeaderTypeMsgRel) lage ev ?hash tag) @ data"
    using published_wire [OF sent(1)] frame by (metis option.inject)
  let ?h = "new_header (type_byte HeaderTypeMsgRel) lage ev ?hash tag"
  obtain m where "handle_data_frame q lane sid (marshal_binary ?h) m True nd = Inr nd'"
    using reader(2) read_frame [of ?h data] by (auto simp: handle_multicast_def frame_message_def w header_slices new_header_def Let_def)
  from reader_answers [OF reader(1) this answered] obtain d where d: "nd_unicast nd' = nd_unicast nd @
      [(\<lparr>lane_id = lane_id lane, lane_priority = nominal_priority, lane_ctx = replicate 24 0\<rparr>, d, marshal_binary (new_ack_header True ?hash tag))]"
    by (auto simp: header_slices new_header_def)
  have acked: "\<exists>f. pb_future (rd_handle_ack r tag pb1) tag = Some f \<and> (pf_done f \<longleftrightarrow> ?known \<subseteq> {r}) \<and> (pf_done f \<longrightarrow> pf_err f = OK)" for r
    using tracks_ack [OF publish_tracks(1) [OF sent], of r] by (auto simp: tracks_def enough_def)
  have "\<exists>i' pb2 f. handle_unicast h p' from (frame_message ts' (marshal_binary (new_ack_header True ?hash tag))) i = Inr i' \<and> in_pub i' a = Some pb2 \<and>
      pb_future pb2 tag = Some f \<and> (pf_done f \<longleftrightarrow> ?known \<subseteq> {lane_id from}) \<and> (pf_done f \<longrightarrow> pf_err f = OK)" for "from" ts'
    using acked [of "lane_id from"] by (simp add: ack_dispatched handle_ack_message_def publisher)
  with d show ?thesis by (intro exI conjI) (assumption, simp, blast)
qed

subsection \<open>The acknowledgement on a UDP network\<close>

text \<open>Without endpoints in the context of the lane, nothing is sent, and success is reported.\<close>

lemma le_word_zeros: "b \<le> 24 \<Longrightarrow> le_word (slice a b (replicate 24 0)) = 0"
proof -
  assume "b \<le> 24"
  then have "slice a b (replicate 24 (0 :: 8 word)) = replicate (b - a) 0" by (simp add: slice_eq min_def)
  moreover have "le_word (replicate n 0) = 0" for n by (induction n) simp_all
  ultimately show ?thesis by simp
qed

lemma udp_unicast_no_context:
  "pl_sent (fst (udp_unicast \<lparr>lane_id = r, lane_priority = prio, lane_ctx = replicate 24 0\<rparr> data P)) = pl_sent P"
  "snd (udp_unicast \<lparr>lane_id = r, lane_priority = prio, lane_ctx = replicate 24 0\<rparr> data P) = (if pl_closed P then ErrArgument else OK)"
proof -
  have e: "\<not> endpoint_valid (decode_endpoints (replicate 24 0) ! k)" if "k < iface_count_max" for k
  proof -
    have "k * 6 + 4 \<le> 24" using that by (simp add: iface_count_max_def)
    then show ?thesis using that by (simp add: decode_endpoints_def endpoint_valid_def le_word_zeros)
  qed
  have skip: "fold (\<lambda>i p. if \<not> endpoint_valid (decode_endpoints (replicate 24 0) ! i) then p else f i p) ks p = p"
    if "set ks \<subseteq> {..<iface_count_max}" for ks f and p :: "'b udp_platform"
    using that by (induction ks arbitrary: p) (simp_all add: e)
  let ?meta = "\<lparr>uh_priority = prio AND 7, uh_transfer_id = pl_unicast_tid P, uh_sender_uid = pl_uid P, uh_offset = 0,
    uh_transfer_size = word_of_nat (length data), uh_prefix_crc = 0\<rparr>"
  let ?P = "P\<lparr>pl_unicast_tid := pl_unicast_tid P + 1\<rparr>"
  have k: "set [0..<min iface_count_max (length (pl_tx_socks ?P))] \<subseteq> {..<iface_count_max}" by auto
  note s = skip [OF k, of "\<lambda>i p. if pl_tx_socks p ! i \<noteq> None
    then send_transfer ?meta data (decode_endpoints (replicate 24 0) ! i) [pl_tx_socks p ! i] p else p" ?P]
  have P: "pl_sent ?P = pl_sent P" by simp
  show "pl_sent (fst (udp_unicast \<lparr>lane_id = r, lane_priority = prio, lane_ctx = replicate 24 0\<rparr> data P)) = pl_sent P"
    "snd (udp_unicast \<lparr>lane_id = r, lane_priority = prio, lane_ctx = replicate 24 0\<rparr> data P) = (if pl_closed P then ErrArgument else OK)"
    by (simp_all only: udp_unicast_def Let_def lane.simps udp_platform.simps s if_distrib [of fst] if_distrib [of snd] if_distrib [of pl_sent]
      P fst_conv snd_conv if_cancel)
qed

text \<open>C40: On a UDP network no reliable publication is ever acknowledged: the frame that a node answers to a data frame has the identifier
  of the publisher but not the context of the lane, in which the UDP platform keeps the endpoints of the peer, so that
  the platform sends no datagram for it, in any state, and reports success.\<close>

theorem acknowledgement_lost_over_udp:
  assumes "cy_ok (nd_cy nd)" "handle_data_frame p lane sid hdr m reliable nd = Inr nd'" "nd_unicast nd' \<noteq> nd_unicast nd"
  shows "\<exists>ack_lane d ack. nd_unicast nd' = nd_unicast nd @ [(ack_lane, d, ack)] \<and>
    (\<forall>P :: 'r udp_platform. pl_sent (fst (udp_unicast ack_lane ack P)) = pl_sent P \<and> snd (udp_unicast ack_lane ack P) = (if pl_closed P then ErrArgument else OK))"
  using reader_answers [OF assms] by (auto simp: udp_unicast_no_context)

subsection \<open>An example\<close>

text \<open>The publisher of \<open>CyReliable\<close> sends to the node of \<open>CyDelivery\<close>, whose answer comes back from the remote 9.\<close>

definition demo_publishing :: "publisher \<Rightarrow> unit cy_instance" where
  "demo_publishing pb =
    \<lparr>in_node = CyDelivery.demo_node, in_rpc = new_rpc (), in_pub = (\<lambda>_. None)(0 \<mapsto> pb), in_retired = [], in_home = ''h'', in_ns = [],
     in_remap = Map.empty, in_unicast_extent = 124, in_started_at = 0, in_attached = True\<rparr>"

definition demo_wire :: bytes where
  "demo_wire = rm_wire (the (map_of (pb_pending (snd (fst (rd_publish CyReliable.demo_platform 1000 [1] (contention, demo_publisher))))) 6))"

lemma demo_wire_eq: "demo_wire = marshal_binary (new_header (type_byte HeaderTypeMsgRel) (word_of_int (topic_lage (contender 5 8206) 7)) 0 5 6) @ [1]"
  by (simp add: demo_wire_def rd_publish_def build_wire_def demo_publisher_def rd_add_association_def new_publisher_def rd_send_def
      CyReliable.demo_platform_def contention_def contender_def rd_arm_timeout_def add_task_def prepend_header_eq Let_def)

lemma demo_answered:
  "\<exists>nd. handle_multicast h idle_platform CyDelivery.demo_lane 8197 (frame_message 9 demo_wire) CyDelivery.demo_node = Inr nd \<and> nd_unicast nd \<noteq> []"
proof -
  let ?hdr = "new_header (type_byte HeaderTypeMsgRel) (word_of_int (topic_lage (contender 5 8206) 7)) 0 5 6"
  let ?m = "(frame_message 9 demo_wire)\<lparr>mts_content := Some (message_skip (new_message demo_wire) (int header_size))\<rparr>"
  define l where "l = sint (marshal_binary ?hdr ! 3)"
  have e: "handle_multicast h idle_platform CyDelivery.demo_lane 8197 (frame_message 9 demo_wire) CyDelivery.demo_node =
      handle_data_frame idle_platform CyDelivery.demo_lane 8197 (marshal_binary ?hdr) ?m True CyDelivery.demo_node"
    using read_frame [of ?hdr "[1]"]
    by (simp add: handle_multicast_def frame_message_def demo_wire_eq header_slices new_header_def Let_def)
  obtain s where s: "on_gossip_known_topic idle_platform 0 0 l GossipInline 9 contention = Inr s" "cy_patterns s = []"
    "t_dedup (cy_topic s 0) = Map.empty"
    by (simp add: on_gossip_known_topic_def contention_def contender_def merge_lage_at_def resync_topic_reader_def drop_reader_def
        upd_topic_def idle_platform_def Let_def)
  obtain n k where d: "deliver_topic 0 ?m CyDelivery.demo_lane 6 True 9 (CyDelivery.demo_node\<lparr>nd_cy := s\<rparr>) = (n, k)" by fastforce
  have subs: "nd_topic_subs (CyDelivery.demo_node\<lparr>nd_cy := s\<rparr>) 0 = [0]" "matched_subscribers (cy_patterns s) x = []" for x
    by (simp_all add: CyDelivery.demo_node_def s matched_subscribers_def)
  have c: "dedup_find_or_create Map.empty (lane_id CyDelivery.demo_lane) 6 9 = ([77 \<mapsto> dedup_new 77 6 9], dedup_new 77 6 9)"
    by (simp add: dedup_find_or_create_def dedup_find_def CyDelivery.demo_lane_def Let_def)
  have new: "\<not> dedup_test (dedup_new 77 6 9) 6" by code_simp
  have one: "snd (deliver_to ?m CyDelivery.demo_lane 6 th 9 0 (set_dedup 0 dm (CyDelivery.demo_node\<lparr>nd_cy := s\<rparr>), False))" for th dm
    by (simp add: deliver_to_def sub_deliver_def sub_notify_def sub_drop_stale_def new_subscriber_def CyDelivery.demo_node_def
        set_dedup_def with_cy_def Let_def word_sle_eq)
  obtain n2 where "deliver_to ?m CyDelivery.demo_lane 6 (t_hash (cy_topic s 0)) 9 0
      (set_dedup 0 [77 \<mapsto> dedup_new 77 6 9] (CyDelivery.demo_node\<lparr>nd_cy := s\<rparr>), False) = (n2, True)"
    using one by (metis prod.collapse)
  then have k: "k" using d c new subs s(3) by (simp add: deliver_topic_def Let_def split: if_splits)
  have "nd_cy CyDelivery.demo_node = contention" by (simp add: CyDelivery.demo_node_def)
  then have "handle_data_frame idle_platform CyDelivery.demo_lane 8197 (marshal_binary ?hdr) ?m True CyDelivery.demo_node =
      Inr (send_ack CyDelivery.demo_lane (t_hash (cy_topic (nd_cy n) 0)) 6 9 n)"
    using s(1) d k contention_sid(1) unfolding l_def
    by (simp add: handle_data_frame_def header_slices new_header_def frame_message_def contention_def cy_subject_id_max_def Let_def)
  then show ?thesis unfolding e by (simp add: send_ack_def)
qed

lemma contention_ok: "cy_ok contention"
proof -
  have "ran (cy_by_sid contention) \<subseteq> {..<cy_next contention}" "ran (cy_by_hash contention) \<subseteq> {..<cy_next contention}"
    by (auto simp: contention_def ran_def split: if_splits)
  then show ?thesis using contention_valid contention_sound by (simp add: cy_ok_def) (auto simp: contention_def contender_def)
qed

theorem ack_completes_publication_witness:
  "\<exists>nd' lane d ack i' pb2 f. handle_multicast (\<lambda>_. 0) idle_platform CyDelivery.demo_lane 8197 (frame_message 9 demo_wire) CyDelivery.demo_node = Inr nd' \<and>
     nd_unicast nd' = [(lane, d, ack)] \<and>
     handle_unicast (\<lambda>_. 0) (undefined :: unit instance_platform) \<lparr>lane_id = 9, lane_priority = 4, lane_ctx = []\<rparr> (frame_message 20 ack)
       (demo_publishing (snd (fst (rd_publish CyReliable.demo_platform 1000 [1] (contention, demo_publisher))))) = Inr i' \<and>
     in_pub i' 0 = Some pb2 \<and> pb_future pb2 6 = Some f \<and> pf_done f \<and> pf_err f = OK"
proof -
  obtain pb1 where pb1: "rd_publish CyReliable.demo_platform 1000 [1] (contention, demo_publisher) = ((contention, pb1), Inr 6)"
    using demo_published by blast
  then obtain rm where rm: "map_of (pb_pending pb1) 6 = Some rm" using published_wire by blast
  have w: "demo_wire = rm_wire rm" by (simp add: demo_wire_def pb1 rm)
  have d: "distinct (map fst (pb_associations demo_publisher))" "set (map fst (pb_associations demo_publisher)) = {9}" "pb_topic demo_publisher = 0"
    by (simp_all add: demo_publisher_def rd_add_association_def new_publisher_def)
  obtain nd' where nd': "handle_multicast (\<lambda>_. 0) idle_platform CyDelivery.demo_lane 8197 (frame_message 9 (rm_wire rm)) CyDelivery.demo_node = Inr nd'"
    "nd_unicast nd' \<noteq> []" using demo_answered unfolding w by blast
  have n: "nd_cy CyDelivery.demo_node = contention" "nd_unicast CyDelivery.demo_node = []" by (simp_all add: CyDelivery.demo_node_def)
  have i: "cy_by_hash (in_cy (demo_publishing pb1)) (t_hash (cy_topic contention (pb_topic demo_publisher))) = Some 0"
    "in_pub (demo_publishing pb1) 0 = Some pb1"
    by (simp_all add: demo_publishing_def n d(3) contention_def contender_def)
  have ok: "cy_ok (nd_cy CyDelivery.demo_node)" and ans: "nd_unicast nd' \<noteq> nd_unicast CyDelivery.demo_node" by (simp_all add: n contention_ok nd'(2))
  from ack_completes_publication [OF pb1 d(1) rm ok nd'(1) ans i, where p' = "undefined :: unit instance_platform"] nd'(1)
  show ?thesis unfolding w pb1 d(2) n(2) by fastforce
qed

lemma demo_frame_answered:
  "\<exists>nd. handle_data_frame idle_platform CyDelivery.demo_lane 8197
     (marshal_binary (new_header (type_byte HeaderTypeMsgRel) (word_of_int (topic_lage (contender 5 8206) 7)) 0 5 6))
     ((frame_message 9 demo_wire)\<lparr>mts_content := Some (message_skip (new_message demo_wire) (int header_size))\<rparr>) True CyDelivery.demo_node = Inr nd \<and>
   nd_unicast nd \<noteq> []"
  using demo_answered read_frame [of "new_header (type_byte HeaderTypeMsgRel) (word_of_int (topic_lage (contender 5 8206) 7)) 0 5 6" "[1]"]
  by (auto simp: handle_multicast_def frame_message_def demo_wire_eq header_slices new_header_def Let_def)

theorem acknowledgement_lost_over_udp_witness:
  "\<exists>nd' ack_lane d ack. handle_data_frame idle_platform CyDelivery.demo_lane 8197
     (marshal_binary (new_header (type_byte HeaderTypeMsgRel) (word_of_int (topic_lage (contender 5 8206) 7)) 0 5 6))
     ((frame_message 9 demo_wire)\<lparr>mts_content := Some (message_skip (new_message demo_wire) (int header_size))\<rparr>) True CyDelivery.demo_node = Inr nd' \<and>
   nd_unicast nd' = [(ack_lane, d, ack)] \<and> pl_sent (fst (udp_unicast ack_lane ack (undefined :: unit udp_platform))) = pl_sent (undefined :: unit udp_platform)"
proof -
  have n: "nd_cy CyDelivery.demo_node = contention" "nd_unicast CyDelivery.demo_node = []" by (simp_all add: CyDelivery.demo_node_def)
  obtain nd' where nd': "handle_data_frame idle_platform CyDelivery.demo_lane 8197
     (marshal_binary (new_header (type_byte HeaderTypeMsgRel) (word_of_int (topic_lage (contender 5 8206) 7)) 0 5 6))
     ((frame_message 9 demo_wire)\<lparr>mts_content := Some (message_skip (new_message demo_wire) (int header_size))\<rparr>) True CyDelivery.demo_node = Inr nd'"
    "nd_unicast nd' \<noteq> []" using demo_frame_answered by blast
  have ok: "cy_ok (nd_cy CyDelivery.demo_node)" and ans: "nd_unicast nd' \<noteq> nd_unicast CyDelivery.demo_node" by (simp_all add: n contention_ok nd'(2))
  from acknowledgement_lost_over_udp [OF ok nd'(1) ans] nd'(1) show ?thesis unfolding n(2) by fastforce
qed

end
