(* ===== verification/Spec2Isabelle.thy ===== *)
theory Spec2Isabelle
  imports CanCrc CanDlc CanBits CanList CavlIndex CanReassembly CanTxSpec CanFilter CanGuarantees CySubject CyMessage CyPattern CyDedup CyReorder CyCrdt CyDelivery CyOlga CyReliable CyUdpSpec CyCanSpec CyRpcSpec CyInstance CyInstanceSpec CyAckSpec
begin

text \<open>
  \<^bold>\<open>libcanard-go, and the cy session layer on top of it.\<close>

  The repository holds two Go programs. The first one, package \<open>libcanard\<close> at the root of the
  repository, is a Cyphal/CAN transport: it cuts transfers into CAN frames, queues and sends
  them, and reassembles transfers from received frames. The second one, \<open>cy/\<close>, is a session
  layer with named topics: it allocates subject identifiers to topics by gossip, delivers messages
  to subscribers, reliably and in order if asked to, and runs on a platform that sends and receives
  messages. This development models the code of both in Isabelle definitions that follow
  the Go functions one by one, and proves what makes them correct.

  \<^bold>\<open>Conventions.\<close> A Go struct is a record, a pointer an address into a heap function of the state
  where aliasing matters and an inlined value where it does not, an integer type a word of the same
  width, \<open>int\<close> the integers or the naturals where the code bounds it. A run-time panic is the left
  value of a sum with \<open>go_panic\<close>, an error return the left value of a sum with the error code. Functions
  the code gets from elsewhere (time, transmission, filters of the controller, the hash function
  \<open>rapidhash\<close>, callbacks of the application) are parameters. Go maps are partial functions, or association
  lists where the code iterates over them.

  \<^bold>\<open>The transport, \<open>src/*.go\<close>.\<close>
  \<^item> \<open>CanPrelude\<close>, \<open>CanTypes\<close>, \<open>CanState\<close>: the shared lemmas, the data types of \<open>types.go\<close>, the state
    of a node (\<open>canard\<close>) with its transfers, queues, subscriptions and sessions.
  \<^item> \<open>CanCrc\<close> (\<open>crc.go\<close>): the table-driven CRC, equal to polynomial division; a one-byte error is detected.
  \<^item> \<open>CanDlc\<close> (\<open>dlc.go\<close>), \<open>CanBits\<close> (\<open>prng.go\<close>), \<open>CanList\<close> (\<open>list.go\<close>, on pointers).
  \<^item> \<open>CavlTree\<close>, \<open>CavlIndex\<close> (\<open>cavl.go\<close>): the ordered index as a tree with the stored heights and balance
    factors, and the locale of its contract with its clients.
  \<^item> \<open>CanTxFrame\<close>, \<open>CanTxQueue\<close>, \<open>CanTxInv\<close>, \<open>CanTxSpec\<close> (\<open>tx.go\<close>): the spooler, which makes exactly the
    frames of a reference definition; the queue with its capacity, expiration and sacrifice; the hand-over in
    order of urgency.
  \<^item> \<open>CanRxParse\<close>, \<open>CanRx\<close>, \<open>CanRxInv\<close>, \<open>CanReassembly\<close> (\<open>rx.go\<close>): parsing, sessions, slots; reception
    never panics, and reassembles what the spooler cut.
  \<^item> \<open>CanFilter\<close> (\<open>rx.go\<close>): acceptance filters that lose no frame for a subscription.
  \<^item> \<open>CanNode\<close>, \<open>CanNodeId\<close>, \<open>CanNodeSpec\<close>, \<open>CanGuarantees\<close> (\<open>canard.go\<close>): the operations of a node, the occupancy
    of node identifiers, the invariants of the whole state under every operation.
  \<^item> \<open>CanIds\<close>, \<open>CanLink\<close>: the identifiers survive the wire, and a published message is delivered end to end.

  \<^bold>\<open>The session layer, \<open>src/cy\<close>.\<close>
  \<^item> \<open>CyTypes\<close>, \<open>CySubject\<close> (\<open>types.go\<close>, \<open>topic.go\<close>): limits, primality, the probing of subject identifiers.
  \<^item> \<open>CyHeader\<close>, \<open>CyMessage\<close> (\<open>header.go\<close>, \<open>message.go\<close>): the wire headers and message views.
  \<^item> \<open>CyName\<close>, \<open>CyNameSpec\<close>, \<open>CyPattern\<close> (\<open>name.go\<close>, \<open>pattern.go\<close>): names, remapping, pins, wildcards.
  \<^item> \<open>CyDedup\<close>, \<open>CyReorder\<close> (\<open>reliable.go\<close>): the window of seen tags, the reordering window.
  \<^item> \<open>CyCrdt\<close> (\<open>crdt.go\<close>): the replicated allocation store, convergent.
  \<^item> \<open>CyAlloc\<close>, \<open>CyAllocSpec\<close>, \<open>CyGossip\<close> (\<open>cy.go\<close>, \<open>topic.go\<close>, \<open>gossip.go\<close>): the arbitration of subject
    identifiers and the reaction to gossip.
  \<^item> \<open>CyNode\<close>, \<open>CyDelivery\<close> (\<open>cy.go\<close>, \<open>subscriber.go\<close>): the dispatch of received frames to subscribers.
  \<^item> \<open>CyTree\<close>, \<open>CyOlga\<close> (\<open>cavl/tree.go\<close>, \<open>olga/scheduler.go\<close>): the AVL tree of the scheduler, and the scheduler.
  \<^item> \<open>CyReliable\<close> (\<open>publisher.go\<close>, \<open>reliable.go\<close>, \<open>future.go\<close>): publishing, acknowledgement, retransmission.

  \<^bold>\<open>The session layer on a network, \<open>src/cy/can\<close>, \<open>src/cy/udp\<close>.\<close>
  \<^item> \<open>CyCan\<close>, \<open>CyCanSpec\<close> (\<open>cy/can/platform.go\<close>): the platform over the transport; a message from a writer to a
    reader of another node, with its header or with a made-up one, and what the fixed transfer identifier does to the next one.
  \<^item> \<open>CyUdpWire\<close>, \<open>CyUdp\<close>, \<open>CyUdpSpec\<close> (\<open>cy/udp/platform.go\<close>): CRC-32C and the datagram header, the reassembly
    ports, readers and writers; a transfer survives reordering and repetition of its datagrams.

  \<^bold>\<open>Requests and the whole instance, \<open>src/cy\<close>.\<close>
  \<^item> \<open>CyRpc\<close>, \<open>CyRpcSpec\<close> (\<open>cy/rpc.go\<close>, \<open>cy/future.go\<close>): requests and responses, the correlation and
    deduplication of responses with its retained records, reliable responses and their acknowledgement; each response reaches the application once.
  \<^item> \<open>CyInstance\<close>, \<open>CyInstanceSpec\<close> (\<open>cy/cy.go\<close>): the instance from its construction to its destruction, with
    the dispatch of unicast and multicast messages. No sequence of operations makes it panic or breaks its indexes.
  \<^item> \<open>CyAckSpec\<close>: a reliable publication and its acknowledgement between two instances, and what the UDP platform makes of the latter.

  \<^bold>\<open>Fuel and bounds.\<close> Loops whose end is a theorem are functions with a measure, or partial functions
  with a theorem that they return. The spin of the scheduler may run forever when its callbacks schedule due
  tasks; it has one unit of fuel per turn, and for callbacks that schedule nothing the number of pending
  tasks plus one is shown to be enough. Stored heights of trees are the naturals (in \<open>cavl.go\<close> \<open>int8\<close>: a tree high enough to
  overflow it cannot be built from the addresses of a machine, by the bound on the height of \<open>CyTree\<close>).

  \<^bold>\<open>Not modelled.\<close>
  \<^item> Goroutines, channels and mutexes, except where a lock is taken twice (\<open>CyGossip\<close>): every handler runs to its end.
  \<^item> The removal from the index of \<open>cavl.go\<close> is modelled at value level for its clients. In the code
    the removal of a node whose successor is its direct right child leaves an \<open>up\<close> pointer to the removed
    node and stale heights; the value level does not show what later operations make of them.
  \<^item> Socket and SocketCAN input and output, diagnostics (\<open>cy/diag.go\<close>), examples and test support: they do not
    decide anything about the protocol.
  \<^item> \<open>uavcan/\<close>: declarations of data types without code.
\<close>

end
